(* ===== verification/Sap_Prelude.thy ===== *)
theory Sap_Prelude
  imports Main "HOL-Library.Word"
begin

text \<open>
  Shared vocabulary of the development: the fixed-width integer types of
  \<^verbatim>\<open>include/sap_core/types.h\<close>, the outcomes of a C++ call that may stop abnormally, and the
  generic facts on lists and machine words that several components use.
\<close>

unbundle bit_operations_syntax

section \<open>Fixed-width integers\<close>

type_synonym u8 = "8 word"
type_synonym u16 = "16 word"
type_synonym u32 = "32 word"
type_synonym u64 = "64 word"

text \<open>Signed integers share the representation of the unsigned ones; \<^term>\<open>sint\<close> reads them.\<close>

type_synonym i32 = "32 word"
type_synonym i64 = "64 word"

text \<open>\<^verbatim>\<open>size_t\<close> and object pointers on the LP64 and LLP64 targets of the library.\<close>

type_synonym size_t = "64 word"
type_synonym ptr = "64 word"

abbreviation (input) nullptr :: ptr where
  "nullptr \<equiv> 0"

section \<open>Abnormal outcomes\<close>

text \<open>
  \<^term>\<open>Assertion_Failed\<close> is a failing \<^verbatim>\<open>assert\<close> (its message is kept), \<^term>\<open>Bad_Alloc\<close> is
  \<^verbatim>\<open>throw std::bad_alloc()\<close>, \<^term>\<open>Length_Error\<close> is the \<^verbatim>\<open>std::length_error\<close> of the containers,
  \<^term>\<open>Terminated\<close> is \<^verbatim>\<open>std::terminate\<close> after an exception in a \<^verbatim>\<open>noexcept\<close> function, the remaining
  constructors are executions the language leaves undefined: they are values of the model so that
  their absence can be stated and proved.
\<close>

datatype cpp_error =
    Assertion_Failed string
  | Bad_Alloc
  | Null_Deref
  | Out_Of_Bounds
  | Division_By_Zero
  | Dead_Object
  | Exception_Thrown
  | Signed_Overflow
  | Length_Error
  | Terminated

type_synonym 'a outcome = "cpp_error + 'a"

definition out_bind :: "'a outcome \<Rightarrow> ('a \<Rightarrow> 'b outcome) \<Rightarrow> 'b outcome" where
  "out_bind m f = (case m of Inl e \<Rightarrow> Inl e | Inr x \<Rightarrow> f x)"

definition cpp_assert :: "bool \<Rightarrow> string \<Rightarrow> unit outcome" where
  "cpp_assert b msg = (if b then Inr () else Inl (Assertion_Failed msg))"

text \<open>The value of a signed 64-bit computation; overflow is undefined.\<close>

definition checked_i64 :: "int \<Rightarrow> int outcome" where
  "checked_i64 x = (if - (2 ^ 63) \<le> x \<and> x < 2 ^ 63 then Inr x else Inl Signed_Overflow)"

named_theorems out_simps "evaluation of outcomes"

lemma out_bind_simps [simp, out_simps]:
  "out_bind (Inl e) f = Inl e"
  "out_bind (Inr x) f = f x"
  by (simp_all add: out_bind_def)

lemma out_bind_cong [fundef_cong]:
  "m = m' \<Longrightarrow> (\<And>x. m' = Inr x \<Longrightarrow> f x = g x) \<Longrightarrow> out_bind m f = out_bind m' g"
  by (auto simp: out_bind_def split: sum.splits)

lemma out_bind_Inr_iff:
  "out_bind m f = Inr y \<longleftrightarrow> (\<exists>x. m = Inr x \<and> f x = Inr y)"
  by (auto simp: out_bind_def split: sum.splits)

lemma out_bind_Inl_iff:
  "out_bind m f = Inl e \<longleftrightarrow> m = Inl e \<or> (\<exists>x. m = Inr x \<and> f x = Inl e)"
  by (auto simp: out_bind_def split: sum.splits)

lemma cpp_assert_simps [simp, out_simps]:
  "cpp_assert True msg = Inr ()"
  "cpp_assert False msg = Inl (Assertion_Failed msg)"
  by (simp_all add: cpp_assert_def)

lemma cpp_assert_Inr_iff [simp]: "cpp_assert b msg = Inr u \<longleftrightarrow> b"
  by (simp add: cpp_assert_def)

text \<open>\<^verbatim>\<open>std::format\<close> of an unsigned integer in base 10 and 16, and of a signed one.\<close>

fun digits :: "nat \<Rightarrow> nat \<Rightarrow> string" where
  "digits b n = (if b < 2 \<or> n < b then [''0123456789abcdef'' ! (n mod 16)] else digits b (n div b) @ [''0123456789abcdef'' ! (n mod b mod 16)])"

declare digits.simps [simp del]

definition fmt_int :: "int \<Rightarrow> string" where
  "fmt_int n = (if n < 0 then CHR ''-'' # digits 10 (nat (- n)) else digits 10 (nat n))"

section \<open>Words\<close>

named_theorems word_nat "reading word arithmetic as natural-number arithmetic"

lemma unat_add_no_wrap [word_nat]:
  fixes a b :: "'w::len word"
  shows "unat a + unat b < 2 ^ LENGTH('w) \<Longrightarrow> unat (a + b) = unat a + unat b"
  by (simp add: unat_word_ariths)

lemma unat_mult_no_wrap [word_nat]:
  fixes a b :: "'w::len word"
  shows "unat a * unat b < 2 ^ LENGTH('w) \<Longrightarrow> unat (a * b) = unat a * unat b"
  by (simp add: unat_word_ariths)

lemma unat_sub_no_wrap [word_nat]:
  fixes a b :: "'w::len word"
  shows "b \<le> a \<Longrightarrow> unat (a - b) = unat a - unat b"
  by (rule unat_sub)

lemma unat_inc_less [word_nat]:
  fixes i n :: "'w::len word"
  assumes "i < n"
  shows "unat (i + 1) = Suc (unat i)"
proof -
  have "unat i < unat n"
    using assms by (simp only: word_less_nat_alt)
  then have "unat i + 1 < 2 ^ LENGTH('w)"
    using unsigned_less [of n, where ?'a = nat] by linarith
  then show ?thesis
    by (simp add: unat_word_ariths)
qed

lemma unat_uminus_add:
  fixes a :: "'w::len word"
  assumes "a \<noteq> 0"
  shows "unat (- a) + unat a = 2 ^ LENGTH('w)"
proof -
  let ?n = "unat (- a) + unat a"
  have "?n mod 2 ^ LENGTH('w) = unat (- a + a)"
    by (simp only: unat_word_ariths)
  then have "2 ^ LENGTH('w) dvd ?n"
    by (simp add: mod_eq_0_iff_dvd)
  then obtain c where c: "?n = 2 ^ LENGTH('w) * c"
    by (rule dvdE)
  have "0 < ?n"
    using assms by (simp add: unat_gt_0)
  moreover have "?n < 2 ^ LENGTH('w) * 2"
    using unsigned_less [of a, where ?'a = nat] unsigned_less [of "- a", where ?'a = nat] by linarith
  ultimately have "0 < c" and "c < 2"
    using c by auto
  then have "c = 1"
    by simp
  with c show ?thesis
    by simp
qed

lemma unat_Suc_no_wrap:
  "Suc (unat x) < 2 ^ LENGTH('w) \<Longrightarrow> unat (x + 1) = Suc (unat (x :: 'w::len word))"
  by (simp add: unat_add_no_wrap)

lemma unat_eq_unat_iff [simp]: "unat x = unat y \<longleftrightarrow> x = y"
  by (simp add: word_unat_eq_iff)

lemma unat_lt_64 [simp]: "unat (x :: 64 word) < 18446744073709551616"
  using unsigned_less [of x] by simp

lemma unat_lt_32 [simp]: "unat (x :: 32 word) < 4294967296"
  using unsigned_less [of x] by simp

text \<open>\<^verbatim>\<open>x & (2^k - 1)\<close> is \<^verbatim>\<open>x mod 2^k\<close>, the ring index computation.\<close>

lemma unat_and_mask:
  fixes x :: "'w::len word"
  shows "unat (x AND mask k) = unat x mod 2 ^ k"
proof -
  have "unat (x AND mask k) = take_bit k (unat x)"
    by (simp only: take_bit_eq_mask [symmetric] unsigned_take_bit_eq)
  then show ?thesis
    by (simp only: take_bit_eq_mod)
qed

lemma mask_eq_sub_1:
  fixes m :: "'w::len word"
  shows "m = 2 ^ k \<Longrightarrow> m - 1 = mask k"
  by (simp add: mask_eq_decr_exp)

lemma nat_and_pred_pow2:
  "0 < n \<Longrightarrow> n AND (n - 1) = 0 \<Longrightarrow> \<exists>k. (n::nat) = 2 ^ k"
proof (induction n rule: less_induct)
  case (less n)
  show ?case
  proof (cases "even n")
    case True
    then obtain m where m: "n = 2 * m" by (elim evenE)
    with less.prems obtain j where j: "m = Suc j" by (cases m) auto
    have "n AND (n - 1) = 2 * (m AND (m - 1))"
      using m j by (simp add: and_rec [of "Suc (Suc (2 * j))"])
    with less.prems have "m AND (m - 1) = 0" by simp
    with less.IH [of m] m j obtain k where "m = 2 ^ k" by auto
    with m show ?thesis by (intro exI [of _ "Suc k"]) simp
  next
    case False
    then obtain m where m: "n = 2 * m + 1" by (elim oddE)
    have "n AND (n - 1) = 2 * m"
      using m by (simp add: and_rec [of "Suc (2 * m)"])
    with less.prems m have "n = 2 ^ 0" by simp
    then show ?thesis ..
  qed
qed

text \<open>The power-of-two test \<^verbatim>\<open>(a & (a - 1)) == 0\<close> of \<^verbatim>\<open>align_up\<close> and \<^verbatim>\<open>spsc_queue\<close>.\<close>

lemma word_and_pred_pow2:
  fixes a :: "'w::len word"
  assumes "a \<noteq> 0" and "a AND (a - 1) = 0"
  obtains k where "unat a = 2 ^ k" and "k < LENGTH('w)" and "a - 1 = mask k"
proof -
  have "unat a AND (unat a - 1) = unat (a AND (a - 1))"
    using assms(1) by (simp add: unsigned_and_eq unat_minus_one)
  with assms have "unat a AND (unat a - 1) = 0" and "0 < unat a"
    by (simp_all add: unat_gt_0)
  then obtain k where k: "unat a = 2 ^ k"
    using nat_and_pred_pow2 by blast
  have "(2::nat) ^ k < 2 ^ LENGTH('w)"
    using unsigned_less [of a, where ?'a = nat] k by simp
  then have "k < LENGTH('w)"
    by simp
  moreover have "a = 2 ^ k"
    using k by (metis of_nat_numeral of_nat_power of_nat_unat ucast_id)
  then have "a - 1 = mask k"
    by (rule mask_eq_sub_1)
  ultimately show thesis
    using k by (intro that)
qed

lemma word_and_not_eq_diff:
  fixes x m :: "'w::len word"
  shows "x AND NOT m = x - (x AND m)"
proof -
  have "x - (x AND m) = x AND NOT (x AND m)"
    by (rule disjunctive_diff) (simp add: bit_and_iff)
  also have "\<dots> = x AND NOT m"
    by (rule bit_word_eqI) (auto simp: bit_simps)
  finally show ?thesis ..
qed

text \<open>Rounding down to a multiple of \<open>2 ^ k\<close>.\<close>

lemma unat_and_not_mask:
  fixes x :: "'w::len word"
  shows "unat (x AND NOT (mask k)) = unat x div 2 ^ k * 2 ^ k"
proof -
  have "x AND mask k \<le> x"
    by (rule word_and_le2)
  then have "unat (x AND NOT (mask k)) = unat x - unat x mod 2 ^ k"
    by (simp only: word_and_not_eq_diff unat_sub_no_wrap unat_and_mask)
  then show ?thesis
    by (simp only: minus_mod_eq_div_mult)
qed

text \<open>The test \<^verbatim>\<open>(a & (a - 1)) == 0\<close> of the sources, with zero excluded.\<close>

definition power_of_two :: "size_t \<Rightarrow> bool" where
  "power_of_two a \<longleftrightarrow> a \<noteq> 0 \<and> a AND (a - 1) = 0"

lemma power_of_two_pos: "power_of_two a \<Longrightarrow> 0 < unat a"
  by (simp add: power_of_two_def unat_gt_0)

lemma unat_and_pred:
  assumes "power_of_two a"
  shows "unat (x AND (a - 1)) = unat x mod unat a"
proof -
  from assms obtain k where "unat a = 2 ^ k" "a - 1 = mask k"
    unfolding power_of_two_def by (metis word_and_pred_pow2)
  then show ?thesis by (simp add: unat_and_mask)
qed

section \<open>Lists\<close>

lemma take_Suc_conv_nth [simp]:
  "i < length xs \<Longrightarrow> take (Suc i) xs = take i xs @ [xs ! i]"
  by (rule take_Suc_conv_app_nth)

lemma take_update_le:
  "n \<le> i \<Longrightarrow> take n (xs[i := x]) = take n xs"
  by (rule take_update_cancel)

lemma distinct_delete_nth:
  assumes "distinct xs" and "i < length xs"
  shows "set (take i xs @ drop (Suc i) xs) = set xs - {xs ! i}"
    and "distinct (take i xs @ drop (Suc i) xs)"
proof -
  have "set (as @ bs) = set (as @ y # bs) - {y} \<and> distinct (as @ bs)"
    if "distinct (as @ y # bs)" for y :: 'a and as bs
    using that by auto
  from this [of "take i xs" "xs ! i" "drop (Suc i) xs"] assms
  show "set (take i xs @ drop (Suc i) xs) = set xs - {xs ! i}"
    and "distinct (take i xs @ drop (Suc i) xs)"
    by (simp_all only: id_take_nth_drop [symmetric] True_implies_equals)
qed

end
