(* ===== verification/Arena.thy ===== *)
theory Arena
  imports Sap_Prelude
begin

text \<open>
  The bump arenas: \<^verbatim>\<open>align_up\<close> and \<^verbatim>\<open>linear_arena\<close> of \<^verbatim>\<open>include/sap_core/stl/arena.h\<close>, and
  \<^verbatim>\<open>stack_arena\<close> of \<^verbatim>\<open>include/sap_core/stl/stack_allocator.h\<close>. Addresses are 64-bit words
  and their arithmetic wraps, as the compiled code's does. The statistics fields of the
  \<^verbatim>\<open>SAP_CORE_ARENA_STATS\<close> build are part of the state.

  Both arenas promise the same contract, stated once as the locale \<open>bump_arena\<close>: from a
  well-formed state, and for a request that stays inside the address space, an allocation
  either fails and changes nothing, because the aligned block does not fit, or returns the
  first aligned block at or after the cursor. What a client may conclude for a whole run of
  requests (all blocks inside the memory, aligned, pairwise disjoint) is proved in the locale.
\<close>

section \<open>Definitions\<close>

definition align_up :: "size_t \<Rightarrow> size_t \<Rightarrow> size_t outcome" where
  "align_up x a =
     out_bind (cpp_assert (a AND (a - 1) = 0) ''Alignment must be a power of two'')
       (\<lambda>_. let m = a - 1 in Inr ((x + m) AND NOT m))"

subsection \<open>linear_arena\<close>

record linear_arena =
  begin_ptr :: ptr
  cur_ptr :: ptr
  end_ptr :: ptr
  used_peak :: size_t
  alloc_calls :: size_t

definition linear_arena_default :: linear_arena where
  "linear_arena_default =
     \<lparr>begin_ptr = nullptr, cur_ptr = nullptr, end_ptr = nullptr, used_peak = 0, alloc_calls = 0\<rparr>"

definition linear_arena_make :: "ptr \<Rightarrow> size_t \<Rightarrow> linear_arena" where
  "linear_arena_make mem bytes =
     \<lparr>begin_ptr = mem, cur_ptr = mem, end_ptr = mem + bytes, used_peak = 0, alloc_calls = 0\<rparr>"

definition linear_arena_reset_to :: "linear_arena \<Rightarrow> ptr \<Rightarrow> size_t \<Rightarrow> linear_arena" where
  "linear_arena_reset_to ar mem bytes =
     ar\<lparr>begin_ptr := mem, cur_ptr := mem, end_ptr := mem + bytes, used_peak := 0, alloc_calls := 0\<rparr>"

definition linear_arena_capacity :: "linear_arena \<Rightarrow> size_t" where
  "linear_arena_capacity ar = end_ptr ar - begin_ptr ar"

definition linear_arena_used :: "linear_arena \<Rightarrow> size_t" where
  "linear_arena_used ar = cur_ptr ar - begin_ptr ar"

text \<open>The statistics a build with \<^verbatim>\<open>SAP_CORE_ARENA_STATS\<close> keeps.\<close>

definition linear_arena_peak :: "linear_arena \<Rightarrow> size_t" where
  "linear_arena_peak ar = used_peak ar"

definition linear_arena_alloc_calls :: "linear_arena \<Rightarrow> size_t" where
  "linear_arena_alloc_calls ar = alloc_calls ar"

definition linear_arena_allocate :: "linear_arena \<Rightarrow> size_t \<Rightarrow> size_t \<Rightarrow> (ptr \<times> linear_arena) outcome" where
  "linear_arena_allocate ar bytes align =
     out_bind (align_up (cur_ptr ar) align) (\<lambda>aligned.
       if aligned + bytes > end_ptr ar then Inr (nullptr, ar)
       else
         (let ar1 = ar\<lparr>cur_ptr := aligned + bytes\<rparr>;
              u = linear_arena_used ar1;
              ar2 = (if u > used_peak ar1 then ar1\<lparr>used_peak := u\<rparr> else ar1);
              ar3 = ar2\<lparr>alloc_calls := alloc_calls ar2 + 1\<rparr>
          in Inr (aligned, ar3)))"

definition linear_arena_deallocate :: "linear_arena \<Rightarrow> ptr \<Rightarrow> size_t \<Rightarrow> size_t \<Rightarrow> linear_arena" where
  "linear_arena_deallocate ar p bytes align = ar"

definition linear_arena_reset :: "linear_arena \<Rightarrow> linear_arena" where
  "linear_arena_reset ar = ar\<lparr>cur_ptr := begin_ptr ar\<rparr>"

subsection \<open>stack_arena\<close>

text \<open>
  The buffer \<^verbatim>\<open>buf_\<close> lives inside the object: \<open>sa_buf\<close> is its address and \<open>sa_N\<close> the
  template parameter.
\<close>

record stack_arena =
  sa_buf :: ptr
  sa_N :: size_t
  sa_cur :: ptr

definition stack_arena_make :: "ptr \<Rightarrow> size_t \<Rightarrow> stack_arena" where
  "stack_arena_make buf N = \<lparr>sa_buf = buf, sa_N = N, sa_cur = buf\<rparr>"

definition stack_arena_allocate :: "stack_arena \<Rightarrow> size_t \<Rightarrow> size_t \<Rightarrow> (ptr \<times> stack_arena) outcome" where
  "stack_arena_allocate sa bytes align =
     out_bind (align_up (sa_cur sa) align) (\<lambda>aligned.
       if aligned + bytes > sa_buf sa + sa_N sa then Inr (nullptr, sa)
       else Inr (aligned, sa\<lparr>sa_cur := aligned + bytes\<rparr>))"

definition stack_arena_deallocate :: "stack_arena \<Rightarrow> ptr \<Rightarrow> size_t \<Rightarrow> size_t \<Rightarrow> stack_arena" where
  "stack_arena_deallocate sa p bytes align = sa"

definition stack_arena_reset :: "stack_arena \<Rightarrow> stack_arena" where
  "stack_arena_reset sa = sa\<lparr>sa_cur := sa_buf sa\<rparr>"

definition stack_arena_capacity :: "stack_arena \<Rightarrow> size_t" where
  "stack_arena_capacity sa = sa_N sa"

definition stack_arena_used :: "stack_arena \<Rightarrow> size_t" where
  "stack_arena_used sa = sa_cur sa - sa_buf sa"

definition stack_arena_remaining :: "stack_arena \<Rightarrow> size_t" where
  "stack_arena_remaining sa = sa_N sa - stack_arena_used sa"

subsection \<open>Runs of allocations and their specification\<close>

text \<open>
  A run serves a list of requests \<open>(bytes, align)\<close> in order and collects the blocks handed
  out, as pairs of address and size; refused requests (\<^verbatim>\<open>nullptr\<close>) contribute nothing.
\<close>

fun alloc_run ::
  "('s \<Rightarrow> size_t \<Rightarrow> size_t \<Rightarrow> (ptr \<times> 's) outcome) \<Rightarrow> 's \<Rightarrow> (size_t \<times> size_t) list
     \<Rightarrow> ((ptr \<times> size_t) list \<times> 's) outcome" where
  "alloc_run alloc s [] = Inr ([], s)"
| "alloc_run alloc s ((b, a) # reqs) =
     out_bind (alloc s b a) (\<lambda>(p, s').
       out_bind (alloc_run alloc s' reqs) (\<lambda>(blocks, s'').
         Inr (if p = nullptr then blocks else (p, b) # blocks, s'')))"

text \<open>A request whose end, even after alignment, is still an address.\<close>

definition request_ok :: "nat \<Rightarrow> size_t \<times> size_t \<Rightarrow> bool" where
  "request_ok hi r = (case r of (b, a) \<Rightarrow> power_of_two a \<and> hi + unat b + unat a \<le> 2 ^ 64)"

text \<open>The least multiple of \<open>a\<close> that is at least \<open>x\<close>.\<close>

definition align_nat :: "nat \<Rightarrow> nat \<Rightarrow> nat" where
  "align_nat x a = (x + a - 1) div a * a"

text \<open>Blocks laid out in increasing order between \<open>lo\<close> and \<open>hi\<close>, hence pairwise disjoint.\<close>

fun blocks_within :: "nat \<Rightarrow> (ptr \<times> size_t) list \<Rightarrow> nat \<Rightarrow> bool" where
  "blocks_within lo [] hi \<longleftrightarrow> lo \<le> hi"
| "blocks_within lo ((p, b) # bs) hi \<longleftrightarrow> lo \<le> unat p \<and> blocks_within (unat p + unat b) bs hi"

definition linear_arena_ok :: "linear_arena \<Rightarrow> bool" where
  "linear_arena_ok ar \<longleftrightarrow>
     begin_ptr ar \<noteq> nullptr \<and> begin_ptr ar \<le> cur_ptr ar \<and> cur_ptr ar \<le> end_ptr ar \<and>
     linear_arena_used ar \<le> used_peak ar \<and> used_peak ar \<le> linear_arena_capacity ar"

definition stack_arena_ok :: "stack_arena \<Rightarrow> bool" where
  "stack_arena_ok sa \<longleftrightarrow>
     sa_buf sa \<noteq> nullptr \<and> unat (sa_buf sa) + unat (sa_N sa) < 2 ^ 64 \<and>
     sa_buf sa \<le> sa_cur sa \<and> sa_cur sa \<le> sa_buf sa + sa_N sa"

section \<open>Alignment\<close>

lemma align_nat_bounds:
  assumes "0 < a"
  shows "x \<le> align_nat x a" and "align_nat x a < x + a" and "a dvd align_nat x a"
proof -
  have div_mod: "(x + a - 1) div a * a + (x + a - 1) mod a = x + a - 1"
    by (rule div_mult_mod_eq)
  have "(x + a - 1) mod a < a"
    using assms by simp
  with div_mod assms show "x \<le> align_nat x a" and "align_nat x a < x + a"
    unfolding align_nat_def by linarith+
  show "a dvd align_nat x a"
    by (simp add: align_nat_def)
qed

lemma align_nat_least:
  assumes "0 < a" and "a dvd y" and "x \<le> y"
  shows "align_nat x a \<le> y"
proof -
  from assms(2) obtain c where y: "y = c * a"
    by (metis dvd_div_mult_self)
  have "x + a - 1 < y + a"
    using assms by linarith
  then have "(x + a - 1) div a < Suc c"
    using assms(1) y by (simp add: div_less_iff_less_mult algebra_simps)
  then show ?thesis
    by (simp add: align_nat_def y)
qed

lemma align_up_align_nat:
  assumes "power_of_two a" and "unat x + unat a \<le> 2 ^ 64"
  shows "\<exists>r. align_up x a = Inr r \<and> unat r = align_nat (unat x) (unat a)"
proof -
  from assms(1) obtain k where k: "unat a = 2 ^ k" "a - 1 = mask k"
    unfolding power_of_two_def by (metis word_and_pred_pow2)
  have "unat (a - 1) = unat a - 1"
    using assms(1) by (simp add: power_of_two_def unat_minus_one)
  then have "unat (x + (a - 1)) = unat x + unat a - 1"
    using assms power_of_two_pos [OF assms(1)] by (subst unat_add_no_wrap) auto
  then have "unat ((x + (a - 1)) AND NOT (a - 1)) = align_nat (unat x) (unat a)"
    by (metis align_nat_def k unat_and_not_mask)
  moreover have "align_up x a = Inr ((x + (a - 1)) AND NOT (a - 1))"
    using assms(1) by (simp add: align_up_def power_of_two_def Let_def)
  ultimately show ?thesis by blast
qed

section \<open>The contract of a bump arena\<close>

locale bump_arena =
  fixes alloc :: "'s \<Rightarrow> size_t \<Rightarrow> size_t \<Rightarrow> (ptr \<times> 's) outcome"
    and lo :: "'s \<Rightarrow> nat"
    and cur :: "'s \<Rightarrow> nat"
    and hi :: "'s \<Rightarrow> nat"
    and ok :: "'s \<Rightarrow> bool"
  assumes ok_bounds: "ok s \<Longrightarrow> 0 < lo s \<and> lo s \<le> cur s \<and> cur s \<le> hi s"
    and alloc_fits: "ok s \<Longrightarrow> request_ok (hi s) (b, a)
      \<Longrightarrow> align_nat (cur s) (unat a) + unat b \<le> hi s
      \<Longrightarrow> \<exists>p s'. alloc s b a = Inr (p, s') \<and> unat p = align_nat (cur s) (unat a)
            \<and> ok s' \<and> lo s' = lo s \<and> hi s' = hi s \<and> cur s' = unat p + unat b"
    and alloc_full: "ok s \<Longrightarrow> request_ok (hi s) (b, a)
      \<Longrightarrow> hi s < align_nat (cur s) (unat a) + unat b \<Longrightarrow> alloc s b a = Inr (nullptr, s)"
begin

lemma alloc_total:
  assumes "ok s" and "request_ok (hi s) (b, a)"
  shows "\<exists>p s'. alloc s b a = Inr (p, s') \<and> ok s' \<and> lo s' = lo s \<and> hi s' = hi s \<and>
           (if p = nullptr then s' = s
            else cur s \<le> unat p \<and> unat a dvd unat p \<and> cur s' = unat p + unat b)"
proof (cases "align_nat (cur s) (unat a) + unat b \<le> hi s")
  case True
  have "0 < unat a"
    using assms(2) by (auto simp: request_ok_def intro: power_of_two_pos)
  note al = align_nat_bounds [OF this, of "cur s"]
  from alloc_fits [OF assms True] obtain p s' where
    p: "alloc s b a = Inr (p, s')" "unat p = align_nat (cur s) (unat a)" "ok s'"
       "lo s' = lo s" "hi s' = hi s" "cur s' = unat p + unat b"
    by blast
  have "0 < unat p"
    using ok_bounds [OF assms(1)] al(1) p(2) by linarith
  then have "p \<noteq> nullptr"
    by (simp add: unat_gt_0)
  with p al show ?thesis
    by auto
next
  case False
  with alloc_full [OF assms] assms(1) show ?thesis
    by auto
qed

text \<open>A whole run never fails; its blocks are aligned and laid out one after the other.\<close>

lemma run_blocks:
  assumes "ok s" and "list_all (request_ok (hi s)) reqs"
  shows "\<exists>blocks s'. alloc_run alloc s reqs = Inr (blocks, s') \<and> ok s' \<and> lo s' = lo s \<and> hi s' = hi s \<and>
           blocks_within (cur s) blocks (cur s')"
  using assms
proof (induction reqs arbitrary: s)
  case Nil
  then show ?case by simp
next
  case (Cons r reqs)
  obtain b a where r: "r = (b, a)" by (cases r)
  from Cons.prems r have "request_ok (hi s) (b, a)" by simp
  with Cons.prems(1) obtain p s' where s': "alloc s b a = Inr (p, s')" "ok s'" "lo s' = lo s" "hi s' = hi s"
    "if p = nullptr then s' = s
     else cur s \<le> unat p \<and> unat a dvd unat p \<and> cur s' = unat p + unat b"
    using alloc_total by blast
  with Cons.prems obtain blocks s'' where
    IH: "alloc_run alloc s' reqs = Inr (blocks, s'')" "ok s''" "lo s'' = lo s'" "hi s'' = hi s'"
        "blocks_within (cur s') blocks (cur s'')"
    using Cons.IH [of s'] by auto
  show ?case
    using s' IH r by (cases "p = nullptr") auto
qed

end

text \<open>The layout of \<^const>\<open>blocks_within\<close> is disjointness of the byte ranges.\<close>

definition block_range :: "ptr \<times> size_t \<Rightarrow> nat set" where
  "block_range blk = (case blk of (p, b) \<Rightarrow> {unat p ..< unat p + unat b})"

lemma blocks_within_range:
  "blocks_within lo bs hi \<Longrightarrow> blk \<in> set bs \<Longrightarrow> block_range blk \<subseteq> {lo ..< hi}"
proof (induction lo bs hi rule: blocks_within.induct)
  case (2 lo p b bs hi)
  have "lo' \<le> hi" if "blocks_within lo' bs hi" for lo'
    using that by (induction lo' bs hi rule: blocks_within.induct) auto
  with 2 show ?case
    by (force simp: block_range_def)
qed simp

lemma blocks_within_disjoint:
  "blocks_within lo bs hi \<Longrightarrow> i < j \<Longrightarrow> j < length bs \<Longrightarrow>
     block_range (bs ! i) \<inter> block_range (bs ! j) = {}"
proof (induction lo bs hi arbitrary: i j rule: blocks_within.induct)
  case (2 lo p b bs hi)
  obtain j' where j: "j = Suc j'"
    using "2.prems"(2) by (cases j) auto
  show ?case
  proof (cases i)
    case 0
    have "block_range (bs ! j') \<subseteq> {unat p + unat b ..< hi}"
      using "2.prems" j by (intro blocks_within_range) auto
    with 0 j show ?thesis
      by (auto simp: block_range_def)
  next
    case (Suc i')
    with "2.prems" j "2.IH" [of i' j'] show ?thesis by simp
  qed
qed simp

section \<open>linear_arena and stack_arena are bump arenas\<close>

text \<open>The overflow-free reading of the bounds test \<^verbatim>\<open>aligned + bytes > end\<close>.\<close>

lemma bump_test:
  fixes cur end_p b a :: size_t
  assumes "cur \<le> end_p" and "request_ok (unat end_p) (b, a)"
  shows "\<exists>r. align_up cur a = Inr r \<and> unat r = align_nat (unat cur) (unat a) \<and>
           unat (r + b) = unat r + unat b \<and>
           (r + b > end_p \<longleftrightarrow> unat end_p < align_nat (unat cur) (unat a) + unat b)"
proof -
  from assms have a: "power_of_two a" "unat end_p + unat b + unat a \<le> 2 ^ 64" "unat cur \<le> unat end_p"
    by (simp_all add: request_ok_def word_le_nat_alt)
  then obtain r where r: "align_up cur a = Inr r" "unat r = align_nat (unat cur) (unat a)"
    using align_up_align_nat [of a cur] by auto
  have "unat r < unat cur + unat a"
    using align_nat_bounds(2) [OF power_of_two_pos [OF a(1)]] r(2) by simp
  then have "unat (r + b) = unat r + unat b"
    using a by (intro unat_add_no_wrap) simp
  with r show ?thesis
    by (auto simp: word_less_nat_alt)
qed

lemma linear_arena_allocate_eq:
  "linear_arena_allocate ar b a =
     out_bind (align_up (cur_ptr ar) a) (\<lambda>p.
       if p + b > end_ptr ar then Inr (nullptr, ar)
       else Inr (p, ar\<lparr>cur_ptr := p + b, used_peak := max (used_peak ar) (p + b - begin_ptr ar),
                      alloc_calls := alloc_calls ar + 1\<rparr>))"
  by (cases ar, cases "align_up (cur_ptr ar) a")
     (auto simp: linear_arena_allocate_def linear_arena_used_def Let_def max_def)

lemma linear_arena_allocate_full:
  assumes "linear_arena_ok ar" and "request_ok (unat (end_ptr ar)) (b, a)"
    and "unat (end_ptr ar) < align_nat (unat (cur_ptr ar)) (unat a) + unat b"
  shows "linear_arena_allocate ar b a = Inr (nullptr, ar)"
proof -
  have "cur_ptr ar \<le> end_ptr ar"
    using assms(1) by (simp add: linear_arena_ok_def)
  from bump_test [OF this assms(2)] assms(3) show ?thesis
    by (auto simp: linear_arena_allocate_def)
qed

lemma linear_arena_bump_ok:
  assumes ok: "linear_arena_ok ar"
    and c: "begin_ptr ar \<le> c" "c \<le> end_ptr ar"
    and pk: "pk = max (used_peak ar) (c - begin_ptr ar)"
  shows "linear_arena_ok (ar\<lparr>cur_ptr := c, used_peak := pk, alloc_calls := n\<rparr>)"
proof -
  have "c - begin_ptr ar \<le> end_ptr ar - begin_ptr ar"
    using c by (simp add: word_le_nat_alt unat_sub_no_wrap)
  then show ?thesis
    using ok c pk by (simp add: linear_arena_ok_def linear_arena_used_def linear_arena_capacity_def)
qed

lemma linear_arena_allocate_fits:
  assumes ok: "linear_arena_ok ar" and rq: "request_ok (unat (end_ptr ar)) (b, a)"
    and fits: "align_nat (unat (cur_ptr ar)) (unat a) + unat b \<le> unat (end_ptr ar)"
  shows "\<exists>p ar'. linear_arena_allocate ar b a = Inr (p, ar') \<and>
           unat p = align_nat (unat (cur_ptr ar)) (unat a) \<and>
           unat (cur_ptr ar') = unat p + unat b \<and> linear_arena_ok ar' \<and>
           ar' = ar\<lparr>cur_ptr := p + b,
                    used_peak := max (used_peak ar) (p + b - begin_ptr ar),
                    alloc_calls := alloc_calls ar + 1\<rparr>"
proof -
  have ce: "cur_ptr ar \<le> end_ptr ar"
    using ok by (simp add: linear_arena_ok_def)
  from bump_test [OF ce rq] fits obtain r where
    r: "align_up (cur_ptr ar) a = Inr r" "unat r = align_nat (unat (cur_ptr ar)) (unat a)"
       "unat (r + b) = unat r + unat b" "\<not> r + b > end_ptr ar"
    by auto
  have "unat (cur_ptr ar) \<le> unat r"
    using align_nat_bounds(1) power_of_two_pos rq r(2) by (auto simp: request_ok_def)
  then have "begin_ptr ar \<le> r + b"
    using ok r(3) by (simp add: linear_arena_ok_def word_le_nat_alt)
  then have "linear_arena_ok (ar\<lparr>cur_ptr := r + b, used_peak := max (used_peak ar) (r + b - begin_ptr ar),
                    alloc_calls := alloc_calls ar + 1\<rparr>)"
    using ok r(4) by (intro linear_arena_bump_ok) auto
  moreover have "linear_arena_allocate ar b a =
      Inr (r, ar\<lparr>cur_ptr := r + b, used_peak := max (used_peak ar) (r + b - begin_ptr ar),
                    alloc_calls := alloc_calls ar + 1\<rparr>)"
    using r(1,4) by (simp add: linear_arena_allocate_eq)
  ultimately show ?thesis
    using r(2,3) by auto
qed

interpretation la: bump_arena linear_arena_allocate
  "\<lambda>ar. unat (begin_ptr ar)" "\<lambda>ar. unat (cur_ptr ar)" "\<lambda>ar. unat (end_ptr ar)" linear_arena_ok
proof unfold_locales
  fix ar
  assume "linear_arena_ok ar"
  then show "0 < unat (begin_ptr ar) \<and> unat (begin_ptr ar) \<le> unat (cur_ptr ar) \<and>
             unat (cur_ptr ar) \<le> unat (end_ptr ar)"
    by (simp add: linear_arena_ok_def word_le_nat_alt unat_gt_0)
next
  fix ar b a
  assume "linear_arena_ok ar" "request_ok (unat (end_ptr ar)) (b, a)"
    "align_nat (unat (cur_ptr ar)) (unat a) + unat b \<le> unat (end_ptr ar)"
  from linear_arena_allocate_fits [OF this]
  show "\<exists>p ar'. linear_arena_allocate ar b a = Inr (p, ar') \<and>
      unat p = align_nat (unat (cur_ptr ar)) (unat a) \<and> linear_arena_ok ar' \<and>
      unat (begin_ptr ar') = unat (begin_ptr ar) \<and> unat (end_ptr ar') = unat (end_ptr ar) \<and>
      unat (cur_ptr ar') = unat p + unat b"
    by auto
qed (rule linear_arena_allocate_full)

lemma stack_arena_end:
  "stack_arena_ok sa \<Longrightarrow> unat (sa_buf sa + sa_N sa) = unat (sa_buf sa) + unat (sa_N sa)"
  by (simp add: stack_arena_ok_def unat_add_no_wrap)

interpretation sa: bump_arena stack_arena_allocate
  "\<lambda>sa. unat (sa_buf sa)" "\<lambda>sa. unat (sa_cur sa)" "\<lambda>sa. unat (sa_buf sa + sa_N sa)" stack_arena_ok
proof unfold_locales
  fix sa
  assume "stack_arena_ok sa"
  then show "0 < unat (sa_buf sa) \<and> unat (sa_buf sa) \<le> unat (sa_cur sa) \<and>
             unat (sa_cur sa) \<le> unat (sa_buf sa + sa_N sa)"
    by (simp add: stack_arena_ok_def word_le_nat_alt unat_gt_0)
next
  fix sa :: stack_arena and b a
  assume ok: "stack_arena_ok sa" and rq: "request_ok (unat (sa_buf sa + sa_N sa)) (b, a)"
    and fits: "align_nat (unat (sa_cur sa)) (unat a) + unat b \<le> unat (sa_buf sa + sa_N sa)"
  have "sa_cur sa \<le> sa_buf sa + sa_N sa"
    using ok by (simp add: stack_arena_ok_def)
  from bump_test [OF this rq] fits obtain r where
    r: "align_up (sa_cur sa) a = Inr r" "unat r = align_nat (unat (sa_cur sa)) (unat a)"
       "unat (r + b) = unat r + unat b" "\<not> r + b > sa_buf sa + sa_N sa"
    by auto
  have "unat (sa_cur sa) \<le> unat r"
    using align_nat_bounds(1) power_of_two_pos rq r(2) by (auto simp: request_ok_def)
  then have "stack_arena_ok (sa\<lparr>sa_cur := r + b\<rparr>)"
    using ok r(3,4) by (simp add: stack_arena_ok_def word_le_nat_alt word_less_nat_alt)
  with r show "\<exists>p sa'. stack_arena_allocate sa b a = Inr (p, sa') \<and>
      unat p = align_nat (unat (sa_cur sa)) (unat a) \<and> stack_arena_ok sa' \<and>
      unat (sa_buf sa') = unat (sa_buf sa) \<and> unat (sa_buf sa' + sa_N sa') = unat (sa_buf sa + sa_N sa) \<and>
      unat (sa_cur sa') = unat p + unat b"
    by (auto simp: stack_arena_allocate_def)
next
  fix sa :: stack_arena and b a
  assume ok: "stack_arena_ok sa" and rq: "request_ok (unat (sa_buf sa + sa_N sa)) (b, a)"
    and full: "unat (sa_buf sa + sa_N sa) < align_nat (unat (sa_cur sa)) (unat a) + unat b"
  have "sa_cur sa \<le> sa_buf sa + sa_N sa"
    using ok by (simp add: stack_arena_ok_def)
  from bump_test [OF this rq] full show "stack_arena_allocate sa b a = Inr (nullptr, sa)"
    by (auto simp: stack_arena_allocate_def)
qed

section \<open>Properties\<close>

text \<open>
  \<^verbatim>\<open>align_up\<close> returns the least multiple of the alignment that is not below its argument.
\<close>

theorem align_up_least_multiple:
  assumes "power_of_two a" and "unat x + unat a \<le> 2 ^ 64"
  shows "\<exists>r. align_up x a = Inr r \<and> unat x \<le> unat r \<and> unat a dvd unat r \<and>
           (\<forall>y. unat a dvd y \<longrightarrow> unat x \<le> y \<longrightarrow> unat r \<le> y)"
proof -
  have "0 < unat a"
    using assms(1) by (rule power_of_two_pos)
  with align_up_align_nat [OF assms] align_nat_bounds [of "unat a" "unat x"] align_nat_least
  show ?thesis by metis
qed

theorem align_up_least_multiple_witness:
  "power_of_two 8 \<and> (\<exists>r. align_up 13 8 = Inr r \<and> unat (13::size_t) \<le> unat r \<and> unat (8::size_t) dvd unat r)"
  using align_up_least_multiple [of 8 13] by (auto simp: power_of_two_def)

text \<open>
  \<^verbatim>\<open>linear_arena::allocate\<close> on a well-formed arena, for a request that does not run off the
  address space. If the first aligned block at or after the cursor fits, that block is
  returned, the cursor moves to its end, the peak is raised to the new usage if that is
  larger, and the call is counted; otherwise the result is \<^verbatim>\<open>nullptr\<close> and nothing changes.
\<close>

theorem linear_arena_allocate_spec:
  assumes "linear_arena_ok ar" and "request_ok (unat (end_ptr ar)) (bytes, align)"
  shows "if align_nat (unat (cur_ptr ar)) (unat align) + unat bytes \<le> unat (end_ptr ar)
         then \<exists>p. linear_arena_allocate ar bytes align =
                Inr (p, ar\<lparr>cur_ptr := p + bytes,
                          used_peak := max (used_peak ar) (p + bytes - begin_ptr ar),
                          alloc_calls := alloc_calls ar + 1\<rparr>) \<and>
              unat p = align_nat (unat (cur_ptr ar)) (unat align) \<and>
              unat (p + bytes) = unat p + unat bytes
         else linear_arena_allocate ar bytes align = Inr (nullptr, ar)"
  using linear_arena_allocate_fits [OF assms] linear_arena_allocate_full [OF assms] by fastforce

theorem linear_arena_allocate_spec_witness:
  "\<exists>p. linear_arena_allocate (linear_arena_make 4096 64) 10 8 =
     Inr (p, (linear_arena_make 4096 64)\<lparr>cur_ptr := p + 10, used_peak := max 0 (p + 10 - 4096), alloc_calls := 1\<rparr>) \<and>
   unat p = 4096"
  using linear_arena_allocate_spec [of "linear_arena_make 4096 64" 10 8]
  by (auto simp: linear_arena_make_def linear_arena_ok_def linear_arena_used_def linear_arena_capacity_def
      request_ok_def power_of_two_def align_nat_def)

lemma linear_arena_run_blocks:
  assumes "linear_arena_ok ar" and "list_all (request_ok (unat (end_ptr ar))) reqs"
  shows "\<exists>blocks ar'. alloc_run linear_arena_allocate ar reqs = Inr (blocks, ar') \<and> linear_arena_ok ar' \<and>
           (\<forall>blk \<in> set blocks. block_range blk \<subseteq> {unat (cur_ptr ar) ..< unat (end_ptr ar)}) \<and>
           (\<forall>i j. i < j \<and> j < length blocks \<longrightarrow> block_range (blocks ! i) \<inter> block_range (blocks ! j) = {})"
proof -
  from la.run_blocks [OF assms] obtain blocks ar' where
    run: "alloc_run linear_arena_allocate ar reqs = Inr (blocks, ar')" "linear_arena_ok ar'"
         "unat (end_ptr ar') = unat (end_ptr ar)"
         "blocks_within (unat (cur_ptr ar)) blocks (unat (cur_ptr ar'))"
    by blast
  have "unat (cur_ptr ar') \<le> unat (end_ptr ar)"
    using la.ok_bounds [OF run(2)] run(3) by simp
  with blocks_within_range [OF run(4)] blocks_within_disjoint [OF run(4)] run(1,2)
  show ?thesis by fastforce
qed

text \<open>A request whose end is still an address, with any alignment but zero.\<close>

definition request_fits :: "nat \<Rightarrow> size_t \<times> size_t \<Rightarrow> bool" where
  "request_fits hi r = (case r of (b, a) \<Rightarrow> a \<noteq> 0 \<and> hi + unat b + unat a \<le> 2 ^ 64)"

lemma request_ok_iff: "request_ok hi r \<longleftrightarrow> request_fits hi r \<and> power_of_two (snd r)"
  by (cases r) (auto simp: request_ok_def request_fits_def power_of_two_def)

lemma linear_arena_run_asserts:
  assumes "linear_arena_ok ar" "list_all (request_fits (unat (end_ptr ar))) reqs" "\<not> list_all (\<lambda>r. power_of_two (snd r)) reqs"
  shows "alloc_run linear_arena_allocate ar reqs = Inl (Assertion_Failed ''Alignment must be a power of two'')"
  using assms
proof (induction reqs arbitrary: ar)
  case (Cons r reqs)
  obtain b a where r: "r = (b, a)" by (cases r)
  show ?case
  proof (cases "power_of_two a")
    case True
    have "request_ok (unat (end_ptr ar)) (b, a)" using Cons.prems(2) True by (simp add: request_ok_iff r)
    then obtain p ar' where "linear_arena_allocate ar b a = Inr (p, ar')" "linear_arena_ok ar'" "unat (end_ptr ar') = unat (end_ptr ar)"
      using la.alloc_total [OF Cons.prems(1)] by blast
    with Cons.IH [of ar'] Cons.prems(2,3) True show ?thesis by (simp add: r)
  next
    case False
    with Cons.prems(2) show ?thesis by (simp add: r linear_arena_allocate_def align_up_def request_fits_def power_of_two_def cpp_assert_def)
  qed
qed simp

text \<open>
  C18: a sequence of requests to a \<^verbatim>\<open>linear_arena\<close>, none with alignment zero and none whose size and alignment wrap around when they are
  added to the end of the memory, stops at the assertion of the first alignment that is not a power of two, if there is one. Otherwise it is served without
  an error, and the blocks handed out are pairwise disjoint and lie between the cursor it started from and the end of
  the memory: no byte is given out twice. A request that wraps around is the subject of the last theorem of this theory.
\<close>

theorem linear_arena_run_disjoint:
  assumes "linear_arena_ok ar" and "list_all (request_fits (unat (end_ptr ar))) reqs"
  shows "if list_all (\<lambda>r. power_of_two (snd r)) reqs
         then \<exists>blocks ar'. alloc_run linear_arena_allocate ar reqs = Inr (blocks, ar') \<and> linear_arena_ok ar' \<and>
                (\<forall>blk \<in> set blocks. block_range blk \<subseteq> {unat (cur_ptr ar) ..< unat (end_ptr ar)}) \<and>
                (\<forall>i j. i < j \<and> j < length blocks \<longrightarrow> block_range (blocks ! i) \<inter> block_range (blocks ! j) = {})
         else alloc_run linear_arena_allocate ar reqs = Inl (Assertion_Failed ''Alignment must be a power of two'')"
  using linear_arena_run_asserts [OF assms] linear_arena_run_blocks [OF assms(1), of reqs] assms(2)
  by (simp add: list_all_iff request_ok_iff)

theorem linear_arena_run_disjoint_witness:
  "(\<exists>blocks ar'. alloc_run linear_arena_allocate (linear_arena_make 4096 64) [(10, 8), (100, 4), (6, 16)] = Inr (blocks, ar') \<and>
     linear_arena_ok ar' \<and> (\<forall>blk \<in> set blocks. block_range blk \<subseteq> {4096 ..< 4160})) \<and>
   alloc_run linear_arena_allocate (linear_arena_make 4096 64) [(10, 8), (6, 3)] = Inl (Assertion_Failed ''Alignment must be a power of two'')"
proof -
  let ?ar = "linear_arena_make 4096 64"
  have ok: "linear_arena_ok ?ar" and e: "unat (end_ptr ?ar) = 4160" "unat (cur_ptr ?ar) = 4096"
    by (simp_all add: linear_arena_make_def linear_arena_ok_def linear_arena_used_def linear_arena_capacity_def)
  show ?thesis
    using linear_arena_run_disjoint [OF ok, of "[(10, 8), (100, 4), (6, 16)]"] linear_arena_run_disjoint [OF ok, of "[(10, 8), (6, 3)]"]
    unfolding e by (fastforce simp: request_fits_def power_of_two_def)
qed

text \<open>
  the same for \<^verbatim>\<open>stack_arena\<close>: the blocks of any sequence of requests are pairwise disjoint
  and lie inside the \<open>N\<close>-byte inline buffer.
\<close>

theorem stack_arena_run_disjoint:
  assumes "stack_arena_ok sa" and "list_all (request_ok (unat (sa_buf sa + sa_N sa))) reqs"
  shows "\<exists>blocks sa'. alloc_run stack_arena_allocate sa reqs = Inr (blocks, sa') \<and> stack_arena_ok sa' \<and>
           (\<forall>blk \<in> set blocks. block_range blk \<subseteq> {unat (sa_cur sa) ..< unat (sa_buf sa) + unat (sa_N sa)}) \<and>
           (\<forall>i j. i < j \<and> j < length blocks \<longrightarrow> block_range (blocks ! i) \<inter> block_range (blocks ! j) = {})"
proof -
  from sa.run_blocks [OF assms] obtain blocks sa' where
    run: "alloc_run stack_arena_allocate sa reqs = Inr (blocks, sa')" "stack_arena_ok sa'"
         "unat (sa_buf sa' + sa_N sa') = unat (sa_buf sa + sa_N sa)"
         "blocks_within (unat (sa_cur sa)) blocks (unat (sa_cur sa'))"
    by blast
  have "unat (sa_cur sa') \<le> unat (sa_buf sa) + unat (sa_N sa)"
    using sa.ok_bounds [OF run(2)] run(3) stack_arena_end [OF assms(1)] by simp
  with blocks_within_range [OF run(4)] blocks_within_disjoint [OF run(4)] run(1,2)
  show ?thesis by fastforce
qed

theorem stack_arena_run_disjoint_witness:
  "\<exists>blocks sa'. alloc_run stack_arena_allocate (stack_arena_make 4096 32) [(10, 1), (100, 4), (8, 8)] = Inr (blocks, sa') \<and>
     stack_arena_ok sa' \<and> (\<forall>blk \<in> set blocks. block_range blk \<subseteq> {4096 ..< 4128})"
  using stack_arena_run_disjoint [of "stack_arena_make 4096 32" "[(10, 1), (100, 4), (8, 8)]"]
  by (fastforce simp: stack_arena_make_def stack_arena_ok_def request_ok_def power_of_two_def)

lemma blocks_within_le: "blocks_within lo bs hi \<Longrightarrow> lo \<le> hi"
  by (induction lo bs hi rule: blocks_within.induct) auto

lemma linear_arena_used_mono:
  assumes "linear_arena_ok ar" "linear_arena_ok ar'" "begin_ptr ar' = begin_ptr ar" "cur_ptr ar \<le> cur_ptr ar'"
  shows "linear_arena_used ar \<le> linear_arena_used ar'"
  using assms by (simp add: linear_arena_ok_def linear_arena_used_def word_le_nat_alt unat_sub_no_wrap)

text \<open>
  The statistics are exact: \<^verbatim>\<open>alloc_calls()\<close> counts the requests that got a block, and \<^verbatim>\<open>peak()\<close> is the larger of the old peak and the
  memory in use at the end, which is the most there was during the run.
\<close>

theorem linear_arena_statistics:
  assumes "linear_arena_ok ar" and "list_all (request_ok (unat (end_ptr ar))) reqs"
    and "alloc_run linear_arena_allocate ar reqs = Inr (blocks, ar')"
  shows "linear_arena_alloc_calls ar' = linear_arena_alloc_calls ar + of_nat (length blocks) \<and>
         linear_arena_peak ar' = max (linear_arena_peak ar) (linear_arena_used ar')"
  using assms
proof (induction reqs arbitrary: ar blocks)
  case Nil
  then show ?case by (auto simp: linear_arena_ok_def linear_arena_peak_def linear_arena_alloc_calls_def max_def)
next
  case (Cons r reqs)
  obtain b a where r: "r = (b, a)" by (cases r)
  have rq: "request_ok (unat (end_ptr ar)) (b, a)" using Cons.prems(2) r by simp
  show ?case
  proof (cases "align_nat (unat (cur_ptr ar)) (unat a) + unat b \<le> unat (end_ptr ar)")
    case False
    then have "linear_arena_allocate ar b a = Inr (nullptr, ar)"
      using linear_arena_allocate_full [OF Cons.prems(1) rq] by simp
    then show ?thesis using Cons.IH [OF Cons.prems(1), of blocks] Cons.prems(2,3) r by (auto simp: out_bind_Inr_iff)
  next
    case True
    from linear_arena_allocate_fits [OF Cons.prems(1) rq True] obtain p ar1 where
      1: "linear_arena_allocate ar b a = Inr (p, ar1)" "linear_arena_ok ar1"
         "ar1 = ar\<lparr>cur_ptr := p + b, used_peak := max (used_peak ar) (p + b - begin_ptr ar), alloc_calls := alloc_calls ar + 1\<rparr>"
         "unat p = align_nat (unat (cur_ptr ar)) (unat a)"
      by blast
    have "0 < unat p"
      using la.ok_bounds [OF Cons.prems(1)] align_nat_bounds(1) [of "unat a" "unat (cur_ptr ar)"] power_of_two_pos [of a] rq 1(4)
      by (simp add: request_ok_def)
    then have p: "p \<noteq> nullptr" by (simp add: unat_gt_0)
    obtain bs where bs: "alloc_run linear_arena_allocate ar1 reqs = Inr (bs, ar')" "blocks = (p, b) # bs"
      using Cons.prems(3) r 1(1) p by (auto simp: out_bind_Inr_iff)
    have rs: "list_all (request_ok (unat (end_ptr ar1))) reqs" using Cons.prems(2) 1(3) by simp
    from la.run_blocks [OF 1(2) rs] bs(1)
    have e: "linear_arena_ok ar'" "unat (begin_ptr ar') = unat (begin_ptr ar1)" "unat (cur_ptr ar1) \<le> unat (cur_ptr ar')"
      using blocks_within_le by auto
    have "linear_arena_used ar1 \<le> linear_arena_used ar'"
    proof (rule linear_arena_used_mono [OF 1(2) e(1)])
      show "begin_ptr ar' = begin_ptr ar1" using e(2) by (rule unsigned_word_eqI)
      show "cur_ptr ar1 \<le> cur_ptr ar'" unfolding word_le_nat_alt by (rule e(3))
    qed
    moreover have "linear_arena_used ar1 = p + b - begin_ptr ar" using 1(3) by (simp add: linear_arena_used_def)
    ultimately show ?thesis
      using Cons.IH [OF 1(2) rs bs(1)] bs(2) 1(3)
      by (auto simp: linear_arena_peak_def linear_arena_alloc_calls_def max_def)
  qed
qed

theorem linear_arena_statistics_witness:
  "\<exists>bs ar. alloc_run linear_arena_allocate (linear_arena_make 4096 32) [(10, 1), (100, 4), (8, 8)] = Inr (bs, ar) \<and>
     linear_arena_alloc_calls ar = 2 \<and> linear_arena_peak ar = 24"
proof -
  have "\<exists>bs ar. alloc_run linear_arena_allocate (linear_arena_make 4096 32) [(10, 1), (100, 4), (8, 8)] = Inr (bs, ar) \<and>
      length bs = 2 \<and> linear_arena_used ar = 24"
    by (simp add: linear_arena_allocate_eq linear_arena_make_def align_up_def linear_arena_used_def)
  then obtain bs ar where 1: "alloc_run linear_arena_allocate (linear_arena_make 4096 32) [(10, 1), (100, 4), (8, 8)] = Inr (bs, ar)"
    "length bs = 2" "linear_arena_used ar = 24" by blast
  have "linear_arena_ok (linear_arena_make 4096 32)" "list_all (request_ok (unat (end_ptr (linear_arena_make 4096 32)))) [(10, 1), (100, 4), (8, 8)]"
    by (simp_all add: linear_arena_make_def linear_arena_ok_def linear_arena_used_def linear_arena_capacity_def request_ok_def power_of_two_def)
  from linear_arena_statistics [OF this 1(1)] 1 show ?thesis
    by (simp add: linear_arena_make_def linear_arena_peak_def linear_arena_alloc_calls_def)
qed

lemma alloc_run_same_cursor:
  assumes "begin_ptr ar1 = begin_ptr ar2" "cur_ptr ar1 = cur_ptr ar2" "end_ptr ar1 = end_ptr ar2"
  shows "map_sum id fst (alloc_run linear_arena_allocate ar1 reqs)
       = map_sum id fst (alloc_run linear_arena_allocate ar2 reqs)"
  using assms
proof (induction reqs arbitrary: ar1 ar2)
  case (Cons r reqs)
  obtain b a where r: "r = (b, a)" by (cases r)
  show ?case
  proof (cases "align_up (cur_ptr ar2) a")
    case (Inl e)
    with Cons.prems r show ?thesis by (simp add: linear_arena_allocate_eq)
  next
    case (Inr p)
    define ar1' ar2' where "ar1' = snd (projr (linear_arena_allocate ar1 b a))"
      and "ar2' = snd (projr (linear_arena_allocate ar2 b a))"
    note defs = ar1'_def ar2'_def linear_arena_allocate_eq
    have "map_sum id fst (alloc_run linear_arena_allocate ar1' reqs)
        = map_sum id fst (alloc_run linear_arena_allocate ar2' reqs)"
      using Inr Cons.prems by (intro Cons.IH) (auto simp: defs)
    moreover have "\<exists>q. linear_arena_allocate ar1 b a = Inr (q, ar1') \<and> linear_arena_allocate ar2 b a = Inr (q, ar2')"
      using Inr Cons.prems by (auto simp: defs)
    ultimately show ?thesis
      using r
      by (cases "alloc_run linear_arena_allocate ar1' reqs"; cases "alloc_run linear_arena_allocate ar2' reqs") auto
  qed
qed simp

text \<open>
  \<^verbatim>\<open>linear_arena::reset\<close> reclaims everything: whatever was allocated before, every sequence
  of requests after a reset gets exactly the blocks a newly constructed arena over the same
  memory would hand out.
\<close>

theorem linear_arena_reset_replays:
  "map_sum id fst (alloc_run linear_arena_allocate (linear_arena_reset ar) reqs)
   = map_sum id fst (alloc_run linear_arena_allocate
       (linear_arena_make (begin_ptr ar) (linear_arena_capacity ar)) reqs)"
  by (rule alloc_run_same_cursor) (simp_all add: linear_arena_reset_def linear_arena_make_def linear_arena_capacity_def)

text \<open>
  The assertion of \<^verbatim>\<open>align_up\<close> lets alignment zero pass. The mask is then all ones, so a request that is not above the end address, taken as a number, returns
  the null pointer and yet moves the cursor, to the address that equals the size.
\<close>

theorem linear_arena_zero_alignment_moves_cursor:
  assumes "b \<le> end_ptr ar"
  shows "\<exists>ar'. linear_arena_allocate ar b 0 = Inr (nullptr, ar') \<and> cur_ptr ar' = b"
proof -
  have "linear_arena_allocate ar b 0 =
      Inr (nullptr, ar\<lparr>cur_ptr := b, used_peak := max (used_peak ar) (b - begin_ptr ar), alloc_calls := alloc_calls ar + 1\<rparr>)"
    using assms by (simp add: linear_arena_allocate_eq align_up_def not_less)
  then show ?thesis by simp
qed

theorem linear_arena_zero_alignment_moves_cursor_witness:
  "\<exists>ar'. linear_arena_allocate (linear_arena_make 4096 64) 16 0 = Inr (nullptr, ar') \<and> cur_ptr ar' = 16"
  by (rule linear_arena_zero_alignment_moves_cursor) (simp add: linear_arena_make_def)

text \<open>
  C40: the bounds test \<^verbatim>\<open>aligned + bytes > end_\<close> is not protected against wrap-around. On every
  well-formed arena that has handed out memory, the request for \<open>2 ^ 64 - used\<close> bytes, which
  can never fit, is reported as a success and rewinds the cursor to the beginning, so that the
  memory of all live blocks is handed out again.
\<close>

theorem linear_arena_oversized_request_rewinds:
  assumes "linear_arena_ok ar" and "linear_arena_used ar \<noteq> 0"
  shows "\<exists>ar'. linear_arena_allocate ar (- linear_arena_used ar) 1 = Inr (cur_ptr ar, ar') \<and>
           cur_ptr ar \<noteq> nullptr \<and> cur_ptr ar' = begin_ptr ar \<and>
           unat (linear_arena_capacity ar) < unat (- linear_arena_used ar) + unat (linear_arena_used ar)"
proof -
  have ok: "begin_ptr ar \<noteq> 0" "begin_ptr ar \<le> cur_ptr ar" "begin_ptr ar \<le> end_ptr ar"
    using assms(1) by (auto simp: linear_arena_ok_def)
  then have "cur_ptr ar \<noteq> nullptr"
    by (auto simp: word_le_nat_alt unat_eq_0)
  moreover have "unat (- linear_arena_used ar) + unat (linear_arena_used ar) = 2 ^ 64"
    using unat_uminus_add [OF assms(2)] by simp
  then have "unat (linear_arena_capacity ar) < unat (- linear_arena_used ar) + unat (linear_arena_used ar)"
    by simp
  ultimately show ?thesis
    using ok by (auto simp: linear_arena_allocate_def align_up_def linear_arena_used_def Let_def not_less)
qed

theorem linear_arena_oversized_request_rewinds_witness:
  "\<exists>ar'. linear_arena_allocate ((linear_arena_make 4096 64)\<lparr>cur_ptr := 4112, used_peak := 16\<rparr>) (- 16) 1 = Inr (4112, ar') \<and>
     cur_ptr ar' = 4096"
  using linear_arena_oversized_request_rewinds [of "(linear_arena_make 4096 64)\<lparr>cur_ptr := 4112, used_peak := 16\<rparr>"]
  by (simp add: linear_arena_make_def linear_arena_ok_def linear_arena_used_def linear_arena_capacity_def)

end
