(* ===== verification/Pool.thy ===== *)
theory Pool
  imports Arena
begin

text \<open>
  \<^verbatim>\<open>fixed_block_pool\<close> of \<^verbatim>\<open>include/sap_core/stl/arena.h\<close>: a free list threaded through the
  blocks themselves. The memory the list lives in is explicit: \<^typ>\<open>ptr \<Rightarrow> ptr\<close> maps a node's
  address to its \<^verbatim>\<open>next\<close> field. The arena the pool draws chunks from is shared with other users,
  so it is passed in and returned. The list is related to the sequence of its nodes by the path
  predicate \<open>node_list\<close>, and the invariant \<open>pool_inv\<close> relates free blocks, live blocks and
  the arena.
\<close>

section \<open>Definitions\<close>

type_synonym node_mem = "ptr \<Rightarrow> ptr"

record fixed_block_pool =
  pool_arena :: ptr
  blk_size :: size_t
  per_chunk :: size_t
  free_head :: ptr
  chunks_allocated :: size_t

definition sizeof_node :: size_t where
  "sizeof_node = 8"

definition alignof_max_align_t :: size_t where
  "alignof_max_align_t = 16"

definition fixed_block_pool_default :: fixed_block_pool where
  "fixed_block_pool_default =
     \<lparr>pool_arena = nullptr, blk_size = 0, per_chunk = 0, free_head = nullptr, chunks_allocated = 0\<rparr>"

definition fixed_block_pool_make :: "ptr \<Rightarrow> size_t \<Rightarrow> size_t \<Rightarrow> fixed_block_pool" where
  "fixed_block_pool_make arena block_size blocks_per_chunk =
     \<lparr>pool_arena = arena,
      blk_size = (if block_size < sizeof_node then sizeof_node else block_size),
      per_chunk = blocks_per_chunk, free_head = nullptr, chunks_allocated = 0\<rparr>"

text \<open>The loop of \<^verbatim>\<open>add_chunk\<close> that pushes every block of the new chunk on the free list.\<close>

function chunk_loop :: "ptr \<Rightarrow> size_t \<Rightarrow> size_t \<Rightarrow> size_t \<Rightarrow> node_mem \<Rightarrow> ptr \<Rightarrow> node_mem \<times> ptr" where
  "chunk_loop raw blk per i m fr =
     (if i < per
      then (let n = raw + i * blk in chunk_loop raw blk per (i + 1) (m(n := fr)) n)
      else (m, fr))"
  by pat_completeness auto
termination
proof (relation "measure (\<lambda>(raw, blk, per, i, m, fr). unat per - unat i)", goal_cases)
  case (2 raw blk per i m fr n)
  then have "unat i < unat per" by (simp add: word_less_nat_alt)
  moreover have "unat (i + 1) = Suc (unat i)"
    using 2 by (intro unat_inc_less)
  ultimately show ?case by simp
qed simp

definition add_chunk ::
  "fixed_block_pool \<Rightarrow> linear_arena \<Rightarrow> node_mem \<Rightarrow> (fixed_block_pool \<times> linear_arena \<times> node_mem) outcome" where
  "add_chunk p ar m =
     out_bind (cpp_assert (pool_arena p \<noteq> nullptr) ''fixed_block_pool requires a valid arena'') (\<lambda>_.
     out_bind (linear_arena_allocate ar (blk_size p * per_chunk p) alignof_max_align_t) (\<lambda>(mem, ar').
       if mem = nullptr then Inl Bad_Alloc
       else
         (let (m', fr) = chunk_loop mem (blk_size p) (per_chunk p) 0 m (free_head p)
          in Inr (p\<lparr>free_head := fr, chunks_allocated := chunks_allocated p + 1\<rparr>, ar', m'))))"

text \<open>
  \<^verbatim>\<open>allocate\<close> refills an empty free list, then pops it. With \<^verbatim>\<open>per_chunk_\<close> zero the list is
  still empty after the refill and \<^verbatim>\<open>free_->next\<close> dereferences a null pointer.
\<close>

definition fixed_block_pool_allocate ::
  "fixed_block_pool \<Rightarrow> linear_arena \<Rightarrow> node_mem \<Rightarrow> (ptr \<times> fixed_block_pool \<times> linear_arena \<times> node_mem) outcome" where
  "fixed_block_pool_allocate p ar m =
     out_bind (if free_head p = nullptr then add_chunk p ar m else Inr (p, ar, m)) (\<lambda>(p1, ar1, m1).
       let n = free_head p1 in
       if n = nullptr then Inl Null_Deref
       else Inr (n, p1\<lparr>free_head := m1 n\<rparr>, ar1, m1))"

definition fixed_block_pool_deallocate ::
  "fixed_block_pool \<Rightarrow> node_mem \<Rightarrow> ptr \<Rightarrow> fixed_block_pool \<times> node_mem" where
  "fixed_block_pool_deallocate p m q =
     (if q = nullptr then (p, m)
      else (p\<lparr>free_head := q\<rparr>, m(q := free_head p)))"

definition fixed_block_pool_block_size :: "fixed_block_pool \<Rightarrow> size_t" where
  "fixed_block_pool_block_size p = blk_size p"

subsection \<open>Specification\<close>

fun node_list :: "node_mem \<Rightarrow> ptr \<Rightarrow> ptr list \<Rightarrow> bool" where
  "node_list m x [] \<longleftrightarrow> x = nullptr"
| "node_list m x (a # as) \<longleftrightarrow> x = a \<and> a \<noteq> nullptr \<and> node_list m (m a) as"

definition apart :: "nat \<Rightarrow> ptr \<Rightarrow> ptr \<Rightarrow> bool" where
  "apart d x y \<longleftrightarrow> unat x + d \<le> unat y \<or> unat y + d \<le> unat x"

text \<open>
  \<open>blocks_ok d A l c xs\<close>: the blocks \<open>xs\<close> of \<open>d\<close> bytes each are non-null, multiples of
  \<open>A\<close>, lie between the addresses \<open>l\<close> and \<open>c\<close>, and do not overlap.
\<close>

definition blocks_ok :: "nat \<Rightarrow> nat \<Rightarrow> nat \<Rightarrow> nat \<Rightarrow> ptr list \<Rightarrow> bool" where
  "blocks_ok d A l c xs \<longleftrightarrow>
     distinct xs \<and> (\<forall>x \<in> set xs. x \<noteq> nullptr \<and> A dvd unat x \<and> l \<le> unat x \<and> unat x + d \<le> c) \<and>
     (\<forall>x \<in> set xs. \<forall>y \<in> set xs. x \<noteq> y \<longrightarrow> apart d x y)"

definition pool_cfg :: "nat \<Rightarrow> fixed_block_pool \<Rightarrow> linear_arena \<Rightarrow> bool" where
  "pool_cfg A p ar \<longleftrightarrow>
     pool_arena p \<noteq> nullptr \<and> sizeof_node \<le> blk_size p \<and> 0 < per_chunk p \<and>
     unat (blk_size p) * unat (per_chunk p) < 2 ^ 64 \<and>
     A dvd unat alignof_max_align_t \<and> A dvd unat (blk_size p) \<and>
     request_ok (unat (end_ptr ar)) (blk_size p * per_chunk p, alignof_max_align_t)"

definition pool_inv ::
  "nat \<Rightarrow> fixed_block_pool \<Rightarrow> linear_arena \<Rightarrow> node_mem \<Rightarrow> ptr list \<Rightarrow> ptr list \<Rightarrow> bool" where
  "pool_inv A p ar m fs live \<longleftrightarrow>
     pool_cfg A p ar \<and> linear_arena_ok ar \<and> node_list m (free_head p) fs \<and>
     blocks_ok (unat (blk_size p)) A (unat (begin_ptr ar)) (unat (cur_ptr ar)) (fs @ live)"

text \<open>
  What a client does: allocate a block, give back a live block, store a pointer-sized value
  inside a live block. Blocks are named by their position in the list of live blocks; an
  operation on a position that is not live is skipped.
\<close>

datatype pool_op = PAlloc | PFree nat | PWrite nat size_t ptr

type_synonym pool_state = "fixed_block_pool \<times> linear_arena \<times> node_mem \<times> ptr list"

fun pool_step :: "pool_state \<Rightarrow> pool_op \<Rightarrow> pool_state outcome" where
  "pool_step (p, ar, m, live) PAlloc =
     out_bind (fixed_block_pool_allocate p ar m) (\<lambda>(n, p', ar', m'). Inr (p', ar', m', n # live))"
| "pool_step (p, ar, m, live) (PFree i) =
     (if i < length live
      then (let (p', m') = fixed_block_pool_deallocate p m (live ! i)
            in Inr (p', ar, m', take i live @ drop (Suc i) live))
      else Inr (p, ar, m, live))"
| "pool_step (p, ar, m, live) (PWrite i off v) =
     (if i < length live \<and> unat off + 8 \<le> unat (blk_size p)
      then Inr (p, ar, m((live ! i) + off := v), live)
      else Inr (p, ar, m, live))"

fun pool_run :: "pool_state \<Rightarrow> pool_op list \<Rightarrow> pool_state outcome" where
  "pool_run s [] = Inr s"
| "pool_run s (x # xs) = out_bind (pool_step s x) (\<lambda>s'. pool_run s' xs)"

declare chunk_loop.simps [simp del]

section \<open>The free list\<close>

lemma node_list_upd [simp]: "a \<notin> set as \<Longrightarrow> node_list (m(a := v)) x as = node_list m x as"
  by (induction as arbitrary: x) auto

lemma node_list_null [simp]: "node_list m 0 as \<longleftrightarrow> as = []"
  by (cases as) auto

lemma node_list_nonnull: "node_list m x as \<Longrightarrow> x \<noteq> 0 \<Longrightarrow> \<exists>as'. as = x # as' \<and> node_list m (m x) as'"
  by (cases as) auto

text \<open>The address of block \<open>i\<close> of a chunk and the list of the blocks of a chunk.\<close>

definition chunk_block :: "ptr \<Rightarrow> size_t \<Rightarrow> nat \<Rightarrow> ptr" where
  "chunk_block raw blk i = raw + of_nat i * blk"

definition chunk_blocks :: "ptr \<Rightarrow> size_t \<Rightarrow> nat \<Rightarrow> nat \<Rightarrow> ptr list" where
  "chunk_blocks raw blk i j = map (chunk_block raw blk) [i ..< j]"

lemma chunk_loop_list:
  assumes "node_list m fr fs" and "distinct (chunk_blocks raw blk (unat i) (unat per) @ fs)"
    and "0 \<notin> set (chunk_blocks raw blk (unat i) (unat per))"
    and "chunk_loop raw blk per i m fr = (m', fr')"
  shows "node_list m' fr' (rev (chunk_blocks raw blk (unat i) (unat per)) @ fs)"
  using assms
proof (induction raw blk per i m fr arbitrary: fs rule: chunk_loop.induct)
  case (1 raw blk per i m fr)
  show ?case
  proof (cases "i < per")
    case True
    let ?n = "raw + i * blk"
    have inc: "unat (i + 1) = Suc (unat i)" and lt: "unat i < unat per"
      using True by (simp_all add: unat_inc_less word_less_nat_alt)
    have split: "chunk_blocks raw blk (unat i) (unat per) = ?n # chunk_blocks raw blk (unat (i + 1)) (unat per)"
      using lt by (simp add: chunk_blocks_def chunk_block_def upt_conv_Cons inc)
    have "node_list (m(?n := fr)) ?n (?n # fs)"
      using "1.prems"(1-3) split by auto
    from "1.IH" [OF True refl this] "1.prems"(2-4) split True show ?thesis
      by (simp add: chunk_loop.simps [of raw blk per i] Let_def fun_upd_def)
  next
    case False
    then have "chunk_blocks raw blk (unat i) (unat per) = []"
      by (simp add: chunk_blocks_def word_less_nat_alt)
    with "1.prems" False show ?thesis
      by (simp add: chunk_loop.simps [of raw blk per i])
  qed
qed

text \<open>Blocks of a chunk of \<open>n\<close> blocks that lies inside the address space.\<close>

lemma unat_chunk_block:
  assumes "unat raw + n * unat blk \<le> e" and "e < 2 ^ 64" and "i < n"
  shows "unat (chunk_block raw blk i) = unat raw + i * unat blk"
    and "unat raw + i * unat blk + unat blk \<le> e"
proof -
  have "Suc i * unat blk \<le> n * unat blk"
    using assms(3) by (intro mult_right_mono) auto
  then show le: "unat raw + i * unat blk + unat blk \<le> e"
    using assms(1) by simp
  show "unat (chunk_block raw blk i) = unat raw + i * unat blk"
  proof (cases "unat blk = 0")
    case True
    then show ?thesis by (simp add: chunk_block_def unat_eq_0)
  next
    case False
    have "i * 1 \<le> i * unat blk"
      using False by (intro mult_left_mono) auto
    then have "i < 2 ^ 64"
      using le assms(2) by linarith
    then have "unat (of_nat i :: size_t) = i"
      by (simp add: unat_of_nat)
    then show ?thesis
      using le assms(2) by (simp add: chunk_block_def unat_word_ariths)
  qed
qed

lemma chunk_blocks_ok:
  assumes fit: "unat raw + n * unat blk \<le> e" "e < 2 ^ 64" and pos: "0 < unat blk" "raw \<noteq> 0"
    and A: "A dvd unat raw" "A dvd unat blk" and l: "l \<le> unat raw"
  shows "blocks_ok (unat blk) A l e (chunk_blocks raw blk 0 n)"
proof -
  note ub = unat_chunk_block [OF fit]
  have inj: "inj_on (chunk_block raw blk) {0..<n}"
  proof (rule inj_onI)
    fix i j
    assume ij: "i \<in> {0..<n}" "j \<in> {0..<n}" "chunk_block raw blk i = chunk_block raw blk j"
    then have "unat raw + i * unat blk = unat raw + j * unat blk"
      by (metis atLeastLessThan_iff ub(1))
    with pos show "i = j" by simp
  qed
  have ap: "apart (unat blk) (chunk_block raw blk i) (chunk_block raw blk j)"
    if "i < n" "j < n" "i < j" for i j
  proof -
    have "Suc i * unat blk \<le> j * unat blk"
      using that(3) by (intro mult_right_mono) auto
    then show ?thesis
      using ub(1) [OF that(1)] ub(1) [OF that(2)] by (simp add: apart_def)
  qed
  have "apart (unat blk) (chunk_block raw blk i) (chunk_block raw blk j)"
    if "i < n" "j < n" "chunk_block raw blk i \<noteq> chunk_block raw blk j" for i j
    using that ap [of i j] ap [of j i] by (cases i j rule: linorder_cases) (auto simp: apart_def)
  moreover have "chunk_block raw blk i \<noteq> 0" if "i < n" for i
    using ub(1) [OF that] pos(2) by (metis add_is_0 unsigned_0 unsigned_eq_0_iff)
  ultimately show ?thesis
    using inj ub A l unfolding blocks_ok_def chunk_blocks_def
    by (auto simp: distinct_map unat_eq_0)
qed

section \<open>The invariant is kept\<close>

lemma blocks_ok_perm:
  "blocks_ok d A l c xs \<Longrightarrow> (distinct xs \<Longrightarrow> distinct ys) \<Longrightarrow> set ys = set xs \<Longrightarrow> blocks_ok d A l c ys"
  by (simp add: blocks_ok_def)

lemma blocks_ok_append:
  assumes "blocks_ok d A l c xs" and "blocks_ok d A l e ys" and "c \<le> e" and "0 < d"
    and "\<And>y. y \<in> set ys \<Longrightarrow> c \<le> unat y"
  shows "blocks_ok d A l e (ys @ xs)"
proof -
  have ap: "apart d x y \<and> apart d y x \<and> x \<noteq> y" if "x \<in> set xs" "y \<in> set ys" for x y
  proof -
    have "unat x + d \<le> unat y"
      using assms that by (fastforce simp: blocks_ok_def)
    then show ?thesis
      using \<open>0 < d\<close> by (auto simp: apart_def)
  qed
  show ?thesis
    unfolding blocks_ok_def
  proof (intro conjI)
    show "distinct (ys @ xs)"
      using assms(1,2) ap by (auto simp: blocks_ok_def)
    show "\<forall>x \<in> set (ys @ xs). x \<noteq> nullptr \<and> A dvd unat x \<and> l \<le> unat x \<and> unat x + d \<le> e"
      using assms(1-3) by (fastforce simp: blocks_ok_def)
    show "\<forall>x \<in> set (ys @ xs). \<forall>y \<in> set (ys @ xs). x \<noteq> y \<longrightarrow> apart d x y"
      using assms(1,2) ap by (auto simp: blocks_ok_def)
  qed
qed

lemma blocks_ok_weaken:
  assumes "blocks_ok d A l c (xs @ ys)" and "c \<le> e"
  shows "blocks_ok d A l e ys"
proof -
  have "unat x + d \<le> e" if "x \<in> set ys" for x
    using assms that by (intro order_trans [OF _ assms(2)]) (simp add: blocks_ok_def)
  with assms(1) show ?thesis
    by (simp add: blocks_ok_def)
qed

lemma unat_pos_size: "sizeof_node \<le> b \<Longrightarrow> 0 < unat b"
  by (auto simp: sizeof_node_def word_le_nat_alt)

lemma add_chunk_bad_alloc:
  assumes "pool_inv A p ar m [] live"
    and "unat (end_ptr ar) < align_nat (unat (cur_ptr ar)) 16 + unat (blk_size p) * unat (per_chunk p)"
  shows "add_chunk p ar m = Inl Bad_Alloc"
proof -
  have "unat (blk_size p * per_chunk p) = unat (blk_size p) * unat (per_chunk p)"
    using assms(1) by (simp add: pool_inv_def pool_cfg_def unat_mult_no_wrap)
  with assms have "linear_arena_allocate ar (blk_size p * per_chunk p) alignof_max_align_t = Inr (nullptr, ar)"
    by (intro linear_arena_allocate_full) (auto simp: pool_inv_def pool_cfg_def alignof_max_align_t_def)
  with assms(1) show ?thesis
    by (simp add: add_chunk_def pool_inv_def pool_cfg_def)
qed

lemma add_chunk_inv:
  assumes inv: "pool_inv A p ar m [] live"
    and fits: "align_nat (unat (cur_ptr ar)) 16 + unat (blk_size p) * unat (per_chunk p) \<le> unat (end_ptr ar)"
  shows "\<exists>p' ar' m' fs. add_chunk p ar m = Inr (p', ar', m') \<and> pool_inv A p' ar' m' fs live \<and> fs \<noteq> [] \<and>
           end_ptr ar' = end_ptr ar \<and> begin_ptr ar' = begin_ptr ar"
proof -
  let ?b = "blk_size p" and ?n = "unat (per_chunk p)"
  from inv have cfg: "pool_cfg A p ar" and ok: "linear_arena_ok ar" and fr: "free_head p = 0"
    and bl: "blocks_ok (unat ?b) A (unat (begin_ptr ar)) (unat (cur_ptr ar)) live"
    by (simp_all add: pool_inv_def)
  have sz: "unat (?b * per_chunk p) = unat ?b * ?n"
    using cfg by (simp add: pool_cfg_def unat_mult_no_wrap)
  from linear_arena_allocate_fits [OF ok, of "?b * per_chunk p" alignof_max_align_t] cfg fits
  obtain raw ar' where raw: "linear_arena_allocate ar (?b * per_chunk p) alignof_max_align_t = Inr (raw, ar')"
    "unat raw = align_nat (unat (cur_ptr ar)) 16" "unat (cur_ptr ar') = unat raw + unat ?b * ?n"
    "linear_arena_ok ar'" "end_ptr ar' = end_ptr ar" "begin_ptr ar' = begin_ptr ar"
    by (auto simp: sz alignof_max_align_t_def pool_cfg_def)
  note al = align_nat_bounds [of 16 "unat (cur_ptr ar)"]
  have "unat raw \<noteq> 0"
    using la.ok_bounds [OF ok] al(1) raw(2) by linarith
  then have "raw \<noteq> 0"
    by (auto simp: unat_eq_0)
  have "16 dvd unat raw"
    using al(3) raw(2) by simp
  then have A: "A dvd unat raw" "A dvd unat ?b"
    using cfg by (auto simp: pool_cfg_def alignof_max_align_t_def intro: dvd_trans)
  have pos: "0 < unat ?b"
    using cfg by (auto simp: pool_cfg_def intro: unat_pos_size)
  have end_ok: "unat raw + ?n * unat ?b \<le> unat (cur_ptr ar')" "unat (cur_ptr ar') < 2 ^ 64"
    using eq_refl [OF raw(3) [symmetric]] by (simp_all add: mult.commute)
  let ?cs = "chunk_blocks raw ?b 0 ?n"
  have cs: "blocks_ok (unat ?b) A (unat (begin_ptr ar)) (unat (cur_ptr ar')) ?cs"
    using la.ok_bounds [OF ok] al(1) raw(2) by (intro chunk_blocks_ok [OF end_ok pos \<open>raw \<noteq> 0\<close> A]) linarith
  have "unat (cur_ptr ar) \<le> unat y" if "y \<in> set ?cs" for y
  proof -
    from that obtain i where "i < ?n" "y = chunk_block raw ?b i"
      by (auto simp: chunk_blocks_def)
    with unat_chunk_block(1) [OF end_ok] al(1) raw(2) show ?thesis by simp
  qed
  then have all: "blocks_ok (unat ?b) A (unat (begin_ptr ar)) (unat (cur_ptr ar')) (?cs @ live)"
    using bl cs raw(2,3) al(1) pos by (intro blocks_ok_append [of _ _ _ "unat (cur_ptr ar)"]) auto
  obtain m' fr' where lp: "chunk_loop raw ?b (per_chunk p) 0 m 0 = (m', fr')"
    by (cases "chunk_loop raw ?b (per_chunk p) 0 m 0")
  have nl: "node_list m' fr' (rev ?cs)"
    using chunk_loop_list [OF _ _ _ lp, of "[]"] cs by (auto simp: blocks_ok_def)
  let ?p' = "p\<lparr>free_head := fr', chunks_allocated := chunks_allocated p + 1\<rparr>"
  have "add_chunk p ar m = Inr (?p', ar', m')"
    using cfg raw(1) \<open>raw \<noteq> 0\<close> lp fr by (simp add: add_chunk_def pool_cfg_def)
  moreover have "blocks_ok (unat ?b) A (unat (begin_ptr ar)) (unat (cur_ptr ar')) (rev ?cs @ live)"
    by (rule blocks_ok_perm [OF all]) auto
  then have "pool_inv A ?p' ar' m' (rev ?cs) live"
    using cfg raw(4-6) nl by (simp add: pool_inv_def pool_cfg_def)
  moreover have "rev ?cs \<noteq> []"
    using cfg by (simp add: chunk_blocks_def pool_cfg_def word_less_nat_alt)
  ultimately show ?thesis
    using raw(5,6) by blast
qed

lemma pool_pop_inv:
  assumes "pool_inv A p ar m fs live" and "fs \<noteq> []"
  shows "free_head p \<noteq> 0 \<and> fs = free_head p # tl fs \<and>
         pool_inv A (p\<lparr>free_head := m (free_head p)\<rparr>) ar m (tl fs) (free_head p # live)"
proof -
  obtain n fs' where fs: "fs = n # fs'"
    using assms(2) by (cases fs) auto
  with assms(1) have "free_head p = n" "n \<noteq> 0" "node_list m (m n) fs'"
    by (auto simp: pool_inv_def)
  moreover have "blocks_ok (unat (blk_size p)) A (unat (begin_ptr ar)) (unat (cur_ptr ar)) (fs' @ n # live)"
    by (rule blocks_ok_perm [of _ _ _ _ "fs @ live"]) (use assms(1) fs in \<open>auto simp: pool_inv_def\<close>)
  ultimately show ?thesis
    using assms(1) fs by (simp add: pool_inv_def pool_cfg_def)
qed

lemma pool_push_inv:
  assumes inv: "pool_inv A p ar m fs live" and q: "q \<in> set live"
    and live': "set live' = set live - {q}" "distinct live'"
    and free: "fixed_block_pool_deallocate p m q = (p', m')"
  shows "pool_inv A p' ar m' (q # fs) live'"
proof -
  have b: "blocks_ok (unat (blk_size p)) A (unat (begin_ptr ar)) (unat (cur_ptr ar)) (fs @ live)"
    using inv by (simp add: pool_inv_def)
  then have qf: "q \<noteq> 0" "q \<notin> set fs" "distinct live" "distinct fs" "set fs \<inter> set live = {}"
    using q by (auto simp: blocks_ok_def)
  have "blocks_ok (unat (blk_size p)) A (unat (begin_ptr ar)) (unat (cur_ptr ar)) ((q # fs) @ live')"
    by (rule blocks_ok_perm [OF b]) (use qf live' q in auto)
  then show ?thesis
    using inv free qf(1,2) by (auto simp: pool_inv_def pool_cfg_def fixed_block_pool_deallocate_def)
qed

lemma pool_write_inv:
  assumes inv: "pool_inv A p ar m fs live" and i: "i < length live"
    and off: "unat off + 8 \<le> unat (blk_size p)"
  shows "pool_inv A p ar (m((live ! i) + off := v)) fs live"
proof -
  let ?q = "live ! i"
  have b: "blocks_ok (unat (blk_size p)) A (unat (begin_ptr ar)) (unat (cur_ptr ar)) (fs @ live)"
    using inv by (simp add: pool_inv_def)
  have q: "?q \<in> set live"
    using i by simp
  with b have "unat ?q + unat (blk_size p) \<le> unat (cur_ptr ar)"
    by (auto simp: blocks_ok_def)
  then have "unat ?q + unat off < 18446744073709551616"
    using off unat_lt_64 [of "cur_ptr ar"] by linarith
  then have "unat (?q + off) = unat ?q + unat off"
    by (simp add: unat_add_no_wrap)
  moreover have "apart (unat (blk_size p)) f ?q" if "f \<in> set fs" for f
  proof -
    have "f \<noteq> ?q"
      using b q that by (auto simp: blocks_ok_def)
    with b q that show ?thesis
      by (simp add: blocks_ok_def)
  qed
  ultimately have "?q + off \<notin> set fs"
    using off by (fastforce simp: apart_def)
  with inv show ?thesis
    by (simp add: pool_inv_def)
qed

text \<open>
  The two ways \<^const>\<open>fixed_block_pool_allocate\<close> can go from a state satisfying the invariant.
\<close>

definition pool_exhausted :: "fixed_block_pool \<Rightarrow> linear_arena \<Rightarrow> ptr list \<Rightarrow> bool" where
  "pool_exhausted p ar fs \<longleftrightarrow>
     fs = [] \<and>
     unat (end_ptr ar) < align_nat (unat (cur_ptr ar)) 16 + unat (blk_size p) * unat (per_chunk p)"

lemma pool_free_head_iff: "pool_inv A p ar m fs live \<Longrightarrow> free_head p = 0 \<longleftrightarrow> fs = []"
  by (cases fs) (auto simp: pool_inv_def)

lemma pool_allocate_exhausted:
  assumes "pool_inv A p ar m fs live" and "pool_exhausted p ar fs"
  shows "fixed_block_pool_allocate p ar m = Inl Bad_Alloc"
  using assms add_chunk_bad_alloc [of A p ar m live] pool_free_head_iff [OF assms(1)]
  by (simp add: fixed_block_pool_allocate_def pool_exhausted_def)

lemma pool_allocate_inv:
  assumes inv: "pool_inv A p ar m fs live" and "\<not> pool_exhausted p ar fs"
  shows "\<exists>n p' ar' m' fs'. fixed_block_pool_allocate p ar m = Inr (n, p', ar', m') \<and>
           pool_inv A p' ar' m' fs' (n # live) \<and> blk_size p' = blk_size p \<and>
           (fs \<noteq> [] \<longrightarrow> n = hd fs \<and> ar' = ar \<and> m' = m \<and> fs' = tl fs)"
proof (cases "fs = []")
  case True
  with assms have "align_nat (unat (cur_ptr ar)) 16 + unat (blk_size p) * unat (per_chunk p) \<le> unat (end_ptr ar)"
    by (simp add: pool_exhausted_def)
  with add_chunk_inv inv True obtain p1 ar1 m1 fs1 where
    c: "add_chunk p ar m = Inr (p1, ar1, m1)" "pool_inv A p1 ar1 m1 fs1 live" "fs1 \<noteq> []"
    by blast
  have "blk_size p1 = blk_size p"
    using c(1) by (auto simp: add_chunk_def out_bind_Inr_iff split: if_splits prod.splits)
  moreover have "free_head p = 0"
    using pool_free_head_iff [OF inv] True by simp
  ultimately show ?thesis
    using True c(1) pool_pop_inv [OF c(2,3)] by (auto simp: fixed_block_pool_allocate_def Let_def)
next
  case False
  with pool_pop_inv [OF inv] pool_free_head_iff [OF inv] show ?thesis
    by (auto simp: fixed_block_pool_allocate_def Let_def) (metis list.sel(1))
qed

lemma pool_step_inv:
  assumes "pool_inv A p ar m fs live"
  shows "case pool_step (p, ar, m, live) x of
           Inl e \<Rightarrow> e = Bad_Alloc
         | Inr (p', ar', m', live') \<Rightarrow> \<exists>fs'. pool_inv A p' ar' m' fs' live' \<and> blk_size p' = blk_size p"
proof (cases x)
  case PAlloc
  then show ?thesis
    using pool_allocate_exhausted [OF assms] pool_allocate_inv [OF assms]
    by (cases "pool_exhausted p ar fs") auto
next
  case (PFree i)
  show ?thesis
  proof (cases "i < length live")
    case True
    let ?live' = "take i live @ drop (Suc i) live"
    have "distinct live"
      using assms by (simp add: pool_inv_def blocks_ok_def)
    note live' = distinct_delete_nth [OF this True]
    from pool_push_inv [OF assms _ live'] True PFree show ?thesis
      by (auto simp: fixed_block_pool_deallocate_def Let_def split: prod.splits)
  next
    case False
    with assms PFree show ?thesis by auto
  qed
next
  case (PWrite i off v)
  then show ?thesis
    using assms pool_write_inv [OF assms] by auto
qed

lemma pool_run_inv:
  assumes "pool_inv A p ar m fs live"
  shows "case pool_run (p, ar, m, live) ops of
           Inl e \<Rightarrow> e = Bad_Alloc
         | Inr (p', ar', m', live') \<Rightarrow> \<exists>fs'. pool_inv A p' ar' m' fs' live' \<and> blk_size p' = blk_size p"
  using assms
proof (induction ops arbitrary: p ar m fs live)
  case Nil
  then show ?case by auto
next
  case (Cons x ops)
  show ?case
  proof (cases "pool_step (p, ar, m, live) x")
    case (Inl e)
    with pool_step_inv [OF Cons.prems, of x] show ?thesis by simp
  next
    case (Inr s)
    obtain p1 ar1 m1 live1 where s: "s = (p1, ar1, m1, live1)" by (cases s)
    with pool_step_inv [OF Cons.prems, of x] Inr obtain fs1 where
      "pool_inv A p1 ar1 m1 fs1 live1" "blk_size p1 = blk_size p"
      by auto
    with Cons.IH [of p1 ar1 m1 fs1 live1] Inr s show ?thesis by (auto split: sum.splits)
  qed
qed

lemma pool_make_inv:
  assumes "linear_arena_ok ar" and "pool_cfg A (fixed_block_pool_make arena block_size n) ar"
  shows "pool_inv A (fixed_block_pool_make arena block_size n) ar m [] []"
  using assms by (simp add: pool_inv_def blocks_ok_def fixed_block_pool_make_def)

section \<open>Properties\<close>

text \<open>
  \<^verbatim>\<open>fixed_block_pool::allocate\<close> from a state that satisfies the pool invariant. It throws
  \<^verbatim>\<open>std::bad_alloc\<close> exactly when the free list is empty and the arena has no room for another
  chunk; otherwise it returns a block that is non-null, aligned, inside the arena and apart
  from every live block, and the invariant holds with that block live. A non-empty free list
  is served from its head without touching the arena.
\<close>

theorem fixed_block_pool_allocate_spec:
  assumes "pool_inv A p ar m fs live"
  shows "if pool_exhausted p ar fs then fixed_block_pool_allocate p ar m = Inl Bad_Alloc
         else \<exists>n p' ar' m' fs'. fixed_block_pool_allocate p ar m = Inr (n, p', ar', m') \<and>
           n \<noteq> nullptr \<and> A dvd unat n \<and> n \<notin> set live \<and> (\<forall>x \<in> set live. apart (unat (blk_size p)) n x) \<and>
           pool_inv A p' ar' m' fs' (n # live) \<and>
           (fs \<noteq> [] \<longrightarrow> n = hd fs \<and> ar' = ar \<and> m' = m \<and> fs' = tl fs)"
proof (cases "pool_exhausted p ar fs")
  case True
  with pool_allocate_exhausted [OF assms] show ?thesis by simp
next
  case False
  from pool_allocate_inv [OF assms False] obtain n p' ar' m' fs' where
    r: "fixed_block_pool_allocate p ar m = Inr (n, p', ar', m')" "pool_inv A p' ar' m' fs' (n # live)"
       "blk_size p' = blk_size p" "fs \<noteq> [] \<longrightarrow> n = hd fs \<and> ar' = ar \<and> m' = m \<and> fs' = tl fs"
    by blast
  from r(2,3) have "blocks_ok (unat (blk_size p)) A (unat (begin_ptr ar')) (unat (cur_ptr ar')) (fs' @ n # live)"
    by (simp add: pool_inv_def)
  then have "n \<noteq> nullptr \<and> A dvd unat n \<and> n \<notin> set live \<and> (\<forall>x \<in> set live. apart (unat (blk_size p)) n x)"
    by (auto simp: blocks_ok_def)
  with r False show ?thesis by auto
qed

definition pool_example :: fixed_block_pool where
  "pool_example = fixed_block_pool_make 1 24 4"

lemma pool_example_inv:
  "pool_inv 8 pool_example (linear_arena_make 4096 256) m [] []"
  unfolding pool_example_def
  by (rule pool_make_inv)
     (simp_all add: linear_arena_make_def linear_arena_ok_def linear_arena_used_def linear_arena_capacity_def
        pool_cfg_def fixed_block_pool_make_def sizeof_node_def alignof_max_align_t_def request_ok_def power_of_two_def)

theorem fixed_block_pool_allocate_spec_witness:
  "\<exists>n p' ar' m' fs'. fixed_block_pool_allocate pool_example (linear_arena_make 4096 256) (\<lambda>_. 0) = Inr (n, p', ar', m') \<and>
     n \<noteq> nullptr \<and> 8 dvd unat n \<and> pool_inv 8 p' ar' m' fs' [n]"
  using fixed_block_pool_allocate_spec [OF pool_example_inv, of "\<lambda>_. 0"]
  by (auto simp: pool_exhausted_def pool_example_def fixed_block_pool_make_def linear_arena_make_def align_nat_def sizeof_node_def)

text \<open>
  \<^verbatim>\<open>fixed_block_pool::deallocate\<close> of a live block keeps the invariant with that block free, and
  the next \<^verbatim>\<open>allocate\<close> returns exactly that block, in constant time and without asking the arena.
\<close>

theorem fixed_block_pool_deallocate_reuse:
  assumes "pool_inv A p ar m fs live" and "i < length live"
    and "fixed_block_pool_deallocate p m (live ! i) = (p', m')"
  shows "pool_inv A p' ar m' (live ! i # fs) (take i live @ drop (Suc i) live) \<and>
         (\<exists>p''. fixed_block_pool_allocate p' ar m' = Inr (live ! i, p'', ar, m'))"
proof -
  have "distinct live"
    using assms(1) by (simp add: pool_inv_def blocks_ok_def)
  note live' = distinct_delete_nth [OF this assms(2)]
  have inv': "pool_inv A p' ar m' (live ! i # fs) (take i live @ drop (Suc i) live)"
    using assms(2) by (intro pool_push_inv [OF assms(1) _ live' assms(3)]) simp
  with pool_allocate_inv [OF inv'] show ?thesis
    by (auto simp: pool_exhausted_def)
qed

theorem fixed_block_pool_deallocate_reuse_witness:
  "\<exists>p ar m live p' m' p''. pool_run (pool_example, linear_arena_make 4096 256, (\<lambda>_. 0), []) [PAlloc] = Inr (p, ar, m, live) \<and>
     fixed_block_pool_deallocate p m (live ! 0) = (p', m') \<and>
     fixed_block_pool_allocate p' ar m' = Inr (live ! 0, p'', ar, m')"
proof -
  have "\<not> pool_exhausted pool_example (linear_arena_make 4096 256) []"
    by (simp add: pool_exhausted_def pool_example_def fixed_block_pool_make_def linear_arena_make_def align_nat_def sizeof_node_def)
  from pool_allocate_inv [OF pool_example_inv this, of "\<lambda>_. 0"] obtain n p ar m fs where
    a: "fixed_block_pool_allocate pool_example (linear_arena_make 4096 256) (\<lambda>_. 0) = Inr (n, p, ar, m)"
       "pool_inv 8 p ar m fs [n]"
    by blast
  obtain p' m' where d: "fixed_block_pool_deallocate p m n = (p', m')"
    by (cases "fixed_block_pool_deallocate p m n")
  from fixed_block_pool_deallocate_reuse [OF a(2), of 0] d
  have "\<exists>p''. fixed_block_pool_allocate p' ar m' = Inr (n, p'', ar, m')"
    by simp
  moreover have "pool_run (pool_example, linear_arena_make 4096 256, (\<lambda>_. 0), []) [PAlloc] = Inr (p, ar, m, [n])"
    using a(1) by simp
  ultimately show ?thesis
    using d by (metis nth_Cons_0)
qed

text \<open>
  C7: for every sequence of client operations on a new pool (allocations, frees of live blocks,
  stores anywhere inside live blocks) the only possible failure is \<^verbatim>\<open>std::bad_alloc\<close>, and the
  live blocks are always non-overlapping, aligned and inside the arena. In particular a client
  that writes through its blocks never corrupts the free list.
\<close>

theorem fixed_block_pool_run_safe:
  assumes "linear_arena_ok ar" and "pool_cfg A (fixed_block_pool_make arena block_size n) ar"
  shows "case pool_run (fixed_block_pool_make arena block_size n, ar, m, []) ops of
           Inl e \<Rightarrow> e = Bad_Alloc
         | Inr (p', ar', m', live) \<Rightarrow>
             blocks_ok (unat (blk_size p')) A (unat (begin_ptr ar')) (unat (end_ptr ar')) live \<and>
             block_size \<le> blk_size p'"
proof -
  let ?p = "fixed_block_pool_make arena block_size n"
  from pool_run_inv [OF pool_make_inv [OF assms]]
  have "case pool_run (?p, ar, m, []) ops of
           Inl e \<Rightarrow> e = Bad_Alloc
         | Inr (p', ar', m', live') \<Rightarrow> \<exists>fs'. pool_inv A p' ar' m' fs' live' \<and> blk_size p' = blk_size ?p" .
  moreover have "blocks_ok (unat (blk_size p')) A (unat (begin_ptr ar')) (unat (end_ptr ar')) live"
    if "pool_inv A p' ar' m' fs' live" for p' ar' m' fs' live
  proof -
    have "unat (cur_ptr ar') \<le> unat (end_ptr ar')"
      using that la.ok_bounds by (simp add: pool_inv_def)
    with that show ?thesis
      by (auto simp: pool_inv_def intro: blocks_ok_weaken)
  qed
  moreover have "block_size \<le> blk_size ?p"
    by (auto simp: fixed_block_pool_make_def)
  ultimately show ?thesis
    by (auto split: sum.splits) metis
qed

theorem fixed_block_pool_run_safe_witness:
  "case pool_run (fixed_block_pool_make 1 24 4, linear_arena_make 4096 256, (\<lambda>_. 0), []) [PAlloc, PAlloc, PWrite 0 16 7, PFree 1, PAlloc] of
     Inl e \<Rightarrow> e = Bad_Alloc
   | Inr (p', ar', m', live) \<Rightarrow>
       blocks_ok (unat (blk_size p')) 8 (unat (begin_ptr ar')) (unat (end_ptr ar')) live \<and> 24 \<le> blk_size p'"
  by (rule fixed_block_pool_run_safe)
     (use pool_example_inv in \<open>auto simp: pool_inv_def pool_example_def\<close>)

end
