(* ===== verification/Allocators.thy ===== *)
theory Allocators
  imports Pool
begin

text \<open>
  The standard-library allocator adapters: \<^verbatim>\<open>linear_allocator\<close> and \<^verbatim>\<open>pool_allocator\<close> of
  \<^verbatim>\<open>include/sap_core/stl/allocator.h\<close>, \<^verbatim>\<open>stack_allocator\<close> of
  \<^verbatim>\<open>include/sap_core/stl/stack_allocator.h\<close>, and the arena overload of \<^verbatim>\<open>make_unique\<close> of
  \<^verbatim>\<open>include/sap_core/stl/unique_ptr.h\<close>. The element type enters through its size and
  alignment; the arena an adapter points to is passed in and returned.
\<close>

section \<open>Definitions\<close>

record cpp_type =
  sizeof_T :: size_t
  alignof_T :: size_t

definition cpp_type_ok :: "cpp_type \<Rightarrow> bool" where
  "cpp_type_ok T \<longleftrightarrow> 0 < sizeof_T T \<and> power_of_two (alignof_T T) \<and> unat (alignof_T T) dvd unat (sizeof_T T)"

subsection \<open>linear_allocator\<close>

record linear_allocator =
  lal_arena :: ptr

definition linear_allocator_default :: linear_allocator where
  "linear_allocator_default = \<lparr>lal_arena = nullptr\<rparr>"

definition linear_allocator_make :: "ptr \<Rightarrow> linear_allocator" where
  "linear_allocator_make a = \<lparr>lal_arena = a\<rparr>"

definition linear_allocator_convert :: "linear_allocator \<Rightarrow> linear_allocator" where
  "linear_allocator_convert other = \<lparr>lal_arena = lal_arena other\<rparr>"

definition linear_allocator_allocate ::
  "cpp_type \<Rightarrow> linear_allocator \<Rightarrow> linear_arena \<Rightarrow> size_t \<Rightarrow> (ptr \<times> linear_arena) outcome" where
  "linear_allocator_allocate T al ar n =
     out_bind (cpp_assert (lal_arena al \<noteq> nullptr) ''linear_allocator requires a valid linear_arena'') (\<lambda>_.
       if n > (- 1) div sizeof_T T then Inl Bad_Alloc
       else out_bind (linear_arena_allocate ar (n * sizeof_T T) (alignof_T T)) (\<lambda>(p, ar').
              if p = nullptr then Inl Bad_Alloc else Inr (p, ar')))"

definition linear_allocator_deallocate :: "linear_arena \<Rightarrow> ptr \<Rightarrow> size_t \<Rightarrow> linear_arena" where
  "linear_allocator_deallocate ar p n = ar"

definition linear_allocator_eq :: "linear_allocator \<Rightarrow> linear_allocator \<Rightarrow> bool" where
  "linear_allocator_eq lhs rhs \<longleftrightarrow> lal_arena lhs = lal_arena rhs"

subsection \<open>pool_allocator\<close>

text \<open>
  \<^verbatim>\<open>pool_\<close> points to a pool object placed in the arena; the model keeps the object itself.
  \<open>sizeof_pool\<close> and \<open>alignof_pool\<close> are those of \<^verbatim>\<open>fixed_block_pool\<close> with the statistics field.
\<close>

record pool_allocator =
  pal_arena :: ptr
  pal_pool :: "fixed_block_pool option"

definition sizeof_pool :: size_t where
  "sizeof_pool = 40"

definition alignof_pool :: size_t where
  "alignof_pool = 8"

definition default_blocks_per_chunk :: size_t where
  "default_blocks_per_chunk = 256"

definition pool_allocator_default :: pool_allocator where
  "pool_allocator_default = \<lparr>pal_arena = nullptr, pal_pool = None\<rparr>"

definition pool_allocator_make :: "ptr \<Rightarrow> pool_allocator" where
  "pool_allocator_make a = \<lparr>pal_arena = a, pal_pool = None\<rparr>"

definition pool_allocator_convert :: "pool_allocator \<Rightarrow> pool_allocator" where
  "pool_allocator_convert other = \<lparr>pal_arena = pal_arena other, pal_pool = None\<rparr>"

definition ensure_pool ::
  "cpp_type \<Rightarrow> pool_allocator \<Rightarrow> linear_arena \<Rightarrow> (fixed_block_pool \<times> linear_arena) outcome" where
  "ensure_pool T al ar =
     (case pal_pool al of
        Some p \<Rightarrow> Inr (p, ar)
      | None \<Rightarrow>
          if pal_arena al = nullptr then Inl Null_Deref
          else out_bind (linear_arena_allocate ar sizeof_pool alignof_pool) (\<lambda>(mem, ar').
                 if mem = nullptr then Inl Bad_Alloc
                 else Inr (fixed_block_pool_make (pal_arena al) (sizeof_T T) default_blocks_per_chunk, ar')))"

definition pool_allocator_allocate ::
  "cpp_type \<Rightarrow> pool_allocator \<Rightarrow> linear_arena \<Rightarrow> node_mem \<Rightarrow> size_t
     \<Rightarrow> (ptr \<times> pool_allocator \<times> linear_arena \<times> node_mem) outcome" where
  "pool_allocator_allocate T al ar m n =
     (if n = 1
      then out_bind (ensure_pool T al ar) (\<lambda>(p, ar1).
             out_bind (fixed_block_pool_allocate p ar1 m) (\<lambda>(q, p', ar2, m').
               Inr (q, al\<lparr>pal_pool := Some p'\<rparr>, ar2, m')))
      else if pal_arena al = nullptr then Inl Null_Deref
      else out_bind (linear_arena_allocate ar (n * sizeof_T T) (alignof_T T)) (\<lambda>(p, ar').
             if p = nullptr then Inl Bad_Alloc else Inr (p, al, ar', m)))"

definition pool_allocator_deallocate ::
  "pool_allocator \<Rightarrow> node_mem \<Rightarrow> ptr \<Rightarrow> size_t \<Rightarrow> pool_allocator \<times> node_mem" where
  "pool_allocator_deallocate al m p n =
     (if p = nullptr \<or> n = 0 then (al, m)
      else case pal_pool al of
             Some pool \<Rightarrow>
               if n = 1
               then (let (pool', m') = fixed_block_pool_deallocate pool m p in (al\<lparr>pal_pool := Some pool'\<rparr>, m'))
               else (al, m)
           | None \<Rightarrow> (al, m))"

subsection \<open>stack_allocator\<close>

record stack_allocator =
  sal_arena :: ptr
  sal_capacity :: size_t

definition stack_allocator_default :: stack_allocator where
  "stack_allocator_default = \<lparr>sal_arena = nullptr, sal_capacity = 0\<rparr>"

definition stack_allocator_make :: "ptr \<Rightarrow> stack_arena \<Rightarrow> stack_allocator" where
  "stack_allocator_make arena sa = \<lparr>sal_arena = arena, sal_capacity = sa_N sa\<rparr>"

definition stack_allocator_convert :: "stack_allocator \<Rightarrow> stack_allocator" where
  "stack_allocator_convert other = \<lparr>sal_arena = sal_arena other, sal_capacity = sal_capacity other\<rparr>"

definition stack_allocator_allocate ::
  "cpp_type \<Rightarrow> stack_allocator \<Rightarrow> stack_arena \<Rightarrow> size_t \<Rightarrow> (ptr \<times> stack_arena) outcome" where
  "stack_allocator_allocate T al sa n =
     out_bind (cpp_assert (sal_arena al \<noteq> nullptr) ''stack_allocator requires a valid stack_arena'') (\<lambda>_.
       out_bind (stack_arena_allocate sa (n * sizeof_T T) (alignof_T T)) (\<lambda>(p, sa').
         if p = nullptr then Inl Bad_Alloc else Inr (p, sa')))"

definition stack_allocator_deallocate :: "stack_arena \<Rightarrow> ptr \<Rightarrow> size_t \<Rightarrow> stack_arena" where
  "stack_allocator_deallocate sa p n = sa"

definition stack_allocator_eq :: "stack_allocator \<Rightarrow> stack_allocator \<Rightarrow> bool" where
  "stack_allocator_eq lhs rhs \<longleftrightarrow> sal_arena lhs = sal_arena rhs"

subsection \<open>make_unique on an arena\<close>

text \<open>The living objects by address; \<open>ctor\<close> is what the constructor gives, an exception or the object.\<close>

type_synonym 'e objects = "ptr \<Rightarrow> 'e option"

definition make_unique_arena ::
  "cpp_type \<Rightarrow> 'e outcome \<Rightarrow> linear_arena \<Rightarrow> 'e objects \<Rightarrow> (ptr \<times> linear_arena \<times> 'e objects) outcome" where
  "make_unique_arena T ctor ar objs =
     out_bind (linear_arena_allocate ar (sizeof_T T) (alignof_T T)) (\<lambda>(mem, ar').
       out_bind (cpp_assert (mem \<noteq> nullptr) ''make_unique: arena allocation failed'') (\<lambda>_.
         out_bind ctor (\<lambda>x. Inr (mem, ar', objs(mem \<mapsto> x)))))"

definition arena_deleter :: "ptr \<Rightarrow> 'e objects \<Rightarrow> 'e objects outcome" where
  "arena_deleter p objs =
     (if p \<noteq> nullptr
      then (if objs p = None then Inl Dead_Object else Inr (objs(p := None)))
      else Inr objs)"

text \<open>A program that makes owning pointers and destroys them in any order; \<open>ps\<close> are the living owners.\<close>

datatype 'e owner_op = Make_Owner 'e | Destroy_Owner nat

fun owner_run ::
  "cpp_type \<Rightarrow> 'e owner_op list \<Rightarrow> ptr list \<Rightarrow> linear_arena \<Rightarrow> 'e objects \<Rightarrow> (ptr list \<times> linear_arena \<times> 'e objects) outcome" where
  "owner_run T [] ps ar objs = Inr (ps, ar, objs)"
| "owner_run T (Make_Owner x # ops) ps ar objs =
     out_bind (make_unique_arena T (Inr x) ar objs) (\<lambda>(p, ar', objs'). owner_run T ops (ps @ [p]) ar' objs')"
| "owner_run T (Destroy_Owner i # ops) ps ar objs =
     (if i < length ps
      then out_bind (arena_deleter (ps ! i) objs) (\<lambda>objs'. owner_run T ops (take i ps @ drop (Suc i) ps) ar objs')
      else owner_run T ops ps ar objs)"

section \<open>linear_allocator\<close>

lemma word_div_max_iff:
  fixes n s :: size_t
  assumes "0 < s"
  shows "n > (- 1) div s \<longleftrightarrow> 2 ^ 64 \<le> unat n * unat s"
proof -
  have s: "0 < unat s"
    using assms by (simp add: word_less_nat_alt)
  have "unat (- 1 :: size_t) = 2 ^ 64 - 1"
    using unat_uminus_add [of "1 :: size_t"] by simp
  then have "unat ((- 1) div s) = (2 ^ 64 - 1) div unat s"
    by (simp only: unat_div)
  then have "n > (- 1) div s \<longleftrightarrow> (2 ^ 64 - 1) div unat s < unat n"
    by (simp only: word_less_nat_alt)
  also have "\<dots> \<longleftrightarrow> 2 ^ 64 - 1 < unat n * unat s"
    using s by (simp add: div_less_iff_less_mult)
  also have "\<dots> \<longleftrightarrow> 2 ^ 64 \<le> unat n * unat s"
    by auto
  finally show ?thesis .
qed

lemma linear_allocator_overflow:
  assumes "cpp_type_ok T" and "lal_arena al \<noteq> nullptr" and "2 ^ 64 \<le> unat n * unat (sizeof_T T)"
  shows "linear_allocator_allocate T al ar n = Inl Bad_Alloc"
  using assms word_div_max_iff [of "sizeof_T T" n]
  by (simp add: linear_allocator_allocate_def cpp_type_ok_def)

lemma linear_allocator_fits:
  assumes T: "cpp_type_ok T" and al: "lal_arena al \<noteq> nullptr" and ok: "linear_arena_ok ar"
    and sz: "unat n * unat (sizeof_T T) + unat (end_ptr ar) + unat (alignof_T T) \<le> 2 ^ 64"
  shows "if align_nat (unat (cur_ptr ar)) (unat (alignof_T T)) + unat n * unat (sizeof_T T) \<le> unat (end_ptr ar)
         then \<exists>p ar'. linear_allocator_allocate T al ar n = Inr (p, ar') \<and> linear_arena_ok ar' \<and>
                unat p = align_nat (unat (cur_ptr ar)) (unat (alignof_T T)) \<and>
                unat (cur_ptr ar') = unat p + unat n * unat (sizeof_T T)
         else linear_allocator_allocate T al ar n = Inl Bad_Alloc"
proof -
  have a: "0 < unat (alignof_T T)"
    using T by (auto simp: cpp_type_ok_def intro: power_of_two_pos)
  then have lt: "unat n * unat (sizeof_T T) < 2 ^ 64"
    using sz by linarith
  then have prod: "unat (n * sizeof_T T) = unat n * unat (sizeof_T T)"
    by (simp add: unat_mult_no_wrap)
  have guard: "\<not> n > (- 1) div sizeof_T T"
    using T lt word_div_max_iff [of "sizeof_T T" n] by (simp add: cpp_type_ok_def)
  have rq: "request_ok (unat (end_ptr ar)) (n * sizeof_T T, alignof_T T)"
    using T sz prod by (simp add: request_ok_def cpp_type_ok_def)
  show ?thesis
  proof (cases "align_nat (unat (cur_ptr ar)) (unat (alignof_T T)) + unat n * unat (sizeof_T T) \<le> unat (end_ptr ar)")
    case True
    with linear_arena_allocate_fits [OF ok rq] prod obtain p ar' where
      p: "linear_arena_allocate ar (n * sizeof_T T) (alignof_T T) = Inr (p, ar')" "linear_arena_ok ar'"
         "unat p = align_nat (unat (cur_ptr ar)) (unat (alignof_T T))"
         "unat (cur_ptr ar') = unat p + unat n * unat (sizeof_T T)"
      by auto
    have "unat p \<noteq> 0"
      using la.ok_bounds [OF ok] align_nat_bounds(1) [OF a, of "unat (cur_ptr ar)"] p(3) by linarith
    then have "p \<noteq> nullptr" by (auto simp: unat_eq_0)
    with p True guard al show ?thesis
      by (auto simp: linear_allocator_allocate_def)
  next
    case False
    with linear_arena_allocate_full [OF ok rq] prod guard al show ?thesis
      by (auto simp: linear_allocator_allocate_def)
  qed
qed

section \<open>pool_allocator\<close>

text \<open>
  The state of a \<^verbatim>\<open>pool_allocator<T>\<close> that has handed out the single-element blocks \<open>live\<close>.
  Before the first allocation there is no pool yet.
\<close>

definition pal_inv ::
  "cpp_type \<Rightarrow> pool_allocator \<Rightarrow> linear_arena \<Rightarrow> node_mem \<Rightarrow> ptr list \<Rightarrow> ptr list \<Rightarrow> bool" where
  "pal_inv T al ar m fs live \<longleftrightarrow>
     pal_arena al \<noteq> nullptr \<and>
     (case pal_pool al of
        None \<Rightarrow> fs = [] \<and> live = [] \<and> linear_arena_ok ar \<and>
          request_ok (unat (end_ptr ar)) (sizeof_pool, alignof_pool) \<and>
          pool_cfg (unat (alignof_T T)) (fixed_block_pool_make (pal_arena al) (sizeof_T T) default_blocks_per_chunk) ar
      | Some p \<Rightarrow> sizeof_T T \<le> blk_size p \<and> pool_inv (unat (alignof_T T)) p ar m fs live)"

lemma ensure_pool_inv:
  assumes inv: "pal_inv T al ar m fs live" and r: "ensure_pool T al ar = Inr (p, ar1)"
  shows "sizeof_T T \<le> blk_size p \<and> pool_inv (unat (alignof_T T)) p ar1 m fs live"
proof (cases "pal_pool al")
  case None
  let ?p = "fixed_block_pool_make (pal_arena al) (sizeof_T T) default_blocks_per_chunk"
  have ok: "linear_arena_ok ar" and rq: "request_ok (unat (end_ptr ar)) (sizeof_pool, alignof_pool)"
    and cfg: "pool_cfg (unat (alignof_T T)) ?p ar" and e: "fs = []" "live = []"
    using inv None by (auto simp: pal_inv_def)
  obtain mem where al: "linear_arena_allocate ar sizeof_pool alignof_pool = Inr (mem, ar1)" "mem \<noteq> 0" "p = ?p"
    using r None by (auto simp: ensure_pool_def out_bind_Inr_iff split: if_splits)
  have "linear_arena_ok ar1 \<and> unat (end_ptr ar1) = unat (end_ptr ar)"
    using la.alloc_total [OF ok rq] al(1) by auto
  then have "linear_arena_ok ar1" "pool_cfg (unat (alignof_T T)) ?p ar1"
    using cfg by (simp_all add: pool_cfg_def)
  with pool_make_inv e al(3) show ?thesis
    by (auto simp: fixed_block_pool_make_def)
next
  case (Some q)
  with assms show ?thesis
    by (simp add: pal_inv_def ensure_pool_def)
qed

lemma ensure_pool_error:
  assumes inv: "pal_inv T al ar m fs live" and r: "ensure_pool T al ar = Inl e"
  shows "e = Bad_Alloc"
proof (cases "pal_pool al")
  case None
  then have ok: "linear_arena_ok ar" "request_ok (unat (end_ptr ar)) (sizeof_pool, alignof_pool)" "pal_arena al \<noteq> 0"
    using inv by (auto simp: pal_inv_def)
  from la.alloc_total [OF ok(1,2)] r None ok(3) show ?thesis
    by (auto simp: ensure_pool_def out_bind_Inl_iff split: if_splits)
next
  case (Some q)
  with r show ?thesis
    by (simp add: ensure_pool_def)
qed

section \<open>Properties\<close>

text \<open>
  \<^verbatim>\<open>linear_allocator<T>::allocate(n)\<close> guards the product \<^verbatim>\<open>n * sizeof(T)\<close>: if it exceeds
  \<^verbatim>\<open>size_t\<close> the call throws \<^verbatim>\<open>std::bad_alloc\<close>; if it does not and the request stays inside the
  address space, the call returns an aligned block of the full \<open>n * sizeof(T)\<close> bytes when it fits
  and throws otherwise.
\<close>

theorem linear_allocator_allocate_spec:
  assumes "cpp_type_ok T" and "lal_arena al \<noteq> nullptr" and "linear_arena_ok ar"
    and "unat n * unat (sizeof_T T) < 2 ^ 64 \<longrightarrow>
           unat n * unat (sizeof_T T) + unat (end_ptr ar) + unat (alignof_T T) \<le> 2 ^ 64"
  shows "if unat n * unat (sizeof_T T) < 2 ^ 64 \<and>
            align_nat (unat (cur_ptr ar)) (unat (alignof_T T)) + unat n * unat (sizeof_T T) \<le> unat (end_ptr ar)
         then \<exists>p ar'. linear_allocator_allocate T al ar n = Inr (p, ar') \<and> linear_arena_ok ar' \<and>
                unat p = align_nat (unat (cur_ptr ar)) (unat (alignof_T T)) \<and>
                unat (cur_ptr ar') = unat p + unat n * unat (sizeof_T T)
         else linear_allocator_allocate T al ar n = Inl Bad_Alloc"
  using linear_allocator_fits [OF assms(1-3)] linear_allocator_overflow [OF assms(1,2)] assms(4)
  by (cases "unat n * unat (sizeof_T T) < 2 ^ 64") (auto simp: not_less)

theorem linear_allocator_allocate_spec_witness:
  "\<exists>p ar'. linear_allocator_allocate \<lparr>sizeof_T = 12, alignof_T = 4\<rparr> \<lparr>lal_arena = 1\<rparr> (linear_arena_make 4096 64) 5 = Inr (p, ar') \<and>
     unat p = 4096 \<and> unat (cur_ptr ar') = 4156"
  using linear_allocator_allocate_spec [of "\<lparr>sizeof_T = 12, alignof_T = 4\<rparr>" "\<lparr>lal_arena = 1\<rparr>" "linear_arena_make 4096 64" 5]
  by (auto simp: cpp_type_ok_def power_of_two_def linear_arena_make_def linear_arena_ok_def
      linear_arena_used_def linear_arena_capacity_def align_nat_def)

text \<open>
  \<^verbatim>\<open>pool_allocator<T>::allocate(1)\<close> creates its pool on first use and then returns a block
  that is large enough for a \<open>T\<close>, aligned for \<open>T\<close> and apart from every other live single-element
  block; the only possible failure is \<^verbatim>\<open>std::bad_alloc\<close>.
\<close>

theorem pool_allocator_allocate_one:
  assumes "pal_inv T al ar m fs live"
  shows "case pool_allocator_allocate T al ar m 1 of
           Inl e \<Rightarrow> e = Bad_Alloc
         | Inr (q, al', ar', m') \<Rightarrow>
             q \<noteq> nullptr \<and> unat (alignof_T T) dvd unat q \<and>
             (\<forall>x \<in> set live. apart (unat (sizeof_T T)) q x) \<and>
             (\<exists>fs'. pal_inv T al' ar' m' fs' (q # live))"
proof (cases "ensure_pool T al ar")
  case (Inl e)
  with ensure_pool_error [OF assms] show ?thesis
    by (simp add: pool_allocator_allocate_def)
next
  case (Inr par)
  obtain p ar1 where par: "par = (p, ar1)" by (cases par)
  with ensure_pool_inv [OF assms] Inr
  have sz: "sizeof_T T \<le> blk_size p" and inv: "pool_inv (unat (alignof_T T)) p ar1 m fs live"
    by auto
  show ?thesis
  proof (cases "pool_exhausted p ar1 fs")
    case True
    with pool_allocate_exhausted [OF inv] Inr par show ?thesis
      by (simp add: pool_allocator_allocate_def)
  next
    case False
    from pool_allocate_inv [OF inv False] obtain q p' ar' m' fs' where
      r: "fixed_block_pool_allocate p ar1 m = Inr (q, p', ar', m')"
         "pool_inv (unat (alignof_T T)) p' ar' m' fs' (q # live)" "blk_size p' = blk_size p"
      by blast
    then have "blocks_ok (unat (blk_size p)) (unat (alignof_T T)) (unat (begin_ptr ar')) (unat (cur_ptr ar')) (fs' @ q # live)"
      by (simp add: pool_inv_def)
    then have "q \<noteq> nullptr" "unat (alignof_T T) dvd unat q" "\<forall>x \<in> set live. apart (unat (blk_size p)) q x"
      by (auto simp: blocks_ok_def)
    moreover have "pal_inv T (al\<lparr>pal_pool := Some p'\<rparr>) ar' m' fs' (q # live)"
      using assms r(2,3) sz by (simp add: pal_inv_def)
    ultimately show ?thesis
      using Inr par r(1) sz by (auto simp: pool_allocator_allocate_def apart_def word_le_nat_alt)
  qed
qed

theorem pool_allocator_allocate_one_witness:
  "case pool_allocator_allocate \<lparr>sizeof_T = 24, alignof_T = 8\<rparr> (pool_allocator_make 1) (linear_arena_make 4096 16384) (\<lambda>_. 0) 1 of
     Inl e \<Rightarrow> e = Bad_Alloc
   | Inr (q, al', ar', m') \<Rightarrow> q \<noteq> nullptr \<and> 8 dvd unat q"
proof -
  have "pal_inv \<lparr>sizeof_T = 24, alignof_T = 8\<rparr> (pool_allocator_make 1) (linear_arena_make 4096 16384) (\<lambda>_. 0) [] []"
    by (simp add: pal_inv_def pool_allocator_make_def linear_arena_make_def linear_arena_ok_def linear_arena_used_def
        linear_arena_capacity_def request_ok_def power_of_two_def sizeof_pool_def alignof_pool_def pool_cfg_def
        fixed_block_pool_make_def sizeof_node_def alignof_max_align_t_def default_blocks_per_chunk_def)
  from pool_allocator_allocate_one [OF this] show ?thesis
    by (auto split: sum.splits)
qed

text \<open>
  unlike \<^verbatim>\<open>linear_allocator\<close>, the adapters \<^verbatim>\<open>pool_allocator\<close> and \<^verbatim>\<open>stack_allocator\<close> multiply
  \<^verbatim>\<open>n * sizeof(T)\<close> without a guard. For an element count whose byte size is exactly \<open>2 ^ 64\<close> the
  product wraps to zero: both report success and reserve no memory at all for the \<open>n\<close> elements,
  while \<^verbatim>\<open>linear_allocator\<close> throws.
\<close>

theorem unguarded_multiplication_wraps:
  assumes T: "cpp_type_ok T" and n: "unat n * unat (sizeof_T T) = 2 ^ 64" "n \<noteq> 1"
    and ar: "linear_arena_ok ar" "unat (cur_ptr ar) + unat (alignof_T T) \<le> 2 ^ 64"
      "align_nat (unat (cur_ptr ar)) (unat (alignof_T T)) \<le> unat (end_ptr ar)"
    and sa: "stack_arena_ok sa" "unat (sa_cur sa) + unat (alignof_T T) \<le> 2 ^ 64"
      "align_nat (unat (sa_cur sa)) (unat (alignof_T T)) \<le> unat (sa_buf sa + sa_N sa)"
    and al: "pal_arena pal \<noteq> nullptr" "sal_arena sal \<noteq> nullptr" "lal_arena lal \<noteq> nullptr"
  shows "(\<exists>p ar'. pool_allocator_allocate T pal ar m n = Inr (p, pal, ar', m) \<and> cur_ptr ar' = p) \<and>
         (\<exists>p sa'. stack_allocator_allocate T sal sa n = Inr (p, sa') \<and> sa_cur sa' = p) \<and>
         linear_allocator_allocate T lal ar n = Inl Bad_Alloc"
proof -
  have z: "n * sizeof_T T = 0"
    using n(1) by (intro word_unat_eq_iff [THEN iffD2]) (simp add: unat_word_ariths)
  have pw: "power_of_two (alignof_T T)" and a: "0 < unat (alignof_T T)"
    using T by (auto simp: cpp_type_ok_def intro: power_of_two_pos)
  obtain r where r: "align_up (cur_ptr ar) (alignof_T T) = Inr r"
    "unat r = align_nat (unat (cur_ptr ar)) (unat (alignof_T T))"
    using align_up_align_nat [OF pw ar(2)] by blast
  obtain s where s: "align_up (sa_cur sa) (alignof_T T) = Inr s"
    "unat s = align_nat (unat (sa_cur sa)) (unat (alignof_T T))"
    using align_up_align_nat [OF pw sa(2)] by blast
  have "unat r \<noteq> 0" "unat s \<noteq> 0"
    using la.ok_bounds [OF ar(1)] sa.ok_bounds [OF sa(1)] r(2) s(2)
      align_nat_bounds(1) [OF a, of "unat (cur_ptr ar)"] align_nat_bounds(1) [OF a, of "unat (sa_cur sa)"]
    by linarith+
  then have nz: "r \<noteq> 0" "s \<noteq> 0" by (auto simp: unat_eq_0)
  have "\<not> r > end_ptr ar" "\<not> s > sa_buf sa + sa_N sa"
    using r(2) s(2) ar(3) sa(3) by (simp_all add: word_less_nat_alt)
  then have "\<exists>ar'. linear_arena_allocate ar 0 (alignof_T T) = Inr (r, ar') \<and> cur_ptr ar' = r"
    "stack_arena_allocate sa 0 (alignof_T T) = Inr (s, sa\<lparr>sa_cur := s\<rparr>)"
    using r(1) s(1) by (simp_all add: linear_arena_allocate_eq stack_arena_allocate_def)
  then show ?thesis
    using z nz al n linear_allocator_overflow [OF T al(3), of n ar]
    by (auto simp: pool_allocator_allocate_def stack_allocator_allocate_def)
qed

theorem unguarded_multiplication_wraps_witness:
  "\<exists>p ar'. pool_allocator_allocate \<lparr>sizeof_T = 16, alignof_T = 8\<rparr> (pool_allocator_make 1) (linear_arena_make 4096 64) (\<lambda>_. 0) (2 ^ 60)
     = Inr (p, pool_allocator_make 1, ar', (\<lambda>_. 0)) \<and> cur_ptr ar' = p"
  using unguarded_multiplication_wraps
    [of "\<lparr>sizeof_T = 16, alignof_T = 8\<rparr>" "2 ^ 60" "linear_arena_make 4096 64" "stack_arena_make 4096 64"
        "pool_allocator_make 1" "\<lparr>sal_arena = 1, sal_capacity = 64\<rparr>" "\<lparr>lal_arena = 1\<rparr>" "\<lambda>_. 0"]
  by (simp add: cpp_type_ok_def power_of_two_def linear_arena_make_def linear_arena_ok_def linear_arena_used_def
      linear_arena_capacity_def align_nat_def stack_arena_make_def stack_arena_ok_def pool_allocator_make_def)

section \<open>Owning pointers into an arena\<close>

definition owners_inv :: "cpp_type \<Rightarrow> ptr list \<Rightarrow> linear_arena \<Rightarrow> 'e objects \<Rightarrow> bool" where
  "owners_inv T ps ar objs \<longleftrightarrow>
     linear_arena_ok ar \<and> request_ok (unat (end_ptr ar)) (sizeof_T T, alignof_T T) \<and> distinct ps \<and> dom objs = set ps \<and>
     (\<forall>p \<in> set ps. p \<noteq> nullptr \<and> unat p < unat (cur_ptr ar))"

lemma make_owner_inv:
  assumes T: "cpp_type_ok T" and i: "owners_inv T ps ar objs"
  shows "case make_unique_arena T (Inr x) ar objs of
           Inl e \<Rightarrow> \<exists>msg. e = Assertion_Failed msg
         | Inr (p, ar', objs') \<Rightarrow> owners_inv T (ps @ [p]) ar' objs' \<and> objs' p = Some x"
proof -
  have ok: "linear_arena_ok ar" "request_ok (unat (end_ptr ar)) (sizeof_T T, alignof_T T)"
    using i by (simp_all add: owners_inv_def)
  obtain p ar' where p: "linear_arena_allocate ar (sizeof_T T) (alignof_T T) = Inr (p, ar')" "linear_arena_ok ar'"
    "unat (end_ptr ar') = unat (end_ptr ar)"
    "p \<noteq> nullptr \<Longrightarrow> unat (cur_ptr ar) \<le> unat p \<and> unat (cur_ptr ar') = unat p + unat (sizeof_T T)"
    using la.alloc_total [OF ok] by metis
  show ?thesis
  proof (cases "p = nullptr")
    case True
    then show ?thesis
      using p(1) by (simp add: make_unique_arena_def)
  next
    case False
    have sz: "0 < unat (sizeof_T T)"
      using T by (simp add: cpp_type_ok_def word_less_nat_alt)
    have "\<forall>q \<in> set ps. unat q < unat p"
      using i p(4) [OF False] by (auto simp: owners_inv_def)
    then have "p \<notin> set ps" "\<forall>q \<in> set ps. unat q < unat (cur_ptr ar')"
      using p(4) [OF False] by auto
    then have "owners_inv T (ps @ [p]) ar' (objs(p \<mapsto> x))"
      using i p(2,3) p(4) [OF False] sz False by (auto simp: owners_inv_def)
    then show ?thesis
      using p(1) False by (simp add: make_unique_arena_def)
  qed
qed

lemma destroy_owner_inv:
  assumes "owners_inv T ps ar objs" and "k < length ps"
  shows "arena_deleter (ps ! k) objs = Inr (objs(ps ! k := None)) \<and>
         owners_inv T (take k ps @ drop (Suc k) ps) ar (objs(ps ! k := None))"
proof -
  have "ps ! k \<in> set ps"
    using assms(2) by simp
  then have "ps ! k \<noteq> nullptr" "objs (ps ! k) \<noteq> None"
    using assms(1) by (auto simp: owners_inv_def dom_def)
  then show ?thesis
    using assms distinct_delete_nth [of ps k] unfolding owners_inv_def arena_deleter_def by auto
qed

text \<open>
  owning pointers made by \<^verbatim>\<open>make_unique\<close> on an arena: whatever pointers a program makes and in whatever order it destroys
  them, each destruction finds its object alive and ends it, the living objects are those of the living owners, and the
  only way to stop is the assertion of an arena that is full.
\<close>

theorem arena_owners_destroyed_once:
  assumes T: "cpp_type_ok T" and i: "owners_inv T ps ar objs"
  shows "case owner_run T ops ps ar objs of
           Inl e \<Rightarrow> \<exists>msg. e = Assertion_Failed msg
         | Inr (ps', ar', objs') \<Rightarrow> distinct ps' \<and> dom objs' = set ps' \<and> nullptr \<notin> set ps'"
  using assms
proof (induction T ops ps ar objs rule: owner_run.induct)
  case (1 T ps ar objs)
  then show ?case
    by (auto simp: owners_inv_def)
next
  case (2 T x ops ps ar objs)
  from make_owner_inv [OF "2.prems", of x] 2 show ?case
    by (cases "make_unique_arena T (Inr x) ar objs") auto
next
  case (3 T k ops ps ar objs)
  show ?case
  proof (cases "k < length ps")
    case True
    note d = destroy_owner_inv [OF "3.prems"(2) True]
    have "owner_run T (Destroy_Owner k # ops) ps ar objs = owner_run T ops (take k ps @ drop (Suc k) ps) ar (objs(ps ! k := None))"
      using True d by simp
    with "3.IH"(1) [OF True d [THEN conjunct1] "3.prems"(1) d [THEN conjunct2]] show ?thesis
      by (simp only:)
  next
    case False
    with "3.IH"(2) "3.prems" show ?thesis
      by simp
  qed
qed

theorem arena_owners_destroyed_once_witness:
  "case owner_run \<lparr>sizeof_T = 8, alignof_T = 8\<rparr> [Make_Owner ''a'', Make_Owner ''b'', Destroy_Owner 0, Make_Owner ''c'', Destroy_Owner 1]
          [] (linear_arena_make 4096 64) (\<lambda>_. None) of
     Inl e \<Rightarrow> \<exists>msg. e = Assertion_Failed msg
   | Inr (ps, ar, objs) \<Rightarrow> distinct ps \<and> dom objs = set ps \<and> nullptr \<notin> set ps"
proof (rule arena_owners_destroyed_once)
  show "owners_inv \<lparr>sizeof_T = 8, alignof_T = 8\<rparr> [] (linear_arena_make 4096 64) (\<lambda>_. None :: string option)"
    by (simp add: owners_inv_def linear_arena_make_def linear_arena_ok_def linear_arena_used_def linear_arena_capacity_def
        request_ok_def power_of_two_def)
qed (simp add: cpp_type_ok_def power_of_two_def)

end
