(* ===== verification/Generational.thy ===== *)
theory Generational
  imports Sap_Prelude
begin

text \<open>
  Generational handles, \<^verbatim>\<open>include/sap_core/stl/generational.h\<close>. A handle is an index together
  with the generation of the slot when it was allocated. Indices and generations are 32-bit
  words and wrap as in the code; the two vectors of the allocator and the vector of optional
  entries are lists. \<^verbatim>\<open>m_free_indices\<close> is a stack whose top is the last element.
\<close>

section \<open>Definitions\<close>

record generational_index =
  gi_index :: u32
  gi_generation :: u32

record gen_entry =
  ge_alive :: bool
  ge_generation :: u32

record generational_index_allocator =
  m_entries :: "gen_entry list"
  m_free_indices :: "u32 list"

definition gia_empty :: generational_index_allocator where
  "gia_empty = \<lparr>m_entries = [], m_free_indices = []\<rparr>"

definition gia_is_alive :: "generational_index_allocator \<Rightarrow> generational_index \<Rightarrow> bool" where
  "gia_is_alive al h \<longleftrightarrow>
     unat (gi_index h) < length (m_entries al) \<and>
     ge_generation (m_entries al ! unat (gi_index h)) = gi_generation h \<and>
     ge_alive (m_entries al ! unat (gi_index h))"

text \<open>
  \<^verbatim>\<open>m_entries[idx]\<close> is unchecked: an index of the free list that is no position of
  \<^verbatim>\<open>m_entries\<close> would be an access out of bounds.
\<close>

definition gia_allocate ::
  "generational_index_allocator \<Rightarrow> (generational_index \<times> generational_index_allocator) outcome" where
  "gia_allocate al =
     (if m_free_indices al \<noteq> []
      then (let idx = last (m_free_indices al);
                i = unat idx
            in if i < length (m_entries al)
               then (let g = ge_generation (m_entries al ! i) + 1
                     in Inr (\<lparr>gi_index = idx, gi_generation = g\<rparr>,
                             al\<lparr>m_entries := (m_entries al)[i := \<lparr>ge_alive = True, ge_generation = g\<rparr>],
                                m_free_indices := butlast (m_free_indices al)\<rparr>))
               else Inl Out_Of_Bounds)
      else (let es = m_entries al @ [\<lparr>ge_alive = True, ge_generation = 0\<rparr>]
            in Inr (\<lparr>gi_index = of_nat (length es) - 1, gi_generation = 0\<rparr>, al\<lparr>m_entries := es\<rparr>)))"

definition gia_deallocate :: "generational_index_allocator \<Rightarrow> generational_index \<Rightarrow> generational_index_allocator" where
  "gia_deallocate al h =
     (if gia_is_alive al h
      then al\<lparr>m_entries := (m_entries al)[unat (gi_index h) := (m_entries al ! unat (gi_index h))\<lparr>ge_alive := False\<rparr>],
              m_free_indices := m_free_indices al @ [gi_index h]\<rparr>
      else al)"

subsection \<open>generational_vector\<close>

record 'T gen_slot =
  gs_generation :: u32
  gs_value :: 'T

type_synonym 'T generational_vector = "'T gen_slot option list"

text \<open>\<^verbatim>\<open>while (m_entries.size() <= index.index) m_entries.push_back(std::nullopt);\<close>\<close>

function gv_grow :: "'T generational_vector \<Rightarrow> nat \<Rightarrow> 'T generational_vector" where
  "gv_grow es i = (if length es \<le> i then gv_grow (es @ [None]) i else es)"
  by pat_completeness auto
termination
  by (relation "measure (\<lambda>(es, i). Suc i - length es)") auto

definition gv_set :: "'T generational_vector \<Rightarrow> generational_index \<Rightarrow> 'T \<Rightarrow> 'T generational_vector" where
  "gv_set es0 h val =
     (let i = unat (gi_index h);
          es = gv_grow es0 i;
          prev_gen = (case es ! i of Some e \<Rightarrow> gs_generation e | None \<Rightarrow> 0)
      in if prev_gen > gi_generation h then es
         else es[i := Some \<lparr>gs_generation = gi_generation h, gs_value = val\<rparr>])"

definition gv_remove :: "'T generational_vector \<Rightarrow> generational_index \<Rightarrow> 'T generational_vector" where
  "gv_remove es h =
     (if unat (gi_index h) < length es then es[unat (gi_index h) := None] else es)"

definition gv_get :: "'T generational_vector \<Rightarrow> generational_index \<Rightarrow> 'T option" where
  "gv_get es h =
     (if length es \<le> unat (gi_index h) then None
      else case es ! unat (gi_index h) of
             Some e \<Rightarrow> if gs_generation e = gi_generation h then Some (gs_value e) else None
           | None \<Rightarrow> None)"

text \<open>
  The two scans count with a \<^verbatim>\<open>u32\<close> against \<^verbatim>\<open>m_entries.size()\<close>. The counter wraps, so the
  loops need not end: not returning is \<^term>\<open>None\<close>.
\<close>

partial_function (option) gv_scan_all ::
  "(generational_index \<Rightarrow> bool) \<Rightarrow> 'T generational_vector \<Rightarrow> u32 \<Rightarrow> generational_index list \<Rightarrow> generational_index list option" where
  "gv_scan_all alive es i acc =
     (if unat i < length es
      then gv_scan_all alive es (i + 1)
             (case es ! unat i of
                None \<Rightarrow> acc
              | Some e \<Rightarrow>
                  (let idx = \<lparr>gi_index = i, gi_generation = gs_generation e\<rparr>
                   in if alive idx then acc @ [idx] else acc))
      else Some acc)"

definition gv_get_all_valid_indices ::
  "'T generational_vector \<Rightarrow> generational_index_allocator \<Rightarrow> generational_index list option" where
  "gv_get_all_valid_indices es al = gv_scan_all (gia_is_alive al) es 0 []"

partial_function (option) gv_scan_first ::
  "(generational_index \<Rightarrow> bool) \<Rightarrow> 'T generational_vector \<Rightarrow> u32 \<Rightarrow> (generational_index \<times> 'T) option option" where
  "gv_scan_first alive es i =
     (if unat i < length es
      then (case es ! unat i of
              None \<Rightarrow> gv_scan_first alive es (i + 1)
            | Some e \<Rightarrow>
                (let idx = \<lparr>gi_index = i, gi_generation = gs_generation e\<rparr>
                 in if alive idx then Some (Some (idx, gs_value e)) else gv_scan_first alive es (i + 1)))
      else Some None)"

definition gv_get_first_valid_entry ::
  "'T generational_vector \<Rightarrow> generational_index_allocator \<Rightarrow> (generational_index \<times> 'T) option option" where
  "gv_get_first_valid_entry es al = gv_scan_first (gia_is_alive al) es 0"

definition gv_size :: "'T generational_vector \<Rightarrow> nat" where
  "gv_size es = length es"

subsection \<open>Specification\<close>

text \<open>
  The allocator's invariant: the free list has no duplicates and holds exactly the indices of
  the dead entries, and there are at most \<open>2 ^ 32\<close> entries, so every position is a \<^verbatim>\<open>u32\<close>.
\<close>

definition gia_inv :: "generational_index_allocator \<Rightarrow> bool" where
  "gia_inv al \<longleftrightarrow>
     length (m_entries al) \<le> 2 ^ 32 \<and> distinct (m_free_indices al) \<and>
     (\<forall>i. i \<in> set (m_free_indices al) \<longleftrightarrow> unat i < length (m_entries al) \<and> \<not> ge_alive (m_entries al ! unat i))"

text \<open>Whether \<^verbatim>\<open>allocate\<close> can still number a new entry.\<close>

definition gia_has_room :: "generational_index_allocator \<Rightarrow> bool" where
  "gia_has_room al \<longleftrightarrow> m_free_indices al \<noteq> [] \<or> length (m_entries al) < 2 ^ 32"

datatype gia_op = GAlloc | GDealloc generational_index

fun gia_step :: "generational_index_allocator \<Rightarrow> gia_op \<Rightarrow> generational_index_allocator outcome" where
  "gia_step al GAlloc = out_bind (gia_allocate al) (\<lambda>(h, al'). Inr al')"
| "gia_step al (GDealloc h) = Inr (gia_deallocate al h)"

fun gia_run :: "generational_index_allocator \<Rightarrow> gia_op list \<Rightarrow> generational_index_allocator outcome" where
  "gia_run al [] = Inr al"
| "gia_run al (x # xs) = out_bind (gia_step al x) (\<lambda>al'. gia_run al' xs)"

declare gv_grow.simps [simp del]

section \<open>The allocator\<close>

text \<open>
  What a client may rely on: from a good state with room, an allocation yields a handle that was
  not live and makes exactly that handle live; a deallocation makes exactly the given handle not
  live.
\<close>

locale handle_allocator =
  fixes alloc :: "'s \<Rightarrow> ('h \<times> 's) outcome"
    and dealloc :: "'s \<Rightarrow> 'h \<Rightarrow> 's"
    and live :: "'s \<Rightarrow> 'h set"
    and inv :: "'s \<Rightarrow> bool"
    and room :: "'s \<Rightarrow> bool"
  assumes alloc_law: "inv s \<Longrightarrow> room s \<Longrightarrow>
      \<exists>h s'. alloc s = Inr (h, s') \<and> inv s' \<and> h \<notin> live s \<and> live s' = insert h (live s)"
    and dealloc_law: "inv s \<Longrightarrow> inv (dealloc s h) \<and> live (dealloc s h) = live s - {h}"
begin

lemma alloc_then_dealloc:
  assumes "inv s" and "room s" and "alloc s = Inr (h, s')"
  shows "live (dealloc s' h) = live s \<and> inv (dealloc s' h)"
  using alloc_law [OF assms(1,2)] dealloc_law assms(3) by auto

lemma dealloc_idem:
  assumes "inv s"
  shows "live (dealloc (dealloc s h) h) = live (dealloc s h)"
  using dealloc_law [OF assms, of h] dealloc_law [of "dealloc s h" h] by auto

lemma dealloc_commute:
  assumes "inv s"
  shows "live (dealloc (dealloc s h) h') = live (dealloc (dealloc s h') h)"
  using dealloc_law [OF assms] dealloc_law [of "dealloc s h" h'] dealloc_law [of "dealloc s h'" h] by auto

end

definition gia_live :: "generational_index_allocator \<Rightarrow> generational_index set" where
  "gia_live al = {h. gia_is_alive al h}"

lemma handle_eq_iff:
  "(h :: generational_index) = h' \<longleftrightarrow> gi_index h = gi_index h' \<and> gi_generation h = gi_generation h'"
  by (cases h, cases h') simp

lemma gia_allocate_reuse:
  assumes inv: "gia_inv al" and fr: "m_free_indices al \<noteq> []"
  shows "\<exists>h al'. gia_allocate al = Inr (h, al') \<and> gia_inv al' \<and> h \<notin> gia_live al \<and> gia_live al' = insert h (gia_live al)"
proof -
  obtain fs idx where fs: "m_free_indices al = fs @ [idx]"
    using fr by (metis append_butlast_last_id)
  let ?i = "unat idx"
  have i: "?i < length (m_entries al)" "\<not> ge_alive (m_entries al ! ?i)" and d: "distinct fs" "idx \<notin> set fs"
    using inv fs by (auto simp: gia_inv_def)
  define g where "g = ge_generation (m_entries al ! ?i) + 1"
  define h where "h = \<lparr>gi_index = idx, gi_generation = g\<rparr>"
  define al' where "al' = al\<lparr>m_entries := (m_entries al)[?i := \<lparr>ge_alive = True, ge_generation = g\<rparr>], m_free_indices := fs\<rparr>"
  have "gia_allocate al = Inr (h, al')"
    using fs i by (simp add: gia_allocate_def Let_def h_def al'_def g_def)
  moreover have "j \<in> set fs \<longleftrightarrow> unat j < length (m_entries al') \<and> \<not> ge_alive (m_entries al' ! unat j)" for j
  proof -
    have "j \<in> set fs \<or> j = idx \<longleftrightarrow> unat j < length (m_entries al) \<and> \<not> ge_alive (m_entries al ! unat j)"
      using inv fs by (auto simp: gia_inv_def)
    then show ?thesis
      using d(2) i(1) by (cases "j = idx") (auto simp: al'_def nth_list_update)
  qed
  then have "gia_inv al'"
    using inv d(1) by (simp add: gia_inv_def al'_def)
  moreover have "h \<notin> gia_live al"
    using i(2) by (simp add: gia_live_def gia_is_alive_def h_def)
  moreover have "gia_live al' = insert h (gia_live al)"
  proof (rule set_eqI)
    fix h'
    show "h' \<in> gia_live al' \<longleftrightarrow> h' \<in> insert h (gia_live al)"
      using i by (cases "gi_index h' = idx")
        (auto simp: gia_live_def gia_is_alive_def al'_def h_def handle_eq_iff nth_list_update)
  qed
  ultimately show ?thesis by blast
qed

lemma gia_allocate_fresh:
  assumes inv: "gia_inv al" and fr: "m_free_indices al = []" and len: "length (m_entries al) < 2 ^ 32"
  shows "\<exists>h al'. gia_allocate al = Inr (h, al') \<and> gia_inv al' \<and> h \<notin> gia_live al \<and> gia_live al' = insert h (gia_live al)"
proof -
  let ?n = "length (m_entries al)"
  define idx :: u32 where "idx = of_nat ?n"
  have idx: "unat idx = ?n"
    using len by (simp add: idx_def unat_of_nat)
  define h where "h = \<lparr>gi_index = idx, gi_generation = 0\<rparr>"
  define al' where "al' = al\<lparr>m_entries := m_entries al @ [\<lparr>ge_alive = True, ge_generation = 0\<rparr>]\<rparr>"
  have eq: "unat j = ?n \<longleftrightarrow> j = idx" for j
    using idx by (metis word_unat_eq_iff)
  have "gia_allocate al = Inr (h, al')"
    using fr by (simp add: gia_allocate_def Let_def h_def al'_def idx_def)
  moreover have "gia_inv al'"
    using inv fr len by (auto simp: gia_inv_def al'_def nth_append less_Suc_eq)
  moreover have "h \<notin> gia_live al"
    using idx by (simp add: gia_live_def gia_is_alive_def h_def)
  moreover have "gia_live al' = insert h (gia_live al)"
  proof (rule set_eqI)
    fix h'
    show "h' \<in> gia_live al' \<longleftrightarrow> h' \<in> insert h (gia_live al)"
      using eq [of "gi_index h'"]
      by (auto simp: gia_live_def gia_is_alive_def al'_def h_def handle_eq_iff nth_append less_Suc_eq)
  qed
  ultimately show ?thesis by blast
qed

lemma gia_deallocate_live:
  assumes inv: "gia_inv al"
  shows "gia_inv (gia_deallocate al h) \<and> gia_live (gia_deallocate al h) = gia_live al - {h}"
proof (cases "gia_is_alive al h")
  case True
  let ?i = "gi_index h"
  have i: "unat ?i < length (m_entries al)" "ge_alive (m_entries al ! unat ?i)" "?i \<notin> set (m_free_indices al)"
    using True inv by (auto simp: gia_is_alive_def gia_inv_def)
  have free: "(j \<in> set (m_free_indices al) \<or> j = ?i) \<longleftrightarrow>
      unat j < length (m_entries al) \<and> \<not> ge_alive (m_entries (gia_deallocate al h) ! unat j)" for j
  proof (cases "j = ?i")
    case True
    with i \<open>gia_is_alive al h\<close> show ?thesis by (simp add: gia_deallocate_def)
  next
    case False
    with inv \<open>gia_is_alive al h\<close> show ?thesis by (auto simp: gia_deallocate_def gia_inv_def)
  qed
  have "gia_inv (gia_deallocate al h)"
    using inv i(3) free \<open>gia_is_alive al h\<close> by (auto simp: gia_inv_def gia_deallocate_def)
  moreover have "gia_is_alive (gia_deallocate al h) h' \<longleftrightarrow> gia_is_alive al h' \<and> h' \<noteq> h" for h'
  proof (cases "gi_index h' = ?i")
    case True
    with \<open>gia_is_alive al h\<close> i show ?thesis
      by (auto simp: gia_is_alive_def gia_deallocate_def handle_eq_iff)
  next
    case False
    with \<open>gia_is_alive al h\<close> show ?thesis
      by (auto simp: gia_is_alive_def gia_deallocate_def handle_eq_iff)
  qed
  ultimately show ?thesis
    by (auto simp: gia_live_def)
next
  case False
  with inv show ?thesis
    by (auto simp: gia_deallocate_def gia_live_def)
qed

interpretation gia: handle_allocator gia_allocate gia_deallocate gia_live gia_inv gia_has_room
proof unfold_locales
  fix al
  assume "gia_inv al" "gia_has_room al"
  then show "\<exists>h al'. gia_allocate al = Inr (h, al') \<and> gia_inv al' \<and> h \<notin> gia_live al \<and> gia_live al' = insert h (gia_live al)"
    using gia_allocate_reuse gia_allocate_fresh by (auto simp: gia_has_room_def)
qed (rule gia_deallocate_live)

section \<open>Stale handles\<close>

text \<open>How one step changes the entry at a position \<open>i\<close>, when positions fit in a \<^verbatim>\<open>u32\<close>.\<close>

lemma gia_step_entry:
  assumes "gia_inv al" and "length (m_entries al) < 2 ^ 32" and "i < length (m_entries al)"
    and "gia_step al x = Inr al'"
  shows "gia_inv al' \<and> length (m_entries al') \<le> Suc (length (m_entries al)) \<and> i < length (m_entries al') \<and>
    (ge_generation (m_entries al' ! i) = ge_generation (m_entries al ! i) \<and>
       (ge_alive (m_entries al' ! i) \<longrightarrow> ge_alive (m_entries al ! i)) \<or>
     ge_generation (m_entries al' ! i) = ge_generation (m_entries al ! i) + 1)"
proof (cases x)
  case GAlloc
  then obtain h where h: "gia_allocate al = Inr (h, al')"
    using assms(4) by (auto simp: out_bind_Inr_iff)
  have "gia_inv al'"
    using gia.alloc_law [OF assms(1)] assms(2) h by (auto simp: gia_has_room_def)
  with h assms(3) show ?thesis
    by (auto simp: gia_allocate_def Let_def nth_append nth_list_update split: if_splits)
next
  case (GDealloc h)
  then have "gia_inv al'"
    using gia.dealloc_law [OF assms(1)] assms(4) by auto
  moreover have "m_entries al' = m_entries al \<or> unat (gi_index h) < length (m_entries al) \<and>
      m_entries al' = (m_entries al)[unat (gi_index h) := (m_entries al ! unat (gi_index h))\<lparr>ge_alive := False\<rparr>]"
    using GDealloc assms(4) by (auto simp: gia_deallocate_def gia_is_alive_def split: if_splits)
  ultimately show ?thesis
    using assms(3) by (auto simp: nth_list_update split: if_splits)
qed

lemma gia_run_entry:
  assumes "gia_inv al" and "length (m_entries al) + length xs \<le> 2 ^ 32" and "i < length (m_entries al)"
    and "\<not> ge_alive (m_entries al ! i)" and "gia_run al xs = Inr al'"
  shows "\<exists>k \<le> length xs. i < length (m_entries al') \<and>
    ge_generation (m_entries al' ! i) = ge_generation (m_entries al ! i) + of_nat k \<and>
    (ge_alive (m_entries al' ! i) \<longrightarrow> 0 < k)"
proof -
  have gen: "\<exists>k \<le> length xs. i < length (m_entries al') \<and>
      ge_generation (m_entries al' ! i) = g + of_nat (k0 + k) \<and> (ge_alive (m_entries al' ! i) \<longrightarrow> 0 < k0 + k)"
    if "gia_inv al" "length (m_entries al) + length xs \<le> 2 ^ 32" "i < length (m_entries al)"
      "ge_generation (m_entries al ! i) = g + of_nat k0" "ge_alive (m_entries al ! i) \<longrightarrow> 0 < k0"
      "gia_run al xs = Inr al'" for g k0 al
    using that
  proof (induction xs arbitrary: al k0)
    case Nil
    then show ?case by auto
  next
    case (Cons x xs)
    then obtain al1 where al1: "gia_step al x = Inr al1" "gia_run al1 xs = Inr al'"
      by (auto simp: out_bind_Inr_iff)
    have len: "length (m_entries al) < 2 ^ 32"
      using Cons.prems(2) by simp
    note st = gia_step_entry [OF Cons.prems(1) len Cons.prems(3) al1(1)]
    have len1: "length (m_entries al1) + length xs \<le> 2 ^ 32"
      using st Cons.prems(2) by simp
    from st Cons.prems(2,4,5) consider
        "ge_generation (m_entries al1 ! i) = g + of_nat k0" "ge_alive (m_entries al1 ! i) \<longrightarrow> 0 < k0"
      | "ge_generation (m_entries al1 ! i) = g + of_nat (Suc k0)" "ge_alive (m_entries al1 ! i) \<longrightarrow> 0 < Suc k0"
      by (auto simp: algebra_simps)
    then show ?case
    proof cases
      case 1
      with Cons.IH [OF _ len1 _ 1 al1(2)] st obtain k where "k \<le> length xs" "i < length (m_entries al')"
        "ge_generation (m_entries al' ! i) = g + of_nat (k0 + k)" "ge_alive (m_entries al' ! i) \<longrightarrow> 0 < k0 + k" by blast
      then show ?thesis by (intro exI [of _ k]) simp
    next
      case 2
      with Cons.IH [OF _ len1 _ 2 al1(2)] st obtain k where "k \<le> length xs" "i < length (m_entries al')"
        "ge_generation (m_entries al' ! i) = g + of_nat (Suc k0 + k)" by blast
      then show ?thesis by (intro exI [of _ "Suc k"]) (simp add: algebra_simps)
    qed
  qed
  from gen [OF assms(1-3) _ _ assms(5), of "ge_generation (m_entries al ! i)" 0] assms(4)
  show ?thesis by auto
qed

text \<open>
  C8: a deallocated handle stays dead. After \<^verbatim>\<open>deallocate(h)\<close> of a live handle no sequence of
  allocations and deallocations makes \<open>h\<close> live again, as long as the entries present and the
  operations performed together stay within the \<open>2 ^ 32\<close> positions and generations of a \<^verbatim>\<open>u32\<close>.
\<close>

theorem gia_stale_handle_stays_dead:
  assumes "gia_inv al" and "gia_is_alive al h"
    and "length (m_entries al) + length xs \<le> 2 ^ 32"
    and "gia_run (gia_deallocate al h) xs = Inr al'"
  shows "\<not> gia_is_alive al' h"
proof
  assume live: "gia_is_alive al' h"
  let ?d = "gia_deallocate al h" and ?i = "unat (gi_index h)"
  have inv: "gia_inv ?d"
    using gia.dealloc_law [OF assms(1)] by blast
  have d: "length (m_entries ?d) = length (m_entries al)" "?i < length (m_entries ?d)"
    "\<not> ge_alive (m_entries ?d ! ?i)" "ge_generation (m_entries ?d ! ?i) = gi_generation h"
    using assms(2) by (simp_all add: gia_deallocate_def gia_is_alive_def)
  obtain k where k: "k \<le> length xs" "ge_generation (m_entries al' ! ?i) = gi_generation h + of_nat k"
    "ge_alive (m_entries al' ! ?i) \<longrightarrow> 0 < k"
    using gia_run_entry [OF inv _ d(2,3) assms(4)] assms(3) unfolding d(1,4) by blast
  have "(of_nat k :: u32) = 0" "0 < k"
    using k live by (auto simp: gia_is_alive_def)
  moreover have "k < 2 ^ 32"
    using k(1) d(1,2) assms(3) by linarith
  then have "unat (of_nat k :: u32) = k"
    by (simp add: unat_of_nat)
  ultimately show False by simp
qed

theorem gia_stale_handle_stays_dead_witness:
  "let al = \<lparr>m_entries = [\<lparr>ge_alive = True, ge_generation = 0\<rparr>], m_free_indices = []\<rparr>;
       h = \<lparr>gi_index = 0, gi_generation = 0\<rparr>
   in \<exists>al'. gia_run (gia_deallocate al h) [GAlloc, GAlloc] = Inr al' \<and> \<not> gia_is_alive al' h \<and>
        gia_is_alive al' \<lparr>gi_index = 0, gi_generation = 1\<rparr>"
proof -
  let ?al = "\<lparr>m_entries = [\<lparr>ge_alive = True, ge_generation = 0\<rparr>], m_free_indices = []\<rparr>"
  let ?h = "\<lparr>gi_index = 0, gi_generation = 0\<rparr>"
  have inv: "gia_inv ?al" by (auto simp: gia_inv_def nth_Cons split: nat.splits)
  obtain al' where al': "gia_run (gia_deallocate ?al ?h) [GAlloc, GAlloc] = Inr al'"
    and new: "gia_is_alive al' \<lparr>gi_index = 0, gi_generation = 1\<rparr>"
    by (simp add: gia_deallocate_def gia_is_alive_def gia_allocate_def)
  have "\<not> gia_is_alive al' ?h"
    by (rule gia_stale_handle_stays_dead [OF inv _ _ al']) (simp_all add: gia_is_alive_def)
  with al' new show ?thesis by auto
qed

text \<open>
  C30: the handle set. From a state reached by any allocations and deallocations that fit in
  \<^verbatim>\<open>u32\<close>, \<^verbatim>\<open>allocate\<close> returns a handle that was not alive and afterwards exactly that handle
  and the handles alive before are alive; \<^verbatim>\<open>deallocate(h)\<close> leaves exactly the other live handles
  alive, whether \<open>h\<close> was alive or not. Both keep the free list consistent.
\<close>

theorem gia_allocate_deallocate_live:
  assumes "gia_inv al" and "gia_has_room al"
  shows "(\<exists>h al'. gia_allocate al = Inr (h, al') \<and> gia_inv al' \<and> \<not> gia_is_alive al h \<and>
            (\<forall>h'. gia_is_alive al' h' \<longleftrightarrow> h' = h \<or> gia_is_alive al h')) \<and>
         (\<forall>h. gia_inv (gia_deallocate al h) \<and>
            (\<forall>h'. gia_is_alive (gia_deallocate al h) h' \<longleftrightarrow> h' \<noteq> h \<and> gia_is_alive al h'))"
  using gia.alloc_law [OF assms] gia.dealloc_law [OF assms(1)] unfolding gia_live_def set_eq_iff by fastforce

theorem gia_allocate_deallocate_live_witness:
  "\<exists>h al'. gia_allocate gia_empty = Inr (h, al') \<and> gia_inv al' \<and> gia_is_alive al' h"
  using gia_allocate_deallocate_live [of gia_empty] by (auto simp: gia_empty_def gia_inv_def gia_has_room_def)

text \<open>
  The generation wraps. Reusing one slot \<open>n\<close> times, each time deallocating the handle just
  obtained, leaves the allocator as it was except that the slot's generation grew by \<open>n\<close>.
\<close>

definition reuse_cycles :: "generational_index \<Rightarrow> nat \<Rightarrow> gia_op list" where
  "reuse_cycles h n =
     concat (map (\<lambda>k. [GAlloc, GDealloc (h\<lparr>gi_generation := gi_generation h + of_nat (Suc k)\<rparr>)]) [0..<n])"

definition slot_free_on_top :: "generational_index_allocator \<Rightarrow> generational_index \<Rightarrow> bool" where
  "slot_free_on_top al h \<longleftrightarrow>
     unat (gi_index h) < length (m_entries al) \<and>
     m_entries al ! unat (gi_index h) = \<lparr>ge_alive = False, ge_generation = gi_generation h\<rparr> \<and>
     (\<exists>fs. m_free_indices al = fs @ [gi_index h])"

lemma gia_run_append: "gia_run al (xs @ ys) = out_bind (gia_run al xs) (\<lambda>al'. gia_run al' ys)"
  by (induction xs arbitrary: al) (simp_all add: out_bind_def split: sum.splits)

lemma reuse_cycle:
  assumes "slot_free_on_top al h"
  shows "\<exists>al'. gia_run al [GAlloc, GDealloc (h\<lparr>gi_generation := gi_generation h + 1\<rparr>)] = Inr al' \<and>
    slot_free_on_top al' (h\<lparr>gi_generation := gi_generation h + 1\<rparr>)"
  using assms by (auto simp: slot_free_on_top_def gia_allocate_def Let_def gia_deallocate_def gia_is_alive_def)

lemma reuse_cycles_run:
  assumes "slot_free_on_top al h"
  shows "\<exists>al'. gia_run al (reuse_cycles h n) = Inr al' \<and>
    slot_free_on_top al' (h\<lparr>gi_generation := gi_generation h + of_nat n\<rparr>)"
proof (induction n)
  case 0
  then show ?case using assms by (simp add: reuse_cycles_def)
next
  case (Suc n)
  then obtain al' where al': "gia_run al (reuse_cycles h n) = Inr al'"
    "slot_free_on_top al' (h\<lparr>gi_generation := gi_generation h + of_nat n\<rparr>)" by blast
  from reuse_cycle [OF al'(2)] al'(1) show ?case
    by (auto simp: reuse_cycles_def gia_run_append algebra_simps)
qed

text \<open>
  the generation counter wraps and revives a stale handle. After a live handle is
  deallocated and its slot is reused \<open>2 ^ 32\<close> times in all, \<^verbatim>\<open>allocate\<close> hands out a handle equal
  to the stale one, and \<^verbatim>\<open>is_alive\<close> accepts the stale copy.
\<close>

theorem gia_generation_wrap_revives:
  assumes "gia_is_alive al h"
  shows "\<exists>al' al''. gia_run (gia_deallocate al h) (reuse_cycles h (2 ^ 32 - 1)) = Inr al' \<and>
    gia_allocate al' = Inr (h, al'') \<and> gia_is_alive al'' h"
proof -
  have "slot_free_on_top (gia_deallocate al h) h"
    using assms by (auto simp: slot_free_on_top_def gia_deallocate_def gia_is_alive_def)
  from reuse_cycles_run [OF this, of "2 ^ 32 - 1"] obtain al' where
    al': "gia_run (gia_deallocate al h) (reuse_cycles h (2 ^ 32 - 1)) = Inr al'"
    and top: "slot_free_on_top al' (h\<lparr>gi_generation := gi_generation h + of_nat (2 ^ 32 - 1)\<rparr>)" by blast
  have "gi_generation h + of_nat (2 ^ 32 - 1) + 1 = gi_generation h"
    by simp
  with top obtain al'' where "gia_allocate al' = Inr (h, al'')" "gia_is_alive al'' h"
    by (auto simp: slot_free_on_top_def gia_allocate_def Let_def gia_is_alive_def)
  with al' show ?thesis by blast
qed

theorem gia_generation_wrap_revives_witness:
  "let al = \<lparr>m_entries = [\<lparr>ge_alive = True, ge_generation = 5\<rparr>], m_free_indices = []\<rparr>;
       h = \<lparr>gi_index = 0, gi_generation = 5\<rparr>
   in \<exists>al' al''. gia_run (gia_deallocate al h) (reuse_cycles h (2 ^ 32 - 1)) = Inr al' \<and>
        gia_allocate al' = Inr (h, al'') \<and> gia_is_alive al'' h"
  unfolding Let_def by (rule gia_generation_wrap_revives) (simp add: gia_is_alive_def)

section \<open>The vector\<close>

lemma gv_grow_eq: "gv_grow es i = es @ replicate (Suc i - length es) None"
proof (induction es i rule: gv_grow.induct)
  case (1 es i)
  then show ?case
    by (subst gv_grow.simps) (auto simp: Suc_diff_le replicate_append_same)
qed

text \<open>The generation stored at a position, if any.\<close>

definition gv_generation :: "'T generational_vector \<Rightarrow> u32 \<Rightarrow> u32 option" where
  "gv_generation es i = (if unat i < length es then map_option gs_generation (es ! unat i) else None)"

definition gv_accepts :: "'T generational_vector \<Rightarrow> generational_index \<Rightarrow> bool" where
  "gv_accepts es h \<longleftrightarrow> (\<forall>g. gv_generation es (gi_index h) = Some g \<longrightarrow> g \<le> gi_generation h)"

lemma gv_set_slot:
  fixes es :: "'T generational_vector"
  shows "(let es' = gv_set es h v in
     (if unat j < length es' then es' ! unat j else None) =
     (if gv_accepts es h \<and> j = gi_index h then Some \<lparr>gs_generation = gi_generation h, gs_value = v\<rparr>
      else if unat j < length es then es ! unat j else None))"
  by (cases "unat (gi_index h) < length es")
    (auto simp: gv_set_def gv_accepts_def gv_generation_def gv_grow_eq Let_def nth_append not_less nth_list_update
      split: option.splits)

lemma gv_get_set_slots:
  "gv_get (gv_set es h v) h' =
     (if \<not> gv_accepts es h \<or> gi_index h' \<noteq> gi_index h then gv_get es h'
      else if h' = h then Some v else None)"
proof -
  have get: "gv_get xs k = (case (if unat (gi_index k) < length xs then xs ! unat (gi_index k) else None) of
      None \<Rightarrow> None | Some e \<Rightarrow> if gs_generation e = gi_generation k then Some (gs_value e) else None)"
    for xs :: "'a generational_vector" and k
    by (auto simp: gv_get_def)
  show ?thesis
    unfolding get [of "gv_set es h v"] gv_set_slot [unfolded Let_def] get [of es]
    by (auto simp: handle_eq_iff)
qed

text \<open>
  what \<^verbatim>\<open>get\<close> returns after \<^verbatim>\<open>set(h, v)\<close>, for every handle. If the slot holds a newer
  generation the vector's contents are unchanged. Otherwise \<open>h\<close> reads \<open>v\<close>, every other handle of
  the same slot reads null, and handles of other slots read what they read before.
\<close>

theorem gv_get_set:
  "gv_get (gv_set es h v) h' =
     (if \<not> gv_accepts es h then gv_get es h'
      else if gi_index h' \<noteq> gi_index h then gv_get es h'
      else if h' = h then Some v else None)"
  by (simp add: gv_get_set_slots)

text \<open>
  \<^verbatim>\<open>remove(h)\<close> clears the slot whatever the generation of \<open>h\<close>: every handle of that slot
  reads null afterwards, also a live one of a newer generation when \<open>h\<close> itself is stale.
\<close>

theorem gv_get_remove:
  "gv_get (gv_remove es h) h' = (if gi_index h' = gi_index h then None else gv_get es h')"
  by (auto simp: gv_get_def gv_remove_def nth_list_update)

subsection \<open>The scans\<close>

definition gv_entry_at :: "'T generational_vector \<Rightarrow> nat \<Rightarrow> (generational_index \<times> 'T) option" where
  "gv_entry_at es i =
     map_option (\<lambda>e. (\<lparr>gi_index = of_nat i, gi_generation = gs_generation e\<rparr>, gs_value e)) (es ! i)"

text \<open>The entries a scan reports from position \<open>i\<close> on, in order.\<close>

definition gv_live_entries ::
  "(generational_index \<Rightarrow> bool) \<Rightarrow> 'T generational_vector \<Rightarrow> nat \<Rightarrow> (generational_index \<times> 'T) list" where
  "gv_live_entries alive es i =
     filter (alive \<circ> fst) (List.map_filter (gv_entry_at es) [i..<length es])"

lemma gv_live_entries_step:
  "i < length es \<Longrightarrow> gv_live_entries alive es i =
     (case gv_entry_at es i of
        None \<Rightarrow> gv_live_entries alive es (Suc i)
      | Some p \<Rightarrow> if alive (fst p) then p # gv_live_entries alive es (Suc i) else gv_live_entries alive es (Suc i))"
  by (auto simp: gv_live_entries_def upt_conv_Cons map_filter_simps split: option.splits)

lemma gv_live_entries_end: "length es \<le> i \<Longrightarrow> gv_live_entries alive es i = []"
  by (simp add: gv_live_entries_def map_filter_simps)

lemma gv_scan_all_eq:
  fixes es :: "'T generational_vector"
  assumes "length es < 2 ^ 32" and "unat i \<le> length es"
  shows "gv_scan_all alive es i acc = Some (acc @ map fst (gv_live_entries alive es (unat i)))"
  using assms(2)
proof (induction "length es - unat i" arbitrary: i acc)
  case 0
  then show ?case
    by (subst gv_scan_all.simps) (simp add: gv_live_entries_end)
next
  case (Suc n)
  then have i: "unat i < length es" by simp
  with assms(1) have s: "unat (i + 1) = Suc (unat i)"
    by (simp add: unat_Suc_no_wrap)
  have IH: "gv_scan_all alive es (i + 1) acc' = Some (acc' @ map fst (gv_live_entries alive es (Suc (unat i))))" for acc'
    using Suc.hyps(1) [of "i + 1" acc'] Suc.hyps(2) i s by simp
  show ?case
    using i by (subst gv_scan_all.simps)
      (auto simp: IH Let_def gv_live_entries_step gv_entry_at_def split: option.splits)
qed

lemma gv_scan_first_eq:
  fixes es :: "'T generational_vector"
  assumes "length es < 2 ^ 32" and "unat i \<le> length es"
  shows "gv_scan_first alive es i =
    Some (case gv_live_entries alive es (unat i) of [] \<Rightarrow> None | p # _ \<Rightarrow> Some p)"
  using assms(2)
proof (induction "length es - unat i" arbitrary: i)
  case 0
  then show ?case
    by (subst gv_scan_first.simps) (simp add: gv_live_entries_end)
next
  case (Suc n)
  then have i: "unat i < length es" by simp
  with assms(1) have s: "unat (i + 1) = Suc (unat i)"
    by (simp add: unat_Suc_no_wrap)
  have IH: "gv_scan_first alive es (i + 1) =
      Some (case gv_live_entries alive es (Suc (unat i)) of [] \<Rightarrow> None | p # _ \<Rightarrow> Some p)"
    using Suc.hyps(1) [of "i + 1"] Suc.hyps(2) i s by simp
  show ?case
    using i by (subst gv_scan_first.simps)
      (auto simp: IH Let_def gv_live_entries_step gv_entry_at_def split: option.splits)
qed

lemma gv_live_entries_mem:
  assumes "length es < 2 ^ 32"
  shows "(h, v) \<in> set (gv_live_entries alive es 0) \<longleftrightarrow> alive h \<and> gv_get es h = Some v"
proof -
  have "(h, v) \<in> set (gv_live_entries alive es 0) \<longleftrightarrow>
      alive h \<and> (\<exists>i < length es. gv_entry_at es i = Some (h, v))"
    by (auto simp: gv_live_entries_def map_filter_def image_iff)
  also have "(\<exists>i < length es. gv_entry_at es i = Some (h, v)) \<longleftrightarrow> gv_get es h = Some v"
  proof
    assume "\<exists>i < length es. gv_entry_at es i = Some (h, v)"
    then obtain i where i: "i < length es" "gv_entry_at es i = Some (h, v)" by blast
    have "unat (of_nat i :: u32) = i"
      using i(1) assms by (simp add: unat_of_nat)
    with i show "gv_get es h = Some v"
      by (auto simp: gv_entry_at_def gv_get_def)
  next
    assume "gv_get es h = Some v"
    then show "\<exists>i < length es. gv_entry_at es i = Some (h, v)"
      by (intro exI [of _ "unat (gi_index h)"])
        (auto simp: gv_get_def gv_entry_at_def handle_eq_iff not_le split: if_splits option.splits)
  qed
  finally show ?thesis .
qed

lemma gv_live_entries_sorted:
  assumes "length es < 2 ^ 32"
  shows "sorted_wrt (\<lambda>p q. gi_index (fst p) < gi_index (fst q)) (gv_live_entries alive es i)"
proof (cases "i \<le> length es")
  case True
  then show ?thesis
  proof (induction i rule: inc_induct)
    case base
    then show ?case by (simp add: gv_live_entries_end)
  next
    case (step n)
    have "(of_nat n :: u32) < of_nat m" if "n < m" "m < length es" for m
      using that assms by (simp add: word_less_nat_alt unat_of_nat)
    then have "gi_index (fst p) < gi_index (fst q)"
      if "gv_entry_at es n = Some p" "q \<in> set (gv_live_entries alive es (Suc n))" for p q
      using that by (auto simp: gv_live_entries_def map_filter_def gv_entry_at_def)
    with step show ?case
      by (auto simp: gv_live_entries_step split: option.splits)
  qed
next
  case False
  then show ?thesis by (simp add: gv_live_entries_end)
qed

text \<open>
  C36: with fewer than \<open>2 ^ 32\<close> slots both scans return. \<^verbatim>\<open>get_all_valid_indices\<close> lists, in
  strictly increasing index order, exactly the handles that are alive and hold a value, and
  \<^verbatim>\<open>get_first_valid_entry\<close> returns the first of them with its value, or nothing if there is none.
\<close>

theorem gv_scans_return:
  assumes "length es < 2 ^ 32"
  shows "\<exists>hs. gv_get_all_valid_indices es al = Some hs \<and>
      sorted_wrt (\<lambda>h h'. gi_index h < gi_index h') hs \<and>
      (\<forall>h. h \<in> set hs \<longleftrightarrow> gia_is_alive al h \<and> gv_get es h \<noteq> None) \<and>
      gv_get_first_valid_entry es al =
        Some (case hs of [] \<Rightarrow> None | h # _ \<Rightarrow> Some (h, the (gv_get es h)))"
proof -
  let ?ps = "gv_live_entries (gia_is_alive al) es 0"
  have all: "gv_get_all_valid_indices es al = Some (map fst ?ps)"
    using gv_scan_all_eq [OF assms, of 0] by (simp add: gv_get_all_valid_indices_def)
  have first: "gv_get_first_valid_entry es al = Some (case ?ps of [] \<Rightarrow> None | p # _ \<Rightarrow> Some p)"
    using gv_scan_first_eq [OF assms, of 0] by (simp add: gv_get_first_valid_entry_def)
  have mem: "(h, v) \<in> set ?ps \<longleftrightarrow> gia_is_alive al h \<and> gv_get es h = Some v" for h v
    by (rule gv_live_entries_mem [OF assms])
  have "sorted_wrt (\<lambda>h h'. gi_index h < gi_index h') (map fst ?ps)"
    using gv_live_entries_sorted [OF assms] by (simp add: sorted_wrt_map)
  moreover have "h \<in> set (map fst ?ps) \<longleftrightarrow> gia_is_alive al h \<and> gv_get es h \<noteq> None" for h
    using mem by force
  moreover have "(case ?ps of [] \<Rightarrow> None | p # _ \<Rightarrow> Some p) =
      (case map fst ?ps of [] \<Rightarrow> None | h # _ \<Rightarrow> Some (h, the (gv_get es h)))"
  proof (cases ?ps)
    case (Cons p ps)
    then have "gv_get es (fst p) = Some (snd p)"
      using mem [of "fst p" "snd p"] by simp
    with Cons show ?thesis by (cases p) simp
  qed simp
  ultimately show ?thesis
    using all first by auto
qed

theorem gv_scans_return_witness:
  "\<exists>hs. gv_get_all_valid_indices (gv_set [] \<lparr>gi_index = 0, gi_generation = 0\<rparr> (7 :: int))
      \<lparr>m_entries = [\<lparr>ge_alive = True, ge_generation = 0\<rparr>], m_free_indices = []\<rparr> = Some hs \<and>
    \<lparr>gi_index = 0, gi_generation = 0\<rparr> \<in> set hs"
proof -
  let ?es = "gv_set [] \<lparr>gi_index = 0, gi_generation = 0\<rparr> (7 :: int)"
  have "length ?es < 2 ^ 32"
    by (simp add: gv_set_def gv_grow_eq Let_def)
  from gv_scans_return [OF this, of "\<lparr>m_entries = [\<lparr>ge_alive = True, ge_generation = 0\<rparr>], m_free_indices = []\<rparr>"]
  show ?thesis
    by (auto simp: gia_is_alive_def gv_get_def gv_set_def gv_grow_eq Let_def)
qed

lemma unat_less_full: "unat (i :: u32) < 2 ^ 32"
  using unsigned_less [of i, where ?'a = nat] by simp

lemma gv_scan_all_returns:
  "gv_scan_all alive es i acc = Some y \<Longrightarrow> length es \<noteq> 2 ^ 32"
proof (rule gv_scan_all.raw_induct [where P = "\<lambda>_ es _ _ _. length es \<noteq> 2 ^ 32"])
  fix f :: "(generational_index \<Rightarrow> bool) \<Rightarrow> 'a generational_vector \<Rightarrow> u32 \<Rightarrow> generational_index list \<Rightarrow> generational_index list option"
    and alive es i acc y
  assume IH: "\<And>alive es i acc y. f alive es i acc = Some y \<Longrightarrow> length es \<noteq> 2 ^ 32"
    and body: "(if unat i < length es
      then f alive es (i + 1)
             (case es ! unat i of
                None \<Rightarrow> acc
              | Some e \<Rightarrow>
                  (let idx = \<lparr>gi_index = i, gi_generation = gs_generation e\<rparr>
                   in if alive idx then acc @ [idx] else acc))
      else Some acc) = Some y"
  show "length es \<noteq> 2 ^ 32"
  proof (cases "unat i < length es")
    case True
    with body IH show ?thesis by simp
  next
    case False
    then show ?thesis using unat_less_full [of i] by linarith
  qed
qed

lemma gv_scan_first_returns:
  "gv_scan_first alive es i = Some y \<Longrightarrow> length es = 2 ^ 32 \<Longrightarrow>
   \<exists>h v. y = Some (h, v) \<and> alive h \<and> gv_get es h = Some v"
proof (rule gv_scan_first.raw_induct
    [where P = "\<lambda>alive es _ y. length es = 2 ^ 32 \<longrightarrow> (\<exists>h v. y = Some (h, v) \<and> alive h \<and> gv_get es h = Some v)",
     THEN mp])
  fix f :: "(generational_index \<Rightarrow> bool) \<Rightarrow> 'a generational_vector \<Rightarrow> u32 \<Rightarrow> (generational_index \<times> 'a) option option"
    and alive es i y
  assume IH: "\<And>alive es i y. f alive es i = Some y \<Longrightarrow>
      length es = 2 ^ 32 \<longrightarrow> (\<exists>h v. y = Some (h, v) \<and> alive h \<and> gv_get es h = Some v)"
    and body: "(if unat i < length es
      then (case es ! unat i of
              None \<Rightarrow> f alive es (i + 1)
            | Some e \<Rightarrow>
                (let idx = \<lparr>gi_index = i, gi_generation = gs_generation e\<rparr>
                 in if alive idx then Some (Some (idx, gs_value e)) else f alive es (i + 1)))
      else Some None) = Some y"
  show "length es = 2 ^ 32 \<longrightarrow> (\<exists>h v. y = Some (h, v) \<and> alive h \<and> gv_get es h = Some v)"
  proof
    assume len: "length es = 2 ^ 32"
    then have i: "unat i < length es"
      using unat_less_full by simp
    show "\<exists>h v. y = Some (h, v) \<and> alive h \<and> gv_get es h = Some v"
    proof (cases "f alive es (i + 1) = Some y")
      case True
      with IH len show ?thesis by blast
    next
      case False
      with body i obtain e where "es ! unat i = Some e" "alive \<lparr>gi_index = i, gi_generation = gs_generation e\<rparr>"
        "y = Some (\<lparr>gi_index = i, gi_generation = gs_generation e\<rparr>, gs_value e)"
        by (auto simp: Let_def split: option.splits if_splits)
      with i show ?thesis by (simp add: gv_get_def)
    qed
  qed
qed

text \<open>
  with \<open>2 ^ 32\<close> slots, which a \<^verbatim>\<open>set\<close> at the largest index creates, the 32-bit counter
  never reaches the size: \<^verbatim>\<open>get_all_valid_indices\<close> does not return, and neither does
  \<^verbatim>\<open>get_first_valid_entry\<close> when no live handle holds a value.
\<close>

theorem gv_scans_diverge:
  assumes "length es \<le> 2 ^ 32" and "gi_index h = 2 ^ 32 - 1"
    and "es' = gv_set es h v"
  shows "gv_get_all_valid_indices es' al = None \<and>
    ((\<forall>k. gia_is_alive al k \<longrightarrow> gv_get es' k = None) \<longrightarrow> gv_get_first_valid_entry es' al = None)"
proof -
  have "unat (2 ^ 32 - 1 :: u32) = 2 ^ 32 - 1" by simp
  then have len: "length es' = 2 ^ 32"
    using assms(1) unfolding assms(3) gv_set_def Let_def gv_grow_eq assms(2) by simp
  have "gv_get_all_valid_indices es' al = None"
    using gv_scan_all_returns len by (fastforce simp: gv_get_all_valid_indices_def)
  moreover have "gv_get_first_valid_entry es' al = None" if "\<forall>k. gia_is_alive al k \<longrightarrow> gv_get es' k = None"
  proof (rule ccontr)
    assume "gv_get_first_valid_entry es' al \<noteq> None"
    then obtain y where "gv_scan_first (gia_is_alive al) es' 0 = Some y"
      by (auto simp: gv_get_first_valid_entry_def)
    from gv_scan_first_returns [OF this len] that show False by auto
  qed
  ultimately show ?thesis by blast
qed

theorem gv_scans_diverge_witness:
  "gv_get_all_valid_indices (gv_set [] \<lparr>gi_index = 2 ^ 32 - 1, gi_generation = 0\<rparr> (7 :: int)) gia_empty = None \<and>
   gv_get_first_valid_entry (gv_set [] \<lparr>gi_index = 2 ^ 32 - 1, gi_generation = 0\<rparr> (7 :: int)) gia_empty = None"
proof -
  have "\<forall>k. gia_is_alive gia_empty k \<longrightarrow> gv_get (gv_set [] \<lparr>gi_index = 2 ^ 32 - 1, gi_generation = 0\<rparr> (7 :: int)) k = None"
    by (simp add: gia_is_alive_def gia_empty_def)
  then show ?thesis
    using gv_scans_diverge [of "[]" "\<lparr>gi_index = 2 ^ 32 - 1, gi_generation = 0\<rparr>" _ 7 gia_empty] by fastforce
qed

section \<open>Allocator and vector together\<close>

text \<open>
  The two classes are used together: handles come from the allocator and index the vector. No
  stored generation is newer than the allocator's.
\<close>

definition gv_consistent :: "'T generational_vector \<Rightarrow> generational_index_allocator \<Rightarrow> bool" where
  "gv_consistent es al \<longleftrightarrow>
     (\<forall>i g. gv_generation es i = Some g \<longrightarrow> unat i < length (m_entries al) \<and> g \<le> ge_generation (m_entries al ! unat i))"

definition gia_no_wrap :: "generational_index_allocator \<Rightarrow> bool" where
  "gia_no_wrap al \<longleftrightarrow> (\<forall>e \<in> set (m_entries al). ge_generation e \<noteq> 2 ^ 32 - 1)"

lemma gv_generation_set:
  "gv_generation (gv_set es h v) i =
     (if gv_accepts es h \<and> i = gi_index h then Some (gi_generation h) else gv_generation es i)"
  using gv_set_slot [where es = es and h = h and v = v and j = i]
  by (auto simp: gv_generation_def Let_def split: if_splits)

lemma word_le_Suc:
  assumes "(a :: u32) \<le> b" and "b \<noteq> 2 ^ 32 - 1"
  shows "a \<le> b + 1"
proof -
  have "unat b \<noteq> 2 ^ 32 - 1"
    using assms(2) by (simp add: word_unat_eq_iff)
  then have "unat b < 2 ^ 32 - 1"
    using unat_less_full [of b] by linarith
  then have "b < 2 ^ 32 - 1"
    by (simp add: word_less_nat_alt)
  then show ?thesis
    using assms(1) unat_inc_less [of b "2 ^ 32 - 1"] by (simp add: word_le_nat_alt)
qed

lemma gia_allocate_entry:
  assumes "gia_inv al" and "gia_no_wrap al" and "gia_has_room al" and "gia_allocate al = Inr (h, al')"
  shows "unat (gi_index h) < length (m_entries al') \<and>
    ge_generation (m_entries al' ! unat (gi_index h)) = gi_generation h \<and>
    length (m_entries al) \<le> length (m_entries al') \<and>
    (\<forall>i < length (m_entries al). \<forall>g \<le> ge_generation (m_entries al ! i). g \<le> ge_generation (m_entries al' ! i))"
proof (cases "m_free_indices al = []")
  case True
  have "unat (of_nat (length (m_entries al)) :: u32) = length (m_entries al)"
    using assms(3) True by (simp add: gia_has_room_def unat_of_nat)
  with True assms(4) show ?thesis
    by (auto simp: gia_allocate_def Let_def nth_append)
next
  case False
  with assms(2,4) show ?thesis
    by (auto simp: gia_allocate_def Let_def nth_list_update gia_no_wrap_def intro!: word_le_Suc split: if_splits)
qed

text \<open>
  inserting a value. When the allocator hands out \<open>h\<close> and the value is stored under it,
  \<open>h\<close> reads the value, every handle that was alive reads what it read before, every other handle
  of the slot, so every stale one, reads null, and no stored generation is newer than the
  allocator's. The slot generations must not be at their maximum.
\<close>

theorem gv_insert_new_handle:
  assumes "gia_inv al" and "gia_has_room al" and "gia_no_wrap al" and "gv_consistent es al"
    and "gia_allocate al = Inr (h, al')"
  shows "gv_get (gv_set es h v) h = Some v \<and>
    (\<forall>h'. gia_is_alive al h' \<longrightarrow> gv_get (gv_set es h v) h' = gv_get es h') \<and>
    (\<forall>h'. gi_index h' = gi_index h \<and> h' \<noteq> h \<longrightarrow> gv_get (gv_set es h v) h' = None) \<and>
    gv_consistent (gv_set es h v) al'"
proof -
  note ent = gia_allocate_entry [OF assms(1,3,2,5)]
  have acc: "gv_accepts es h"
    using ent assms(4) unfolding gv_accepts_def gv_consistent_def by metis
  have live: "gia_is_alive al' h'" "h' \<noteq> h" if "gia_is_alive al h'" for h'
    using gia.alloc_law [OF assms(1,2)] assms(5) that by (auto simp: gia_live_def)
  have h: "gia_is_alive al' h"
    using gia.alloc_law [OF assms(1,2)] assms(5) by (auto simp: gia_live_def)
  have other: "gi_index h' \<noteq> gi_index h" if "gia_is_alive al h'" for h'
    using live [OF that] h by (auto simp: gia_is_alive_def handle_eq_iff)
  have get: "gv_get (gv_set es h v) h' =
      (if gi_index h' \<noteq> gi_index h then gv_get es h' else if h' = h then Some v else None)" for h'
    using acc by (simp add: gv_get_set_slots)
  have "gv_consistent (gv_set es h v) al'"
    using ent assms(4) unfolding gv_consistent_def gv_generation_set by (auto simp: acc dest: order.strict_trans2)
  with get other show ?thesis by simp
qed

theorem gv_insert_new_handle_witness:
  "let al = \<lparr>m_entries = [\<lparr>ge_alive = False, ge_generation = 4\<rparr>], m_free_indices = [0]\<rparr>;
       es = [Some \<lparr>gs_generation = 4, gs_value = 1\<rparr>];
       h = \<lparr>gi_index = 0, gi_generation = 5\<rparr>
   in (\<exists>al'. gia_allocate al = Inr (h, al')) \<and>
      gv_get (gv_set es h (2 :: int)) h = Some 2 \<and>
      gv_get (gv_set es h 2) \<lparr>gi_index = 0, gi_generation = 4\<rparr> = None"
proof -
  let ?al = "\<lparr>m_entries = [\<lparr>ge_alive = False, ge_generation = 4\<rparr>], m_free_indices = [0]\<rparr>"
  let ?es = "[Some \<lparr>gs_generation = 4, gs_value = 1 :: int\<rparr>]"
  let ?h = "\<lparr>gi_index = 0, gi_generation = 5\<rparr>"
  obtain al' where al': "gia_allocate ?al = Inr (?h, al')"
    by (simp add: gia_allocate_def)
  have "gia_inv ?al" "gia_has_room ?al" "gia_no_wrap ?al" "gv_consistent ?es ?al"
    by (auto simp: gia_inv_def gia_has_room_def gia_no_wrap_def gv_consistent_def gv_generation_def
        nth_Cons unat_eq_0 split: nat.splits)
  from gv_insert_new_handle [OF this al', of 2] al' show ?thesis
    by (auto simp: Let_def)
qed

end
