(* ===== verification/Spsc_Queue.thy ===== *)
theory Spsc_Queue
  imports Sap_Prelude
begin

text \<open>
  The single-producer single-consumer ring buffer, \<^verbatim>\<open>include/sap_core/stl/spsc_queue.h\<close>. The
  first part translates \<^verbatim>\<open>try_push\<close> and \<^verbatim>\<open>try_pop\<close> as calls that run alone and shows that they
  implement a bounded FIFO. The second part is the concurrent queue: one producer and one consumer
  whose loads and stores interleave, in which an acquire load may return any store of the other
  thread that is not older than the one seen last.
\<close>

section \<open>The calls\<close>

record 'T spsc_queue =
  m_head :: size_t
  m_tail :: size_t
  m_buffer :: "'T list"

definition spsc_queue_make :: "size_t \<Rightarrow> 'T \<Rightarrow> 'T spsc_queue" where
  "spsc_queue_make capacity init = \<lparr>m_head = 0, m_tail = 0, m_buffer = replicate (unat capacity) init\<rparr>"

text \<open>\<^verbatim>\<open>(head + 1) & (Capacity - 1)\<close>\<close>

definition ring_next :: "size_t \<Rightarrow> size_t \<Rightarrow> size_t" where
  "ring_next capacity i = (i + 1) AND (capacity - 1)"

definition try_push :: "size_t \<Rightarrow> 'T spsc_queue \<Rightarrow> 'T \<Rightarrow> (bool \<times> 'T spsc_queue) outcome" where
  "try_push capacity q item =
     (let head = m_head q;
          nxt = ring_next capacity head
      in if nxt = m_tail q then Inr (False, q)
         else if unat head < length (m_buffer q)
              then Inr (True, q\<lparr>m_buffer := (m_buffer q)[unat head := item], m_head := nxt\<rparr>)
              else Inl Out_Of_Bounds)"

text \<open>
  The overload that takes \<^verbatim>\<open>T&&\<close>. The caller's object is \<^term>\<open>Some item\<close> before the call and is
  moved from, \<^term>\<open>None\<close>, only where the code executes \<^verbatim>\<open>std::move(item)\<close> in the assignment.
\<close>

definition try_push_move ::
  "size_t \<Rightarrow> 'T spsc_queue \<Rightarrow> 'T \<Rightarrow> (bool \<times> 'T option \<times> 'T spsc_queue) outcome" where
  "try_push_move capacity q item =
     (let head = m_head q;
          nxt = ring_next capacity head
      in if nxt = m_tail q then Inr (False, Some item, q)
         else if unat head < length (m_buffer q)
              then Inr (True, None, q\<lparr>m_buffer := (m_buffer q)[unat head := item], m_head := nxt\<rparr>)
              else Inl Out_Of_Bounds)"

text \<open>\<^verbatim>\<open>try_pop(item)\<close> assigns to the caller's object on success: the result is that value.\<close>

definition try_pop :: "size_t \<Rightarrow> 'T spsc_queue \<Rightarrow> ('T option \<times> 'T spsc_queue) outcome" where
  "try_pop capacity q =
     (let tail = m_tail q
      in if tail = m_head q then Inr (None, q)
         else if unat tail < length (m_buffer q)
              then Inr (Some (m_buffer q ! unat tail), q\<lparr>m_tail := ring_next capacity tail\<rparr>)
              else Inl Out_Of_Bounds)"

subsection \<open>Specification\<close>

definition ring_size :: "nat \<Rightarrow> nat \<Rightarrow> nat \<Rightarrow> nat" where
  "ring_size c h t = (h + c - t) mod c"

text \<open>The queued items, oldest first.\<close>

definition spsc_contents :: "size_t \<Rightarrow> 'T spsc_queue \<Rightarrow> 'T list" where
  "spsc_contents capacity q =
     map (\<lambda>i. m_buffer q ! ((unat (m_tail q) + i) mod unat capacity))
       [0..<ring_size (unat capacity) (unat (m_head q)) (unat (m_tail q))]"

definition spsc_inv :: "size_t \<Rightarrow> 'T spsc_queue \<Rightarrow> bool" where
  "spsc_inv capacity q \<longleftrightarrow>
     power_of_two capacity \<and> m_head q < capacity \<and> m_tail q < capacity \<and> length (m_buffer q) = unat capacity"

text \<open>A bounded FIFO, as a client of the queue sees it.\<close>

locale bounded_fifo =
  fixes push :: "'q \<Rightarrow> 'a \<Rightarrow> (bool \<times> 'q) outcome"
    and pop :: "'q \<Rightarrow> ('a option \<times> 'q) outcome"
    and contents :: "'q \<Rightarrow> 'a list"
    and inv :: "'q \<Rightarrow> bool"
    and bound :: nat
  assumes push_law: "inv q \<Longrightarrow>
      \<exists>q'. push q x = Inr (length (contents q) < bound, q') \<and> inv q' \<and>
        contents q' = (if length (contents q) < bound then contents q @ [x] else contents q)"
    and pop_law: "inv q \<Longrightarrow>
      \<exists>q'. pop q = Inr (if contents q = [] then None else Some (hd (contents q)), q') \<and> inv q' \<and>
        contents q' = tl (contents q)"
begin

text \<open>Pushing a list of items as far as it goes, and popping until the queue is empty.\<close>

fun push_all :: "'q \<Rightarrow> 'a list \<Rightarrow> (nat \<times> 'q) outcome" where
  "push_all q [] = Inr (0, q)"
| "push_all q (x # xs) = out_bind (push q x) (\<lambda>(ok, q').
     if ok then out_bind (push_all q' xs) (\<lambda>(n, q''). Inr (Suc n, q'')) else Inr (0, q'))"

fun pop_n :: "'q \<Rightarrow> nat \<Rightarrow> ('a list \<times> 'q) outcome" where
  "pop_n q 0 = Inr ([], q)"
| "pop_n q (Suc n) = out_bind (pop q) (\<lambda>(r, q').
     case r of None \<Rightarrow> Inr ([], q') | Some x \<Rightarrow> out_bind (pop_n q' n) (\<lambda>(xs, q''). Inr (x # xs, q'')))"

lemma push_all_spec:
  assumes "inv q" and "length (contents q) \<le> bound"
  shows "\<exists>q'. push_all q xs = Inr (min (length xs) (bound - length (contents q)), q') \<and> inv q' \<and>
    contents q' = contents q @ take (bound - length (contents q)) xs"
  using assms
proof (induction xs arbitrary: q)
  case (Cons x xs)
  from push_law [OF Cons.prems(1), of x] obtain q1 where
    q1: "push q x = Inr (length (contents q) < bound, q1)" "inv q1"
      "contents q1 = (if length (contents q) < bound then contents q @ [x] else contents q)" by blast
  show ?case
  proof (cases "length (contents q) < bound")
    case True
    then obtain k where k: "bound = Suc (length (contents q) + k)"
      using less_iff_Suc_add by blast
    from Cons.IH [OF q1(2)] q1(3) True k obtain q2 where
      "push_all q1 xs = Inr (min (length xs) k, q2)" "inv q2" "contents q2 = contents q @ x # take k xs" by auto
    with q1(1) True k show ?thesis by simp
  qed (use q1 in auto)
qed auto

lemma pop_n_spec:
  assumes "inv q"
  shows "\<exists>q'. pop_n q n = Inr (take n (contents q), q') \<and> inv q' \<and> contents q' = drop n (contents q)"
  using assms
proof (induction n arbitrary: q)
  case (Suc n)
  from pop_law [OF Suc.prems] obtain q1 where
    q1: "pop q = Inr (if contents q = [] then None else Some (hd (contents q)), q1)" "inv q1"
      "contents q1 = tl (contents q)" by blast
  with Suc.IH [OF q1(2)] show ?case
    by (cases "contents q") auto
qed auto

text \<open>Filling the queue and then draining it returns the items accepted, in order.\<close>

lemma fill_drain:
  assumes "inv q" and "contents q = []"
  shows "\<exists>n q' q''. push_all q xs = Inr (n, q') \<and> pop_n q' n = Inr (take bound xs, q'') \<and> n = min (length xs) bound"
proof -
  from push_all_spec [OF assms(1), of xs] assms(2) obtain q' where
    q': "push_all q xs = Inr (min (length xs) bound, q')" "inv q'" "contents q' = take bound xs" by auto
  from pop_n_spec [OF q'(2), of "min (length xs) bound"] q' show ?thesis
    by (auto simp: min_def)
qed

end

section \<open>Ring arithmetic\<close>

lemma ring_size_if:
  assumes "h < c" and "t < c"
  shows "ring_size c h t = (if t \<le> h then h - t else h + c - t)"
proof (cases "t \<le> h")
  case True
  then have eq: "h + c - t = (h - t) + c" by simp
  have "(d + c) mod c = d" if "d < c" for d
    using that by simp
  from this [of "h - t"] True assms show ?thesis
    unfolding ring_size_def eq by (simp only: if_True less_imp_diff_less)
qed (use assms in \<open>simp add: ring_size_def\<close>)

lemma ring_size_less: "0 < c \<Longrightarrow> ring_size c h t < c"
  by (simp add: ring_size_def)

lemma Suc_mod_if: "h < c \<Longrightarrow> Suc h mod c = (if Suc h = c then 0 else Suc h)"
  by auto

lemma add_mod_if: "(t::nat) < c \<Longrightarrow> i < c \<Longrightarrow> (t + i) mod c = (if t + i < c then t + i else t + i - c)"
  by (auto simp: mod_if)

lemma ring_full_iff:
  assumes "h < c" and "t < c"
  shows "Suc h mod c = t \<longleftrightarrow> Suc (ring_size c h t) = c"
  using assms by (auto simp: ring_size_if Suc_mod_if)

lemma ring_empty_iff: "h < c \<Longrightarrow> t < c \<Longrightarrow> t = h \<longleftrightarrow> ring_size c h t = 0"
  by (auto simp: ring_size_if split: if_splits)

lemma ring_size_push:
  assumes "h < c" and "t < c" and "Suc (ring_size c h t) \<noteq> c"
  shows "ring_size c (Suc h mod c) t = Suc (ring_size c h t)"
  using assms by (auto simp: ring_size_if Suc_mod_if split: if_splits)

lemma ring_size_pop:
  assumes "h < c" and "t < c" and "t \<noteq> h"
  shows "Suc (ring_size c h (Suc t mod c)) = ring_size c h t"
  using assms by (auto simp: ring_size_if Suc_mod_if split: if_splits)

lemma ring_head:
  assumes "h < c" and "t < c"
  shows "(t + ring_size c h t) mod c = h"
  using assms by (auto simp: ring_size_if)

lemma ring_slot_neq_head:
  assumes "h < c" and "t < c" and "i < ring_size c h t"
  shows "(t + i) mod c \<noteq> h"
  using assms ring_size_less [of c h t] by (auto simp: ring_size_if add_mod_if split: if_splits)

lemma unat_ring_next:
  assumes "power_of_two c" and "i < c"
  shows "unat (ring_next c i) = Suc (unat i) mod unat c"
  using assms by (simp add: ring_next_def unat_and_pred unat_inc_less)

section \<open>The calls implement a bounded FIFO\<close>

lemma spsc_inv_nat:
  assumes "spsc_inv c q"
  shows "power_of_two c" "unat (m_head q) < unat c" "unat (m_tail q) < unat c" "length (m_buffer q) = unat c"
    "m_head q < c" "m_tail q < c"
  using assms by (auto simp: spsc_inv_def word_less_nat_alt)

lemma ring_next_less: "power_of_two c \<Longrightarrow> i < c \<Longrightarrow> ring_next c i < c"
  using power_of_two_pos [of c] by (simp add: word_less_nat_alt unat_ring_next)

lemma spsc_push:
  assumes inv: "spsc_inv c q"
  shows "\<exists>q'. try_push c q x = Inr (length (spsc_contents c q) < unat c - 1, q') \<and> spsc_inv c q' \<and>
    spsc_contents c q' = (if length (spsc_contents c q) < unat c - 1 then spsc_contents c q @ [x] else spsc_contents c q)"
proof -
  let ?h = "unat (m_head q)" and ?t = "unat (m_tail q)" and ?c = "unat c"
  let ?n = "ring_size ?c ?h ?t"
  note i = spsc_inv_nat [OF inv]
  have n: "length (spsc_contents c q) = ?n"
    by (simp add: spsc_contents_def)
  have nx: "unat (ring_next c (m_head q)) = Suc ?h mod ?c"
    using unat_ring_next i by blast
  have full: "ring_next c (m_head q) = m_tail q \<longleftrightarrow> Suc ?n = ?c"
    using ring_full_iff [OF i(2,3)] nx by (metis unat_eq_unat_iff)
  have lt: "?n < ?c"
    using i(2) by (simp add: ring_size_less)
  show ?thesis
  proof (cases "Suc ?n = ?c")
    case True
    with full inv n show ?thesis by (auto simp: try_push_def Let_def)
  next
    case False
    let ?q = "q\<lparr>m_buffer := (m_buffer q)[?h := x], m_head := ring_next c (m_head q)\<rparr>"
    have "try_push c q x = Inr (True, ?q)"
      using False full i by (simp add: try_push_def Let_def)
    moreover have "spsc_inv c ?q"
      using i ring_next_less by (auto simp: spsc_inv_def)
    moreover have "spsc_contents c ?q = spsc_contents c q @ [x]"
    proof -
      have "(m_buffer q)[?h := x] ! ((?t + j) mod ?c) = m_buffer q ! ((?t + j) mod ?c)" if "j < ?n" for j
        using ring_slot_neq_head [OF i(2,3) that] by simp
      then show ?thesis
        using ring_size_push [OF i(2,3) False] ring_head [OF i(2,3)] i(2,4)
        by (simp add: spsc_contents_def nx)
    qed
    ultimately show ?thesis
      using False n lt by auto
  qed
qed

lemma spsc_pop:
  assumes inv: "spsc_inv c q"
  shows "\<exists>q'. try_pop c q = Inr (if spsc_contents c q = [] then None else Some (hd (spsc_contents c q)), q') \<and>
    spsc_inv c q' \<and> spsc_contents c q' = tl (spsc_contents c q)"
proof -
  let ?h = "unat (m_head q)" and ?t = "unat (m_tail q)" and ?c = "unat c"
  let ?n = "ring_size ?c ?h ?t"
  note i = spsc_inv_nat [OF inv]
  have empty: "m_tail q = m_head q \<longleftrightarrow> ?n = 0"
    using ring_empty_iff [OF i(2,3)] by (metis unat_eq_unat_iff)
  show ?thesis
  proof (cases "?n = 0")
    case True
    with empty inv show ?thesis by (auto simp: try_pop_def spsc_contents_def)
  next
    case False
    let ?q = "q\<lparr>m_tail := ring_next c (m_tail q)\<rparr>"
    have nx: "unat (ring_next c (m_tail q)) = Suc ?t mod ?c"
      using unat_ring_next i by blast
    have ne: "?t \<noteq> ?h"
      using False empty by auto
    have "spsc_contents c q = m_buffer q ! ?t # spsc_contents c ?q"
    proof -
      have "(Suc ?t mod ?c + j) mod ?c = (?t + Suc j) mod ?c" for j
        by (simp add: mod_simps)
      then show ?thesis
        using i(3) unfolding spsc_contents_def ring_size_pop [OF i(2,3) ne, symmetric]
        by (simp add: nx map_upt_Suc del: upt_Suc)
    qed
    moreover have "try_pop c q = Inr (Some (m_buffer q ! ?t), ?q)"
      using False empty i by (simp add: try_pop_def Let_def)
    moreover have "spsc_inv c ?q"
      using i ring_next_less by (auto simp: spsc_inv_def)
    ultimately show ?thesis by simp
  qed
qed

interpretation spsc: bounded_fifo "try_push c" "try_pop c" "spsc_contents c" "spsc_inv c" "unat c - 1"
  for c :: size_t
  by unfold_locales (rule spsc_push spsc_pop, assumption)+

lemma try_push_move_eq:
  "try_push_move c q x = out_bind (try_push c q x) (\<lambda>(ok, q'). Inr (ok, if ok then None else Some x, q'))"
  by (auto simp: try_push_move_def try_push_def Let_def)

text \<open>
  C31: run alone, the calls are a FIFO that holds at most \<^verbatim>\<open>Capacity - 1\<close> items. A push succeeds
  exactly when fewer are queued and then appends the item; a failed push changes nothing and leaves
  the caller's object unmoved. A pop returns the oldest item, or fails on an empty queue. No call
  accesses the buffer out of bounds, and all keep the indices within the capacity.
\<close>

theorem spsc_queue_bounded_fifo:
  assumes "spsc_inv c q"
  shows "\<exists>q' q''. let xs = spsc_contents c q; ok = length xs < unat c - 1 in
    try_push c q x = Inr (ok, q') \<and> try_push_move c q x = Inr (ok, if ok then None else Some x, q') \<and>
    spsc_inv c q' \<and> spsc_contents c q' = (if ok then xs @ [x] else xs) \<and>
    try_pop c q = Inr (if xs = [] then None else Some (hd xs), q'') \<and>
    spsc_inv c q'' \<and> spsc_contents c q'' = tl xs"
  using spsc.push_law [OF assms, of x] spsc.pop_law [OF assms] unfolding Let_def try_push_move_eq by force

theorem spsc_queue_bounded_fifo_witness:
  "\<exists>q'. try_push 4 (spsc_queue_make 4 (0 :: int)) 7 = Inr (True, q') \<and> spsc_contents 4 q' = [7]"
proof -
  let ?q = "spsc_queue_make 4 (0 :: int)"
  have inv: "spsc_inv 4 ?q" and empty: "spsc_contents 4 ?q = []"
    by (simp_all add: spsc_inv_def spsc_queue_make_def power_of_two_def spsc_contents_def ring_size_def)
  show ?thesis
    using spsc_queue_bounded_fifo [OF inv, of 7] by (auto simp: empty Let_def)
qed

section \<open>The concurrent queue\<close>

text \<open>
  Program counters between the atomic accesses of \<^verbatim>\<open>try_push\<close> and \<^verbatim>\<open>try_pop\<close>, with the local
  variables live there.
\<close>

datatype 'T producer_pc =
    P_Idle
  | P_Loaded 'T size_t size_t \<comment> \<open>item, head, next: before the load of \<^verbatim>\<open>m_tail\<close>\<close>
  | P_Write 'T size_t size_t \<comment> \<open>item, head, next: before the write of \<^verbatim>\<open>m_buffer[head]\<close>\<close>
  | P_Publish 'T size_t \<comment> \<open>item, next: before the store to \<^verbatim>\<open>m_head\<close>\<close>

datatype 'T consumer_pc =
    C_Idle
  | C_Loaded size_t \<comment> \<open>tail: before the load of \<^verbatim>\<open>m_head\<close>\<close>
  | C_Read size_t \<comment> \<open>tail: before the read of \<^verbatim>\<open>m_buffer[tail]\<close>\<close>
  | C_Publish size_t 'T \<comment> \<open>tail, item: before the store to \<^verbatim>\<open>m_tail\<close>\<close>

text \<open>
  \<^verbatim>\<open>m_head\<close> is stored by the producer only and \<^verbatim>\<open>m_tail\<close> by the consumer only; each atomic is the
  list of its stores in modification order, the initial value first. \<open>seen_tail\<close> and
  \<open>seen_head\<close> are the positions of the newest store of the other thread that an acquire load has
  returned: by coherence a later load returns that store or a newer one, and everything the other
  thread did before that store happens before what follows the load. \<open>pushed\<close> and \<open>popped\<close> record
  the items of the calls that returned true.
\<close>

record 'T spsc_sys =
  head_stores :: "size_t list"
  tail_stores :: "size_t list"
  buffer :: "'T list"
  seen_tail :: nat
  seen_head :: nat
  p_pc :: "'T producer_pc"
  c_pc :: "'T consumer_pc"
  pushed :: "'T list"
  popped :: "'T list"

definition spsc_init :: "size_t \<Rightarrow> 'T \<Rightarrow> 'T spsc_sys" where
  "spsc_init c init =
     \<lparr>head_stores = [0], tail_stores = [0], buffer = replicate (unat c) init, seen_tail = 0, seen_head = 0,
      p_pc = P_Idle, c_pc = C_Idle, pushed = [], popped = []\<rparr>"

inductive spsc_step :: "size_t \<Rightarrow> 'T spsc_sys \<Rightarrow> 'T spsc_sys \<Rightarrow> bool" for c where
  push_call: "p_pc s = P_Idle \<Longrightarrow> h = last (head_stores s) \<Longrightarrow>
    spsc_step c s (s\<lparr>p_pc := P_Loaded x h (ring_next c h)\<rparr>)"
| push_full: "p_pc s = P_Loaded x h nxt \<Longrightarrow> seen_tail s \<le> j \<Longrightarrow> j < length (tail_stores s) \<Longrightarrow>
    nxt = tail_stores s ! j \<Longrightarrow>
    spsc_step c s (s\<lparr>seen_tail := j, p_pc := P_Idle\<rparr>)"
| push_room: "p_pc s = P_Loaded x h nxt \<Longrightarrow> seen_tail s \<le> j \<Longrightarrow> j < length (tail_stores s) \<Longrightarrow>
    nxt \<noteq> tail_stores s ! j \<Longrightarrow>
    spsc_step c s (s\<lparr>seen_tail := j, p_pc := P_Write x h nxt\<rparr>)"
| push_write: "p_pc s = P_Write x h nxt \<Longrightarrow> unat h < length (buffer s) \<Longrightarrow>
    spsc_step c s (s\<lparr>buffer := (buffer s)[unat h := x], p_pc := P_Publish x nxt\<rparr>)"
| push_publish: "p_pc s = P_Publish x nxt \<Longrightarrow>
    spsc_step c s (s\<lparr>head_stores := head_stores s @ [nxt], pushed := pushed s @ [x], p_pc := P_Idle\<rparr>)"
| pop_call: "c_pc s = C_Idle \<Longrightarrow> t = last (tail_stores s) \<Longrightarrow>
    spsc_step c s (s\<lparr>c_pc := C_Loaded t\<rparr>)"
| pop_empty: "c_pc s = C_Loaded t \<Longrightarrow> seen_head s \<le> k \<Longrightarrow> k < length (head_stores s) \<Longrightarrow>
    t = head_stores s ! k \<Longrightarrow>
    spsc_step c s (s\<lparr>seen_head := k, c_pc := C_Idle\<rparr>)"
| pop_some: "c_pc s = C_Loaded t \<Longrightarrow> seen_head s \<le> k \<Longrightarrow> k < length (head_stores s) \<Longrightarrow>
    t \<noteq> head_stores s ! k \<Longrightarrow>
    spsc_step c s (s\<lparr>seen_head := k, c_pc := C_Read t\<rparr>)"
| pop_read: "c_pc s = C_Read t \<Longrightarrow> unat t < length (buffer s) \<Longrightarrow>
    spsc_step c s (s\<lparr>c_pc := C_Publish t (buffer s ! unat t)\<rparr>)"
| pop_publish: "c_pc s = C_Publish t x \<Longrightarrow>
    spsc_step c s (s\<lparr>tail_stores := tail_stores s @ [ring_next c t], popped := popped s @ [x], c_pc := C_Idle\<rparr>)"

inductive_cases spsc_stepE: "spsc_step c s s'"

abbreviation spsc_reach :: "size_t \<Rightarrow> 'T spsc_sys \<Rightarrow> bool" where
  "spsc_reach c s \<equiv> \<exists>init. (spsc_step c)\<^sup>*\<^sup>* (spsc_init c init) s"

subsection \<open>Invariant\<close>

definition slot :: "size_t \<Rightarrow> nat \<Rightarrow> size_t" where
  "slot c i = of_nat (i mod unat c)"

definition slots :: "size_t \<Rightarrow> nat \<Rightarrow> size_t list" where
  "slots c n = map (slot c) [0..<Suc n]"

text \<open>What each program counter knows, with \<open>n\<close> items pushed and \<open>m\<close> items popped.\<close>

fun producer_at :: "size_t \<Rightarrow> nat \<Rightarrow> nat \<Rightarrow> 'T list \<Rightarrow> 'T producer_pc \<Rightarrow> bool" where
  "producer_at c n seen buf P_Idle = True"
| "producer_at c n seen buf (P_Loaded x h nxt) = (h = slot c n \<and> nxt = slot c (Suc n))"
| "producer_at c n seen buf (P_Write x h nxt) =
     (h = slot c n \<and> nxt = slot c (Suc n) \<and> Suc n < seen + unat c)"
| "producer_at c n seen buf (P_Publish x nxt) =
     (nxt = slot c (Suc n) \<and> Suc n < seen + unat c \<and> buf ! (n mod unat c) = x)"

fun consumer_at :: "size_t \<Rightarrow> nat \<Rightarrow> nat \<Rightarrow> 'T list \<Rightarrow> 'T consumer_pc \<Rightarrow> bool" where
  "consumer_at c m seen xs C_Idle = True"
| "consumer_at c m seen xs (C_Loaded t) = (t = slot c m)"
| "consumer_at c m seen xs (C_Read t) = (t = slot c m \<and> m < seen)"
| "consumer_at c m seen xs (C_Publish t x) = (t = slot c m \<and> m < seen \<and> x = xs ! m)"

definition stores_ok :: "size_t \<Rightarrow> 'T spsc_sys \<Rightarrow> bool" where
  "stores_ok c s \<longleftrightarrow>
     head_stores s = slots c (length (pushed s)) \<and> tail_stores s = slots c (length (popped s)) \<and>
     length (popped s) \<le> seen_head s \<and> seen_head s \<le> length (pushed s) \<and>
     seen_tail s \<le> length (popped s) \<and> length (pushed s) < seen_tail s + unat c"

definition items_ok :: "size_t \<Rightarrow> 'T spsc_sys \<Rightarrow> bool" where
  "items_ok c s \<longleftrightarrow>
     length (buffer s) = unat c \<and> take (length (popped s)) (pushed s) = popped s \<and>
     (\<forall>i. length (popped s) \<le> i \<and> i < length (pushed s) \<longrightarrow> buffer s ! (i mod unat c) = pushed s ! i)"

definition spsc_sys_inv :: "size_t \<Rightarrow> 'T spsc_sys \<Rightarrow> bool" where
  "spsc_sys_inv c s \<longleftrightarrow> stores_ok c s \<and> items_ok c s \<and>
     producer_at c (length (pushed s)) (seen_tail s) (buffer s) (p_pc s) \<and>
     consumer_at c (length (popped s)) (seen_head s) (pushed s) (c_pc s)"

lemmas spsc_sys_defs = spsc_sys_inv_def stores_ok_def items_ok_def

lemma unat_slot:
  assumes "power_of_two c"
  shows "unat (slot c i) = i mod unat c"
proof -
  have "i mod unat c < 18446744073709551616"
    using mod_less_divisor [OF power_of_two_pos [OF assms], of i] unat_lt_64 [of c] by linarith
  then show ?thesis by (simp add: slot_def unat_of_nat)
qed

lemma slot_less: "power_of_two c \<Longrightarrow> slot c i < c"
  using power_of_two_pos [of c] by (simp add: word_less_nat_alt unat_slot)

lemma ring_next_slot: "power_of_two c \<Longrightarrow> ring_next c (slot c i) = slot c (Suc i)"
  using slot_less [of c i] by (simp add: word_unat_eq_iff unat_ring_next unat_slot mod_Suc_eq del: unat_eq_unat_iff)

lemma mod_eq_close:
  assumes "(i::nat) mod c = j mod c" and "i \<le> j" and "j < i + c"
  shows "i = j"
proof -
  have "c dvd j - i"
    using assms(1,2) by (simp add: mod_eq_dvd_iff_nat [symmetric])
  with assms(2,3) show ?thesis
    by (auto dest: dvd_imp_le)
qed

lemma slot_neq:
  "power_of_two c \<Longrightarrow> i < j \<Longrightarrow> j < i + unat c \<Longrightarrow> slot c i \<noteq> slot c j"
  using mod_eq_close [of i "unat c" j] by (metis less_imp_le less_irrefl unat_slot)

lemma slot_wrap: "power_of_two c \<Longrightarrow> slot c (i + unat c) = slot c i"
  by (simp add: slot_def)

lemma slots_simps [simp]:
  "length (slots c n) = Suc n"
  "slots c n \<noteq> []"
  "last (slots c n) = slot c n"
  "i \<le> n \<Longrightarrow> slots c n ! i = slot c i"
  "slots c n @ [slot c (Suc n)] = slots c (Suc n)"
proof -
  show "i \<le> n \<Longrightarrow> slots c n ! i = slot c i"
    unfolding slots_def by (subst nth_map) (simp_all del: upt_Suc)
qed (simp_all add: slots_def)

lemma spsc_init_inv: "power_of_two c \<Longrightarrow> spsc_sys_inv c (spsc_init c init)"
  using power_of_two_pos [of c] by (simp add: spsc_sys_defs spsc_init_def slots_def slot_def)

text \<open>The producer's write does not touch a slot that holds an item not yet popped.\<close>

lemma unpopped_slot_neq:
  assumes "power_of_two c" and "stores_ok c s" and "length (popped s) \<le> i" and "i < length (pushed s)"
  shows "i mod unat c \<noteq> length (pushed s) mod unat c"
  using mod_eq_close [of i "unat c" "length (pushed s)"] assms by (auto simp: stores_ok_def)

lemma consumer_at_append:
  "consumer_at c m seen xs pc \<Longrightarrow> seen \<le> length xs \<Longrightarrow> consumer_at c m seen (xs @ ys) pc"
  by (cases pc) (auto simp: nth_append)

lemma spsc_producer_step:
  assumes c: "power_of_two c" and inv: "spsc_sys_inv c s"
  shows "p_pc s = P_Idle \<Longrightarrow> h = last (head_stores s) \<Longrightarrow> spsc_sys_inv c (s\<lparr>p_pc := P_Loaded x h (ring_next c h)\<rparr>)"
    and "p_pc s = P_Loaded x h nxt \<Longrightarrow> seen_tail s \<le> j \<Longrightarrow> j < length (tail_stores s) \<Longrightarrow>
      spsc_sys_inv c (s\<lparr>seen_tail := j, p_pc := P_Idle\<rparr>)"
    and "p_pc s = P_Loaded x h nxt \<Longrightarrow> seen_tail s \<le> j \<Longrightarrow> j < length (tail_stores s) \<Longrightarrow>
      nxt \<noteq> tail_stores s ! j \<Longrightarrow> spsc_sys_inv c (s\<lparr>seen_tail := j, p_pc := P_Write x h nxt\<rparr>)"
    and "p_pc s = P_Write x h nxt \<Longrightarrow>
      spsc_sys_inv c (s\<lparr>buffer := (buffer s)[unat h := x], p_pc := P_Publish x nxt\<rparr>)"
    and "p_pc s = P_Publish x nxt \<Longrightarrow>
      spsc_sys_inv c (s\<lparr>head_stores := head_stores s @ [nxt], pushed := pushed s @ [x], p_pc := P_Idle\<rparr>)"
proof -
  show "spsc_sys_inv c (s\<lparr>p_pc := P_Loaded x h (ring_next c h)\<rparr>)" if "p_pc s = P_Idle" "h = last (head_stores s)"
    using inv that by (simp add: spsc_sys_defs ring_next_slot [OF c])
  show "spsc_sys_inv c (s\<lparr>seen_tail := j, p_pc := P_Idle\<rparr>)"
    if "p_pc s = P_Loaded x h nxt" "seen_tail s \<le> j" "j < length (tail_stores s)"
    using inv that by (simp add: spsc_sys_defs)
  show "spsc_sys_inv c (s\<lparr>seen_tail := j, p_pc := P_Write x h nxt\<rparr>)"
    if pc: "p_pc s = P_Loaded x h nxt" and j: "seen_tail s \<le> j" "j < length (tail_stores s)" "nxt \<noteq> tail_stores s ! j"
  proof -
    have nxt: "nxt = slot c (Suc (length (pushed s)))" and st: "tail_stores s ! j = slot c j" "j \<le> length (popped s)"
      and room: "length (pushed s) < j + unat c"
      using inv pc j by (simp_all add: spsc_sys_defs)
    have "Suc (length (pushed s)) \<noteq> j + unat c"
      using nxt st(1) j(3) slot_wrap [OF c, of j] by metis
    with room have "Suc (length (pushed s)) < j + unat c" by simp
    with inv pc j st show ?thesis by (simp add: spsc_sys_defs)
  qed
  show "spsc_sys_inv c (s\<lparr>buffer := (buffer s)[unat h := x], p_pc := P_Publish x nxt\<rparr>)" if pc: "p_pc s = P_Write x h nxt"
  proof -
    have st: "stores_ok c s" and h: "unat h = length (pushed s) mod unat c"
      using inv pc by (simp_all add: spsc_sys_inv_def unat_slot [OF c])
    have "length (pushed s) mod unat c < length (buffer s)"
      using inv power_of_two_pos [OF c] by (simp add: spsc_sys_defs)
    moreover have "(buffer s)[unat h := x] ! (i mod unat c) = buffer s ! (i mod unat c)"
      if "length (popped s) \<le> i" "i < length (pushed s)" for i
      using unpopped_slot_neq [OF c st that] h by simp
    ultimately show ?thesis
      using inv pc h by (simp add: spsc_sys_defs)
  qed
  show "spsc_sys_inv c (s\<lparr>head_stores := head_stores s @ [nxt], pushed := pushed s @ [x], p_pc := P_Idle\<rparr>)"
    if pc: "p_pc s = P_Publish x nxt"
  proof -
    have "length (popped s) \<le> length (pushed s)"
      using inv by (simp add: spsc_sys_defs)
    moreover have "consumer_at c (length (popped s)) (seen_head s) (pushed s @ [x]) (c_pc s)"
      using inv by (simp add: spsc_sys_defs consumer_at_append)
    moreover have "buffer s ! (i mod unat c) = (pushed s @ [x]) ! i"
      if "length (popped s) \<le> i" "i < Suc (length (pushed s))" for i
      using inv pc that by (cases "i = length (pushed s)") (simp_all add: spsc_sys_defs nth_append)
    ultimately show ?thesis
      using inv pc by (simp add: spsc_sys_defs)
  qed
qed

lemma spsc_consumer_step:
  assumes c: "power_of_two c" and inv: "spsc_sys_inv c s"
  shows "c_pc s = C_Idle \<Longrightarrow> t = last (tail_stores s) \<Longrightarrow> spsc_sys_inv c (s\<lparr>c_pc := C_Loaded t\<rparr>)"
    and "c_pc s = C_Loaded t \<Longrightarrow> seen_head s \<le> k \<Longrightarrow> k < length (head_stores s) \<Longrightarrow>
      spsc_sys_inv c (s\<lparr>seen_head := k, c_pc := C_Idle\<rparr>)"
    and "c_pc s = C_Loaded t \<Longrightarrow> seen_head s \<le> k \<Longrightarrow> k < length (head_stores s) \<Longrightarrow>
      t \<noteq> head_stores s ! k \<Longrightarrow> spsc_sys_inv c (s\<lparr>seen_head := k, c_pc := C_Read t\<rparr>)"
    and "c_pc s = C_Read t \<Longrightarrow> spsc_sys_inv c (s\<lparr>c_pc := C_Publish t (buffer s ! unat t)\<rparr>)"
    and "c_pc s = C_Publish t x \<Longrightarrow>
      spsc_sys_inv c (s\<lparr>tail_stores := tail_stores s @ [ring_next c t], popped := popped s @ [x], c_pc := C_Idle\<rparr>)"
proof -
  show "spsc_sys_inv c (s\<lparr>c_pc := C_Loaded t\<rparr>)" if "c_pc s = C_Idle" "t = last (tail_stores s)"
    using inv that by (simp add: spsc_sys_defs)
  show "spsc_sys_inv c (s\<lparr>seen_head := k, c_pc := C_Idle\<rparr>)"
    if "c_pc s = C_Loaded t" "seen_head s \<le> k" "k < length (head_stores s)"
    using inv that by (simp add: spsc_sys_defs)
  show "spsc_sys_inv c (s\<lparr>seen_head := k, c_pc := C_Read t\<rparr>)"
    if pc: "c_pc s = C_Loaded t" and k: "seen_head s \<le> k" "k < length (head_stores s)" "t \<noteq> head_stores s ! k"
  proof -
    have "length (popped s) \<noteq> k" and "length (popped s) \<le> k"
      using inv pc k by (auto simp: spsc_sys_defs)
    with inv pc k show ?thesis by (simp add: spsc_sys_defs)
  qed
  show "spsc_sys_inv c (s\<lparr>c_pc := C_Publish t (buffer s ! unat t)\<rparr>)" if pc: "c_pc s = C_Read t"
    using inv pc by (simp add: spsc_sys_defs unat_slot [OF c])
  show "spsc_sys_inv c (s\<lparr>tail_stores := tail_stores s @ [ring_next c t], popped := popped s @ [x], c_pc := C_Idle\<rparr>)"
    if pc: "c_pc s = C_Publish t x"
  proof -
    have "take (length (popped s)) (pushed s) = popped s" "x = pushed s ! length (popped s)"
      "length (popped s) < length (pushed s)"
      using inv pc by (simp_all add: spsc_sys_defs)
    then have "take (Suc (length (popped s))) (pushed s) = popped s @ [x]"
      by simp
    with inv pc show ?thesis by (simp add: spsc_sys_defs ring_next_slot [OF c])
  qed
qed

lemma spsc_step_inv:
  assumes "power_of_two c" and "spsc_step c s s'" and "spsc_sys_inv c s"
  shows "spsc_sys_inv c s'"
  using assms(2) spsc_producer_step [OF assms(1,3)] spsc_consumer_step [OF assms(1,3)]
  by (cases rule: spsc_step.cases) simp_all

lemma spsc_reach_inv:
  assumes "power_of_two c" and "spsc_reach c s"
  shows "spsc_sys_inv c s"
proof -
  from assms(2) obtain init where "(spsc_step c)\<^sup>*\<^sup>* (spsc_init c init) s" by blast
  then show ?thesis
  proof (induction rule: rtranclp_induct)
    case base
    show ?case by (rule spsc_init_inv [OF assms(1)])
  next
    case (step s s')
    show ?case by (rule spsc_step_inv [OF assms(1) step(2,3)])
  qed
qed

subsection \<open>The calls are runs of the step relation\<close>

text \<open>What a call that runs alone, with up-to-date loads, sees of the concurrent state.\<close>

definition spsc_snapshot :: "'T spsc_sys \<Rightarrow> 'T spsc_queue" where
  "spsc_snapshot s = \<lparr>m_head = last (head_stores s), m_tail = last (tail_stores s), m_buffer = buffer s\<rparr>"

lemma push_run:
  assumes inv: "spsc_sys_inv c s" and pc: "p_pc s = P_Idle" and run: "try_push c (spsc_snapshot s) x = Inr (ok, q)"
  shows "\<exists>s'. (spsc_step c)\<^sup>*\<^sup>* s s' \<and> spsc_snapshot s' = q \<and> p_pc s' = P_Idle \<and> c_pc s' = c_pc s \<and>
    pushed s' = (if ok then pushed s @ [x] else pushed s) \<and> popped s' = popped s"
proof -
  let ?h = "last (head_stores s)" and ?j = "length (tail_stores s) - 1"
  let ?nxt = "ring_next c ?h"
  let ?s1 = "s\<lparr>p_pc := P_Loaded x ?h ?nxt\<rparr>"
  have j: "tail_stores s ! ?j = last (tail_stores s)" "seen_tail s \<le> ?j" "?j < length (tail_stores s)"
    using inv by (simp_all add: spsc_sys_defs)
  have s1: "spsc_step c s ?s1"
    using pc by (rule push_call) simp
  show ?thesis
  proof (cases "?nxt = last (tail_stores s)")
    case True
    then have "ok = False" "q = spsc_snapshot s"
      using run by (auto simp: try_push_def spsc_snapshot_def Let_def)
    moreover have "spsc_step c ?s1 (?s1\<lparr>seen_tail := ?j, p_pc := P_Idle\<rparr>)"
      by (rule push_full) (use True j in simp_all)
    ultimately show ?thesis
      using s1 by (intro exI [of _ "?s1\<lparr>seen_tail := ?j, p_pc := P_Idle\<rparr>"])
        (simp add: spsc_snapshot_def converse_rtranclp_into_rtranclp)
  next
    case False
    then have ok: "ok" "unat ?h < length (buffer s)"
      "q = \<lparr>m_head = ?nxt, m_tail = last (tail_stores s), m_buffer = (buffer s)[unat ?h := x]\<rparr>"
      using run by (auto simp: try_push_def spsc_snapshot_def Let_def split: if_splits)
    let ?s2 = "?s1\<lparr>seen_tail := ?j, p_pc := P_Write x ?h ?nxt\<rparr>"
    let ?s3 = "?s2\<lparr>buffer := (buffer s)[unat ?h := x], p_pc := P_Publish x ?nxt\<rparr>"
    let ?s4 = "?s3\<lparr>head_stores := head_stores s @ [?nxt], pushed := pushed s @ [x], p_pc := P_Idle\<rparr>"
    have "spsc_step c ?s1 ?s2"
      by (rule push_room) (use False j in simp_all)
    moreover have "spsc_step c ?s2 ?s3"
      using push_write [of ?s2 x ?h ?nxt c] ok(2) by simp
    moreover have "spsc_step c ?s3 ?s4"
      using push_publish [of ?s3 x ?nxt c] by simp
    ultimately have "(spsc_step c)\<^sup>*\<^sup>* s ?s4"
      using s1 by (meson converse_rtranclp_into_rtranclp rtranclp.rtrancl_refl)
    with ok show ?thesis
      by (intro exI [of _ ?s4]) (simp add: spsc_snapshot_def)
  qed
qed

lemma pop_run:
  assumes inv: "spsc_sys_inv c s" and pc: "c_pc s = C_Idle" and run: "try_pop c (spsc_snapshot s) = Inr (r, q)"
  shows "\<exists>s'. (spsc_step c)\<^sup>*\<^sup>* s s' \<and> spsc_snapshot s' = q \<and> c_pc s' = C_Idle \<and> p_pc s' = p_pc s \<and>
    popped s' = (case r of Some x \<Rightarrow> popped s @ [x] | None \<Rightarrow> popped s) \<and> pushed s' = pushed s"
proof -
  let ?t = "last (tail_stores s)" and ?k = "length (head_stores s) - 1"
  let ?s1 = "s\<lparr>c_pc := C_Loaded ?t\<rparr>"
  have k: "head_stores s ! ?k = last (head_stores s)" "seen_head s \<le> ?k" "?k < length (head_stores s)"
    using inv by (simp_all add: spsc_sys_defs)
  have s1: "spsc_step c s ?s1"
    using pc by (rule pop_call) simp
  show ?thesis
  proof (cases "?t = last (head_stores s)")
    case True
    then have "r = None" "q = spsc_snapshot s"
      using run by (auto simp: try_pop_def spsc_snapshot_def Let_def)
    moreover have "spsc_step c ?s1 (?s1\<lparr>seen_head := ?k, c_pc := C_Idle\<rparr>)"
      by (rule pop_empty) (use True k in simp_all)
    ultimately show ?thesis
      using s1 by (intro exI [of _ "?s1\<lparr>seen_head := ?k, c_pc := C_Idle\<rparr>"])
        (simp add: spsc_snapshot_def converse_rtranclp_into_rtranclp)
  next
    case False
    let ?x = "buffer s ! unat ?t"
    from False have ok: "r = Some ?x" "unat ?t < length (buffer s)"
      "q = \<lparr>m_head = last (head_stores s), m_tail = ring_next c ?t, m_buffer = buffer s\<rparr>"
      using run by (auto simp: try_pop_def spsc_snapshot_def Let_def split: if_splits)
    let ?s2 = "?s1\<lparr>seen_head := ?k, c_pc := C_Read ?t\<rparr>"
    let ?s3 = "?s2\<lparr>c_pc := C_Publish ?t ?x\<rparr>"
    let ?s4 = "?s3\<lparr>tail_stores := tail_stores s @ [ring_next c ?t], popped := popped s @ [?x], c_pc := C_Idle\<rparr>"
    have "spsc_step c ?s1 ?s2"
      by (rule pop_some) (use False k in simp_all)
    moreover have "spsc_step c ?s2 ?s3"
      using pop_read [of ?s2 ?t c] ok(2) by simp
    moreover have "spsc_step c ?s3 ?s4"
      using pop_publish [of ?s3 ?t ?x c] by simp
    ultimately have "(spsc_step c)\<^sup>*\<^sup>* s ?s4"
      using s1 by (meson converse_rtranclp_into_rtranclp rtranclp.rtrancl_refl)
    with ok show ?thesis
      by (intro exI [of _ ?s4]) (simp add: spsc_snapshot_def)
  qed
qed

text \<open>
  C1: the concurrent queue delivers in order, without loss or duplication. In every reachable
  state, however the two threads interleave and however stale their loads are, the items popped
  are a prefix of the items pushed, at most \<^verbatim>\<open>Capacity - 1\<close> pushed items are not popped yet, and
  they sit in the buffer in order.
\<close>

theorem spsc_concurrent_fifo:
  assumes "power_of_two c" and "spsc_reach c s"
  shows "\<exists>xs. pushed s = popped s @ xs \<and> length xs \<le> unat c - 1 \<and>
    (\<forall>i < length xs. buffer s ! ((length (popped s) + i) mod unat c) = xs ! i)"
proof -
  let ?m = "length (popped s)" and ?xs = "drop (length (popped s)) (pushed s)"
  have inv: "take ?m (pushed s) = popped s" "length (pushed s) < seen_tail s + unat c" "seen_tail s \<le> ?m"
    "?m \<le> length (pushed s)"
    and buf: "\<And>i. ?m \<le> i \<Longrightarrow> i < length (pushed s) \<Longrightarrow> buffer s ! (i mod unat c) = pushed s ! i"
    using spsc_reach_inv [OF assms] by (auto simp: spsc_sys_defs)
  have "pushed s = popped s @ ?xs"
    using inv(1) append_take_drop_id [of ?m "pushed s"] by simp
  moreover have "buffer s ! ((?m + i) mod unat c) = ?xs ! i" if "i < length ?xs" for i
    using buf [of "?m + i"] that inv(4) by simp
  moreover have "length ?xs \<le> unat c - 1"
    using inv(2,3) by simp
  ultimately show ?thesis by blast
qed

text \<open>
  C19: the buffer accesses are free of data races. When the producer is about to write slot
  \<^verbatim>\<open>m_buffer[head]\<close> it has acquired a \<^verbatim>\<open>m_tail\<close> store that follows the consumer's read of the
  slot's previous item; when the consumer is about to read \<^verbatim>\<open>m_buffer[tail]\<close> it has acquired the
  \<^verbatim>\<open>m_head\<close> store that follows the write of that item. Both are within the buffer, and the two
  slots differ whenever both accesses are pending.
\<close>

theorem spsc_no_data_race:
  assumes "power_of_two c" and "spsc_reach c s"
  shows "(\<forall>x h nxt. p_pc s = P_Write x h nxt \<longrightarrow>
            unat h < length (buffer s) \<and> h = slot c (length (pushed s)) \<and>
            length (pushed s) < seen_tail s + unat c \<and>
            (\<forall>t. c_pc s = C_Read t \<longrightarrow> t \<noteq> h)) \<and>
         (\<forall>t. c_pc s = C_Read t \<longrightarrow>
            unat t < length (buffer s) \<and> t = slot c (length (popped s)) \<and> length (popped s) < seen_head s)"
proof -
  note inv = spsc_reach_inv [OF assms]
  have lt: "unat (slot c i) < unat c" for i
    using power_of_two_pos [OF assms(1)] by (simp add: unat_slot [OF assms(1)])
  have "slot c (length (popped s)) \<noteq> slot c (length (pushed s))"
    if "c_pc s = C_Read t" "p_pc s = P_Write x h nxt" for t x h nxt
    using inv that by (intro slot_neq [OF assms(1)]) (simp_all add: spsc_sys_defs)
  with inv lt show ?thesis by (auto simp: spsc_sys_defs)
qed

text \<open>A queue of capacity 4 after \<^verbatim>\<open>try_push(7)\<close>, and both threads in the middle of a call.\<close>

lemma spsc_example:
  "\<exists>s x h nxt t. spsc_reach 4 s \<and> pushed s = [7 :: int] \<and> popped s = [] \<and>
     p_pc s = P_Write x h nxt \<and> c_pc s = C_Read t"
proof -
  let ?i = "spsc_init 4 (0 :: int)"
  have inv0: "spsc_sys_inv 4 ?i"
    by (rule spsc_init_inv) (simp add: power_of_two_def)
  have "try_push 4 (spsc_snapshot ?i) 7 = Inr (True, \<lparr>m_head = 1, m_tail = 0, m_buffer = (replicate 4 0)[0 := 7]\<rparr>)"
    by (simp add: try_push_def spsc_snapshot_def spsc_init_def ring_next_def Let_def)
  from push_run [OF inv0 _ this] obtain s where
    s: "(spsc_step 4)\<^sup>*\<^sup>* ?i s" "spsc_snapshot s = \<lparr>m_head = 1, m_tail = 0, m_buffer = (replicate 4 0)[0 := 7]\<rparr>"
      "p_pc s = P_Idle" "c_pc s = C_Idle" "pushed s = [7]" "popped s = []"
    by (auto simp: spsc_init_def)
  have sl: "slot 4 0 = 0" "slot 4 (Suc 0) = 1" "slot 4 (Suc (Suc 0)) = 2"
    by (simp_all add: slot_def)
  have "spsc_sys_inv 4 s"
    using s(1) by (intro spsc_reach_inv) (auto simp: power_of_two_def)
  then have st: "head_stores s = slots 4 (Suc 0)" "tail_stores s = slots 4 0" "seen_tail s = 0" "seen_head s \<le> Suc 0"
    using s(5,6) by (simp_all add: spsc_sys_defs)
  let ?s1 = "s\<lparr>p_pc := P_Loaded 8 1 2\<rparr>"
  let ?s2 = "?s1\<lparr>seen_tail := 0, p_pc := P_Write 8 1 2\<rparr>"
  let ?s3 = "?s2\<lparr>c_pc := C_Loaded 0\<rparr>"
  let ?s4 = "?s3\<lparr>seen_head := 1, c_pc := C_Read 0\<rparr>"
  have 1: "spsc_step 4 s ?s1"
    using push_call [of s 1 4 8] s(3) by (simp add: st sl ring_next_def)
  have 2: "spsc_step 4 ?s1 ?s2"
    by (rule push_room) (simp_all add: st sl)
  have 3: "spsc_step 4 ?s2 ?s3"
    by (rule pop_call) (simp_all add: s st sl)
  have 4: "spsc_step 4 ?s3 ?s4"
    by (rule pop_some) (simp_all add: st sl)
  have "(spsc_step 4)\<^sup>*\<^sup>* ?i ?s4"
    using s(1) 1 2 3 4 by (meson rtranclp.rtrancl_into_rtrancl)
  then have reach: "spsc_reach 4 ?s4"
    by (rule exI)
  have fields: "pushed ?s4 = [7]" "popped ?s4 = []" "p_pc ?s4 = P_Write 8 1 2" "c_pc ?s4 = C_Read 0"
    using s(5,6) by simp_all
  show ?thesis
    by (rule exI, rule exI, rule exI, rule exI, rule exI) (intro conjI, fact reach, (fact fields)+)
qed

theorem spsc_concurrent_fifo_witness:
  "\<exists>s xs. spsc_reach 4 s \<and> pushed s = [7 :: int] \<and> pushed s = popped s @ xs \<and> length xs \<le> 3"
proof -
  have p: "power_of_two 4" by (simp add: power_of_two_def)
  from spsc_example obtain s where s: "spsc_reach 4 s" "pushed s = [7 :: int]" by blast
  from spsc_concurrent_fifo [OF p s(1)] obtain xs where "pushed s = popped s @ xs" "length xs \<le> unat (4 :: size_t) - 1"
    by blast
  then have "pushed s = popped s @ xs \<and> length xs \<le> 3"
    by simp
  with s show ?thesis by blast
qed

theorem spsc_no_data_race_witness:
  "\<exists>s x h nxt t. spsc_reach 4 s \<and> pushed s = [7 :: int] \<and>
     p_pc s = P_Write x h nxt \<and> c_pc s = C_Read t \<and> t \<noteq> h \<and> unat h < length (buffer s)"
proof -
  have p: "power_of_two 4" by (simp add: power_of_two_def)
  from spsc_example obtain s x h nxt t where
    s: "spsc_reach 4 s" "pushed s = [7 :: int]" "p_pc s = P_Write x h nxt" "c_pc s = C_Read t" by blast
  from spsc_no_data_race [OF p s(1)] s show ?thesis by blast
qed

text \<open>
  the calls of the first part are runs of the step relation. From a reachable state in which
  the calling thread is idle, a call that is not interrupted and whose loads are up to date takes
  the steps of the relation to the state that \<^const>\<open>try_push\<close> or \<^const>\<open>try_pop\<close> computes.
\<close>

theorem spsc_calls_are_runs:
  assumes "power_of_two c" and "spsc_reach c s"
  shows "(p_pc s = P_Idle \<longrightarrow> (\<exists>ok q s'. try_push c (spsc_snapshot s) x = Inr (ok, q) \<and>
            (spsc_step c)\<^sup>*\<^sup>* s s' \<and> spsc_snapshot s' = q \<and> p_pc s' = P_Idle \<and>
            pushed s' = (if ok then pushed s @ [x] else pushed s) \<and> popped s' = popped s)) \<and>
         (c_pc s = C_Idle \<longrightarrow> (\<exists>r q s'. try_pop c (spsc_snapshot s) = Inr (r, q) \<and>
            (spsc_step c)\<^sup>*\<^sup>* s s' \<and> spsc_snapshot s' = q \<and> c_pc s' = C_Idle \<and>
            popped s' = (case r of Some y \<Rightarrow> popped s @ [y] | None \<Rightarrow> popped s) \<and> pushed s' = pushed s))"
proof -
  note inv = spsc_reach_inv [OF assms]
  have "spsc_inv c (spsc_snapshot s)"
    using inv by (simp add: spsc_inv_def spsc_snapshot_def assms(1) spsc_sys_defs slot_less)
  from spsc.push_law [OF this, of x] spsc.pop_law [OF this] obtain ok q r q' where
    "try_push c (spsc_snapshot s) x = Inr (ok, q)" "try_pop c (spsc_snapshot s) = Inr (r, q')" by blast
  with push_run [OF inv] pop_run [OF inv] show ?thesis by blast
qed

theorem spsc_calls_are_runs_witness:
  "\<exists>s'. (spsc_step 4)\<^sup>*\<^sup>* (spsc_init 4 (0 :: int)) s' \<and> p_pc s' = P_Idle \<and> pushed s' = [7]"
proof -
  let ?i = "spsc_init 4 (0 :: int)"
  have p: "power_of_two 4" by (simp add: power_of_two_def)
  have i: "spsc_reach 4 ?i" by blast
  have "try_push 4 (spsc_snapshot ?i) 7 = Inr (True, \<lparr>m_head = 1, m_tail = 0, m_buffer = (replicate 4 0)[0 := 7]\<rparr>)"
    by (simp add: try_push_def spsc_snapshot_def spsc_init_def ring_next_def Let_def)
  with spsc_calls_are_runs [OF p i, of 7] show ?thesis
    by (auto simp: spsc_init_def)
qed

end
