(* ===== verification/Serialization.thy ===== *)
theory Serialization
  imports Sap_Prelude
begin

text \<open>
  The byte writer and reader, \<^verbatim>\<open>include/sap_core/serialization.h\<close> and \<^verbatim>\<open>src/serialization.cpp\<close>.
  The byte order of the host is a parameter: \<^verbatim>\<open>htons\<close>, \<^verbatim>\<open>htonl\<close> and the object representations
  that \<^verbatim>\<open>memcpy\<close> reads and writes depend on it. Floating-point values are their bit patterns, since
  the code only copies them into integers and back. A \<^verbatim>\<open>stl::result<T>\<close> is \<^term>\<open>Inl msg\<close> or
  \<^term>\<open>Inr v\<close>, with the message that \<^verbatim>\<open>std::format\<close> produces.
\<close>

section \<open>Byte order\<close>

datatype endian = Little | Big

text \<open>The \<open>n\<close> bytes of a word, least significant first, and the word with given bytes.\<close>

definition le_bytes :: "nat \<Rightarrow> 'w::len word \<Rightarrow> u8 list" where
  "le_bytes n w = map (\<lambda>i. ucast (drop_bit (8 * i) w)) [0..<n]"

primrec le_word :: "u8 list \<Rightarrow> 'w::len word" where
  "le_word [] = 0"
| "le_word (b # bs) = ucast b OR push_bit 8 (le_word bs)"

text \<open>The object representation in memory.\<close>

definition mem_bytes :: "endian \<Rightarrow> nat \<Rightarrow> 'w::len word \<Rightarrow> u8 list" where
  "mem_bytes e n w = (case e of Little \<Rightarrow> le_bytes n w | Big \<Rightarrow> rev (le_bytes n w))"

definition mem_word :: "endian \<Rightarrow> u8 list \<Rightarrow> 'w::len word" where
  "mem_word e bs = le_word (case e of Little \<Rightarrow> bs | Big \<Rightarrow> rev bs)"

definition htons :: "endian \<Rightarrow> u16 \<Rightarrow> u16" where
  "htons e v = (case e of Little \<Rightarrow> le_word (rev (le_bytes 2 v)) | Big \<Rightarrow> v)"

definition htonl :: "endian \<Rightarrow> u32 \<Rightarrow> u32" where
  "htonl e v = (case e of Little \<Rightarrow> le_word (rev (le_bytes 4 v)) | Big \<Rightarrow> v)"

abbreviation ntohs :: "endian \<Rightarrow> u16 \<Rightarrow> u16" where
  "ntohs \<equiv> htons"

abbreviation ntohl :: "endian \<Rightarrow> u32 \<Rightarrow> u32" where
  "ntohl \<equiv> htonl"

definition htonll :: "endian \<Rightarrow> u64 \<Rightarrow> u64" where
  "htonll e v =
     (let high = htonl e (ucast (drop_bit 32 v));
          low = htonl e (ucast (v AND 0xFFFFFFFF))
      in push_bit 32 (ucast low) OR ucast high)"

definition ntohll :: "endian \<Rightarrow> u64 \<Rightarrow> u64" where
  "ntohll e v =
     (let high = ntohl e (ucast (drop_bit 32 v));
          low = ntohl e (ucast (v AND 0xFFFFFFFF))
      in push_bit 32 (ucast low) OR ucast high)"

section \<open>ByteWriter\<close>

type_synonym 'a sap_result = "string + 'a"
type_synonym f32 = "32 word"
type_synonym f64 = "64 word"

record byte_writer =
  bw_buffer :: "u8 list"

text \<open>\<^verbatim>\<open>return stl::success\<close> value-initialises the \<^verbatim>\<open>unsigned\<close> of a \<^verbatim>\<open>result<>\<close>.\<close>

definition success :: "u32 sap_result" where
  "success = Inr 0"

definition append_bytes :: "byte_writer \<Rightarrow> u8 list \<Rightarrow> byte_writer" where
  "append_bytes w bs = w\<lparr>bw_buffer := bw_buffer w @ bs\<rparr>"

definition write_u8 :: "byte_writer \<Rightarrow> u8 \<Rightarrow> u32 sap_result \<times> byte_writer" where
  "write_u8 w val = (success, w\<lparr>bw_buffer := bw_buffer w @ [val]\<rparr>)"

definition write_u16 :: "endian \<Rightarrow> byte_writer \<Rightarrow> u16 \<Rightarrow> u32 sap_result \<times> byte_writer" where
  "write_u16 e w val = (let net = htons e val in (success, append_bytes w (mem_bytes e 2 net)))"

definition write_u32 :: "endian \<Rightarrow> byte_writer \<Rightarrow> u32 \<Rightarrow> u32 sap_result \<times> byte_writer" where
  "write_u32 e w val = (let net = htonl e val in (success, append_bytes w (mem_bytes e 4 net)))"

definition write_u64 :: "endian \<Rightarrow> byte_writer \<Rightarrow> u64 \<Rightarrow> u32 sap_result \<times> byte_writer" where
  "write_u64 e w val = (let net = htonll e val in (success, append_bytes w (mem_bytes e 8 net)))"

definition write_f32 :: "endian \<Rightarrow> byte_writer \<Rightarrow> f32 \<Rightarrow> u32 sap_result \<times> byte_writer" where
  "write_f32 e w bits = (let net = htonl e bits in (success, append_bytes w (mem_bytes e 4 net)))"

definition write_f64 :: "endian \<Rightarrow> byte_writer \<Rightarrow> f64 \<Rightarrow> u32 sap_result \<times> byte_writer" where
  "write_f64 e w bits = (let net = htonll e bits in (success, append_bytes w (mem_bytes e 8 net)))"

definition write_string :: "endian \<Rightarrow> byte_writer \<Rightarrow> u8 list \<Rightarrow> u32 sap_result \<times> byte_writer" where
  "write_string e w str =
     (let size = (of_nat (length str) :: u64);
          w' = snd (write_u64 e w size)
      in (success, append_bytes w' str))"

definition write_bytes :: "byte_writer \<Rightarrow> u8 list \<Rightarrow> u32 sap_result \<times> byte_writer" where
  "write_bytes w data = (success, w\<lparr>bw_buffer := bw_buffer w @ data\<rparr>)"

section \<open>ByteReader\<close>

text \<open>The decimal digits that \<^verbatim>\<open>std::format("{}")\<close> prints for an unsigned value.\<close>

fun format_nat :: "nat \<Rightarrow> string" where
  "format_nat n = (if n < 10 then [char_of (48 + n)] else format_nat (n div 10) @ [char_of (48 + n mod 10)])"

declare format_nat.simps [simp del]

record byte_reader =
  br_buffer :: "u8 list"
  br_offset :: size_t

definition byte_reader_make :: "u8 list \<Rightarrow> byte_reader" where
  "byte_reader_make buf = \<lparr>br_buffer = buf, br_offset = 0\<rparr>"

definition br_size :: "byte_reader \<Rightarrow> size_t" where
  "br_size r = of_nat (length (br_buffer r))"

definition bytes_read :: "byte_reader \<Rightarrow> size_t" where
  "bytes_read r = br_offset r"

definition remaining :: "byte_reader \<Rightarrow> size_t" where
  "remaining r = br_size r - br_offset r"

text \<open>\<open>n\<close> bytes of the buffer from an offset; outside the buffer the access is undefined.\<close>

definition br_bytes :: "byte_reader \<Rightarrow> nat \<Rightarrow> nat \<Rightarrow> u8 list outcome" where
  "br_bytes r off n =
     (if off + n \<le> length (br_buffer r) then Inr (take n (drop off (br_buffer r))) else Inl Out_Of_Bounds)"

definition read_u8 :: "byte_reader \<Rightarrow> (u8 sap_result \<times> byte_reader) outcome" where
  "read_u8 r =
     (if br_offset r + 1 > br_size r
      then Inr (Inl (''buffer underflow: need 1 byte, have '' @ format_nat (unat (remaining r))), r)
      else out_bind (br_bytes r (unat (br_offset r)) 1) (\<lambda>bs.
             Inr (Inr (hd bs), r\<lparr>br_offset := br_offset r + 1\<rparr>)))"

definition read_u16 :: "endian \<Rightarrow> byte_reader \<Rightarrow> (u16 sap_result \<times> byte_reader) outcome" where
  "read_u16 e r =
     (if br_offset r + 2 > br_size r
      then Inr (Inl (''buffer underflow: need 2 bytes, have '' @ format_nat (unat (remaining r))), r)
      else out_bind (br_bytes r (unat (br_offset r)) 2) (\<lambda>bs.
             Inr (Inr (ntohs e (mem_word e bs)), r\<lparr>br_offset := br_offset r + 2\<rparr>)))"

definition read_u32 :: "endian \<Rightarrow> byte_reader \<Rightarrow> (u32 sap_result \<times> byte_reader) outcome" where
  "read_u32 e r =
     (if br_offset r + 4 > br_size r
      then Inr (Inl (''buffer underflow: need 4 bytes, have '' @ format_nat (unat (remaining r))), r)
      else out_bind (br_bytes r (unat (br_offset r)) 4) (\<lambda>bs.
             Inr (Inr (ntohl e (mem_word e bs)), r\<lparr>br_offset := br_offset r + 4\<rparr>)))"

definition read_u64 :: "endian \<Rightarrow> byte_reader \<Rightarrow> (u64 sap_result \<times> byte_reader) outcome" where
  "read_u64 e r =
     (if br_offset r + 8 > br_size r
      then Inr (Inl (''buffer underflow: need 8 bytes, have '' @ format_nat (unat (remaining r))), r)
      else out_bind (br_bytes r (unat (br_offset r)) 8) (\<lambda>bs.
             Inr (Inr (ntohll e (mem_word e bs)), r\<lparr>br_offset := br_offset r + 8\<rparr>)))"

definition read_f32 :: "endian \<Rightarrow> byte_reader \<Rightarrow> (f32 sap_result \<times> byte_reader) outcome" where
  "read_f32 e r = out_bind (read_u32 e r) (\<lambda>(res, r').
     case res of Inl msg \<Rightarrow> Inr (Inl msg, r') | Inr bits \<Rightarrow> Inr (Inr bits, r'))"

definition read_f64 :: "endian \<Rightarrow> byte_reader \<Rightarrow> (f64 sap_result \<times> byte_reader) outcome" where
  "read_f64 e r = out_bind (read_u64 e r) (\<lambda>(res, r').
     case res of Inl msg \<Rightarrow> Inr (Inl msg, r') | Inr bits \<Rightarrow> Inr (Inr bits, r'))"

text \<open>
  \<^verbatim>\<open>read_string\<close> returns a view, a start and a length, that refers to the reader's buffer; it reads
  no character itself.
\<close>

record string_view =
  sv_start :: size_t
  sv_len :: u64

definition view_bytes :: "byte_reader \<Rightarrow> string_view \<Rightarrow> u8 list outcome" where
  "view_bytes r v = br_bytes r (unat (sv_start v)) (unat (sv_len v))"

definition read_string :: "endian \<Rightarrow> byte_reader \<Rightarrow> (string_view sap_result \<times> byte_reader) outcome" where
  "read_string e r = out_bind (read_u64 e r) (\<lambda>(res, r').
     case res of
       Inl msg \<Rightarrow> Inr (Inl (''failed to read string length: '' @ msg), r')
     | Inr len \<Rightarrow>
         if br_offset r' + len > br_size r'
         then Inr (Inl (''buffer underflow: need '' @ format_nat (unat len) @ '' bytes for string, have '' @
                        format_nat (unat (remaining r'))), r')
         else Inr (Inr \<lparr>sv_start = br_offset r', sv_len = len\<rparr>, r'\<lparr>br_offset := br_offset r' + len\<rparr>))"

text \<open>\<^verbatim>\<open>subspan(m_offset, len)\<close> requires the range to lie in the span.\<close>

definition read_bytes :: "byte_reader \<Rightarrow> size_t \<Rightarrow> (u8 list sap_result \<times> byte_reader) outcome" where
  "read_bytes r len =
     (if br_offset r + len > br_size r
      then Inr (Inl (''buffer underflow: need '' @ format_nat (unat len) @ '' bytes, have '' @
                     format_nat (unat (remaining r))), r)
      else out_bind (br_bytes r (unat (br_offset r)) (unat len)) (\<lambda>bs.
             Inr (Inr bs, r\<lparr>br_offset := br_offset r + len\<rparr>)))"

section \<open>Byte-order lemmas\<close>

lemma length_le_bytes [simp]: "length (le_bytes n w) = n"
  by (simp add: le_bytes_def)

lemma length_mem_bytes [simp]: "length (mem_bytes e n w) = n"
  by (simp add: mem_bytes_def split: endian.splits)

lemma bit_le_word:
  "bit (le_word bs :: 'w::len word) i \<longleftrightarrow> i < LENGTH('w) \<and> i < 8 * length bs \<and> bit (bs ! (i div 8)) (i mod 8)"
proof (induction bs arbitrary: i)
  case (Cons b bs)
  show ?case
  proof (cases "i < 8")
    case True
    then show ?thesis
      by (auto simp: bit_or_iff bit_push_bit_iff bit_ucast_iff)
  next
    case False
    then obtain j where j: "i = j + 8"
      by (metis add.commute le_Suc_ex not_less)
    have "\<not> bit b i"
      using False bit_imp_le_length [of b i] by auto
    moreover have "(j + 8) div 8 = Suc (j div 8)" by simp
    ultimately show ?thesis
      by (auto simp: j bit_or_iff bit_push_bit_iff bit_ucast_iff Cons.IH)
  qed
qed simp

lemma bit_le_bytes: "j < n \<Longrightarrow> bit (le_bytes n w ! j) i \<longleftrightarrow> i < 8 \<and> bit w (8 * j + i)"
  by (auto simp: le_bytes_def bit_ucast_iff bit_drop_bit_eq)

lemma le_word_le_bytes:
  "8 * n = LENGTH('w) \<Longrightarrow> le_word (le_bytes n w) = (w :: 'w::len word)"
  by (rule bit_word_eqI) (auto simp: bit_le_word bit_le_bytes)

lemma le_bytes_le_word:
  assumes "8 * length bs = LENGTH('w)"
  shows "le_bytes (length bs) (le_word bs :: 'w::len word) = bs"
proof (rule nth_equalityI)
  fix j assume j: "j < length (le_bytes (length bs) (le_word bs :: 'w word))"
  show "le_bytes (length bs) (le_word bs :: 'w word) ! j = bs ! j"
  proof (rule bit_word_eqI)
    fix i assume "i < LENGTH(8)"
    with j assms show "bit (le_bytes (length bs) (le_word bs :: 'w word) ! j) i \<longleftrightarrow> bit (bs ! j) i"
      by (auto simp: bit_le_bytes bit_le_word)
  qed
qed simp

lemma le_bytes_le_word_u16 [simp]: "length bs = 2 \<Longrightarrow> le_bytes 2 (le_word bs :: u16) = bs"
  and le_bytes_le_word_u32 [simp]: "length bs = 4 \<Longrightarrow> le_bytes 4 (le_word bs :: u32) = bs"
  and le_bytes_le_word_u64 [simp]: "length bs = 8 \<Longrightarrow> le_bytes 8 (le_word bs :: u64) = bs"
  using le_bytes_le_word [of bs, where ?'w = 16] le_bytes_le_word [of bs, where ?'w = 32]
    le_bytes_le_word [of bs, where ?'w = 64] by simp_all

lemma le_word_le_bytes_u16 [simp]: "le_word (le_bytes 2 v) = (v :: u16)"
  and le_word_le_bytes_u32 [simp]: "le_word (le_bytes 4 w) = (w :: u32)"
  and le_word_le_bytes_u64 [simp]: "le_word (le_bytes 8 x) = (x :: u64)"
  by (simp_all add: le_word_le_bytes)

text \<open>A 64-bit word is its low half followed by its high half.\<close>

lemma le_bytes_u64_halves:
  "le_bytes 8 (v :: u64) = le_bytes 4 (ucast (v AND 0xFFFFFFFF) :: u32) @ le_bytes 4 (ucast (drop_bit 32 v) :: u32)"
proof (rule nth_equalityI)
  fix j assume "j < length (le_bytes 8 v)"
  then have j: "j < 8" by simp
  have m: "(0xFFFFFFFF :: u64) = mask 32"
    by (simp add: mask_eq_exp_minus_1)
  show "le_bytes 8 v ! j = (le_bytes 4 (ucast (v AND 0xFFFFFFFF) :: u32) @ le_bytes 4 (ucast (drop_bit 32 v) :: u32)) ! j"
    using j by (intro bit_word_eqI)
      (auto simp: m nth_append bit_le_bytes bit_ucast_iff bit_and_iff bit_mask_iff bit_drop_bit_eq algebra_simps)
qed simp

lemma le_bytes_u64_join:
  "le_bytes 8 (push_bit 32 (ucast (low :: u32)) OR ucast (high :: u32) :: u64) = le_bytes 4 high @ le_bytes 4 low"
proof (rule nth_equalityI)
  fix j assume "j < length (le_bytes 8 (push_bit 32 (ucast low) OR ucast high :: u64))"
  then have j: "j < 8" by simp
  have hi: "\<not> bit high n" if "32 \<le> n" for n
    using that bit_imp_le_length [of high n] by auto
  show "le_bytes 8 (push_bit 32 (ucast low) OR ucast high :: u64) ! j = (le_bytes 4 high @ le_bytes 4 low) ! j"
    using j hi by (intro bit_word_eqI)
      (auto simp: nth_append bit_le_bytes bit_or_iff bit_push_bit_iff bit_ucast_iff algebra_simps)
qed simp

text \<open>
  The bytes on the wire. For 16 and 32 bits they are the most significant byte first whatever the
  host. For 64 bits they are that on a little-endian host only.
\<close>

definition wire64 :: "endian \<Rightarrow> u64 \<Rightarrow> u8 list" where
  "wire64 e v = (case e of Little \<Rightarrow> rev (le_bytes 8 v)
     | Big \<Rightarrow> rev (le_bytes 4 (ucast (v AND 0xFFFFFFFF) :: u32)) @ rev (le_bytes 4 (ucast (drop_bit 32 v) :: u32)))"

lemma mem_bytes_htons: "mem_bytes e 2 (htons e v) = rev (le_bytes 2 v)"
  by (simp add: mem_bytes_def htons_def split: endian.splits)

lemma mem_bytes_htonl: "mem_bytes e 4 (htonl e v) = rev (le_bytes 4 v)"
  by (simp add: mem_bytes_def htonl_def split: endian.splits)

lemma mem_bytes_htonll: "mem_bytes e 8 (htonll e v) = wire64 e v"
  by (simp add: mem_bytes_def htonll_def htonl_def wire64_def Let_def le_bytes_u64_join le_bytes_u64_halves [of v]
      split: endian.splits)

lemma mem_word_mem_bytes:
  "8 * n = LENGTH('w) \<Longrightarrow> mem_word e (mem_bytes e n w) = (w :: 'w::len word)"
  by (simp add: mem_word_def mem_bytes_def le_word_le_bytes split: endian.splits)

lemma le_bytes_inject_u64: "le_bytes 8 (v :: u64) = le_bytes 8 w \<Longrightarrow> v = w"
  by (metis le_word_le_bytes_u64)

lemma htons_htons [simp]: "ntohs e (htons e v) = v"
  by (simp add: htons_def split: endian.splits)

lemma htonl_htonl [simp]: "ntohl e (htonl e v) = v"
  by (simp add: htonl_def split: endian.splits)

lemma u64_join_low:
  "(ucast ((push_bit 32 (ucast (low :: u32)) OR ucast (high :: u32) :: u64) AND 0xFFFFFFFF) :: u32) = high"
  and u64_join_high:
  "(ucast (drop_bit 32 (push_bit 32 (ucast (low :: u32)) OR ucast (high :: u32) :: u64)) :: u32) = low"
proof -
  let ?w = "push_bit 32 (ucast low) OR ucast high :: u64"
  have "le_bytes 4 (ucast (?w AND 0xFFFFFFFF) :: u32) @ le_bytes 4 (ucast (drop_bit 32 ?w) :: u32) =
      le_bytes 4 high @ le_bytes 4 low"
    by (simp only: le_bytes_u64_halves [symmetric] le_bytes_u64_join)
  then have "le_bytes 4 (ucast (?w AND 0xFFFFFFFF) :: u32) = le_bytes 4 high"
    "le_bytes 4 (ucast (drop_bit 32 ?w) :: u32) = le_bytes 4 low"
    by simp_all
  then show "(ucast (?w AND 0xFFFFFFFF) :: u32) = high" and "(ucast (drop_bit 32 ?w) :: u32) = low"
    by (metis le_word_le_bytes_u32)+
qed

lemma u64_join_halves: "push_bit 32 (ucast (ucast (drop_bit 32 v) :: u32)) OR ucast (ucast (v AND 0xFFFFFFFF) :: u32) = (v :: u64)"
  by (rule le_bytes_inject_u64) (simp only: le_bytes_u64_join le_bytes_u64_halves [of v])

lemma ntohll_htonll [simp]: "ntohll e (htonll e v) = v"
  by (simp only: ntohll_def htonll_def Let_def u64_join_low u64_join_high htonl_htonl u64_join_halves)

lemma ntohs_mem_word: "ntohs e (mem_word e (rev (le_bytes 2 v))) = v"
  by (simp add: mem_bytes_htons [of e v, symmetric] mem_word_mem_bytes)

lemma ntohl_mem_word: "ntohl e (mem_word e (rev (le_bytes 4 v))) = v"
  by (simp add: mem_bytes_htonl [of e v, symmetric] mem_word_mem_bytes)

lemma ntohll_mem_word: "ntohll e (mem_word e (wire64 e v)) = v"
  by (simp add: mem_bytes_htonll [of e v, symmetric] mem_word_mem_bytes)

lemma length_wire64 [simp]: "length (wire64 e v) = 8"
  by (simp add: wire64_def split: endian.splits)

section \<open>Reading at a position of the buffer\<close>

text \<open>
  The reader's invariant: no object is larger than \<^verbatim>\<open>PTRDIFF_MAX\<close> bytes, and the offset does not
  exceed the size of the buffer.
\<close>

definition br_inv :: "byte_reader \<Rightarrow> bool" where
  "br_inv r \<longleftrightarrow> length (br_buffer r) < 2 ^ 63 \<and> unat (br_offset r) \<le> length (br_buffer r)"

definition br_rest :: "byte_reader \<Rightarrow> u8 list" where
  "br_rest r = drop (unat (br_offset r)) (br_buffer r)"

lemma unat_br_size: "br_inv r \<Longrightarrow> unat (br_size r) = length (br_buffer r)"
  by (simp add: br_inv_def br_size_def unat_of_nat)

lemma remaining_eq: "br_inv r \<Longrightarrow> unat (remaining r) = length (br_rest r)"
  using unat_br_size [of r]
  by (simp add: remaining_def br_rest_def br_inv_def unat_sub_no_wrap word_le_nat_alt)

lemma br_rest_length: "br_inv r \<Longrightarrow> length (br_rest r) < 2 ^ 63"
  by (auto simp: br_inv_def br_rest_def)

text \<open>The bounds test of the reads, when the sum does not wrap.\<close>

lemma bounds_test:
  assumes "br_inv r" and "unat (br_offset r) + unat n < 2 ^ 64"
  shows "br_offset r + n > br_size r \<longleftrightarrow> length (br_rest r) < unat n"
    and "\<not> br_offset r + n > br_size r \<Longrightarrow> unat (br_offset r + n) = unat (br_offset r) + unat n"
proof -
  have "unat (br_offset r + n) = unat (br_offset r) + unat n"
    using assms(2) by (simp add: unat_add_no_wrap)
  then show "br_offset r + n > br_size r \<longleftrightarrow> length (br_rest r) < unat n"
    and "\<not> br_offset r + n > br_size r \<Longrightarrow> unat (br_offset r + n) = unat (br_offset r) + unat n"
    using assms(1) unat_br_size [OF assms(1)] by (auto simp: word_less_nat_alt br_rest_def br_inv_def)
qed

text \<open>Advancing the offset by \<open>n\<close> bytes that are there.\<close>

lemma br_advance:
  assumes "br_inv r" and "n \<le> length (br_rest r)" and "unat w = n"
  shows "br_inv (r\<lparr>br_offset := br_offset r + w\<rparr>)"
    and "br_rest (r\<lparr>br_offset := br_offset r + w\<rparr>) = drop n (br_rest r)"
    and "br_bytes r (unat (br_offset r)) n = Inr (take n (br_rest r))"
    and "unat (br_offset r + w) = unat (br_offset r) + n"
    and "br_offset r + w > br_size r \<longleftrightarrow> False"
proof -
  have sum: "unat (br_offset r) + n \<le> length (br_buffer r)" "length (br_buffer r) < 2 ^ 63"
    using assms(1,2) by (auto simp: br_rest_def br_inv_def)
  then show off: "unat (br_offset r + w) = unat (br_offset r) + n"
    using assms(3) by (simp add: unat_add_no_wrap)
  show "br_inv (r\<lparr>br_offset := br_offset r + w\<rparr>)"
    using sum off by (simp add: br_inv_def)
  show "br_rest (r\<lparr>br_offset := br_offset r + w\<rparr>) = drop n (br_rest r)"
    using off by (simp add: br_rest_def add.commute)
  show "br_bytes r (unat (br_offset r)) n = Inr (take n (br_rest r))"
    using sum by (simp add: br_bytes_def br_rest_def)
  show "br_offset r + w > br_size r \<longleftrightarrow> False"
    using sum off unat_br_size [OF assms(1)] by (simp add: word_less_nat_alt)
qed

text \<open>Too few bytes left, for a request below \<open>2 ^ 63\<close> bytes, whose end cannot wrap.\<close>

lemma br_underflow:
  assumes "br_inv r" and "length (br_rest r) < unat w" and "unat w < 2 ^ 63"
  shows "br_offset r + w > br_size r"
proof -
  have "unat (br_offset r) + unat w < 2 ^ 64"
    using assms(1,3) by (simp add: br_inv_def)
  with bounds_test(1) [OF assms(1)] assms(2) show ?thesis by simp
qed

definition underflow :: "string \<Rightarrow> byte_reader \<Rightarrow> ('a sap_result \<times> byte_reader) outcome" where
  "underflow need r = Inr (Inl (''buffer underflow: need '' @ need @ '', have '' @ format_nat (length (br_rest r))), r)"

lemma read_u8_eq:
  assumes "br_inv r"
  shows "read_u8 r = (if length (br_rest r) < 1 then underflow ''1 byte'' r
    else Inr (Inr (hd (br_rest r)), r\<lparr>br_offset := br_offset r + 1\<rparr>))"
  using br_advance(3,5) [OF assms, of 1 1] br_underflow [OF assms, of 1] remaining_eq [OF assms]
  by (cases "br_rest r") (auto simp: read_u8_def underflow_def not_less)

lemma read_u16_eq:
  assumes "br_inv r"
  shows "read_u16 e r = (if length (br_rest r) < 2 then underflow ''2 bytes'' r
    else Inr (Inr (ntohs e (mem_word e (take 2 (br_rest r)))), r\<lparr>br_offset := br_offset r + 2\<rparr>))"
  using br_advance(3,5) [OF assms, of 2 2] br_underflow [OF assms, of 2] remaining_eq [OF assms]
  by (cases "length (br_rest r) < 2") (auto simp: read_u16_def underflow_def not_less)

lemma read_u32_eq:
  assumes "br_inv r"
  shows "read_u32 e r = (if length (br_rest r) < 4 then underflow ''4 bytes'' r
    else Inr (Inr (ntohl e (mem_word e (take 4 (br_rest r)))), r\<lparr>br_offset := br_offset r + 4\<rparr>))"
  using br_advance(3,5) [OF assms, of 4 4] br_underflow [OF assms, of 4] remaining_eq [OF assms]
  by (cases "length (br_rest r) < 4") (auto simp: read_u32_def underflow_def not_less)

lemma read_u64_eq:
  assumes "br_inv r"
  shows "read_u64 e r = (if length (br_rest r) < 8 then underflow ''8 bytes'' r
    else Inr (Inr (ntohll e (mem_word e (take 8 (br_rest r)))), r\<lparr>br_offset := br_offset r + 8\<rparr>))"
  using br_advance(3,5) [OF assms, of 8 8] br_underflow [OF assms, of 8] remaining_eq [OF assms]
  by (cases "length (br_rest r) < 8") (auto simp: read_u64_def underflow_def not_less)

lemma read_f32_eq: "br_inv r \<Longrightarrow> read_f32 e r = read_u32 e r"
  by (auto simp: read_f32_def read_u32_eq underflow_def)

lemma read_f64_eq: "br_inv r \<Longrightarrow> read_f64 e r = read_u64 e r"
  by (auto simp: read_f64_def read_u64_eq underflow_def)

lemma read_bytes_eq:
  assumes "br_inv r" and "unat len < 2 ^ 63"
  shows "read_bytes r len = (if length (br_rest r) < unat len then underflow (format_nat (unat len) @ '' bytes'') r
    else Inr (Inr (take (unat len) (br_rest r)), r\<lparr>br_offset := br_offset r + len\<rparr>))"
  using br_advance(3,5) [OF assms(1), of "unat len" len] br_underflow [OF assms(1) _ assms(2)] remaining_eq [OF assms(1)]
  by (cases "length (br_rest r) < unat len") (auto simp: read_bytes_def underflow_def not_less)

section \<open>Messages\<close>

text \<open>A message is a sequence of fields; the reader asks for the same kinds in the same order.\<close>

datatype field =
    F_u8 u8
  | F_u16 u16
  | F_u32 u32
  | F_u64 u64
  | F_f32 f32
  | F_f64 f64
  | F_string "u8 list"
  | F_bytes "u8 list"

datatype kind = K_u8 | K_u16 | K_u32 | K_u64 | K_f32 | K_f64 | K_string | K_bytes size_t

fun kind_of :: "field \<Rightarrow> kind" where
  "kind_of (F_u8 v) = K_u8"
| "kind_of (F_u16 v) = K_u16"
| "kind_of (F_u32 v) = K_u32"
| "kind_of (F_u64 v) = K_u64"
| "kind_of (F_f32 v) = K_f32"
| "kind_of (F_f64 v) = K_f64"
| "kind_of (F_string bs) = K_string"
| "kind_of (F_bytes bs) = K_bytes (of_nat (length bs))"

fun write_field :: "endian \<Rightarrow> byte_writer \<Rightarrow> field \<Rightarrow> byte_writer" where
  "write_field e w (F_u8 v) = snd (write_u8 w v)"
| "write_field e w (F_u16 v) = snd (write_u16 e w v)"
| "write_field e w (F_u32 v) = snd (write_u32 e w v)"
| "write_field e w (F_u64 v) = snd (write_u64 e w v)"
| "write_field e w (F_f32 v) = snd (write_f32 e w v)"
| "write_field e w (F_f64 v) = snd (write_f64 e w v)"
| "write_field e w (F_string bs) = snd (write_string e w bs)"
| "write_field e w (F_bytes bs) = snd (write_bytes w bs)"

definition write_message :: "endian \<Rightarrow> field list \<Rightarrow> byte_writer" where
  "write_message e fs = foldl (write_field e) \<lparr>bw_buffer = []\<rparr> fs"

definition read_as :: "('a \<Rightarrow> field) \<Rightarrow> ('a sap_result \<times> byte_reader) outcome \<Rightarrow> (field sap_result \<times> byte_reader) outcome" where
  "read_as c m = out_bind m (\<lambda>(res, r). Inr (map_sum id c res, r))"

fun read_kind :: "endian \<Rightarrow> byte_reader \<Rightarrow> kind \<Rightarrow> (field sap_result \<times> byte_reader) outcome" where
  "read_kind e r K_u8 = read_as F_u8 (read_u8 r)"
| "read_kind e r K_u16 = read_as F_u16 (read_u16 e r)"
| "read_kind e r K_u32 = read_as F_u32 (read_u32 e r)"
| "read_kind e r K_u64 = read_as F_u64 (read_u64 e r)"
| "read_kind e r K_f32 = read_as F_f32 (read_f32 e r)"
| "read_kind e r K_f64 = read_as F_f64 (read_f64 e r)"
| "read_kind e r (K_bytes n) = read_as F_bytes (read_bytes r n)"
| "read_kind e r K_string = out_bind (read_string e r) (\<lambda>(res, r').
     case res of Inl msg \<Rightarrow> Inr (Inl msg, r')
     | Inr v \<Rightarrow> out_bind (view_bytes r' v) (\<lambda>bs. Inr (Inr (F_string bs), r')))"

fun read_message :: "endian \<Rightarrow> byte_reader \<Rightarrow> kind list \<Rightarrow> (field list sap_result \<times> byte_reader) outcome" where
  "read_message e r [] = Inr (Inr [], r)"
| "read_message e r (k # ks) = out_bind (read_kind e r k) (\<lambda>(res, r').
     case res of Inl msg \<Rightarrow> Inr (Inl msg, r')
     | Inr f \<Rightarrow> out_bind (read_message e r' ks) (\<lambda>(res', r''). Inr (map_sum id (Cons f) res', r'')))"

text \<open>The bytes of a field on the wire.\<close>

fun field_wire :: "endian \<Rightarrow> field \<Rightarrow> u8 list" where
  "field_wire e (F_u8 v) = [v]"
| "field_wire e (F_u16 v) = rev (le_bytes 2 v)"
| "field_wire e (F_u32 v) = rev (le_bytes 4 v)"
| "field_wire e (F_u64 v) = wire64 e v"
| "field_wire e (F_f32 v) = rev (le_bytes 4 v)"
| "field_wire e (F_f64 v) = wire64 e v"
| "field_wire e (F_string bs) = wire64 e (of_nat (length bs)) @ bs"
| "field_wire e (F_bytes bs) = bs"

lemma write_field_wire: "bw_buffer (write_field e w f) = bw_buffer w @ field_wire e f"
  by (cases f) (simp_all add: write_u8_def write_u16_def write_u32_def write_u64_def write_f32_def write_f64_def
      write_string_def write_bytes_def append_bytes_def Let_def mem_bytes_htons mem_bytes_htonl mem_bytes_htonll)

lemma write_message_wire: "bw_buffer (write_message e fs) = concat (map (field_wire e) fs)"
proof -
  have "bw_buffer (foldl (write_field e) w fs) = bw_buffer w @ concat (map (field_wire e) fs)" for w
    by (induction fs arbitrary: w) (simp_all add: write_field_wire)
  then show ?thesis by (simp add: write_message_def)
qed

text \<open>Reading one field that is on the wire.\<close>

definition reads :: "(field sap_result \<times> byte_reader) outcome \<Rightarrow> byte_reader \<Rightarrow> field \<Rightarrow> u8 list \<Rightarrow> bool" where
  "reads m r f rest \<longleftrightarrow>
     (\<exists>r'. m = Inr (Inr f, r') \<and> br_inv r' \<and> br_rest r' = rest \<and> br_buffer r' = br_buffer r)"

lemma reads_advance:
  assumes "br_inv r" and "br_rest r = bs @ rest" and "unat w = length bs"
    and "m = Inr (Inr f, r\<lparr>br_offset := br_offset r + w\<rparr>)"
  shows "reads m r f rest"
  using br_advance(1,2) [OF assms(1) _ assms(3)] assms(2,4) by (simp add: reads_def)

lemma read_kind_string:
  assumes inv: "br_inv r" and rest: "br_rest r = field_wire e (F_string bs) @ rest"
  shows "reads (read_kind e r K_string) r (F_string bs) rest"
proof -
  define r1 where "r1 = r\<lparr>br_offset := br_offset r + 8\<rparr>"
  let ?len = "of_nat (length bs) :: u64"
  have "length bs < 2 ^ 63"
    using br_rest_length [OF inv] unfolding rest by simp
  then have len: "unat ?len = length bs"
    by (simp add: unat_of_nat)
  have r1: "br_inv r1" "br_rest r1 = bs @ rest"
    using br_advance(1,2) [OF inv, of 8 8] rest by (simp_all add: r1_def)
  have "read_u64 e r = Inr (Inr ?len, r1)"
    using read_u64_eq [OF inv, of e] rest by (simp add: r1_def ntohll_mem_word)
  moreover note adv = br_advance [OF r1(1) _ len]
  ultimately have "read_string e r =
      Inr (Inr \<lparr>sv_start = br_offset r1, sv_len = ?len\<rparr>, r1\<lparr>br_offset := br_offset r1 + ?len\<rparr>)"
    using adv(5) r1(2) by (simp add: read_string_def)
  moreover have "view_bytes (r1\<lparr>br_offset := br_offset r1 + ?len\<rparr>) \<lparr>sv_start = br_offset r1, sv_len = ?len\<rparr> = Inr bs"
    using adv(3) r1(2) len by (simp add: view_bytes_def br_bytes_def split: if_splits)
  ultimately have "read_kind e r K_string = Inr (Inr (F_string bs), r1\<lparr>br_offset := br_offset r1 + ?len\<rparr>)"
    by simp
  then show ?thesis
    using adv(1,2) r1(2) by (simp add: reads_def r1_def)
qed

lemma read_kind_wire:
  assumes inv: "br_inv r" and rest: "br_rest r = field_wire e f @ rest"
  shows "reads (read_kind e r (kind_of f)) r f rest"
proof (cases f)
  case (F_u8 v)
  with inv rest show ?thesis
    by (intro reads_advance [of r "[v]" rest 1]) (simp_all add: read_u8_eq read_as_def)
next
  case (F_u16 v)
  with inv rest show ?thesis
    by (intro reads_advance [of r "rev (le_bytes 2 v)" rest 2]) (simp_all add: read_u16_eq read_as_def ntohs_mem_word)
next
  case (F_u32 v)
  with inv rest show ?thesis
    by (intro reads_advance [of r "rev (le_bytes 4 v)" rest 4]) (simp_all add: read_u32_eq read_as_def ntohl_mem_word)
next
  case (F_u64 v)
  with inv rest show ?thesis
    by (intro reads_advance [of r "wire64 e v" rest 8]) (simp_all add: read_u64_eq read_as_def ntohll_mem_word)
next
  case (F_f32 v)
  with inv rest show ?thesis
    by (intro reads_advance [of r "rev (le_bytes 4 v)" rest 4])
      (simp_all add: read_f32_eq read_u32_eq read_as_def ntohl_mem_word)
next
  case (F_f64 v)
  with inv rest show ?thesis
    by (intro reads_advance [of r "wire64 e v" rest 8]) (simp_all add: read_f64_eq read_u64_eq read_as_def ntohll_mem_word)
next
  case (F_string bs)
  with inv rest show ?thesis
    using read_kind_string [OF inv, of e bs rest] by simp
next
  case (F_bytes bs)
  have "length bs < 2 ^ 63"
    using br_rest_length [OF inv] F_bytes unfolding rest by simp
  then have len: "unat (of_nat (length bs) :: size_t) = length bs" "unat (of_nat (length bs) :: size_t) < 2 ^ 63"
    by (simp_all add: unat_of_nat)
  with inv rest F_bytes show ?thesis
    by (intro reads_advance [of r bs rest "of_nat (length bs)"]) (simp_all add: read_bytes_eq read_as_def)
qed

text \<open>
  C10: round trip. On any host, reading back a message that was written, asking for the same kinds
  in the same order, returns exactly the fields written, consumes every byte and leaves none. The
  message must not exceed \<^verbatim>\<open>PTRDIFF_MAX\<close> bytes.
\<close>

theorem serialization_round_trip:
  assumes "length (bw_buffer (write_message e fs)) < 2 ^ 63"
  shows "\<exists>r. read_message e (byte_reader_make (bw_buffer (write_message e fs))) (map kind_of fs) = Inr (Inr fs, r) \<and>
    unat (bytes_read r) = length (bw_buffer (write_message e fs)) \<and> remaining r = 0"
proof -
  have step: "\<exists>r'. read_message e r (map kind_of fs) = Inr (Inr fs, r') \<and> br_inv r' \<and> br_rest r' = [] \<and>
      br_buffer r' = br_buffer r" if "br_inv r" "br_rest r = concat (map (field_wire e) fs)" for r fs
    using that
  proof (induction fs arbitrary: r)
    case (Cons f fs)
    then have "reads (read_kind e r (kind_of f)) r f (concat (map (field_wire e) fs))"
      by (intro read_kind_wire) simp_all
    then obtain r1 where r1: "read_kind e r (kind_of f) = Inr (Inr f, r1)" "br_inv r1"
      "br_rest r1 = concat (map (field_wire e) fs)" "br_buffer r1 = br_buffer r"
      by (auto simp: reads_def)
    from Cons.IH [OF r1(2,3)] r1(1,4) show ?case by auto
  qed auto
  let ?buf = "bw_buffer (write_message e fs)"
  have "br_inv (byte_reader_make ?buf)" "br_rest (byte_reader_make ?buf) = concat (map (field_wire e) fs)"
    using assms by (simp_all add: byte_reader_make_def br_inv_def br_rest_def write_message_wire)
  from step [OF this] obtain r where
    r: "read_message e (byte_reader_make ?buf) (map kind_of fs) = Inr (Inr fs, r)" "br_inv r" "br_rest r = []"
       "br_buffer r = ?buf" by (auto simp: byte_reader_make_def)
  then have "remaining r = 0"
    using remaining_eq [OF r(2)] by (simp add: unat_eq_0)
  moreover have "unat (bytes_read r) = length ?buf"
    using r(2,3,4) by (simp add: br_rest_def br_inv_def bytes_read_def)
  ultimately show ?thesis
    using r(1) by blast
qed

theorem serialization_round_trip_witness:
  "\<exists>r. read_message Little (byte_reader_make (bw_buffer (write_message Little [F_u16 513, F_string [104, 105]])))
      [K_u16, K_string] = Inr (Inr [F_u16 513, F_string [104, 105]], r) \<and> remaining r = 0"
  using serialization_round_trip [of Little "[F_u16 513, F_string [104, 105]]"]
  by (auto simp: write_message_wire)

text \<open>
  the wire format is network byte order: 16- and 32-bit values are written with the most
  significant byte first on every host, and 64-bit values on little-endian hosts.
\<close>

theorem serialization_network_order:
  "bw_buffer (snd (write_u16 e w v)) = bw_buffer w @ rev (le_bytes 2 v) \<and>
   bw_buffer (snd (write_u32 e w x)) = bw_buffer w @ rev (le_bytes 4 x) \<and>
   bw_buffer (snd (write_u64 Little w y)) = bw_buffer w @ rev (le_bytes 8 y)"
  by (simp add: write_u16_def write_u32_def write_u64_def append_bytes_def Let_def mem_bytes_htons mem_bytes_htonl
      mem_bytes_htonll wire64_def)

text \<open>
  on a big-endian host \<^verbatim>\<open>htonll\<close> exchanges the halves of a 64-bit value although it is already
  in network order, so a little-endian reader gets the value with its 32-bit halves exchanged.
\<close>

theorem htonll_big_endian_swaps_halves:
  "\<exists>r. read_u64 Little (byte_reader_make (bw_buffer (snd (write_u64 Big \<lparr>bw_buffer = []\<rparr> v)))) =
     Inr (Inr (push_bit 32 v OR drop_bit 32 v), r)"
proof -
  let ?lo = "ucast (v AND 0xFFFFFFFF) :: u32" and ?hi = "ucast (drop_bit 32 v) :: u32"
  let ?w = "push_bit 32 (ucast ?lo) OR ucast ?hi :: u64"
  have eq: "wire64 Big v = wire64 Little ?w"
    by (simp add: wire64_def le_bytes_u64_join)
  have m: "(0xFFFFFFFF :: u64) = mask 32"
    by (simp add: mask_eq_exp_minus_1)
  have w: "?w = push_bit 32 v OR drop_bit 32 v"
    by (intro bit_word_eqI) (auto simp: m bit_or_iff bit_push_bit_iff bit_ucast_iff bit_and_iff bit_mask_iff
        bit_drop_bit_eq dest: bit_imp_le_length)
  have "bw_buffer (snd (write_u64 Big \<lparr>bw_buffer = []\<rparr> v)) = wire64 Little ?w"
    by (simp only: write_u64_def append_bytes_def Let_def snd_conv mem_bytes_htonll eq) simp
  then show ?thesis
    using read_u64_eq [of "byte_reader_make (wire64 Little ?w)" Little] ntohll_mem_word [of Little ?w]
    by (simp add: byte_reader_make_def br_inv_def br_rest_def w)
qed

lemma ntohs_mem_word_eq: "length bs = 2 \<Longrightarrow> ntohs e (mem_word e bs) = le_word (rev bs)"
  by (simp add: htons_def mem_word_def split: endian.splits)

lemma ntohl_mem_word_eq: "length bs = 4 \<Longrightarrow> ntohl e (mem_word e bs) = le_word (rev bs)"
  by (simp add: htonl_def mem_word_def split: endian.splits)

lemma ntohll_mem_word_eq:
  assumes "length bs = 8"
  shows "ntohll Little (mem_word Little bs) = le_word (rev bs)"
proof -
  have "bs = wire64 Little (le_word (rev bs))"
    using assms by (simp add: wire64_def)
  then show ?thesis
    using ntohll_mem_word [of Little "le_word (rev bs)"] by simp
qed

text \<open>
  the fixed-size reads, from any position. With too few bytes left a read returns the underflow
  message with the number of bytes left and does not move; otherwise it returns the value of the next
  bytes in network order (for \<^verbatim>\<open>u64\<close> on little-endian hosts) and moves past them. No read
  leaves the buffer, and the reader stays within it.
\<close>

theorem byte_reader_fixed_reads:
  assumes "br_inv r"
  shows "read_u8 r = (if length (br_rest r) < 1 then underflow ''1 byte'' r
            else Inr (Inr (hd (br_rest r)), r\<lparr>br_offset := br_offset r + 1\<rparr>)) \<and>
         read_u16 e r = (if length (br_rest r) < 2 then underflow ''2 bytes'' r
            else Inr (Inr (le_word (rev (take 2 (br_rest r)))), r\<lparr>br_offset := br_offset r + 2\<rparr>)) \<and>
         read_u32 e r = (if length (br_rest r) < 4 then underflow ''4 bytes'' r
            else Inr (Inr (le_word (rev (take 4 (br_rest r)))), r\<lparr>br_offset := br_offset r + 4\<rparr>)) \<and>
         read_u64 Little r = (if length (br_rest r) < 8 then underflow ''8 bytes'' r
            else Inr (Inr (le_word (rev (take 8 (br_rest r)))), r\<lparr>br_offset := br_offset r + 8\<rparr>)) \<and>
         read_f32 e r = read_u32 e r \<and> read_f64 e r = read_u64 e r \<and>
         (\<forall>w. unat w \<le> length (br_rest r) \<longrightarrow> br_inv (r\<lparr>br_offset := br_offset r + w\<rparr>) \<and>
            br_rest (r\<lparr>br_offset := br_offset r + w\<rparr>) = drop (unat w) (br_rest r))"
proof -
  have "\<forall>w. unat w \<le> length (br_rest r) \<longrightarrow> br_inv (r\<lparr>br_offset := br_offset r + w\<rparr>) \<and>
      br_rest (r\<lparr>br_offset := br_offset r + w\<rparr>) = drop (unat w) (br_rest r)"
    using br_advance(1,2) [OF assms _ refl] by blast
  then show ?thesis
    using assms by (simp add: read_u8_eq read_u16_eq read_u32_eq read_u64_eq read_f32_eq read_f64_eq
        ntohs_mem_word_eq ntohl_mem_word_eq ntohll_mem_word_eq)
qed

theorem byte_reader_fixed_reads_witness:
  "read_u16 Big (byte_reader_make [1, 2, 3]) = Inr (Inr 258, (byte_reader_make [1, 2, 3])\<lparr>br_offset := 2\<rparr>)"
proof -
  have "br_inv (byte_reader_make [1, 2, 3])"
    by (simp add: byte_reader_make_def br_inv_def)
  from byte_reader_fixed_reads [OF this, of Big] show ?thesis
    by (simp add: byte_reader_make_def br_rest_def)
qed

text \<open>
  C33: \<^verbatim>\<open>read_string\<close> when the length field is below \<open>2 ^ 63\<close>. If the length cannot be read the
  message says so and the reader does not move; if the body is cut short it reports the underflow
  and has moved past the length; otherwise the view denotes exactly the next bytes of the buffer and
  the reader moves past them.
\<close>

theorem read_string_spec:
  assumes "br_inv r" and "length (br_rest r) < 8 \<or> unat (ntohll e (mem_word e (take 8 (br_rest r)))) < 2 ^ 63"
  shows "let len = ntohll e (mem_word e (take 8 (br_rest r))); r1 = r\<lparr>br_offset := br_offset r + 8\<rparr>;
             body = drop 8 (br_rest r) in
    if length (br_rest r) < 8
    then read_string e r = Inr (Inl (''failed to read string length: buffer underflow: need 8 bytes, have '' @
           format_nat (length (br_rest r))), r)
    else if length body < unat len
    then read_string e r = Inr (Inl (''buffer underflow: need '' @ format_nat (unat len) @ '' bytes for string, have '' @
           format_nat (length body)), r1)
    else \<exists>v r'. read_string e r = Inr (Inr v, r') \<and> view_bytes r' v = Inr (take (unat len) body) \<and> br_inv r' \<and>
           br_rest r' = drop (unat len) body"
proof (cases "length (br_rest r) < 8")
  case True
  then show ?thesis
    using read_u64_eq [OF assms(1), of e] by (simp add: read_string_def underflow_def Let_def)
next
  case False
  define len where "len = ntohll e (mem_word e (take 8 (br_rest r)))"
  define r1 where "r1 = r\<lparr>br_offset := br_offset r + 8\<rparr>"
  have r1: "br_inv r1" "br_rest r1 = drop 8 (br_rest r)"
    using br_advance(1,2) [OF assms(1), of 8 8] False by (simp_all add: r1_def)
  have u: "read_u64 e r = Inr (Inr len, r1)"
    using read_u64_eq [OF assms(1), of e] False by (simp add: len_def r1_def)
  have small: "unat len < 2 ^ 63"
    using assms(2) False by (simp add: len_def)
  show ?thesis
  proof (cases "length (br_rest r1) < unat len")
    case True
    with br_underflow [OF r1(1) True small] u False remaining_eq [OF r1(1)] r1(2) show ?thesis
      unfolding Let_def len_def [symmetric] r1_def [symmetric] by (simp add: read_string_def)
  next
    case short: False
    note adv = br_advance [OF r1(1) _ refl, of len]
    let ?v = "\<lparr>sv_start = br_offset r1, sv_len = len\<rparr>" and ?r = "r1\<lparr>br_offset := br_offset r1 + len\<rparr>"
    have "read_string e r = Inr (Inr ?v, ?r)"
      using adv(5) short u by (simp add: read_string_def)
    moreover have "view_bytes ?r ?v = Inr (take (unat len) (br_rest r1))"
      using adv(3) short by (simp add: view_bytes_def br_bytes_def split: if_splits)
    ultimately show ?thesis
      using adv(1,2) short False r1(2) unfolding Let_def len_def [symmetric] r1_def [symmetric] by simp
  qed
qed

theorem read_string_spec_witness:
  "\<exists>v r'. read_string Little (byte_reader_make (wire64 Little 2 @ [104, 105])) = Inr (Inr v, r') \<and>
     view_bytes r' v = Inr [104, 105]"
proof -
  let ?r = "byte_reader_make (wire64 Little 2 @ [104, 105])"
  have r: "br_inv ?r" "br_rest ?r = wire64 Little 2 @ [104, 105]"
    by (simp_all add: byte_reader_make_def br_inv_def br_rest_def)
  then have "unat (ntohll Little (mem_word Little (take 8 (br_rest ?r)))) = 2"
    by (simp add: ntohll_mem_word)
  with read_string_spec [OF r(1), of Little] r(2) show ?thesis
    by (auto simp: Let_def)
qed

text \<open>
  C39: the bounds test of \<^verbatim>\<open>read_string\<close> and \<^verbatim>\<open>read_bytes\<close> wraps around. A message that announces a
  string of \<open>2 ^ 64 - 8\<close> bytes is accepted: the view reaches outside the buffer and the reader moves
  back to the start. A \<^verbatim>\<open>read_bytes\<close> of \<open>2 ^ 64 - offset\<close> bytes asks for a subspan out of range.
\<close>

theorem serialization_length_wraps:
  assumes "length body < 2 ^ 62" and "br_inv q" and "br_offset q \<noteq> 0"
  shows "\<exists>v r'. read_string e (byte_reader_make (wire64 e (- 8) @ body)) = Inr (Inr v, r') \<and>
           view_bytes r' v = Inl Out_Of_Bounds \<and> br_offset r' = 0 \<and>
         read_bytes q (- br_offset q) = Inl Out_Of_Bounds"
proof -
  let ?r = "byte_reader_make (wire64 e (- 8) @ body)"
  have r: "br_inv ?r" "br_rest ?r = wire64 e (- 8) @ body"
    using assms(1) by (simp_all add: byte_reader_make_def br_inv_def br_rest_def)
  have u: "read_u64 e ?r = Inr (Inr (- 8), ?r\<lparr>br_offset := 8\<rparr>)"
    using read_u64_eq [OF r(1), of e] r(2) by (simp add: ntohll_mem_word) (simp add: byte_reader_make_def)
  have "unat (- 8 :: u64) = 2 ^ 64 - 8"
    using unat_uminus_add [of "8 :: u64"] by simp
  then have oob: "view_bytes r' \<lparr>sv_start = 8, sv_len = - 8\<rparr> = Inl Out_Of_Bounds"
    if "br_buffer r' = br_buffer ?r" for r'
    using that assms(1) by (simp add: view_bytes_def br_bytes_def byte_reader_make_def)
  have s: "read_string e ?r = Inr (Inr \<lparr>sv_start = 8, sv_len = - 8\<rparr>, ?r\<lparr>br_offset := 0\<rparr>)"
    using u by (simp add: read_string_def)
  have "unat (- br_offset q) + unat (br_offset q) = 2 ^ 64"
    using unat_uminus_add [OF assms(3)] by simp
  then have "read_bytes q (- br_offset q) = Inl Out_Of_Bounds"
    using assms(2) by (simp add: read_bytes_def br_bytes_def br_inv_def)
  with s oob [of "?r\<lparr>br_offset := 0\<rparr>"] show ?thesis by simp
qed

theorem serialization_length_wraps_witness:
  "\<exists>v r'. read_string Little (byte_reader_make (wire64 Little (- 8) @ [])) = Inr (Inr v, r') \<and>
     view_bytes r' v = Inl Out_Of_Bounds"
  using serialization_length_wraps [of "[]" "\<lparr>br_buffer = [0], br_offset = 1\<rparr>" Little]
  by (auto simp: br_inv_def)

end
