(* ===== verification/Result_Model.thy ===== *)
theory Result_Model
  imports Sap_Prelude
begin

text \<open>
  \<^verbatim>\<open>stl::result<T, Et>\<close>, \<^verbatim>\<open>include/sap_core/stl/result.h\<close>: a hand-written tagged union. The union's
  storage is explicit, so that a placement new, an explicit destructor call and an access to the
  wrong member are visible, and the special members of \<open>T\<close> and \<open>Et\<close> are parameters that may throw.
\<close>

section \<open>Definitions\<close>

text \<open>The union: no member alive, \<^verbatim>\<open>m_value\<close> alive, or \<^verbatim>\<open>m_error\<close> alive.\<close>

datatype ('t, 'e) storage = Raw | MValue 't | MError 'e

text \<open>
  \<open>ctors\<close> and \<open>dtors\<close> count the members constructed and destroyed in this storage; the code does not
  have them.
\<close>

record ('t, 'e) result =
  storage :: "('t, 'e) storage"
  m_has_value :: bool
  ctors :: nat
  dtors :: nat

text \<open>
  An operation that mutates objects either returns or throws, and leaves a state behind in both
  cases; undefined behaviour and failed assertions are errors of the enclosing \<^typ>\<open>'a outcome\<close>.
\<close>

datatype 's completion = Done 's | Threw 's

text \<open>The special members of a type: a constructor that throws leaves no object.\<close>

record 't special =
  default_ctor :: "'t outcome"
  copy_ctor :: "'t \<Rightarrow> 't outcome"
  move_ctor :: "'t \<Rightarrow> ('t \<times> 't) outcome" \<comment> \<open>the new object and the source afterwards\<close>
  copy_assign :: "'t \<Rightarrow> 't \<Rightarrow> 't completion" \<comment> \<open>target, source\<close>
  move_assign :: "'t \<Rightarrow> 't \<Rightarrow> ('t \<times> 't) completion" \<comment> \<open>target, source\<close>

text \<open>Placement new of a value or an error, and the two explicit destructor calls.\<close>

definition new_value :: "('t, 'e) result \<Rightarrow> 't \<Rightarrow> ('t, 'e) result" where
  "new_value r v = r\<lparr>storage := MValue v, ctors := Suc (ctors r)\<rparr>"

definition new_error :: "('t, 'e) result \<Rightarrow> 'e \<Rightarrow> ('t, 'e) result" where
  "new_error r e = r\<lparr>storage := MError e, ctors := Suc (ctors r)\<rparr>"

definition destroy_member :: "('t, 'e) result \<Rightarrow> ('t, 'e) result outcome" where
  "destroy_member r =
     (case storage r of
        MValue v \<Rightarrow> if m_has_value r then Inr (r\<lparr>storage := Raw, dtors := Suc (dtors r)\<rparr>) else Inl Dead_Object
      | MError e \<Rightarrow> if m_has_value r then Inl Dead_Object else Inr (r\<lparr>storage := Raw, dtors := Suc (dtors r)\<rparr>)
      | Raw \<Rightarrow> Inl Dead_Object)"

text \<open>Reading the members of another object.\<close>

definition get_value :: "('t, 'e) result \<Rightarrow> 't outcome" where
  "get_value r = (case storage r of MValue v \<Rightarrow> Inr v | _ \<Rightarrow> Inl Dead_Object)"

definition get_error :: "('t, 'e) result \<Rightarrow> 'e outcome" where
  "get_error r = (case storage r of MError e \<Rightarrow> Inr e | _ \<Rightarrow> Inl Dead_Object)"

definition fresh :: "bool \<Rightarrow> ('t, 'e) result" where
  "fresh has = \<lparr>storage = Raw, m_has_value = has, ctors = 0, dtors = 0\<rparr>"

subsection \<open>Constructors\<close>

text \<open>\<^verbatim>\<open>result()\<close>, \<^verbatim>\<open>result(success_tag_t, args...)\<close>, \<^verbatim>\<open>result(error_tag_t, args...)\<close>: the
  outcome of the member's constructor is the argument.\<close>

definition result_default :: "'t special \<Rightarrow> ('t, 'e) result outcome" where
  "result_default T = out_bind (default_ctor T) (\<lambda>v. Inr (new_value (fresh True) v))"

definition result_success_tag :: "'t outcome \<Rightarrow> ('t, 'e) result outcome" where
  "result_success_tag args = out_bind args (\<lambda>v. Inr (new_value (fresh True) v))"

definition result_error_tag :: "'e outcome \<Rightarrow> ('t, 'e) result outcome" where
  "result_error_tag args = out_bind args (\<lambda>e. Inr (new_error (fresh False) e))"

definition result_copy :: "'t special \<Rightarrow> 'e special \<Rightarrow> ('t, 'e) result \<Rightarrow> ('t, 'e) result outcome" where
  "result_copy T E other =
     (if m_has_value other
      then out_bind (get_value other) (\<lambda>v. out_bind (copy_ctor T v) (\<lambda>v'. Inr (new_value (fresh True) v')))
      else out_bind (get_error other) (\<lambda>e. out_bind (copy_ctor E e) (\<lambda>e'. Inr (new_error (fresh False) e'))))"

text \<open>The move constructor also returns \<^verbatim>\<open>other\<close>, whose member has been moved from.\<close>

definition result_move ::
  "'t special \<Rightarrow> 'e special \<Rightarrow> ('t, 'e) result \<Rightarrow> (('t, 'e) result \<times> ('t, 'e) result) outcome" where
  "result_move T E other =
     (if m_has_value other
      then out_bind (get_value other) (\<lambda>v. out_bind (move_ctor T v) (\<lambda>(v', src).
             Inr (new_value (fresh True) v', other\<lparr>storage := MValue src\<rparr>)))
      else out_bind (get_error other) (\<lambda>e. out_bind (move_ctor E e) (\<lambda>(e', src).
             Inr (new_error (fresh False) e', other\<lparr>storage := MError src\<rparr>))))"

definition result_from_value :: "'t special \<Rightarrow> 't \<Rightarrow> ('t, 'e) result outcome" where
  "result_from_value T value = out_bind (copy_ctor T value) (\<lambda>v. Inr (new_value (fresh True) v))"

definition result_from_value_move :: "'t special \<Rightarrow> 't \<Rightarrow> (('t, 'e) result \<times> 't) outcome" where
  "result_from_value_move T value =
     out_bind (move_ctor T value) (\<lambda>(v, src). Inr (new_value (fresh True) v, src))"

definition result_destroy :: "('t, 'e) result \<Rightarrow> ('t, 'e) result outcome" where
  "result_destroy r = destroy_member r"

subsection \<open>Assignment\<close>

text \<open>
  \<^verbatim>\<open>operator=(const result&)\<close> for two distinct objects; \<^verbatim>\<open>this == &other\<close> returns at once. In the
  last branch the old member is destroyed and the flag is set before the new member is constructed.
\<close>

definition result_assign_copy ::
  "'t special \<Rightarrow> 'e special \<Rightarrow> bool \<Rightarrow> ('t, 'e) result \<Rightarrow> ('t, 'e) result \<Rightarrow> ('t, 'e) result completion outcome" where
  "result_assign_copy T E same r other =
     (if same then Inr (Done r)
      else if m_has_value r \<and> m_has_value other
      then out_bind (get_value r) (\<lambda>v. out_bind (get_value other) (\<lambda>v'.
             Inr (map_completion (\<lambda>x. r\<lparr>storage := MValue x\<rparr>) (copy_assign T v v'))))
      else if \<not> m_has_value r \<and> \<not> m_has_value other
      then out_bind (get_error r) (\<lambda>e. out_bind (get_error other) (\<lambda>e'.
             Inr (map_completion (\<lambda>x. r\<lparr>storage := MError x\<rparr>) (copy_assign E e e'))))
      else out_bind (destroy_member r) (\<lambda>r0.
             let r1 = r0\<lparr>m_has_value := m_has_value other\<rparr>
             in if m_has_value r1
                then out_bind (get_value other) (\<lambda>v.
                       Inr (case copy_ctor T v of Inr v' \<Rightarrow> Done (new_value r1 v') | Inl _ \<Rightarrow> Threw r1))
                else out_bind (get_error other) (\<lambda>e.
                       Inr (case copy_ctor E e of Inr e' \<Rightarrow> Done (new_error r1 e') | Inl _ \<Rightarrow> Threw r1))))"

text \<open>\<^verbatim>\<open>operator=(result&&)\<close> returns both objects.\<close>

definition result_assign_move ::
  "'t special \<Rightarrow> 'e special \<Rightarrow> bool \<Rightarrow> ('t, 'e) result \<Rightarrow> ('t, 'e) result
     \<Rightarrow> (('t, 'e) result \<times> ('t, 'e) result) completion outcome" where
  "result_assign_move T E same r other =
     (if same then Inr (Done (r, r))
      else if m_has_value r \<and> m_has_value other
      then out_bind (get_value r) (\<lambda>v. out_bind (get_value other) (\<lambda>v'.
             Inr (map_completion (\<lambda>(x, y). (r\<lparr>storage := MValue x\<rparr>, other\<lparr>storage := MValue y\<rparr>)) (move_assign T v v'))))
      else if \<not> m_has_value r \<and> \<not> m_has_value other
      then out_bind (get_error r) (\<lambda>e. out_bind (get_error other) (\<lambda>e'.
             Inr (map_completion (\<lambda>(x, y). (r\<lparr>storage := MError x\<rparr>, other\<lparr>storage := MError y\<rparr>)) (move_assign E e e'))))
      else out_bind (destroy_member r) (\<lambda>r0.
             let r1 = r0\<lparr>m_has_value := m_has_value other\<rparr>
             in if m_has_value r1
                then out_bind (get_value other) (\<lambda>v.
                       Inr (case move_ctor T v of
                              Inr (v', y) \<Rightarrow> Done (new_value r1 v', other\<lparr>storage := MValue y\<rparr>)
                            | Inl _ \<Rightarrow> Threw (r1, other)))
                else out_bind (get_error other) (\<lambda>e.
                       Inr (case move_ctor E e of
                              Inr (e', y) \<Rightarrow> Done (new_error r1 e', other\<lparr>storage := MError y\<rparr>)
                            | Inl _ \<Rightarrow> Threw (r1, other)))))"

subsection \<open>Access\<close>

definition has_value :: "('t, 'e) result \<Rightarrow> bool" where
  "has_value r = m_has_value r"

definition has_error :: "('t, 'e) result \<Rightarrow> bool" where
  "has_error r \<longleftrightarrow> \<not> m_has_value r"

definition result_value :: "('t, 'e) result \<Rightarrow> 't outcome" where
  "result_value r =
     out_bind (cpp_assert (m_has_value r) ''Accessing value of failed result'') (\<lambda>_. get_value r)"

definition result_error :: "('t, 'e) result \<Rightarrow> 'e outcome" where
  "result_error r =
     out_bind (cpp_assert (\<not> m_has_value r) ''Accessing error of successful result'') (\<lambda>_. get_error r)"

text \<open>\<^verbatim>\<open>operator->\<close> and \<^verbatim>\<open>operator*\<close> designate the same member.\<close>

definition result_deref :: "('t, 'e) result \<Rightarrow> 't outcome" where
  "result_deref r = out_bind (cpp_assert (m_has_value r) ''m_has_value'') (\<lambda>_. get_value r)"

definition result_arrow :: "('t, 'e) result \<Rightarrow> 't outcome" where
  "result_arrow r = out_bind (cpp_assert (m_has_value r) ''m_has_value'') (\<lambda>_. get_value r)"

subsection \<open>Emplace\<close>

definition emplace_value :: "('t, 'e) result \<Rightarrow> 't outcome \<Rightarrow> ('t, 'e) result completion outcome" where
  "emplace_value r args = out_bind (destroy_member r) (\<lambda>r0.
     let r1 = r0\<lparr>m_has_value := True\<rparr>
     in Inr (case args of Inr v \<Rightarrow> Done (new_value r1 v) | Inl _ \<Rightarrow> Threw r1))"

definition emplace_error :: "('t, 'e) result \<Rightarrow> 'e outcome \<Rightarrow> ('t, 'e) result completion outcome" where
  "emplace_error r args = out_bind (destroy_member r) (\<lambda>r0.
     let r1 = r0\<lparr>m_has_value := False\<rparr>
     in Inr (case args of Inr e \<Rightarrow> Done (new_error r1 e) | Inl _ \<Rightarrow> Threw r1))"

subsection \<open>Helpers\<close>

definition make_error :: "string \<Rightarrow> ('t, string) result outcome" where
  "make_error msg = result_error_tag (Inr msg)"

definition result_success :: "u32 outcome \<Rightarrow> (u32, string) result outcome" where
  "result_success args = result_success_tag args"

text \<open>\<^verbatim>\<open>RESULT_CHECK(f)\<close>: leave the enclosing function with a failed result, or go on.\<close>

definition result_check :: "('t, 'e) result outcome \<Rightarrow> ('t, 'e) result outcome \<Rightarrow> ('t, 'e) result outcome" where
  "result_check f continue = out_bind f (\<lambda>res. if \<not> has_value res then Inr res else continue)"

section \<open>Specification\<close>

text \<open>What a result denotes: an error or a value.\<close>

definition result_view :: "('t, 'e) result \<Rightarrow> ('e + 't) option" where
  "result_view r = (case storage r of MValue v \<Rightarrow> Some (Inr v) | MError e \<Rightarrow> Some (Inl e) | Raw \<Rightarrow> None)"

text \<open>Exactly the member that the flag names is alive, and nothing constructed before it is left.\<close>

definition result_wf :: "('t, 'e) result \<Rightarrow> bool" where
  "result_wf r \<longleftrightarrow>
     (case storage r of MValue v \<Rightarrow> m_has_value r | MError e \<Rightarrow> \<not> m_has_value r | Raw \<Rightarrow> False) \<and>
     ctors r = Suc (dtors r)"

text \<open>A type with value semantics whose special members do not throw.\<close>

definition regular :: "'t special \<Rightarrow> bool" where
  "regular T \<longleftrightarrow>
     (\<forall>v. copy_ctor T v = Inr v \<and> (\<exists>src. move_ctor T v = Inr (v, src))) \<and>
     (\<forall>a b. copy_assign T a b = Done b \<and> (\<exists>src. move_assign T a b = Done (b, src)))"

text \<open>The mutating operations as steps; the right-hand sides of the assignments are other objects.\<close>

datatype ('t, 'e) result_op =
    R_assign_copy "('t, 'e) result"
  | R_assign_move "('t, 'e) result"
  | R_self_copy
  | R_self_move
  | R_emplace_value "'t outcome"
  | R_emplace_error "'e outcome"

fun result_step :: "'t special \<Rightarrow> 'e special \<Rightarrow> ('t, 'e) result \<Rightarrow> ('t, 'e) result_op \<Rightarrow> ('t, 'e) result completion outcome" where
  "result_step T E r (R_assign_copy other) = result_assign_copy T E False r other"
| "result_step T E r (R_assign_move other) = out_bind (result_assign_move T E False r other) (\<lambda>c. Inr (map_completion fst c))"
| "result_step T E r R_self_copy = result_assign_copy T E True r r"
| "result_step T E r R_self_move = out_bind (result_assign_move T E True r r) (\<lambda>c. Inr (map_completion fst c))"
| "result_step T E r (R_emplace_value args) = emplace_value r args"
| "result_step T E r (R_emplace_error args) = emplace_error r args"

fun result_run :: "'t special \<Rightarrow> 'e special \<Rightarrow> ('t, 'e) result \<Rightarrow> ('t, 'e) result_op list \<Rightarrow> ('t, 'e) result completion outcome" where
  "result_run T E r [] = Inr (Done r)"
| "result_run T E r (x # xs) = out_bind (result_step T E r x) (\<lambda>c.
     case c of Done r' \<Rightarrow> result_run T E r' xs | Threw r' \<Rightarrow> Inr (Threw r'))"

text \<open>The operands of an operation are well formed.\<close>

fun result_op_ok :: "('t, 'e) result_op \<Rightarrow> bool" where
  "result_op_ok (R_assign_copy other) = result_wf other"
| "result_op_ok (R_assign_move other) = result_wf other"
| "result_op_ok x = True"

text \<open>What an operation that does not throw makes of the denoted result.\<close>

fun result_op_view :: "('e + 't) option \<Rightarrow> ('t, 'e) result_op \<Rightarrow> ('e + 't) option" where
  "result_op_view v (R_assign_copy other) = result_view other"
| "result_op_view v (R_assign_move other) = result_view other"
| "result_op_view v R_self_copy = v"
| "result_op_view v R_self_move = v"
| "result_op_view v (R_emplace_value args) = (case args of Inr x \<Rightarrow> Some (Inr x) | Inl _ \<Rightarrow> None)"
| "result_op_view v (R_emplace_error args) = (case args of Inr x \<Rightarrow> Some (Inl x) | Inl _ \<Rightarrow> None)"

text \<open>The two well-formed shapes.\<close>

lemma result_wf_cases:
  assumes "result_wf r"
  obtains (val) v where "storage r = MValue v" "m_has_value r" "ctors r = Suc (dtors r)"
    | (err) e where "storage r = MError e" "\<not> m_has_value r" "ctors r = Suc (dtors r)"
  using assms by (auto simp: result_wf_def split: storage.splits)

named_theorems result_simps "unfolding the operations of a result"

lemma map_completion_case [result_simps]:
  "map_completion f c = (case c of Done x \<Rightarrow> Done (f x) | Threw x \<Rightarrow> Threw (f x))"
  by (cases c) simp_all

lemmas result_defs [result_simps] = new_value_def new_error_def destroy_member_def get_value_def get_error_def
  fresh_def result_wf_def result_view_def Let_def

lemmas result_ops [result_simps] = result_copy_def result_move_def result_assign_copy_def result_assign_move_def
  emplace_value_def emplace_error_def result_destroy_def

lemma destroy_member_wf:
  assumes "result_wf r"
  shows "\<exists>r'. destroy_member r = Inr r' \<and> storage r' = Raw \<and> ctors r' = dtors r' \<and> m_has_value r' = m_has_value r"
  using assms by (cases rule: result_wf_cases) (simp_all add: destroy_member_def)

lemma new_value_wf: "storage r = Raw \<Longrightarrow> ctors r = dtors r \<Longrightarrow> m_has_value r \<Longrightarrow> result_wf (new_value r v)"
  by (simp add: new_value_def result_wf_def)

lemma new_error_wf: "storage r = Raw \<Longrightarrow> ctors r = dtors r \<Longrightarrow> \<not> m_has_value r \<Longrightarrow> result_wf (new_error r e)"
  by (simp add: new_error_def result_wf_def)

text \<open>A step ends well formed, or throws with the old member destroyed and no new one alive.\<close>

definition step_result_ok :: "('t, 'e) result completion \<Rightarrow> bool" where
  "step_result_ok c = (case c of Done r \<Rightarrow> result_wf r
     | Threw r \<Rightarrow> result_wf r \<or> storage r = Raw \<and> ctors r = dtors r)"

lemma emplace_ok:
  assumes "result_wf r"
  shows "\<exists>c. emplace_value r a = Inr c \<and> step_result_ok c" and "\<exists>c. emplace_error r b = Inr c \<and> step_result_ok c"
proof -
  obtain r' where "destroy_member r = Inr r'" "storage r' = Raw" "ctors r' = dtors r'"
    using destroy_member_wf [OF assms] by blast
  then show "\<exists>c. emplace_value r a = Inr c \<and> step_result_ok c" "\<exists>c. emplace_error r b = Inr c \<and> step_result_ok c"
    by (auto simp: emplace_value_def emplace_error_def Let_def step_result_ok_def new_value_wf new_error_wf split: sum.splits)
qed

lemma assign_copy_ok:
  assumes "result_wf r" and "result_wf other"
  shows "\<exists>c. result_assign_copy T E same r other = Inr c \<and> step_result_ok c"
  using assms(1)
proof (cases rule: result_wf_cases)
  case (val v)
  with assms show ?thesis
    by (cases rule: result_wf_cases [OF assms(2)])
      (auto simp: result_simps step_result_ok_def split: completion.splits sum.splits)
next
  case (err e)
  with assms show ?thesis
    by (cases rule: result_wf_cases [OF assms(2)])
      (auto simp: result_simps step_result_ok_def split: completion.splits sum.splits)
qed

lemma assign_move_ok:
  assumes "result_wf r" and "result_wf other"
  shows "\<exists>c. result_assign_move T E same r other = Inr c \<and> step_result_ok (map_completion fst c) \<and>
    result_wf (case c of Done p \<Rightarrow> snd p | Threw p \<Rightarrow> snd p)"
  using assms(1)
proof (cases rule: result_wf_cases)
  case (val v)
  with assms show ?thesis
    by (cases rule: result_wf_cases [OF assms(2)])
      (auto simp: result_simps step_result_ok_def split: completion.splits sum.splits)
next
  case (err e)
  with assms show ?thesis
    by (cases rule: result_wf_cases [OF assms(2)])
      (auto simp: result_simps step_result_ok_def split: completion.splits sum.splits)
qed

lemma result_step_ok:
  assumes "result_wf r" and "result_op_ok x"
  shows "\<exists>c. result_step T E r x = Inr c \<and> step_result_ok c"
proof (cases x)
  case (R_assign_copy other)
  then show ?thesis using assign_copy_ok [OF assms(1)] assms(2) by simp
next
  case (R_assign_move other)
  then obtain c where "result_assign_move T E False r other = Inr c" "step_result_ok (map_completion fst c)"
    using assign_move_ok [OF assms(1), of other T E False] assms(2) by auto
  with R_assign_move show ?thesis by simp
qed (use assms(1) emplace_ok in \<open>auto simp: result_assign_copy_def result_assign_move_def step_result_ok_def\<close>)

text \<open>A thrown exception leaves the result as it was or with no member alive; then its destructor is undefined.\<close>

definition run_ends_ok :: "('t, 'e) result completion \<Rightarrow> bool" where
  "run_ends_ok c = (case c of
     Done r \<Rightarrow> result_wf r \<and> (\<exists>r'. result_destroy r = Inr r' \<and> storage r' = Raw \<and> ctors r' = dtors r')
   | Threw r \<Rightarrow> (result_wf r \<and> (\<exists>r'. result_destroy r = Inr r' \<and> storage r' = Raw \<and> ctors r' = dtors r')) \<or>
                (storage r = Raw \<and> ctors r = dtors r \<and> result_destroy r = Inl Dead_Object))"

lemma step_result_ends_ok: "step_result_ok c \<Longrightarrow> run_ends_ok c"
proof -
  have "\<exists>r'. result_destroy r = Inr r' \<and> storage r' = Raw \<and> ctors r' = dtors r'" if "result_wf r" for r :: "('a, 'b) result"
    using destroy_member_wf [OF that] by (auto simp: result_destroy_def)
  moreover have "result_destroy r = Inl Dead_Object" if "storage r = Raw" for r :: "('a, 'b) result"
    using that by (simp add: result_destroy_def destroy_member_def)
  ultimately show "step_result_ok c \<Longrightarrow> run_ends_ok c" by (auto simp: step_result_ok_def run_ends_ok_def split: completion.splits)
qed

text \<open>The constructor that an emplacement runs does not throw.\<close>

fun result_op_quiet :: "('t, 'e) result_op \<Rightarrow> bool" where
  "result_op_quiet (R_emplace_value args) = (\<not> isl args)"
| "result_op_quiet (R_emplace_error args) = (\<not> isl args)"
| "result_op_quiet x = True"

lemma result_step_quiet:
  assumes "regular T" "regular E" "result_wf r" "result_op_ok x" "result_op_quiet x"
  shows "\<exists>r'. result_step T E r x = Inr (Done r') \<and> result_wf r' \<and> result_view r' = result_op_view (result_view r) x"
proof -
  obtain tm ta em ea where sp:
    "copy_ctor T = Inr" "copy_ctor E = Inr" "\<And>a b. copy_assign T a b = Done b" "\<And>a b. copy_assign E a b = Done b"
    "\<And>v. move_ctor T v = Inr (v, tm v)" "\<And>a b. move_assign T a b = Done (b, ta a b)"
    "\<And>v. move_ctor E v = Inr (v, em v)" "\<And>a b. move_assign E a b = Done (b, ea a b)"
    using assms(1,2) unfolding regular_def fun_eq_iff by metis
  have bin: "(\<exists>r'. result_assign_copy T E False r other = Inr (Done r') \<and> result_wf r' \<and> result_view r' = result_view other) \<and>
      (\<exists>r' src. result_assign_move T E False r other = Inr (Done (r', src)) \<and> result_wf r' \<and> result_view r' = result_view other)"
    if "result_wf other" for other
    using assms(3) by (cases rule: result_wf_cases; cases rule: result_wf_cases [OF that]) (simp_all add: result_simps sp)
  have emp: "(\<exists>r'. emplace_value r (Inr v) = Inr (Done r') \<and> result_wf r' \<and> result_view r' = Some (Inr v)) \<and>
      (\<exists>r'. emplace_error r (Inr e) = Inr (Done r') \<and> result_wf r' \<and> result_view r' = Some (Inl e))" for v e
    using assms(3) by (cases rule: result_wf_cases) (simp_all add: result_simps)
  show ?thesis
  proof (cases x)
    case (R_assign_move other)
    then show ?thesis using bin assms(4) by fastforce
  qed (use assms(3-5) bin emp in \<open>auto simp: result_assign_copy_def result_assign_move_def isl_def split: sum.splits\<close>)
qed

lemma result_run_quiet:
  assumes "regular T" "regular E" "result_wf r" "\<forall>x \<in> set xs. result_op_ok x \<and> result_op_quiet x"
  shows "\<exists>r'. result_run T E r xs = Inr (Done r') \<and> result_view r' = foldl result_op_view (result_view r) xs"
  using assms(3,4)
proof (induction xs arbitrary: r)
  case (Cons x xs)
  then obtain r1 where "result_step T E r x = Inr (Done r1)" "result_wf r1" "result_view r1 = result_op_view (result_view r) x"
    using result_step_quiet [OF assms(1,2), of r x] by auto
  with Cons.IH [of r1] Cons.prems(2) show ?case by simp
qed simp

definition int_special :: "int special" where
  "int_special = \<lparr>default_ctor = Inr 0, copy_ctor = Inr, move_ctor = (\<lambda>v. Inr (v, v)),
     copy_assign = (\<lambda>a b. Done b), move_assign = (\<lambda>a b. Done (b, b))\<rparr>"

definition int_result :: "int \<Rightarrow> (int, int) result" where
  "int_result v = new_value (fresh True) v"

lemma int_result_wf: "result_wf (int_result v)"
  by (simp add: int_result_def result_simps)

text \<open>
  C24: no sequence of assignments, self-assignments and emplacements on a well-formed result is undefined while it runs, whatever the special
  members of \<open>T\<close> and \<open>Et\<close> do, throwing included. One that does not throw ends with exactly one member alive, the one the flag
  names, and destroying the result then leaves as many members destroyed as were constructed. One that throws ends like that, or with
  all members destroyed and none alive, and then the destructor of the result is undefined. With value-semantic types and emplaced arguments that do not
  throw, no sequence throws, and the result denotes what the operations make of it.
\<close>

theorem result_run_balanced:
  assumes "result_wf r" and "\<forall>x \<in> set xs. result_op_ok x"
  shows "\<exists>c. result_run T E r xs = Inr c \<and> run_ends_ok c \<and>
    (regular T \<and> regular E \<and> (\<forall>x \<in> set xs. result_op_quiet x) \<longrightarrow>
       (\<exists>r'. c = Done r' \<and> result_view r' = foldl result_op_view (result_view r) xs))"
proof -
  have "\<exists>c. result_run T E r xs = Inr c \<and> run_ends_ok c"
    using assms
  proof (induction xs arbitrary: r)
    case Nil
    then show ?case using step_result_ends_ok [of "Done r"] by (simp add: step_result_ok_def)
  next
    case (Cons x xs)
    then obtain c where c: "result_step T E r x = Inr c" "step_result_ok c"
      using result_step_ok [of r x T E] by auto
    show ?case
    proof (cases c)
      case (Done r1)
      with c Cons.IH [of r1] Cons.prems(2) show ?thesis by (simp add: step_result_ok_def)
    next
      case (Threw r1)
      with c step_result_ends_ok show ?thesis by fastforce
    qed
  qed
  with result_run_quiet [of T E r xs] assms show ?thesis by fastforce
qed

theorem result_run_balanced_witness:
  "\<exists>r'. result_run int_special int_special (int_result 1) [R_emplace_error (Inr 5), R_assign_copy (int_result 2), R_self_move] = Inr (Done r') \<and>
     result_wf r' \<and> result_view r' = Some (Inr 2)"
proof -
  let ?xs = "[R_emplace_error (Inr 5), R_assign_copy (int_result 2), R_self_move]"
  have "regular int_special" by (simp add: regular_def int_special_def)
  moreover have "foldl result_op_view (result_view (int_result 1)) ?xs = Some (Inr 2)" by (simp add: int_result_def result_simps)
  ultimately show ?thesis
    using result_run_balanced [of "int_result 1" ?xs int_special int_special] by (auto simp: int_result_wf run_ends_ok_def)
qed

text \<open>
  C11: with value-semantic types the operations are those of a sum type. Copying, assigning, moving
  and emplacing give a well-formed result that denotes the operand, self-assignment changes nothing,
  and a moved-from result stays well formed with the same alternative.
\<close>

theorem result_refines_sum:
  assumes "regular T" and "regular E" and "result_wf r" and "result_wf other"
  shows "(\<exists>c. result_copy T E other = Inr c \<and> result_wf c \<and> result_view c = result_view other) \<and>
    (\<exists>c src. result_move T E other = Inr (c, src) \<and> result_wf c \<and> result_view c = result_view other \<and>
       result_wf src \<and> has_value src = has_value other) \<and>
    (\<exists>r'. result_assign_copy T E False r other = Inr (Done r') \<and> result_wf r' \<and> result_view r' = result_view other) \<and>
    (\<exists>r' src. result_assign_move T E False r other = Inr (Done (r', src)) \<and> result_wf r' \<and>
       result_view r' = result_view other \<and> result_wf src \<and> has_value src = has_value other) \<and>
    result_assign_copy T E True r r = Inr (Done r) \<and> result_assign_move T E True r r = Inr (Done (r, r)) \<and>
    (\<exists>r'. emplace_value r (Inr v) = Inr (Done r') \<and> result_wf r' \<and> result_view r' = Some (Inr v)) \<and>
    (\<exists>r'. emplace_error r (Inr e) = Inr (Done r') \<and> result_wf r' \<and> result_view r' = Some (Inl e))"
proof -
  obtain tm ta em ea where sp:
    "copy_ctor T = Inr" "copy_ctor E = Inr" "\<And>a b. copy_assign T a b = Done b" "\<And>a b. copy_assign E a b = Done b"
    "\<And>v. move_ctor T v = Inr (v, tm v)" "\<And>a b. move_assign T a b = Done (b, ta a b)"
    "\<And>v. move_ctor E v = Inr (v, em v)" "\<And>a b. move_assign E a b = Done (b, ea a b)"
    using assms(1,2) unfolding regular_def fun_eq_iff by metis
  from assms(3) show ?thesis
    by (cases rule: result_wf_cases; cases rule: result_wf_cases [OF assms(4)])
      (simp_all add: result_simps sp has_value_def)
qed

theorem result_refines_sum_witness:
  "\<exists>r'. result_assign_copy int_special int_special False (int_result 1) (int_result 2) = Inr (Done r') \<and>
     result_view r' = result_view (int_result 2)"
proof -
  have "regular int_special" by (simp add: regular_def int_special_def)
  from result_refines_sum [OF this this int_result_wf [of 1] int_result_wf [of 2]] show ?thesis by blast
qed

text \<open>
  access. On a well-formed result \<^verbatim>\<open>value()\<close>, \<^verbatim>\<open>operator*\<close> and \<^verbatim>\<open>operator->\<close> give the value
  and fail their assertion on an error, \<^verbatim>\<open>error()\<close> does the opposite, and \<^verbatim>\<open>has_value\<close> and
  \<^verbatim>\<open>has_error\<close> say which; the dead member is never accessed.
\<close>

theorem result_access:
  assumes "result_wf r"
  shows "case result_view r of
      Some (Inr v) \<Rightarrow> has_value r \<and> \<not> has_error r \<and> result_value r = Inr v \<and> result_deref r = Inr v \<and>
        result_arrow r = Inr v \<and> result_error r = Inl (Assertion_Failed ''Accessing error of successful result'')
    | Some (Inl e) \<Rightarrow> \<not> has_value r \<and> has_error r \<and> result_error r = Inr e \<and>
        result_value r = Inl (Assertion_Failed ''Accessing value of failed result'') \<and>
        result_deref r = Inl (Assertion_Failed ''m_has_value'') \<and> result_arrow r = Inl (Assertion_Failed ''m_has_value'')
    | None \<Rightarrow> False"
  using assms by (cases rule: result_wf_cases)
    (simp_all add: result_view_def has_value_def has_error_def result_value_def result_error_def result_deref_def
      result_arrow_def get_value_def get_error_def)

theorem result_access_witness:
  "result_value (int_result 3) = Inr 3"
  using result_access [OF int_result_wf, of 3] by (simp add: int_result_def result_simps)

text \<open>
  every constructor that returns makes a well-formed result denoting its argument, so
  \<^verbatim>\<open>make_error(msg)\<close> holds exactly the message, and \<^verbatim>\<open>RESULT_CHECK\<close> leaves with the failed result
  itself and continues after a success.
\<close>

theorem result_constructors:
  "(\<exists>r :: ('t, 'e) result. result_success_tag (Inr v) = Inr r \<and> result_wf r \<and> result_view r = Some (Inr v)) \<and>
   (\<exists>r :: ('t, 'e) result. result_error_tag (Inr e) = Inr r \<and> result_wf r \<and> result_view r = Some (Inl e)) \<and>
   (\<exists>r :: ('t, string) result. make_error msg = Inr r \<and> result_wf r \<and> result_view r = Some (Inl msg)) \<and>
   (\<exists>r :: (u32, string) result. result_success (Inr n) = Inr r \<and> result_wf r \<and> result_view r = Some (Inr n)) \<and>
   result_check (result_error_tag (Inr e)) k = (result_error_tag (Inr e) :: ('t, 'e) result outcome) \<and>
   result_check (result_success_tag (Inr v)) k = (k :: ('t, 'e) result outcome)"
  by (simp add: result_success_tag_def result_error_tag_def make_error_def result_success_def result_check_def
      has_value_def result_simps)

text \<open>
  a constructor that throws while the alternative changes leaves the flag naming a member that
  is not alive. After \<^verbatim>\<open>emplace_value\<close>, \<^verbatim>\<open>emplace_error\<close> or a copy assignment from the other
  alternative has thrown, the destructor of the result destroys a member that does not exist.
\<close>

theorem result_throwing_ctor_breaks_destructor:
  assumes "result_wf r"
  shows "(\<exists>r'. emplace_value r (Inl x) = Inr (Threw r') \<and> result_destroy r' = Inl Dead_Object) \<and>
    (\<exists>r'. emplace_error r (Inl x) = Inr (Threw r') \<and> result_destroy r' = Inl Dead_Object) \<and>
    (\<forall>other v. \<not> has_value r \<and> result_wf other \<and> result_view other = Some (Inr v) \<and> copy_ctor T v = Inl x \<longrightarrow>
       (\<exists>r'. result_assign_copy T E False r other = Inr (Threw r') \<and> result_destroy r' = Inl Dead_Object))"
proof -
  obtain r0 where "destroy_member r = Inr r0" "storage r0 = Raw"
    using destroy_member_wf [OF assms] by blast
  then have "\<exists>r'. emplace_value r (Inl x) = Inr (Threw r') \<and> result_destroy r' = Inl Dead_Object"
    "\<exists>r'. emplace_error r (Inl x) = Inr (Threw r') \<and> result_destroy r' = Inl Dead_Object"
    by (simp_all add: emplace_value_def emplace_error_def result_destroy_def destroy_member_def Let_def)
  moreover have "\<exists>r'. result_assign_copy T E False r other = Inr (Threw r') \<and> result_destroy r' = Inl Dead_Object"
    if "\<not> has_value r" "result_wf other" "result_view other = Some (Inr v)" "copy_ctor T v = Inl x" for other v
    using that(2) assms that(1,3,4)
    by (cases rule: result_wf_cases; cases rule: result_wf_cases [OF assms]) (simp_all add: result_simps has_value_def)
  ultimately show ?thesis by blast
qed

theorem result_throwing_ctor_breaks_destructor_witness:
  "\<exists>r'. emplace_value (int_result 1) (Inl Exception_Thrown) = Inr (Threw r') \<and> result_destroy r' = Inl Dead_Object"
  using result_throwing_ctor_breaks_destructor [OF int_result_wf, of 1 Exception_Thrown] by blast

end
