(* ===== verification/Stop_Token.thy ===== *)
theory Stop_Token
  imports Sap_Prelude "HOL-Library.Sublist"
begin

text \<open>
  Cooperative cancellation, \<^verbatim>\<open>include/sap_core/async/stop_token.h\<close>. The callback nodes live in an
  explicit memory: an address without an object holds \<^term>\<open>None\<close>, and following a pointer to it is
  \<^const>\<open>Dead_Object\<close>. The list is the intrusive doubly-linked list of the code. There is one
  \<^verbatim>\<open>stop_state\<close>, so the \<^verbatim>\<open>state\<close> pointer of a node is the flag whether it is linked. A callback
  \<^verbatim>\<open>fn(arg)\<close> is code of the client: what it does is a parameter.
\<close>

section \<open>Definitions\<close>

type_synonym addr = nat

record 'c stop_callback_node =
  nd_next :: "addr option"
  nd_prev :: "addr option"
  nd_state :: bool
  nd_fn :: "'c option"

definition stop_callback_node_make :: "'c stop_callback_node" where
  "stop_callback_node_make = \<lparr>nd_next = None, nd_prev = None, nd_state = False, nd_fn = None\<rparr>"

record ('c, 'w) stop_sys =
  nodes :: "addr \<Rightarrow> 'c stop_callback_node option"
  stopped :: bool
  head :: "addr option"
  world :: 'w

definition node_at :: "('c, 'w) stop_sys \<Rightarrow> addr \<Rightarrow> 'c stop_callback_node outcome" where
  "node_at s a = (case nodes s a of Some n \<Rightarrow> Inr n | None \<Rightarrow> Inl Dead_Object)"

definition node_update ::
  "('c, 'w) stop_sys \<Rightarrow> addr \<Rightarrow> ('c stop_callback_node \<Rightarrow> 'c stop_callback_node) \<Rightarrow> ('c, 'w) stop_sys outcome" where
  "node_update s a f = out_bind (node_at s a) (\<lambda>n. Inr (s\<lparr>nodes := (nodes s)(a \<mapsto> f n)\<rparr>))"

definition link :: "('c, 'w) stop_sys \<Rightarrow> addr \<Rightarrow> ('c, 'w) stop_sys outcome" where
  "link s0 cb =
     out_bind (node_update s0 cb (nd_prev_update (\<lambda>_. None))) (\<lambda>s1.
     out_bind (node_update s1 cb (nd_next_update (\<lambda>_. head s1))) (\<lambda>s2.
     out_bind (case head s2 of None \<Rightarrow> Inr s2 | Some h \<Rightarrow> node_update s2 h (nd_prev_update (\<lambda>_. Some cb))) (\<lambda>s3.
     node_update (s3\<lparr>head := Some cb\<rparr>) cb (nd_state_update (\<lambda>_. True)))))"

definition unlink :: "('c, 'w) stop_sys \<Rightarrow> addr \<Rightarrow> ('c, 'w) stop_sys outcome" where
  "unlink s0 cb =
     out_bind (node_at s0 cb) (\<lambda>n0.
     out_bind (case nd_prev n0 of
                 Some p \<Rightarrow> node_update s0 p (nd_next_update (\<lambda>_. nd_next n0))
               | None \<Rightarrow> Inr (s0\<lparr>head := nd_next n0\<rparr>)) (\<lambda>s1.
     out_bind (node_at s1 cb) (\<lambda>n1.
     out_bind (case nd_next n1 of
                 Some q \<Rightarrow> node_update s1 q (nd_prev_update (\<lambda>_. nd_prev n1))
               | None \<Rightarrow> Inr s1) (\<lambda>s2.
     out_bind (node_update s2 cb (nd_state_update (\<lambda>_. False))) (\<lambda>s3.
     node_update s3 cb (\<lambda>n. n\<lparr>nd_next := None, nd_prev := None\<rparr>))))))"

text \<open>The loop of \<^verbatim>\<open>request_stop\<close>; not returning is \<^term>\<open>None\<close>.\<close>

partial_function (option) fire_loop ::
  "('c \<Rightarrow> ('c, 'w) stop_sys \<Rightarrow> ('c, 'w) stop_sys outcome) \<Rightarrow> ('c, 'w) stop_sys \<Rightarrow> ('c, 'w) stop_sys outcome option" where
  "fire_loop fire s =
     (case head s of
        None \<Rightarrow> Some (Inr s)
      | Some cb \<Rightarrow>
          (case unlink s cb of
             Inl e \<Rightarrow> Some (Inl e)
           | Inr s1 \<Rightarrow>
               (case out_bind (node_at s1 cb) (\<lambda>n. case nd_fn n of Some c \<Rightarrow> fire c s1 | None \<Rightarrow> Inr s1) of
                  Inl e \<Rightarrow> Some (Inl e)
                | Inr s2 \<Rightarrow> fire_loop fire s2)))"

definition request_stop ::
  "('c \<Rightarrow> ('c, 'w) stop_sys \<Rightarrow> ('c, 'w) stop_sys outcome) \<Rightarrow> ('c, 'w) stop_sys \<Rightarrow> (bool \<times> ('c, 'w) stop_sys) outcome option" where
  "request_stop fire s =
     (if stopped s then Some (Inr (False, s))
      else map_option (\<lambda>m. out_bind m (\<lambda>s'. Inr (True, s'))) (fire_loop fire (s\<lparr>stopped := True\<rparr>)))"

text \<open>A node's constructor and destructor, at an address of the client's choice.\<close>

definition node_construct :: "('c, 'w) stop_sys \<Rightarrow> addr \<Rightarrow> ('c, 'w) stop_sys" where
  "node_construct s a = s\<lparr>nodes := (nodes s)(a \<mapsto> stop_callback_node_make)\<rparr>"

definition node_destroy :: "('c, 'w) stop_sys \<Rightarrow> addr \<Rightarrow> ('c, 'w) stop_sys outcome" where
  "node_destroy s a =
     out_bind (node_at s a) (\<lambda>n.
     out_bind (if nd_state n then unlink s a else Inr s) (\<lambda>s'.
     Inr (s'\<lparr>nodes := (nodes s')(a := None)\<rparr>)))"

text \<open>
  A \<^verbatim>\<open>StopToken\<close> or \<^verbatim>\<open>StopSource\<close> is a shared pointer to the state or null: the flag
  \<open>m_state\<close>.
\<close>

definition token_stop_requested :: "bool \<Rightarrow> ('c, 'w) stop_sys \<Rightarrow> bool" where
  "token_stop_requested m_state s \<longleftrightarrow> m_state \<and> stopped s"

definition token_stop_possible :: "bool \<Rightarrow> bool" where
  "token_stop_possible m_state = m_state"

definition token_arm ::
  "('c \<Rightarrow> ('c, 'w) stop_sys \<Rightarrow> ('c, 'w) stop_sys outcome) \<Rightarrow> bool \<Rightarrow> ('c, 'w) stop_sys \<Rightarrow> addr \<Rightarrow> 'c option
     \<Rightarrow> (bool \<times> ('c, 'w) stop_sys) outcome" where
  "token_arm fire m_state s cb fn =
     out_bind (node_update s cb (nd_fn_update (\<lambda>_. fn))) (\<lambda>s1.
     if \<not> m_state then Inr (False, s1)
     else if stopped s1
     then out_bind (case fn of Some c \<Rightarrow> fire c s1 | None \<Rightarrow> Inr s1) (\<lambda>s2. Inr (True, s2))
     else out_bind (link s1 cb) (\<lambda>s2. Inr (False, s2)))"

definition source_request_stop ::
  "('c \<Rightarrow> ('c, 'w) stop_sys \<Rightarrow> ('c, 'w) stop_sys outcome) \<Rightarrow> bool \<Rightarrow> ('c, 'w) stop_sys \<Rightarrow> (bool \<times> ('c, 'w) stop_sys) outcome option" where
  "source_request_stop fire m_state s = (if m_state then request_stop fire s else Some (Inr (False, s)))"

definition source_stop_requested :: "bool \<Rightarrow> ('c, 'w) stop_sys \<Rightarrow> bool" where
  "source_stop_requested m_state s = (if m_state then stopped s else False)"

section \<open>Specification\<close>

text \<open>
  A doubly-linked segment: the nodes \<open>xs\<close>, entered from \<open>p\<close> and continuing at \<open>q\<close>.
\<close>

definition first_or :: "'a list \<Rightarrow> 'a option \<Rightarrow> 'a option" where
  "first_or xs q = (case xs of [] \<Rightarrow> q | x # _ \<Rightarrow> Some x)"

definition last_or :: "'a option \<Rightarrow> 'a list \<Rightarrow> 'a option" where
  "last_or p xs = (if xs = [] then p else Some (last xs))"

fun dseg :: "(addr \<Rightarrow> 'c stop_callback_node option) \<Rightarrow> addr option \<Rightarrow> addr list \<Rightarrow> addr option \<Rightarrow> bool" where
  "dseg m p [] q = True"
| "dseg m p (x # xs) q =
     ((\<exists>n. m x = Some n \<and> nd_prev n = p \<and> nd_next n = first_or xs q \<and> nd_state n) \<and> dseg m (Some x) xs q)"

text \<open>The armed nodes, in list order, are \<open>xs\<close>; all other nodes are not linked.\<close>

definition stop_inv :: "('c, 'w) stop_sys \<Rightarrow> addr list \<Rightarrow> bool" where
  "stop_inv s xs \<longleftrightarrow>
     distinct xs \<and> head s = first_or xs None \<and> dseg (nodes s) None xs None \<and>
     (\<forall>a n. nodes s a = Some n \<longrightarrow> nd_state n \<longrightarrow> a \<in> set xs)"

section \<open>Segments\<close>

lemma first_or_simps [simp]: "first_or [] q = q" "first_or (x # xs) q = Some x" "xs \<noteq> [] \<Longrightarrow> first_or (xs @ ys) q = first_or xs None"
  by (simp_all add: first_or_def split: list.splits)

lemma first_or_append [simp]: "first_or (xs @ ys) q = first_or xs (first_or ys q)"
  by (cases xs) simp_all

lemma last_or_simps [simp]: "last_or p [] = p" "last_or p (xs @ [x]) = Some x"
  by (simp_all add: last_or_def)

lemma dseg_cong:
  "(\<And>x. x \<in> set xs \<Longrightarrow> m x = m' x) \<Longrightarrow> dseg m p xs q = dseg m' p xs q"
  by (induction xs arbitrary: p) auto

lemma dseg_append [simp]:
  "dseg m p (xs @ ys) q \<longleftrightarrow> dseg m p xs (first_or ys q) \<and> dseg m (last_or p xs) ys q"
  by (induction xs arbitrary: p) (auto simp: last_or_def)

lemma dseg_alive: "dseg m p xs q \<Longrightarrow> x \<in> set xs \<Longrightarrow> \<exists>n. m x = Some n \<and> nd_state n"
  by (induction xs arbitrary: p) auto

lemma dseg_update_outside [simp]:
  "a \<notin> set xs \<Longrightarrow> dseg (m(a := v)) p xs q = dseg m p xs q"
  by (rule dseg_cong) auto

lemma dseg_set_prev:
  "dseg m p (x # xs) q \<Longrightarrow> x \<notin> set xs \<Longrightarrow> m x = Some n \<Longrightarrow> dseg (m(x \<mapsto> n\<lparr>nd_prev := p'\<rparr>)) p' (x # xs) q"
  by auto

lemma dseg_set_next:
  "dseg m p (xs @ [x]) q \<Longrightarrow> x \<notin> set xs \<Longrightarrow> m x = Some n \<Longrightarrow> dseg (m(x \<mapsto> n\<lparr>nd_next := q'\<rparr>)) p (xs @ [x]) q'"
  by (auto simp: last_or_def)

section \<open>The list operations\<close>

lemma node_update_eq [simp]:
  "nodes s a = Some n \<Longrightarrow> node_update s a f = Inr (s\<lparr>nodes := (nodes s)(a \<mapsto> f n)\<rparr>)"
  by (simp add: node_update_def node_at_def)

lemma node_at_eq [simp]: "nodes s a = Some n \<Longrightarrow> node_at s a = Inr n"
  by (simp add: node_at_def)

lemma link_spec:
  assumes inv: "stop_inv s xs" and cb: "nodes s cb = Some n" "\<not> nd_state n"
  shows "\<exists>s'. link s cb = Inr s' \<and> stop_inv s' (cb # xs) \<and> stopped s' = stopped s \<and> world s' = world s \<and>
    dom (nodes s') = dom (nodes s) \<and>
    (\<forall>a. map_option nd_fn (nodes s' a) = map_option nd_fn (nodes s a))"
proof -
  have seg: "dseg (nodes s) None xs None" and d: "distinct xs" and h: "head s = first_or xs None"
    and only: "\<And>a n. nodes s a = Some n \<Longrightarrow> nd_state n \<Longrightarrow> a \<in> set xs"
    using inv by (auto simp: stop_inv_def)
  have notin: "cb \<notin> set xs"
    using dseg_alive [OF seg] cb by fastforce
  let ?n = "n\<lparr>nd_prev := None, nd_next := head s, nd_state := True\<rparr>"
  show ?thesis
  proof (cases xs)
    case Nil
    then have "link s cb = Inr (s\<lparr>nodes := (nodes s)(cb \<mapsto> ?n), head := Some cb\<rparr>)"
      using cb(1) h by (simp add: link_def)
    with Nil h cb only show ?thesis
      by (auto simp: stop_inv_def)
  next
    case (Cons y ys)
    then obtain ny where ny: "nodes s y = Some ny"
      using seg by auto
    have "y \<noteq> cb" using notin Cons by auto
    let ?m = "(nodes s)(cb \<mapsto> ?n, y \<mapsto> ny\<lparr>nd_prev := Some cb\<rparr>)"
    have "link s cb = Inr (s\<lparr>nodes := ?m, head := Some cb\<rparr>)"
      using cb(1) h Cons ny \<open>y \<noteq> cb\<close> by (simp add: link_def fun_upd_twist)
    moreover have "dseg ?m (Some cb) xs None"
      using seg d ny Cons notin by auto
    then have "stop_inv (s\<lparr>nodes := ?m, head := Some cb\<rparr>) (cb # xs)"
      using d notin only h Cons by (auto simp: stop_inv_def split: if_splits)
    ultimately show ?thesis
      using cb(1) ny by auto
  qed
qed

text \<open>
  Unlinking a node, with the pointers around it redirected one after the other.
\<close>

lemma unlink_prev:
  assumes "dseg m None (as @ y # bs) None" and "distinct (as @ y # bs)" and "as \<noteq> []"
    and "m (last as) = Some n"
  shows "dseg (m(last as \<mapsto> n\<lparr>nd_next := first_or bs None\<rparr>)) None as (first_or bs None)"
proof -
  obtain as' p where as: "as = as' @ [p]"
    using assms(3) by (metis append_butlast_last_id)
  show ?thesis
    using dseg_set_next [of m None as' p "Some y" n "first_or bs None"] assms by (simp add: as)
qed

lemma unlink_next:
  assumes "dseg m (Some y) (z # bs) None" and "z \<notin> set bs" and "m z = Some n"
  shows "dseg (m(z \<mapsto> n\<lparr>nd_prev := p\<rparr>)) p (z # bs) None"
  using assms by auto

lemma unlink_spec:
  assumes inv: "stop_inv s (as @ y # bs)"
  shows "\<exists>s'. unlink s y = Inr s' \<and> stop_inv s' (as @ bs) \<and> stopped s' = stopped s \<and> world s' = world s \<and>
    dom (nodes s') = dom (nodes s) \<and>
    (\<forall>a. map_option nd_fn (nodes s' a) = map_option nd_fn (nodes s a))"
proof -
  have seg: "dseg (nodes s) None (as @ y # bs) None" and d: "distinct (as @ y # bs)"
    and h: "head s = first_or (as @ y # bs) None"
    and only: "\<And>a n. nodes s a = Some n \<Longrightarrow> nd_state n \<Longrightarrow> a \<in> set (as @ y # bs)"
    using inv by (auto simp: stop_inv_def)
  obtain n where n: "nodes s y = Some n" "nd_prev n = last_or None as" "nd_next n = first_or bs None"
    using seg by auto
  \<comment> \<open>the predecessor\<close>
  obtain np where pred: "as \<noteq> [] \<Longrightarrow> nodes s (last as) = Some np"
    using dseg_alive [OF seg, of "last as"] by fastforce
  define s1 where "s1 = (if as = [] then s\<lparr>head := first_or bs None\<rparr>
    else s\<lparr>nodes := (nodes s)(last as \<mapsto> np\<lparr>nd_next := first_or bs None\<rparr>)\<rparr>)"
  have ly: "as \<noteq> [] \<Longrightarrow> last as \<noteq> y" "as \<noteq> [] \<Longrightarrow> last as \<notin> set bs" "y \<notin> set as" "y \<notin> set bs"
    using d by (cases as rule: rev_cases; auto)+
  have s1: "(case nd_prev n of Some p \<Rightarrow> node_update s p (nd_next_update (\<lambda>_. nd_next n))
      | None \<Rightarrow> Inr (s\<lparr>head := nd_next n\<rparr>)) = Inr s1"
    using n pred by (auto simp: s1_def last_or_def)
  have seg1: "dseg (nodes s1) None as (first_or bs None)" "dseg (nodes s1) (Some y) bs None" "nodes s1 y = Some n"
    using seg d n unlink_prev [OF seg d _ pred] ly by (auto simp: s1_def)
  \<comment> \<open>the successor\<close>
  obtain nz where succ: "bs \<noteq> [] \<Longrightarrow> nodes s1 (hd bs) = Some nz"
    using dseg_alive [OF seg1(2), of "hd bs"] by fastforce
  define s2 where "s2 = (if bs = [] then s1
    else s1\<lparr>nodes := (nodes s1)(hd bs \<mapsto> nz\<lparr>nd_prev := last_or None as\<rparr>)\<rparr>)"
  have s2: "(case nd_next n of Some q \<Rightarrow> node_update s1 q (nd_prev_update (\<lambda>_. nd_prev n)) | None \<Rightarrow> Inr s1) = Inr s2"
    using n succ by (cases bs) (auto simp: s2_def)
  have seg2: "dseg (nodes s2) None as (first_or bs None)" "dseg (nodes s2) (last_or None as) bs None" "nodes s2 y = Some n"
    using seg1 d ly succ by (cases bs; auto simp: s2_def)+
  \<comment> \<open>the node itself\<close>
  define s3 where "s3 = s2\<lparr>nodes := (nodes s2)(y \<mapsto> n\<lparr>nd_state := False, nd_next := None, nd_prev := None\<rparr>)\<rparr>"
  have "unlink s y = Inr s3"
    using n(1) s1 s2 seg1(3) seg2(3) by (simp add: unlink_def s3_def)
  moreover have st1: "map_option nd_state (nodes s1 a) = map_option nd_state (nodes s a)" "stopped s1 = stopped s"
    "world s1 = world s" "map_option nd_fn (nodes s1 a) = map_option nd_fn (nodes s a)" for a
    using pred by (auto simp: s1_def)
  have st2: "map_option nd_state (nodes s2 a) = map_option nd_state (nodes s1 a)" "stopped s2 = stopped s1"
    "world s2 = world s1" "map_option nd_fn (nodes s2 a) = map_option nd_fn (nodes s1 a)" for a
    using succ by (auto simp: s2_def)
  note st = st2(1) [unfolded st1(1)] st2(2) [unfolded st1(2)] st2(3) [unfolded st1(3)] st2(4) [unfolded st1(4)]
  have "stop_inv s3 (as @ bs)"
  proof -
    have "a \<in> set (as @ bs)" if "nodes s3 a = Some k" "nd_state k" for a k
      using that st(1) [of a] only [of a] by (cases "a = y"; cases "nodes s a") (auto simp: s3_def)
    moreover have "head s3 = first_or (as @ bs) None"
      using h by (cases as) (auto simp: s3_def s2_def s1_def)
    ultimately show ?thesis
      using seg2 d ly by (auto simp: stop_inv_def s3_def)
  qed
  moreover have fns: "map_option nd_fn (nodes s3 a) = map_option nd_fn (nodes s a)" for a
    using st(4) [of a] n(1) by (simp add: s3_def)
  moreover have "nodes s3 a = None \<longleftrightarrow> nodes s a = None" for a
    using fns [of a] by (cases "nodes s3 a"; cases "nodes s a") simp_all
  then have "dom (nodes s3) = dom (nodes s)"
    by (simp add: dom_def)
  moreover have "stopped s3 = stopped s" "world s3 = world s"
    using st(2,3) by (simp_all add: s3_def)
  ultimately show ?thesis by blast
qed

section \<open>Requesting a stop\<close>

text \<open>
  What a callback may do while the stop is requested: return, having destroyed or disarmed some of
  the nodes still linked. It cannot link a node, since \<^verbatim>\<open>_arm\<close> links nothing once stopped.
\<close>

definition callbacks_ok :: "('c \<Rightarrow> ('c, 'w) stop_sys \<Rightarrow> ('c, 'w) stop_sys outcome) \<Rightarrow> bool" where
  "callbacks_ok fire \<longleftrightarrow>
     (\<forall>c s xs. stop_inv s xs \<longrightarrow> stopped s \<longrightarrow>
        (\<exists>s' ys. fire c s = Inr s' \<and> stop_inv s' ys \<and> stopped s' \<and> subseq ys xs))"

lemma fire_loop_returns:
  assumes "callbacks_ok fire" and "stop_inv s xs" and "stopped s"
  shows "\<exists>s'. fire_loop fire s = Some (Inr s') \<and> stop_inv s' [] \<and> stopped s'"
  using assms(2,3)
proof (induction "length xs" arbitrary: s xs rule: less_induct)
  case less
  show ?case
  proof (cases xs)
    case Nil
    with less.prems show ?thesis
      by (subst fire_loop.simps) (auto simp: stop_inv_def)
  next
    case (Cons y ys)
    from unlink_spec [of s "[]" y ys] less.prems Cons obtain s1 where
      s1: "unlink s y = Inr s1" "stop_inv s1 ys" "stopped s1" "dom (nodes s1) = dom (nodes s)" by auto
    obtain n where "nodes s y = Some n"
      using less.prems(1) Cons by (auto simp: stop_inv_def)
    then obtain n1 where n1: "nodes s1 y = Some n1"
      using s1(4) by (metis domIff not_Some_eq)
    obtain s2 zs where s2: "(case nd_fn n1 of Some c \<Rightarrow> fire c s1 | None \<Rightarrow> Inr s1) = Inr s2" "stop_inv s2 zs"
      "stopped s2" "subseq zs ys"
    proof (cases "nd_fn n1")
      case None
      with s1 that show ?thesis by simp
    next
      case (Some c)
      with assms(1) s1(2,3) that show ?thesis unfolding callbacks_ok_def by fastforce
    qed
    have "length zs < length xs"
      using list_emb_length [OF s2(4)] Cons by simp
    from less.hyps [OF this s2(2,3)] show ?thesis
      using less.prems(1) Cons s1(1) n1 s2(1)
      by (subst fire_loop.simps) (simp add: stop_inv_def)
  qed
qed

text \<open>
  \<^verbatim>\<open>request_stop\<close> returns and leaves no callback linked, for callbacks that may themselves
  destroy or disarm other nodes; it follows no dangling pointer. Asked again it returns false
  without firing anything.
\<close>

theorem request_stop_returns:
  assumes "callbacks_ok fire" and "stop_inv s xs" and "\<not> stopped s"
  shows "\<exists>s'. request_stop fire s = Some (Inr (True, s')) \<and> stop_inv s' [] \<and> stopped s' \<and>
    request_stop fire s' = Some (Inr (False, s'))"
proof -
  have "stop_inv (s\<lparr>stopped := True\<rparr>) xs"
    using assms(2) by (simp add: stop_inv_def)
  from fire_loop_returns [OF assms(1) this] assms(3) show ?thesis
    by (auto simp: request_stop_def)
qed

text \<open>Callbacks that only record that they ran.\<close>

definition log_fire :: "'c \<Rightarrow> ('c, 'c list) stop_sys \<Rightarrow> ('c, 'c list) stop_sys outcome" where
  "log_fire c s = Inr (s\<lparr>world := world s @ [c]\<rparr>)"

lemma stop_inv_world [simp]: "stop_inv (s\<lparr>world := w\<rparr>) xs = stop_inv s xs"
  by (simp add: stop_inv_def)

lemma log_fire_ok: "callbacks_ok log_fire"
  unfolding callbacks_ok_def log_fire_def by auto

definition stop_init :: "'w \<Rightarrow> ('c, 'w) stop_sys" where
  "stop_init w = \<lparr>nodes = Map.empty, stopped = False, head = None, world = w\<rparr>"

lemma stop_init_inv: "stop_inv (stop_init w) []"
  by (simp add: stop_inv_def stop_init_def)

theorem request_stop_returns_witness:
  "\<exists>s'. request_stop log_fire (stop_init []) = Some (Inr (True, s')) \<and> stopped s'"
proof -
  have "\<not> stopped (stop_init [])" by (simp add: stop_init_def)
  from request_stop_returns [OF log_fire_ok stop_init_inv this] show ?thesis by blast
qed

section \<open>Arming, destroying, firing\<close>

text \<open>The callbacks armed, most recently armed first, with their nodes.\<close>

definition armed :: "('c, 'w) stop_sys \<Rightarrow> (addr \<times> 'c) list \<Rightarrow> bool" where
  "armed s ps \<longleftrightarrow> stop_inv s (map fst ps) \<and>
     (\<forall>p \<in> set ps. map_option nd_fn (nodes s (fst p)) = Some (Some (snd p)))"

lemma armed_nodes:
  assumes "armed s ps" and "\<And>a. map_option nd_fn (nodes s' a) = map_option nd_fn (nodes s a)"
    and "stop_inv s' (map fst qs)" and "set qs \<subseteq> set ps"
  shows "armed s' qs"
  using assms by (fastforce simp: armed_def)

text \<open>
  A client's run before the stop: a node is constructed at a free address and armed through a token,
  or a node is destroyed.
\<close>

datatype 'c stop_op = S_arm addr 'c | S_destroy addr

fun stop_step :: "('c, 'c list) stop_sys \<Rightarrow> 'c stop_op \<Rightarrow> ('c, 'c list) stop_sys outcome" where
  "stop_step s (S_arm a c) = out_bind (token_arm log_fire True (node_construct s a) a (Some c)) (\<lambda>(_, s'). Inr s')"
| "stop_step s (S_destroy a) = node_destroy s a"

fun stop_run :: "('c, 'c list) stop_sys \<Rightarrow> 'c stop_op list \<Rightarrow> ('c, 'c list) stop_sys outcome" where
  "stop_run s [] = Inr s"
| "stop_run s (x # xs) = out_bind (stop_step s x) (\<lambda>s'. stop_run s' xs)"

text \<open>The specification: a list of armed callbacks, and whether a client's next operation is allowed.\<close>

fun arm_spec :: "(addr \<times> 'c) list \<Rightarrow> 'c stop_op \<Rightarrow> (addr \<times> 'c) list" where
  "arm_spec ps (S_arm a c) = (a, c) # ps"
| "arm_spec ps (S_destroy a) = filter (\<lambda>p. fst p \<noteq> a) ps"

fun op_allowed :: "(addr \<times> 'c) list \<Rightarrow> 'c stop_op \<Rightarrow> bool" where
  "op_allowed ps (S_arm a c) = (a \<notin> fst ` set ps)"
| "op_allowed ps (S_destroy a) = (a \<in> fst ` set ps)"

fun run_allowed :: "(addr \<times> 'c) list \<Rightarrow> 'c stop_op list \<Rightarrow> bool" where
  "run_allowed ps [] = True"
| "run_allowed ps (x # xs) = (op_allowed ps x \<and> run_allowed (arm_spec ps x) xs)"

lemma armed_update_outside:
  assumes "armed s ps" and "a \<notin> fst ` set ps" and "\<And>n. v = Some n \<Longrightarrow> \<not> nd_state n"
  shows "armed (s\<lparr>nodes := (nodes s)(a := v)\<rparr>) ps"
proof -
  have "\<forall>p \<in> set ps. map_option nd_fn (((nodes s)(a := v)) (fst p)) = Some (Some (snd p))"
    using assms(1,2) by (force simp: armed_def)
  moreover have "stop_inv (s\<lparr>nodes := (nodes s)(a := v)\<rparr>) (map fst ps)"
    using assms by (auto simp: armed_def stop_inv_def)
  ultimately show ?thesis by (simp add: armed_def)
qed

lemma token_arm_links:
  assumes "armed s ps" and "\<not> stopped s" and "nodes s a = Some n" and "\<not> nd_state n"
  shows "\<exists>s'. token_arm fire True s a (Some c) = Inr (False, s') \<and> armed s' ((a, c) # ps) \<and> \<not> stopped s' \<and>
    world s' = world s \<and> dom (nodes s') = dom (nodes s)"
proof -
  define s1 where "s1 = s\<lparr>nodes := (nodes s)(a \<mapsto> n\<lparr>nd_fn := Some c\<rparr>)\<rparr>"
  have notin: "a \<notin> fst ` set ps"
  proof
    assume "a \<in> fst ` set ps"
    then have "\<exists>m. nodes s a = Some m \<and> nd_state m"
      using assms(1) dseg_alive [of "nodes s" None "map fst ps" None a] by (auto simp: armed_def stop_inv_def)
    with assms(3,4) show False by simp
  qed
  have arm1: "armed s1 ps"
    unfolding s1_def using assms(1) notin by (rule armed_update_outside) (use assms(4) in auto)
  have n: "nodes s1 a = Some (n\<lparr>nd_fn := Some c\<rparr>)" "\<not> nd_state (n\<lparr>nd_fn := Some c\<rparr>)"
    using assms(4) by (simp_all add: s1_def)
  obtain s2 where s2: "link s1 a = Inr s2" "stop_inv s2 (a # map fst ps)" "stopped s2 = stopped s1" "world s2 = world s1"
    "dom (nodes s2) = dom (nodes s1)" "\<And>b. map_option nd_fn (nodes s2 b) = map_option nd_fn (nodes s1 b)"
    using link_spec [of s1 "map fst ps" a] arm1 n by (auto simp: armed_def)
  have "armed s2 ((a, c) # ps)"
    using arm1 s2(2,6) n by (auto simp: armed_def)
  moreover have "token_arm fire True s a (Some c) = Inr (False, s2)"
    using assms(2,3) s2(1) by (simp add: token_arm_def s1_def)
  moreover have "dom (nodes s1) = dom (nodes s)" using assms(3) by (auto simp: s1_def)
  ultimately show ?thesis
    using s2(3-5) assms(2) by (simp add: s1_def)
qed

lemma arm_spec_ok:
  assumes "armed s ps" and "\<not> stopped s" and "dom (nodes s) = fst ` set ps" and "a \<notin> fst ` set ps"
  shows "\<exists>s'. stop_step s (S_arm a c) = Inr s' \<and> armed s' ((a, c) # ps) \<and> \<not> stopped s' \<and> world s' = world s \<and>
    dom (nodes s') = insert a (fst ` set ps)"
proof -
  have "armed (node_construct s a) ps"
    unfolding node_construct_def using assms(1,4)
    by (rule armed_update_outside) (simp add: stop_callback_node_make_def)
  from token_arm_links [OF this, of a stop_callback_node_make log_fire c] assms(2,3) show ?thesis
    by (auto simp: node_construct_def stop_callback_node_make_def)
qed

lemma node_destroy_armed:
  assumes "armed s ps" and "nodes s a = Some n"
  shows "\<exists>s'. node_destroy s a = Inr s' \<and> armed s' (filter (\<lambda>p. fst p \<noteq> a) ps) \<and> stopped s' = stopped s \<and>
    world s' = world s \<and> dom (nodes s') = dom (nodes s) - {a}"
proof (cases "a \<in> fst ` set ps")
  case False
  then have "\<not> nd_state n" using assms by (auto simp: armed_def stop_inv_def)
  moreover from False have "filter (\<lambda>p. fst p \<noteq> a) ps = ps" by (auto intro!: filter_True)
  moreover have "armed (s\<lparr>nodes := (nodes s)(a := None)\<rparr>) ps"
    using False by (intro armed_update_outside [OF assms(1)]) auto
  ultimately show ?thesis using assms(2) by (simp add: node_destroy_def)
next
  case True
  then obtain as c bs where ps: "ps = as @ (a, c) # bs"
    by (metis imageE in_set_conv_decomp prod.collapse)
  have d: "distinct (map fst ps)" and inv: "stop_inv s (map fst as @ a # map fst bs)"
    using assms(1) by (auto simp: armed_def stop_inv_def ps)
  then have "filter (\<lambda>p. fst p \<noteq> a) as = as" "filter (\<lambda>p. fst p \<noteq> a) bs = bs"
    by (auto simp: ps intro!: filter_True)
  then have flt: "filter (\<lambda>p. fst p \<noteq> a) ps = as @ bs"
    by (simp add: ps)
  obtain s1 where s1: "unlink s a = Inr s1" "stop_inv s1 (map fst as @ map fst bs)" "stopped s1 = stopped s"
    "world s1 = world s" "dom (nodes s1) = dom (nodes s)"
    "\<And>b. map_option nd_fn (nodes s1 b) = map_option nd_fn (nodes s b)"
    using unlink_spec [OF inv] by auto
  have arm1: "armed s1 (as @ bs)"
    using armed_nodes [OF assms(1) s1(6), of "as @ bs"] s1(2) by (auto simp: ps)
  have notin: "a \<notin> set (map fst (as @ bs))"
    using d by (auto simp: ps)
  have "nd_state n" using inv assms(2) by (auto simp: stop_inv_def)
  then have "node_destroy s a = Inr (s1\<lparr>nodes := (nodes s1)(a := None)\<rparr>)"
    using s1(1) assms(2) by (simp add: node_destroy_def)
  moreover have "armed (s1\<lparr>nodes := (nodes s1)(a := None)\<rparr>) (as @ bs)"
    using notin by (intro armed_update_outside [OF arm1]) auto
  ultimately show ?thesis
    using s1(3-5) by (auto simp: flt)
qed

lemma destroy_spec_ok:
  assumes "armed s ps" and "\<not> stopped s" and "dom (nodes s) = fst ` set ps" and "a \<in> fst ` set ps"
  shows "\<exists>s'. stop_step s (S_destroy a) = Inr s' \<and> armed s' (filter (\<lambda>p. fst p \<noteq> a) ps) \<and> \<not> stopped s' \<and>
    world s' = world s \<and> dom (nodes s') = fst ` set ps - {a}"
proof -
  obtain n where "nodes s a = Some n" using assms(3,4) by blast
  from node_destroy_armed [OF assms(1) this] assms(2,3) show ?thesis by simp
qed

text \<open>Callbacks that change the client's world only: every armed callback runs once, in list order.\<close>

lemma fire_loop_world:
  assumes "armed s ps" and "Q (world s)"
    and fire: "\<And>c t. c \<in> snd ` set ps \<Longrightarrow> Q (world t) \<Longrightarrow> fire c t = Inr (world_update (g c) t) \<and> Q (g c (world t))"
  shows "\<exists>s'. fire_loop fire s = Some (Inr s') \<and> world s' = fold g (map snd ps) (world s) \<and> Q (world s') \<and> armed s' [] \<and>
    stopped s' = stopped s \<and> dom (nodes s') = dom (nodes s)"
  using assms
proof (induction ps arbitrary: s)
  case Nil
  then show ?case
    by (subst fire_loop.simps) (auto simp: armed_def stop_inv_def)
next
  case (Cons p ps)
  obtain a c where p: "p = (a, c)" by (cases p)
  have inv: "stop_inv s ([] @ a # map fst ps)"
    using Cons.prems(1) p by (simp add: armed_def)
  from unlink_spec [OF inv] obtain s1 where
    s1: "unlink s a = Inr s1" "stop_inv s1 (map fst ps)" "stopped s1 = stopped s" "world s1 = world s"
      "dom (nodes s1) = dom (nodes s)" "\<And>b. map_option nd_fn (nodes s1 b) = map_option nd_fn (nodes s b)" by auto
  have f: "fire c s1 = Inr (world_update (g c) s1)" "Q (g c (world s1))"
    using Cons.prems(2) Cons.prems(3) [of c s1] s1(4) p by auto
  have "armed s1 ps"
    using armed_nodes [OF Cons.prems(1) s1(6), of ps] s1(2) by auto
  then have arm2: "armed (world_update (g c) s1) ps"
    by (simp add: armed_def stop_inv_def)
  obtain s' where
    s': "fire_loop fire (world_update (g c) s1) = Some (Inr s')" "world s' = fold g (map snd ps) (g c (world s1))"
      "Q (world s')" "armed s' []" "stopped s' = stopped s1" "dom (nodes s') = dom (nodes s1)"
    using Cons.IH [OF arm2] f(2) Cons.prems(3) by auto
  obtain n1 where n1: "nodes s1 a = Some n1" "nd_fn n1 = Some c"
    using Cons.prems(1) p s1(6) [of a] by (auto simp: armed_def)
  have "fire_loop fire s = fire_loop fire (world_update (g c) s1)"
    using inv s1(1) n1 f(1) by (subst fire_loop.simps) (simp add: stop_inv_def)
  with s' s1 p show ?case by simp
qed

lemma fire_loop_log:
  assumes "armed s ps"
  shows "\<exists>s'. fire_loop log_fire s = Some (Inr s') \<and> world s' = world s @ map snd ps \<and> stop_inv s' [] \<and>
    stopped s' = stopped s \<and> dom (nodes s') = dom (nodes s)"
proof -
  have "fold (\<lambda>c w. w @ [c]) cs w = w @ cs" for cs w :: "'a list" by (induction cs arbitrary: w) simp_all
  with fire_loop_world [OF assms, of "\<lambda>_. True" log_fire "\<lambda>c w. w @ [c]"] show ?thesis
    by (auto simp: log_fire_def armed_def)
qed

lemma stop_run_armed:
  assumes "armed s ps" and "\<not> stopped s" and "dom (nodes s) = fst ` set ps" and "run_allowed ps xs"
  shows "\<exists>s'. stop_run s xs = Inr s' \<and> armed s' (foldl arm_spec ps xs) \<and> \<not> stopped s' \<and> world s' = world s"
  using assms
proof (induction xs arbitrary: s ps)
  case (Cons x xs)
  obtain s1 where s1: "stop_step s x = Inr s1" "armed s1 (arm_spec ps x)" "\<not> stopped s1" "world s1 = world s"
    "dom (nodes s1) = fst ` set (arm_spec ps x)"
  proof (cases x)
    case (S_arm a c)
    then show ?thesis
      using that arm_spec_ok [OF Cons.prems(1-3), of a c] Cons.prems(4) by auto
  next
    case (S_destroy a)
    moreover have "fst ` set ps - {a} = fst ` {p \<in> set ps. fst p \<noteq> a}" by auto
    ultimately show ?thesis
      using that destroy_spec_ok [OF Cons.prems(1-3), of a] Cons.prems(4) by auto
  qed
  with Cons.IH [OF s1(2,3,5)] Cons.prems(4) show ?case by auto
qed auto

text \<open>
  C12: exactly once, most recent first. After any run in which nodes are armed and destroyed,
  \<^verbatim>\<open>request_stop\<close> fires the callbacks of the nodes that are armed and not destroyed, each once, in
  reverse order of arming, and none has fired before; a second request fires nothing. A node armed
  after the stop fires at once and is not linked.
\<close>

theorem stop_fires_armed_once:
  fixes c0 :: 'c
  assumes "run_allowed [] xs"
  shows "\<exists>s s'. stop_run (stop_init []) xs = Inr s \<and> world s = [] \<and>
    request_stop log_fire s = Some (Inr (True, s')) \<and> world s' = map snd (foldl arm_spec [] xs) \<and>
    request_stop log_fire s' = Some (Inr (False, s')) \<and>
    (\<forall>a n. nodes s' a = Some n \<longrightarrow> (\<exists>s''. token_arm log_fire True s' a (Some c0) = Inr (True, s'') \<and>
       world s'' = world s' @ [c0] \<and> stop_inv s'' []))"
proof -
  have init: "armed (stop_init []) []" "\<not> stopped (stop_init [])" "dom (nodes (stop_init [])) = fst ` set []"
    "world (stop_init []) = []"
    using stop_init_inv by (simp_all add: armed_def stop_init_def stop_inv_def)
  obtain s where s: "stop_run (stop_init []) xs = Inr s" "armed s (foldl arm_spec [] xs)" "\<not> stopped s" "world s = []"
    using stop_run_armed [OF init(1-3) assms] init(4) by auto
  have "armed (s\<lparr>stopped := True\<rparr>) (foldl arm_spec [] xs)"
    using s(2) by (simp add: armed_def stop_inv_def)
  from fire_loop_log [OF this] obtain s' where
    s': "fire_loop log_fire (s\<lparr>stopped := True\<rparr>) = Some (Inr s')" "world s' = map snd (foldl arm_spec [] xs)"
      "stop_inv s' []" "stopped s'" using s(4) by auto
  have "\<exists>s''. token_arm log_fire True s' a (Some c0) = Inr (True, s'') \<and> world s'' = world s' @ [c0] \<and> stop_inv s'' []"
    if "nodes s' a = Some n" for a n
  proof -
    have "stop_inv (s'\<lparr>nodes := (nodes s')(a \<mapsto> n\<lparr>nd_fn := Some c0\<rparr>)\<rparr>) []"
      using s'(3) that by (auto simp: stop_inv_def)
    then show ?thesis
      using that s'(4) by (simp add: token_arm_def log_fire_def)
  qed
  with s s' show ?thesis
    by (auto simp: request_stop_def)
qed

theorem stop_fires_armed_once_witness:
  "\<exists>s s'. stop_run (stop_init []) [S_arm 1 ''a'', S_arm 2 ''b'', S_arm 3 ''c'', S_destroy 2] = Inr s \<and>
     request_stop log_fire s = Some (Inr (True, s')) \<and> world s' = [''c'', ''a'']"
proof -
  let ?xs = "[S_arm 1 ''a'', S_arm 2 ''b'', S_arm 3 ''c'', S_destroy 2]"
  have ok: "run_allowed [] ?xs" and spec: "map snd (foldl arm_spec [] ?xs) = [''c'', ''a'']" by simp_all
  show ?thesis
    using stop_fires_armed_once [OF ok] unfolding spec by blast
qed

end
