(* ===== verification/Fixed_String.thy ===== *)
theory Fixed_String
  imports Allocators
begin

text \<open>
  \<^verbatim>\<open>stl::fixed_string<N>\<close>, \<^verbatim>\<open>include/sap_core/stl/fixed_string.h\<close>: a string of at most \<open>N\<close>
  characters in a buffer that a \<^verbatim>\<open>stack_allocator\<close> takes from the object's own
  \<^verbatim>\<open>stack_arena<N + 1>\<close>. \<^verbatim>\<open>fs_chars\<close> are the bytes \<^verbatim>\<open>buf_\<close> points to. A failed \<^verbatim>\<open>assert\<close> and an
  access outside the buffer are errors. A \<^verbatim>\<open>std::string_view\<close> argument is the string it denotes,
  a \<^verbatim>\<open>const char*\<close> is null or the characters it points to.
\<close>

section \<open>Definitions\<close>

record fixed_string =
  fs_N :: size_t
  fs_arena :: stack_arena
  fs_buf :: ptr
  fs_chars :: string
  fs_size :: size_t

text \<open>
  The object before its constructor body runs: the arena's storage is at address \<open>place\<close> and holds
  arbitrary bytes.
\<close>

definition fs_raw :: "size_t \<Rightarrow> ptr \<Rightarrow> string \<Rightarrow> size_t \<Rightarrow> fixed_string" where
  "fs_raw N place garbage sz =
     \<lparr>fs_N = N, fs_arena = stack_arena_make place (N + 1), fs_buf = nullptr, fs_chars = garbage, fs_size = sz\<rparr>"

definition char_type :: cpp_type where
  "char_type = \<lparr>sizeof_T = 1, alignof_T = 1\<rparr>"

text \<open>The storage is the arena's first member, so it is at the arena's own address.\<close>

definition allocate_buf :: "fixed_string \<Rightarrow> fixed_string outcome" where
  "allocate_buf s =
     (let alloc = stack_allocator_make (sa_buf (fs_arena s)) (fs_arena s)
      in out_bind (stack_allocator_allocate char_type alloc (fs_arena s) (fs_N s + 1)) (\<lambda>(p, sa).
           Inr (s\<lparr>fs_arena := sa, fs_buf := p\<rparr>)))"

text \<open>\<^verbatim>\<open>buf_[i]\<close>, \<^verbatim>\<open>buf_[i] = ch\<close>, \<^verbatim>\<open>memcpy(buf_ + off, ...)\<close> and \<^verbatim>\<open>memset(buf_ + off, ch, n)\<close>.\<close>

definition buf_get :: "fixed_string \<Rightarrow> size_t \<Rightarrow> char outcome" where
  "buf_get s i = (if unat i < length (fs_chars s) then Inr (fs_chars s ! unat i) else Inl Out_Of_Bounds)"

definition buf_set :: "fixed_string \<Rightarrow> size_t \<Rightarrow> char \<Rightarrow> fixed_string outcome" where
  "buf_set s i ch =
     (if unat i < length (fs_chars s) then Inr (s\<lparr>fs_chars := (fs_chars s)[unat i := ch]\<rparr>) else Inl Out_Of_Bounds)"

definition buf_copy :: "fixed_string \<Rightarrow> size_t \<Rightarrow> string \<Rightarrow> fixed_string outcome" where
  "buf_copy s off cs =
     (if unat off + length cs \<le> length (fs_chars s)
      then Inr (s\<lparr>fs_chars := take (unat off) (fs_chars s) @ cs @ drop (unat off + length cs) (fs_chars s)\<rparr>)
      else Inl Out_Of_Bounds)"

definition buf_fill :: "fixed_string \<Rightarrow> size_t \<Rightarrow> char \<Rightarrow> size_t \<Rightarrow> fixed_string outcome" where
  "buf_fill s off ch n =
     (if unat off + unat n \<le> length (fs_chars s)
      then Inr (s\<lparr>fs_chars := take (unat off) (fs_chars s) @ replicate (unat n) ch @ drop (unat off + unat n) (fs_chars s)\<rparr>)
      else Inl Out_Of_Bounds)"

abbreviation NUL :: char where
  "NUL \<equiv> CHR 0x00"

definition sv_size :: "string \<Rightarrow> size_t" where
  "sv_size sv = of_nat (length sv)"

text \<open>\<^verbatim>\<open>strlen\<close>, and the bytes a \<^verbatim>\<open>memcpy\<close> of that many reads.\<close>

definition c_string :: "string \<Rightarrow> string" where
  "c_string str = takeWhile (\<lambda>c. c \<noteq> NUL) str"

definition exceeds :: string where
  "exceeds = ''fixed_string: input exceeds capacity''"

subsection \<open>Constructors\<close>

definition fs_default :: "size_t \<Rightarrow> ptr \<Rightarrow> string \<Rightarrow> fixed_string outcome" where
  "fs_default N place garbage = out_bind (allocate_buf (fs_raw N place garbage 0)) (\<lambda>s. buf_set s 0 NUL)"

definition fs_from_cstr :: "size_t \<Rightarrow> ptr \<Rightarrow> string \<Rightarrow> string option \<Rightarrow> fixed_string outcome" where
  "fs_from_cstr N place garbage str =
     out_bind (allocate_buf (fs_raw N place garbage 0)) (\<lambda>s.
     out_bind (case str of
         None \<Rightarrow> Inr s
       | Some cs \<Rightarrow>
           (let s1 = s\<lparr>fs_size := sv_size (c_string cs)\<rparr>
            in out_bind (cpp_assert (fs_size s1 \<le> N) exceeds) (\<lambda>_. buf_copy s1 0 (c_string cs)))) (\<lambda>s2.
     buf_set s2 (fs_size s2) NUL))"

text \<open>\<^verbatim>\<open>fixed_string(const char*, size_t)\<close> reads \<open>len\<close> bytes at the pointer.\<close>

definition fs_from_ptr_len :: "size_t \<Rightarrow> ptr \<Rightarrow> string \<Rightarrow> string \<Rightarrow> size_t \<Rightarrow> fixed_string outcome" where
  "fs_from_ptr_len N place garbage str len =
     out_bind (allocate_buf (fs_raw N place garbage len)) (\<lambda>s.
     out_bind (cpp_assert (fs_size s \<le> N) exceeds) (\<lambda>_.
     if length str < unat len then Inl Out_Of_Bounds
     else out_bind (buf_copy s 0 (take (unat len) str)) (\<lambda>s1. buf_set s1 (fs_size s1) NUL)))"

definition fs_from_view :: "size_t \<Rightarrow> ptr \<Rightarrow> string \<Rightarrow> string \<Rightarrow> fixed_string outcome" where
  "fs_from_view N place garbage sv =
     out_bind (allocate_buf (fs_raw N place garbage (sv_size sv))) (\<lambda>s.
     out_bind (cpp_assert (fs_size s \<le> N) exceeds) (\<lambda>_.
     out_bind (buf_copy s 0 sv) (\<lambda>s1. buf_set s1 (fs_size s1) NUL)))"

definition fs_from_fill :: "size_t \<Rightarrow> ptr \<Rightarrow> string \<Rightarrow> size_t \<Rightarrow> char \<Rightarrow> fixed_string outcome" where
  "fs_from_fill N place garbage count ch =
     out_bind (allocate_buf (fs_raw N place garbage count)) (\<lambda>s.
     out_bind (cpp_assert (fs_size s \<le> N) exceeds) (\<lambda>_.
     out_bind (buf_fill s 0 ch (fs_size s)) (\<lambda>s1. buf_set s1 (fs_size s1) NUL)))"

text \<open>The \<open>size_ + 1\<close> bytes that a copy reads from the other object's buffer.\<close>

definition bytes_with_nul :: "fixed_string \<Rightarrow> string outcome" where
  "bytes_with_nul other =
     (if unat (fs_size other + 1) \<le> length (fs_chars other)
      then Inr (take (unat (fs_size other + 1)) (fs_chars other)) else Inl Out_Of_Bounds)"

definition fs_copy :: "ptr \<Rightarrow> string \<Rightarrow> fixed_string \<Rightarrow> fixed_string outcome" where
  "fs_copy place garbage other =
     out_bind (allocate_buf (fs_raw (fs_N other) place garbage (fs_size other))) (\<lambda>s.
     out_bind (bytes_with_nul other) (\<lambda>cs. buf_copy s 0 cs))"

definition fs_from_other :: "size_t \<Rightarrow> ptr \<Rightarrow> string \<Rightarrow> fixed_string \<Rightarrow> fixed_string outcome" where
  "fs_from_other N place garbage other =
     out_bind (allocate_buf (fs_raw N place garbage (fs_size other))) (\<lambda>s.
     out_bind (cpp_assert (fs_size s \<le> N) exceeds) (\<lambda>_.
     out_bind (bytes_with_nul other) (\<lambda>cs. buf_copy s 0 cs)))"

subsection \<open>Assignment\<close>

definition fs_assign :: "bool \<Rightarrow> fixed_string \<Rightarrow> fixed_string \<Rightarrow> fixed_string outcome" where
  "fs_assign same s other =
     (if same then Inr s
      else out_bind (bytes_with_nul other) (\<lambda>cs. buf_copy (s\<lparr>fs_size := fs_size other\<rparr>) 0 cs))"

definition fs_assign_cstr :: "fixed_string \<Rightarrow> string option \<Rightarrow> fixed_string outcome" where
  "fs_assign_cstr s str =
     (let s1 = s\<lparr>fs_size := (case str of Some cs \<Rightarrow> sv_size (c_string cs) | None \<Rightarrow> 0)\<rparr>
      in out_bind (cpp_assert (fs_size s1 \<le> fs_N s) exceeds) (\<lambda>_.
         out_bind (case str of Some cs \<Rightarrow> buf_copy s1 0 (c_string cs) | None \<Rightarrow> Inr s1) (\<lambda>s2.
         buf_set s2 (fs_size s2) NUL)))"

definition fs_assign_view :: "fixed_string \<Rightarrow> string \<Rightarrow> fixed_string outcome" where
  "fs_assign_view s sv =
     (let s1 = s\<lparr>fs_size := sv_size sv\<rparr>
      in out_bind (cpp_assert (fs_size s1 \<le> fs_N s) exceeds) (\<lambda>_.
         out_bind (buf_copy s1 0 sv) (\<lambda>s2. buf_set s2 (fs_size s2) NUL)))"

subsection \<open>Access\<close>

text \<open>\<^verbatim>\<open>size()\<close> and \<^verbatim>\<open>length()\<close>.\<close>

definition fs_length :: "fixed_string \<Rightarrow> size_t" where
  "fs_length s = fs_size s"

definition fs_capacity :: "fixed_string \<Rightarrow> size_t" where
  "fs_capacity s = fs_N s"

definition fs_empty :: "fixed_string \<Rightarrow> bool" where
  "fs_empty s \<longleftrightarrow> fs_size s = 0"

definition fs_index :: "fixed_string \<Rightarrow> size_t \<Rightarrow> char outcome" where
  "fs_index s i = buf_get s i"

definition fs_at :: "fixed_string \<Rightarrow> size_t \<Rightarrow> char outcome" where
  "fs_at s i = out_bind (cpp_assert (i < fs_size s) ''fixed_string::at: index out of range'') (\<lambda>_. buf_get s i)"

definition fs_front :: "fixed_string \<Rightarrow> char outcome" where
  "fs_front s = buf_get s 0"

definition fs_back :: "fixed_string \<Rightarrow> char outcome" where
  "fs_back s = buf_get s (fs_size s - 1)"

text \<open>\<^verbatim>\<open>{buf_, size_}\<close>, which \<^verbatim>\<open>view()\<close>, the iterators and the stream output denote.\<close>

definition fs_view :: "fixed_string \<Rightarrow> string" where
  "fs_view s = take (unat (fs_size s)) (fs_chars s)"

text \<open>The iterators \<^verbatim>\<open>begin()\<close> and \<^verbatim>\<open>end()\<close>, the constant ones included, and what an iterator points to.\<close>

definition fs_range :: "fixed_string \<Rightarrow> ptr \<times> ptr" where
  "fs_range s = (fs_buf s, fs_buf s + fs_size s)"

definition fs_deref :: "fixed_string \<Rightarrow> ptr \<Rightarrow> char outcome" where
  "fs_deref s p = buf_get s (p - fs_buf s)"

fun fs_iterate :: "fixed_string \<Rightarrow> nat \<Rightarrow> ptr \<Rightarrow> ptr \<Rightarrow> string outcome option" where
  "fs_iterate s 0 p q = (if p = q then Some (Inr []) else None)"
| "fs_iterate s (Suc n) p q =
     (if p = q then Some (Inr [])
      else map_option (\<lambda>r. out_bind (fs_deref s p) (\<lambda>ch. out_bind r (\<lambda>cs. Inr (ch # cs)))) (fs_iterate s n (p + 1) q))"

text \<open>The string a C function sees at \<^verbatim>\<open>c_str()\<close>.\<close>

definition fs_c_str :: "fixed_string \<Rightarrow> string" where
  "fs_c_str s = c_string (fs_chars s)"

definition fs_substr :: "fixed_string \<Rightarrow> size_t \<Rightarrow> size_t \<Rightarrow> string outcome" where
  "fs_substr s pos count =
     out_bind (cpp_assert (pos \<le> fs_size s) ''fixed_string::substr: pos out of range'') (\<lambda>_.
     Inr (take (unat (min count (fs_size s - pos))) (drop (unat pos) (fs_chars s))))"

text \<open>\<^verbatim>\<open>std::string_view::find\<close>: the first position from \<open>pos\<close> on where the needle occurs.\<close>

definition npos :: size_t where
  "npos = - 1"

fun sv_find_from :: "string \<Rightarrow> string \<Rightarrow> nat \<Rightarrow> nat \<Rightarrow> size_t" where
  "sv_find_from hay needle i 0 = (if take (length needle) (drop i hay) = needle then of_nat i else npos)"
| "sv_find_from hay needle i (Suc k) =
     (if take (length needle) (drop i hay) = needle then of_nat i else sv_find_from hay needle (Suc i) k)"

definition sv_find :: "string \<Rightarrow> string \<Rightarrow> size_t \<Rightarrow> size_t" where
  "sv_find hay needle pos =
     (if unat pos \<le> length hay then sv_find_from hay needle (unat pos) (length hay - unat pos) else npos)"

definition fs_find :: "fixed_string \<Rightarrow> string \<Rightarrow> size_t \<Rightarrow> size_t" where
  "fs_find s sv pos = sv_find (fs_view s) sv pos"

definition fs_find_char :: "fixed_string \<Rightarrow> char \<Rightarrow> size_t \<Rightarrow> size_t" where
  "fs_find_char s ch pos = sv_find (fs_view s) [ch] pos"

text \<open>\<^verbatim>\<open>operator<=>\<close> of string views: negative, zero or positive.\<close>

fun sv_compare :: "string \<Rightarrow> string \<Rightarrow> int" where
  "sv_compare [] [] = 0"
| "sv_compare [] (y # ys) = - 1"
| "sv_compare (x # xs) [] = 1"
| "sv_compare (x # xs) (y # ys) =
     (if (of_char x :: nat) < of_char y then - 1 else if (of_char y :: nat) < of_char x then 1 else sv_compare xs ys)"

definition fs_eq :: "fixed_string \<Rightarrow> fixed_string \<Rightarrow> bool" where
  "fs_eq s other \<longleftrightarrow> fs_view s = fs_view other"

definition fs_compare :: "fixed_string \<Rightarrow> fixed_string \<Rightarrow> int" where
  "fs_compare s other = sv_compare (fs_view s) (fs_view other)"

definition fs_eq_view :: "fixed_string \<Rightarrow> string \<Rightarrow> bool" where
  "fs_eq_view s sv \<longleftrightarrow> fs_view s = sv"

definition fs_compare_view :: "fixed_string \<Rightarrow> string \<Rightarrow> int" where
  "fs_compare_view s sv = sv_compare (fs_view s) sv"

definition fs_eq_cstr :: "fixed_string \<Rightarrow> string \<Rightarrow> bool" where
  "fs_eq_cstr s str \<longleftrightarrow> fs_view s = c_string str"

definition fs_output :: "string \<Rightarrow> fixed_string \<Rightarrow> string" where
  "fs_output os s = os @ fs_view s"

subsection \<open>Modifiers\<close>

definition fs_clear :: "fixed_string \<Rightarrow> fixed_string outcome" where
  "fs_clear s = buf_set (s\<lparr>fs_size := 0\<rparr>) 0 NUL"

definition fs_push_back :: "fixed_string \<Rightarrow> char \<Rightarrow> fixed_string outcome" where
  "fs_push_back s ch =
     out_bind (cpp_assert (fs_size s < fs_N s) ''fixed_string::push_back: capacity exceeded'') (\<lambda>_.
     out_bind (buf_set s (fs_size s) ch) (\<lambda>s1.
     let s2 = s1\<lparr>fs_size := fs_size s1 + 1\<rparr> in buf_set s2 (fs_size s2) NUL))"

definition fs_pop_back :: "fixed_string \<Rightarrow> fixed_string outcome" where
  "fs_pop_back s =
     out_bind (cpp_assert (fs_size s > 0) ''fixed_string::pop_back: string is empty'') (\<lambda>_.
     let s1 = s\<lparr>fs_size := fs_size s - 1\<rparr> in buf_set s1 (fs_size s1) NUL)"

definition fs_append :: "fixed_string \<Rightarrow> string \<Rightarrow> fixed_string outcome" where
  "fs_append s sv =
     out_bind (cpp_assert (fs_size s + sv_size sv \<le> fs_N s) ''fixed_string::append: capacity exceeded'') (\<lambda>_.
     out_bind (buf_copy s (fs_size s) sv) (\<lambda>s1.
     let s2 = s1\<lparr>fs_size := fs_size s1 + sv_size sv\<rparr> in buf_set s2 (fs_size s2) NUL))"

definition fs_append_cstr :: "fixed_string \<Rightarrow> string \<Rightarrow> fixed_string outcome" where
  "fs_append_cstr s str = fs_append s (c_string str)"

definition fs_append_fill :: "fixed_string \<Rightarrow> size_t \<Rightarrow> char \<Rightarrow> fixed_string outcome" where
  "fs_append_fill s count ch =
     out_bind (cpp_assert (fs_size s + count \<le> fs_N s) ''fixed_string::append: capacity exceeded'') (\<lambda>_.
     out_bind (buf_fill s (fs_size s) ch count) (\<lambda>s1.
     let s2 = s1\<lparr>fs_size := fs_size s1 + count\<rparr> in buf_set s2 (fs_size s2) NUL))"

definition fs_plus_assign :: "fixed_string \<Rightarrow> string \<Rightarrow> fixed_string outcome" where
  "fs_plus_assign s sv = fs_append s sv"

definition fs_plus_assign_char :: "fixed_string \<Rightarrow> char \<Rightarrow> fixed_string outcome" where
  "fs_plus_assign_char s ch = fs_push_back s ch"

definition fs_resize :: "fixed_string \<Rightarrow> size_t \<Rightarrow> char \<Rightarrow> fixed_string outcome" where
  "fs_resize s count ch =
     out_bind (cpp_assert (count \<le> fs_N s) ''fixed_string::resize: capacity exceeded'') (\<lambda>_.
     out_bind (if count > fs_size s then buf_fill s (fs_size s) ch (count - fs_size s) else Inr s) (\<lambda>s1.
     let s2 = s1\<lparr>fs_size := count\<rparr> in buf_set s2 (fs_size s2) NUL))"

subsection \<open>Concatenation\<close>

definition fs_concat :: "ptr \<Rightarrow> string \<Rightarrow> fixed_string \<Rightarrow> fixed_string \<Rightarrow> fixed_string outcome" where
  "fs_concat place garbage lhs rhs =
     out_bind (fs_from_view (fs_N lhs + fs_N rhs) place garbage (fs_view lhs)) (\<lambda>result.
     fs_append result (fs_view rhs))"

definition fs_concat_view :: "ptr \<Rightarrow> string \<Rightarrow> fixed_string \<Rightarrow> string \<Rightarrow> fixed_string outcome" where
  "fs_concat_view place garbage lhs rhs =
     out_bind (fs_copy place garbage lhs) (\<lambda>result. fs_append result rhs)"

definition view_concat_fs :: "ptr \<Rightarrow> string \<Rightarrow> string \<Rightarrow> fixed_string \<Rightarrow> fixed_string outcome" where
  "view_concat_fs place garbage lhs rhs =
     out_bind (fs_from_view (fs_N rhs) place garbage lhs) (\<lambda>result. fs_append result (fs_view rhs))"

section \<open>Specification\<close>

text \<open>
  \<^verbatim>\<open>buf_\<close> points to the arena's storage, which is all of \<open>N + 1\<close> bytes.
\<close>

definition fs_room :: "fixed_string \<Rightarrow> bool" where
  "fs_room s \<longleftrightarrow>
     length (fs_chars s) = Suc (unat (fs_N s)) \<and> unat (fs_N s) < 2 ^ 62 \<and>
     fs_buf s \<noteq> nullptr \<and> fs_buf s = sa_buf (fs_arena s) \<and> sa_N (fs_arena s) = fs_N s + 1"

text \<open>The object holds the text \<open>txt\<close>, terminated by a NUL, within its capacity.\<close>

definition fs_holds :: "fixed_string \<Rightarrow> string \<Rightarrow> bool" where
  "fs_holds s txt \<longleftrightarrow>
     fs_room s \<and> unat (fs_size s) = length txt \<and> length txt \<le> unat (fs_N s) \<and>
     take (length txt) (fs_chars s) = txt \<and> fs_chars s ! length txt = NUL"

definition fs_gives :: "fixed_string outcome \<Rightarrow> size_t \<Rightarrow> string \<Rightarrow> bool" where
  "fs_gives m N txt \<longleftrightarrow> (\<exists>s. m = Inr s \<and> fs_holds s txt \<and> fs_N s = N)"

text \<open>An address and old contents that a new object may have.\<close>

definition place_ok :: "size_t \<Rightarrow> ptr \<Rightarrow> string \<Rightarrow> bool" where
  "place_ok N place garbage \<longleftrightarrow>
     place \<noteq> nullptr \<and> unat place + unat N + 1 < 2 ^ 64 \<and> unat N < 2 ^ 62 \<and> length garbage = Suc (unat N)"

lemma fs_view_holds: "fs_holds s txt \<Longrightarrow> fs_view s = txt"
  by (simp add: fs_holds_def fs_view_def)

text \<open>A loop from \<^verbatim>\<open>begin()\<close> to \<^verbatim>\<open>end()\<close> stops after as many rounds as the text is long, and visits the text.\<close>

lemma fs_iterate_from:
  assumes "fs_holds s txt" and "k \<le> length txt"
  shows "fs_iterate s (length txt - k) (fs_buf s + of_nat k) (snd (fs_range s)) = Some (Inr (drop k txt))"
  using assms(2)
proof (induction "length txt - k" arbitrary: k)
  case 0
  then have "k = length txt" by simp
  moreover have "length txt = unat (fs_size s)" using assms(1) by (simp add: fs_holds_def)
  then have "of_nat (length txt) = fs_size s" by simp
  ultimately show ?case by (simp add: fs_range_def)
next
  case (Suc n)
  have h: "fs_room s" "unat (fs_size s) = length txt" "take (length txt) (fs_chars s) = txt" "length txt \<le> unat (fs_N s)"
    using assms(1) by (auto simp: fs_holds_def)
  have k: "k < length txt" "n = length txt - Suc k" using Suc(2) by simp_all
  have "unat (of_nat k :: size_t) = k" using k(1) h(1,4) by (simp add: fs_room_def unsigned_of_nat take_bit_nat_eq_self)
  then have ne: "(of_nat k :: size_t) \<noteq> fs_size s" and d: "fs_deref s (fs_buf s + of_nat k) = Inr (txt ! k)"
    using k(1) h by (auto simp: fs_deref_def buf_get_def fs_room_def) (metis nth_take)
  have "fs_iterate s n (fs_buf s + of_nat k + 1) (snd (fs_range s)) = Some (Inr (drop (Suc k) txt))"
    using Suc(1) [OF k(2)] k(1) by (simp add: k(2) ac_simps)
  then show ?case unfolding Suc(2) [symmetric] using ne d Cons_nth_drop_Suc [OF k(1)] by (simp add: fs_range_def)
qed

theorem fs_iterate_view: "fs_holds s txt \<Longrightarrow> fs_iterate s (length txt) (fst (fs_range s)) (snd (fs_range s)) = Some (Inr txt)"
  using fs_iterate_from [of s "txt" 0] by (simp add: fs_range_def)

lemma unat_N_plus_1: "unat N < 2 ^ 62 \<Longrightarrow> unat (N + 1) = Suc (unat (N :: size_t))"
  by (simp add: unat_Suc_no_wrap)

text \<open>The constructor's allocation takes the whole arena and cannot fail.\<close>

lemma allocate_buf_raw:
  assumes "place_ok N place garbage"
  shows "\<exists>s. allocate_buf (fs_raw N place garbage sz) = Inr s \<and> fs_room s \<and> fs_N s = N \<and> fs_size s = sz \<and>
    fs_chars s = garbage \<and> stack_arena_remaining (fs_arena s) = 0"
proof -
  let ?sa = "stack_arena_make place (N + 1)"
  have N1: "unat (N + 1) = Suc (unat N)"
    using assms by (simp add: place_ok_def unat_N_plus_1)
  have e: "unat (place + (N + 1)) = unat place + Suc (unat N)"
    using assms N1 by (simp add: place_ok_def unat_add_no_wrap)
  have one: "align_up place 1 = Inr place"
    by (simp add: align_up_def)
  have "stack_arena_allocate ?sa (N + 1) 1 = Inr (place, ?sa\<lparr>sa_cur := place + (N + 1)\<rparr>)"
    by (simp add: stack_arena_allocate_def stack_arena_make_def one)
  then have "allocate_buf (fs_raw N place garbage sz) =
      Inr ((fs_raw N place garbage sz)\<lparr>fs_arena := ?sa\<lparr>sa_cur := place + (N + 1)\<rparr>, fs_buf := place\<rparr>)"
    using assms by (simp add: allocate_buf_def stack_allocator_allocate_def stack_allocator_make_def char_type_def
        fs_raw_def stack_arena_make_def place_ok_def)
  then show ?thesis
    using assms by (simp add: fs_room_def fs_raw_def stack_arena_make_def place_ok_def stack_arena_remaining_def
        stack_arena_used_def)
qed

text \<open>Writing text behind a prefix that stays, and the terminator behind it.\<close>

lemma fs_write_text:
  assumes "fs_room s" and "length pre + length cs \<le> unat (fs_N s)" and "take (length pre) (fs_chars s) = pre"
    and "unat sz = length pre + length cs"
  shows "fs_holds (s\<lparr>fs_chars := (take (length pre) (fs_chars s) @ cs @ drop (length pre + length cs) (fs_chars s))
      [unat sz := NUL], fs_size := sz\<rparr>) (pre @ cs)"
  using assms by (auto simp: fs_holds_def fs_room_def)

lemma fs_update_swap: "s\<lparr>fs_size := a, fs_chars := b\<rparr> = s\<lparr>fs_chars := b, fs_size := a\<rparr>"
  by (cases s) simp

lemma copy_then_nul:
  assumes "fs_room s" and "length pre + length cs \<le> unat (fs_N s)" and "take (length pre) (fs_chars s) = pre"
    and "unat off = length pre" and "unat sz = length pre + length cs"
  shows "fs_gives (out_bind (buf_copy s off cs) (\<lambda>s1. buf_set (s1\<lparr>fs_size := sz\<rparr>) sz NUL)) (fs_N s) (pre @ cs)"
    and "fs_gives (out_bind (buf_copy (s\<lparr>fs_size := sz\<rparr>) off cs) (\<lambda>s1. buf_set s1 (fs_size s1) NUL)) (fs_N s) (pre @ cs)"
proof -
  have le: "length pre + length cs \<le> length (fs_chars s)" "length pre + length cs < length (fs_chars s)"
    using assms(1,2) by (simp_all add: fs_room_def)
  let ?s = "s\<lparr>fs_chars := (take (length pre) (fs_chars s) @ cs @ drop (length pre + length cs) (fs_chars s))
      [unat sz := NUL], fs_size := sz\<rparr>"
  have "out_bind (buf_copy s off cs) (\<lambda>s1. buf_set (s1\<lparr>fs_size := sz\<rparr>) sz NUL) = Inr ?s"
    "out_bind (buf_copy (s\<lparr>fs_size := sz\<rparr>) off cs) (\<lambda>s1. buf_set s1 (fs_size s1) NUL) = Inr ?s"
    using le assms(4,5) by (simp_all add: buf_copy_def buf_set_def fs_update_swap)
  with fs_write_text [OF assms(1-3,5)]
  show "fs_gives (out_bind (buf_copy s off cs) (\<lambda>s1. buf_set (s1\<lparr>fs_size := sz\<rparr>) sz NUL)) (fs_N s) (pre @ cs)"
    and "fs_gives (out_bind (buf_copy (s\<lparr>fs_size := sz\<rparr>) off cs) (\<lambda>s1. buf_set s1 (fs_size s1) NUL)) (fs_N s) (pre @ cs)"
    by (simp_all add: fs_gives_def)
qed

lemma buf_fill_copy: "buf_fill s off ch n = buf_copy s off (replicate (unat n) ch)"
  by (simp add: buf_fill_def buf_copy_def)

text \<open>No string is longer than \<^verbatim>\<open>PTRDIFF_MAX\<close>.\<close>

abbreviation sv_ok :: "string \<Rightarrow> bool" where
  "sv_ok sv \<equiv> length sv < 2 ^ 63"

lemma unat_sv_size: "sv_ok sv \<Longrightarrow> unat (sv_size sv) = length sv"
  by (simp add: sv_size_def unat_of_nat)

lemma fs_holds_bounds:
  assumes "fs_holds s txt"
  shows "fs_room s" "unat (fs_size s) = length txt" "length txt \<le> unat (fs_N s)" "unat (fs_N s) < 2 ^ 62"
    "take (length txt) (fs_chars s) = txt" "fs_chars s ! length txt = NUL" "length (fs_chars s) = Suc (unat (fs_N s))"
  using assms by (auto simp: fs_holds_def fs_room_def)

section \<open>Modifiers\<close>

lemma fs_append_ok:
  assumes "fs_holds s txt" and "sv_ok sv"
  shows "if length txt + length sv \<le> unat (fs_N s) then fs_gives (fs_append s sv) (fs_N s) (txt @ sv)
    else fs_append s sv = Inl (Assertion_Failed ''fixed_string::append: capacity exceeded'')"
proof -
  note h = fs_holds_bounds [OF assms(1)]
  have sum: "unat (fs_size s + sv_size sv) = length txt + length sv"
    using h unat_sv_size [OF assms(2)] assms(2) by (subst unat_add_no_wrap) auto
  have test: "fs_size s + sv_size sv \<le> fs_N s \<longleftrightarrow> length txt + length sv \<le> unat (fs_N s)"
    by (simp add: word_le_nat_alt sum)
  have eq: "fs_size s1 = fs_size s" if "buf_copy s (fs_size s) sv = Inr s1" for s1
    using that by (auto simp: buf_copy_def split: if_splits)
  have "fs_append s sv = out_bind (buf_copy s (fs_size s) sv) (\<lambda>s1. buf_set (s1\<lparr>fs_size := fs_size s + sv_size sv\<rparr>) (fs_size s + sv_size sv) NUL)"
    if "length txt + length sv \<le> unat (fs_N s)"
    using that test eq by (auto simp: fs_append_def Let_def intro!: out_bind_cong)
  then show ?thesis
    using copy_then_nul(1) [OF h(1) _ h(5) h(2) sum] test by (auto simp: fs_append_def)
qed

lemma fs_append_fill_ok:
  assumes "fs_holds s txt" and "unat (fs_N s) + unat count < 2 ^ 64"
  shows "if length txt + unat count \<le> unat (fs_N s)
    then fs_gives (fs_append_fill s count ch) (fs_N s) (txt @ replicate (unat count) ch)
    else fs_append_fill s count ch = Inl (Assertion_Failed ''fixed_string::append: capacity exceeded'')"
proof -
  have "sv_size (replicate (unat count) ch) = count"
    by (simp add: sv_size_def)
  then have "fs_append_fill s count ch = fs_append s (replicate (unat count) ch)"
    by (simp add: fs_append_fill_def fs_append_def buf_fill_copy)
  note f = this fs_append_ok [OF assms(1), of "replicate (unat count) ch"]
  show ?thesis
  proof (cases "unat count < 2 ^ 63")
    case True
    with f show ?thesis by simp
  next
    case False
    note h = fs_holds_bounds [OF assms(1)]
    have "unat (fs_size s + count) = length txt + unat count" using h(2,3) assms(2) by (simp add: unat_add_no_wrap)
    with False h(4) have "\<not> fs_size s + count \<le> fs_N s" by (simp add: word_le_nat_alt)
    with False h(4) show ?thesis by (simp add: fs_append_fill_def)
  qed
qed

lemma fs_push_back_ok:
  assumes "fs_holds s txt"
  shows "if length txt < unat (fs_N s) then fs_gives (fs_push_back s ch) (fs_N s) (txt @ [ch])
    else fs_push_back s ch = Inl (Assertion_Failed ''fixed_string::push_back: capacity exceeded'')"
proof -
  note h = fs_holds_bounds [OF assms]
  have test: "fs_size s < fs_N s \<longleftrightarrow> length txt < unat (fs_N s)"
    using h(2) by (simp add: word_less_nat_alt)
  show ?thesis
  proof (cases "length txt < unat (fs_N s)")
    case True
    have sz: "unat (fs_size s + 1) = length txt + length [ch]"
      using h(2,3,4) by (simp add: unat_Suc_no_wrap)
    have "buf_set s (fs_size s) ch = buf_copy s (fs_size s) [ch]"
      using h(2,3,7) by (simp add: buf_set_def buf_copy_def upd_conv_take_nth_drop)
    then have "fs_push_back s ch =
        out_bind (buf_copy s (fs_size s) [ch]) (\<lambda>s1. buf_set (s1\<lparr>fs_size := fs_size s + 1\<rparr>) (fs_size s + 1) NUL)"
      using True test by (auto simp: fs_push_back_def Let_def buf_copy_def intro!: out_bind_cong split: if_splits)
    with copy_then_nul(1) [OF h(1) _ h(5) h(2) sz] True show ?thesis by simp
  qed (use test in \<open>simp add: fs_push_back_def\<close>)
qed

lemma fs_pop_back_ok:
  assumes "fs_holds s txt"
  shows "if txt \<noteq> [] then fs_gives (fs_pop_back s) (fs_N s) (butlast txt)
    else fs_pop_back s = Inl (Assertion_Failed ''fixed_string::pop_back: string is empty'')"
proof -
  note h = fs_holds_bounds [OF assms]
  have test: "fs_size s > 0 \<longleftrightarrow> txt \<noteq> []"
    using h(2) by (auto simp: word_less_nat_alt)
  show ?thesis
  proof (cases "txt = []")
    case False
    have sz: "unat (fs_size s - 1) = length (butlast txt) + length []"
      using h(2) False by (simp add: unat_minus_one unat_eq_0 [symmetric])
    have le: "length txt - Suc 0 \<le> Suc (unat (fs_N s))"
      using h(3) by simp
    have pre: "take (length (butlast txt)) (fs_chars s) = butlast txt"
      using h(5) by (metis butlast_conv_take length_butlast diff_le_self min.absorb1 take_take)
    have "fs_pop_back s = out_bind (buf_copy s (fs_size s - 1) []) (\<lambda>s1. buf_set (s1\<lparr>fs_size := fs_size s - 1\<rparr>) (fs_size s - 1) NUL)"
      using False test sz h(7) le by (simp add: fs_pop_back_def buf_copy_def Let_def)
    with copy_then_nul(1) [OF h(1) _ pre _ sz, of "fs_size s - 1"] False h(3) sz show ?thesis by simp
  qed (use test in \<open>simp add: fs_pop_back_def\<close>)
qed

text \<open>Setting the size within the buffer and terminating there, without writing characters.\<close>

lemma set_size_ok:
  assumes "fs_room s" and "unat sz \<le> unat (fs_N s)"
  shows "fs_gives (buf_set (s\<lparr>fs_size := sz\<rparr>) sz NUL) (fs_N s) (take (unat sz) (fs_chars s))"
proof -
  let ?pre = "take (unat sz) (fs_chars s)"
  have len: "length ?pre = unat sz"
    using assms by (simp add: fs_room_def)
  have "buf_set (s\<lparr>fs_size := sz\<rparr>) sz NUL = out_bind (buf_copy s sz []) (\<lambda>s1. buf_set (s1\<lparr>fs_size := sz\<rparr>) sz NUL)"
    using assms by (simp add: buf_copy_def fs_room_def)
  with copy_then_nul(1) [OF assms(1), of ?pre "[]" sz sz] len assms(2) show ?thesis by simp
qed

lemma fs_clear_ok: "fs_holds s txt \<Longrightarrow> fs_gives (fs_clear s) (fs_N s) []"
  using set_size_ok [of s 0] by (simp add: fs_clear_def fs_holds_bounds)

lemma fs_resize_ok:
  assumes "fs_holds s txt"
  shows "if unat count \<le> unat (fs_N s)
    then fs_gives (fs_resize s count ch) (fs_N s) (take (unat count) txt @ replicate (unat count - length txt) ch)
    else fs_resize s count ch = Inl (Assertion_Failed ''fixed_string::resize: capacity exceeded'')"
proof -
  note h = fs_holds_bounds [OF assms]
  have test: "count \<le> fs_N s \<longleftrightarrow> unat count \<le> unat (fs_N s)" "count > fs_size s \<longleftrightarrow> length txt < unat count"
    using h(2) by (simp_all add: word_le_nat_alt word_less_nat_alt)
  show ?thesis
  proof (cases "unat count \<le> unat (fs_N s)")
    case le: True
    show ?thesis
    proof (cases "length txt < unat count")
      case True
      have d: "unat (count - fs_size s) = unat count - length txt"
        using test(2) True h(2) by (simp add: unat_sub_no_wrap)
      then have "fs_resize s count ch = out_bind (buf_copy s (fs_size s) (replicate (unat count - length txt) ch))
          (\<lambda>s1. buf_set (s1\<lparr>fs_size := count\<rparr>) count NUL)"
        using le test True by (simp add: fs_resize_def buf_fill_copy Let_def)
      with copy_then_nul(1) [OF h(1) _ h(5) h(2), of "replicate (unat count - length txt) ch" count] le True
      show ?thesis by simp
    next
      case False
      have "take (unat count) (fs_chars s) = take (unat count) txt"
        using False h(5) by (metis min.absorb1 not_less take_take)
      with set_size_ok [OF h(1) le] False le test show ?thesis
        by (simp add: fs_resize_def Let_def)
    qed
  qed (use test in \<open>simp add: fs_resize_def\<close>)
qed

section \<open>Constructors and assignment\<close>

text \<open>What a constructor gives: the text if it fits, otherwise the assertion.\<close>

definition fits_or_asserts :: "fixed_string outcome \<Rightarrow> size_t \<Rightarrow> string \<Rightarrow> bool" where
  "fits_or_asserts m N txt =
     (if length txt \<le> unat N then fs_gives m N txt else m = Inl (Assertion_Failed exceeds))"

text \<open>Text written from the start of a buffer that \<^verbatim>\<open>buf_\<close> points to.\<close>

lemma fill_from_start:
  assumes "fs_room s" and "sv_ok sv"
  shows "fits_or_asserts (out_bind (cpp_assert (sv_size sv \<le> fs_N s) exceeds) (\<lambda>_.
           out_bind (buf_copy (s\<lparr>fs_size := sv_size sv\<rparr>) 0 sv) (\<lambda>s1. buf_set s1 (fs_size s1) NUL))) (fs_N s) sv"
  using copy_then_nul(2) [OF assms(1), of "[]" sv 0 "sv_size sv"] unat_sv_size [OF assms(2)]
  by (simp add: word_le_nat_alt fits_or_asserts_def)

lemma fs_from_view_ok:
  assumes "place_ok N place garbage" and "sv_ok sv"
  shows "fits_or_asserts (fs_from_view N place garbage sv) N sv"
proof -
  obtain s where s: "allocate_buf (fs_raw N place garbage (sv_size sv)) = Inr s" "fs_room s" "fs_N s = N" "fs_size s = sv_size sv"
    using allocate_buf_raw [OF assms(1)] by blast
  have "s\<lparr>fs_size := sv_size sv\<rparr> = s"
    using s(4) by (cases s) simp
  with fill_from_start [OF s(2) assms(2)] s show ?thesis
    by (simp add: fs_from_view_def)
qed

lemma sv_ok_c_string: "sv_ok cs \<Longrightarrow> sv_ok (c_string cs)"
  using length_takeWhile_le [of "\<lambda>c. c \<noteq> NUL" cs] by (simp add: c_string_def)

lemma fs_from_cstr_ok:
  assumes "place_ok N place garbage" and "\<And>cs. str = Some cs \<Longrightarrow> sv_ok cs"
  shows "fits_or_asserts (fs_from_cstr N place garbage str) N (case str of None \<Rightarrow> [] | Some cs \<Rightarrow> c_string cs)"
proof -
  obtain s where s: "allocate_buf (fs_raw N place garbage 0) = Inr s" "fs_room s" "fs_N s = N" "fs_size s = 0"
    using allocate_buf_raw [OF assms(1)] by blast
  have zero: "s\<lparr>fs_size := 0\<rparr> = s"
    using s(4) by (cases s) simp
  show ?thesis
  proof (cases str)
    case None
    with set_size_ok [OF s(2), of 0] zero s show ?thesis
      by (simp add: fs_from_cstr_def fits_or_asserts_def)
  next
    case (Some cs)
    have "fs_from_cstr N place garbage str = out_bind (cpp_assert (sv_size (c_string cs) \<le> fs_N s) exceeds) (\<lambda>_.
        out_bind (buf_copy (s\<lparr>fs_size := sv_size (c_string cs)\<rparr>) 0 (c_string cs)) (\<lambda>s1. buf_set s1 (fs_size s1) NUL))"
      using s Some by (simp add: fs_from_cstr_def Let_def cpp_assert_def)
    with fill_from_start [OF s(2) sv_ok_c_string, of cs] assms(2) s(3) Some show ?thesis
      by simp
  qed
qed

lemma fs_from_ptr_len_ok:
  assumes "place_ok N place garbage" and "unat len \<le> length str"
  shows "fits_or_asserts (fs_from_ptr_len N place garbage str len) N (take (unat len) str)"
proof -
  obtain s where s: "allocate_buf (fs_raw N place garbage len) = Inr s" "fs_room s" "fs_N s = N" "fs_size s = len"
    using allocate_buf_raw [OF assms(1)] by blast
  define t where "t = take (unat len) str"
  have t: "length t = unat len"
    using assms(2) by (simp add: t_def)
  have eq: "s\<lparr>fs_size := len\<rparr> = s"
    using s(4) by (cases s) simp
  have "fs_from_ptr_len N place garbage str len = out_bind (cpp_assert (len \<le> N) exceeds) (\<lambda>_.
      out_bind (buf_copy s 0 t) (\<lambda>s1. buf_set s1 (fs_size s1) NUL))"
    using s(1,4) assms(2) by (simp add: fs_from_ptr_len_def t_def)
  moreover have "fs_gives (out_bind (buf_copy s 0 t) (\<lambda>s1. buf_set s1 (fs_size s1) NUL)) N t" if "length t \<le> unat N"
  proof -
    have "fs_gives (out_bind (buf_copy (s\<lparr>fs_size := len\<rparr>) 0 t) (\<lambda>s1. buf_set s1 (fs_size s1) NUL)) (fs_N s) ([] @ t)"
      by (rule copy_then_nul(2) [OF s(2)]) (use that t s(3) in simp_all)
    then show ?thesis unfolding eq s(3) by simp
  qed
  ultimately show ?thesis
    unfolding t_def [symmetric] fits_or_asserts_def by (simp add: t word_le_nat_alt)
qed

lemma fs_from_fill_ok:
  assumes "place_ok N place garbage"
  shows "fits_or_asserts (fs_from_fill N place garbage count ch) N (replicate (unat count) ch)"
proof -
  obtain s where s: "allocate_buf (fs_raw N place garbage count) = Inr s" "fs_room s" "fs_N s = N" "fs_size s = count"
    using allocate_buf_raw [OF assms(1)] by blast
  have "s\<lparr>fs_size := count\<rparr> = s"
    using s(4) by (cases s) simp
  with copy_then_nul(2) [OF s(2), of "[]" "replicate (unat count) ch" 0 count] s show ?thesis
    by (simp add: fs_from_fill_def fits_or_asserts_def word_le_nat_alt buf_fill_copy)
qed

lemma fs_default_ok:
  assumes "place_ok N place garbage"
  shows "fs_gives (fs_default N place garbage) N []"
proof -
  obtain s where s: "allocate_buf (fs_raw N place garbage 0) = Inr s" "fs_room s" "fs_N s = N" "fs_size s = 0"
    using allocate_buf_raw [OF assms(1)] by blast
  have "s\<lparr>fs_size := 0\<rparr> = s"
    using s(4) by (cases s) simp
  with set_size_ok [OF s(2), of 0] s show ?thesis
    by (simp add: fs_default_def)
qed

text \<open>The bytes of another object, with its terminator, copied to the start.\<close>

lemma copy_with_nul:
  assumes "fs_room s" and "fs_holds other txt" and "length txt \<le> unat (fs_N s)"
  shows "fs_gives (out_bind (bytes_with_nul other) (\<lambda>cs. buf_copy (s\<lparr>fs_size := fs_size other\<rparr>) 0 cs)) (fs_N s) txt"
proof -
  note h = fs_holds_bounds [OF assms(2)]
  have sz: "unat (fs_size other + 1) = Suc (length txt)"
    using h(2,3,4) by (simp add: unat_Suc_no_wrap)
  have cs: "take (Suc (length txt)) (fs_chars other) = txt @ [NUL]"
    using h(3,5,6,7) by simp
  have "out_bind (bytes_with_nul other) (\<lambda>cs. buf_copy (s\<lparr>fs_size := fs_size other\<rparr>) 0 cs) =
      Inr (s\<lparr>fs_size := fs_size other, fs_chars := (txt @ [NUL]) @ drop (Suc (length txt)) (fs_chars s)\<rparr>)"
    using sz h(3,7) assms(1,3) by (simp add: bytes_with_nul_def cs buf_copy_def fs_room_def del: take_Suc_conv_nth)
  moreover have "fs_holds (s\<lparr>fs_size := fs_size other, fs_chars := (txt @ [NUL]) @ drop (Suc (length txt)) (fs_chars s)\<rparr>) txt"
    using assms(1,3) h(2) by (auto simp: fs_holds_def fs_room_def nth_append)
  ultimately show ?thesis by (simp add: fs_gives_def)
qed

lemma fs_from_other_ok:
  assumes "place_ok N place garbage" and "fs_holds other txt"
  shows "fits_or_asserts (fs_from_other N place garbage other) N txt"
    and "fs_N other = N \<Longrightarrow> fs_gives (fs_copy place garbage other) N txt"
proof -
  obtain s where s: "allocate_buf (fs_raw N place garbage (fs_size other)) = Inr s" "fs_room s" "fs_N s = N"
    "fs_size s = fs_size other"
    using allocate_buf_raw [OF assms(1)] by blast
  have eq: "s\<lparr>fs_size := fs_size other\<rparr> = s"
    using s(4) by (cases s) simp
  note c = copy_with_nul [OF s(2) assms(2), unfolded eq s(3)]
  show "fits_or_asserts (fs_from_other N place garbage other) N txt"
    using c s fs_holds_bounds(2) [OF assms(2)] by (simp add: fs_from_other_def fits_or_asserts_def word_le_nat_alt)
  show "fs_gives (fs_copy place garbage other) N txt" if "fs_N other = N"
    using c s that fs_holds_bounds(3) [OF assms(2)] by (simp add: fs_copy_def)
qed

lemma fs_assign_ok:
  assumes "fs_room s" and "fs_holds other txt" and "fs_N other = fs_N s"
  shows "fs_gives (fs_assign False s other) (fs_N s) txt"
  using copy_with_nul [OF assms(1,2)] fs_holds_bounds(3) [OF assms(2)] assms(3) by (simp add: fs_assign_def)

lemma fs_assign_view_ok: "fs_room s \<Longrightarrow> sv_ok sv \<Longrightarrow> fits_or_asserts (fs_assign_view s sv) (fs_N s) sv"
  using fill_from_start [of s sv] by (simp add: fs_assign_view_def Let_def)

lemma fs_assign_cstr_ok:
  assumes "fs_room s" and "\<And>cs. str = Some cs \<Longrightarrow> sv_ok cs"
  shows "fits_or_asserts (fs_assign_cstr s str) (fs_N s) (case str of None \<Rightarrow> [] | Some cs \<Rightarrow> c_string cs)"
proof (cases str)
  case None
  with set_size_ok [OF assms(1), of 0] show ?thesis
    by (simp add: fs_assign_cstr_def Let_def fits_or_asserts_def)
next
  case (Some cs)
  with fill_from_start [OF assms(1) sv_ok_c_string, of cs] assms(2) show ?thesis
    by (simp add: fs_assign_cstr_def Let_def)
qed

section \<open>Properties\<close>

text \<open>A program's modifications of one string, and what they do to its text.\<close>

datatype fs_op =
    FS_push char
  | FS_pop
  | FS_append string
  | FS_append_fill size_t char
  | FS_resize size_t char
  | FS_clear
  | FS_assign string

fun fs_step :: "fixed_string \<Rightarrow> fs_op \<Rightarrow> fixed_string outcome" where
  "fs_step s (FS_push ch) = fs_push_back s ch"
| "fs_step s FS_pop = fs_pop_back s"
| "fs_step s (FS_append sv) = fs_append s sv"
| "fs_step s (FS_append_fill n ch) = fs_append_fill s n ch"
| "fs_step s (FS_resize n ch) = fs_resize s n ch"
| "fs_step s FS_clear = fs_clear s"
| "fs_step s (FS_assign sv) = fs_assign_view s sv"

fun fs_run :: "fixed_string \<Rightarrow> fs_op list \<Rightarrow> fixed_string outcome" where
  "fs_run s [] = Inr s"
| "fs_run s (x # xs) = out_bind (fs_step s x) (\<lambda>s'. fs_run s' xs)"

text \<open>The same operations on a string of bounded length: \<^term>\<open>None\<close> where an assertion fails.\<close>

fun text_step :: "nat \<Rightarrow> string \<Rightarrow> fs_op \<Rightarrow> string option" where
  "text_step N txt (FS_push ch) = (if length txt < N then Some (txt @ [ch]) else None)"
| "text_step N txt FS_pop = (if txt \<noteq> [] then Some (butlast txt) else None)"
| "text_step N txt (FS_append sv) = (if length txt + length sv \<le> N then Some (txt @ sv) else None)"
| "text_step N txt (FS_append_fill n ch) =
     (if length txt + unat n \<le> N then Some (txt @ replicate (unat n) ch) else None)"
| "text_step N txt (FS_resize n ch) =
     (if unat n \<le> N then Some (take (unat n) txt @ replicate (unat n - length txt) ch) else None)"
| "text_step N txt FS_clear = Some []"
| "text_step N txt (FS_assign sv) = (if length sv \<le> N then Some sv else None)"

fun text_run :: "nat \<Rightarrow> string \<Rightarrow> fs_op list \<Rightarrow> string option" where
  "text_run N txt [] = Some txt"
| "text_run N txt (x # xs) = Option.bind (text_step N txt x) (\<lambda>txt'. text_run N txt' xs)"

text \<open>
  Views are no longer than an object can be, and a count of characters to append does not wrap around when it is added to the capacity \<open>N\<close>.
\<close>

fun fs_op_ok :: "nat \<Rightarrow> fs_op \<Rightarrow> bool" where
  "fs_op_ok N (FS_append sv) = sv_ok sv"
| "fs_op_ok N (FS_assign sv) = sv_ok sv"
| "fs_op_ok N (FS_append_fill n ch) = (N + unat n < 2 ^ 64)"
| "fs_op_ok N x = True"

lemma fs_step_ok:
  assumes "fs_holds s txt" and "fs_op_ok (unat (fs_N s)) x"
  shows "case text_step (unat (fs_N s)) txt x of
      Some txt' \<Rightarrow> fs_gives (fs_step s x) (fs_N s) txt'
    | None \<Rightarrow> \<exists>msg. fs_step s x = Inl (Assertion_Failed msg)"
proof (cases x)
  case (FS_push ch)
  then show ?thesis using fs_push_back_ok [OF assms(1), of ch] by auto
next
  case FS_pop
  then show ?thesis using fs_pop_back_ok [OF assms(1)] by auto
next
  case (FS_append sv)
  then show ?thesis using fs_append_ok [OF assms(1), of sv] assms(2) by auto
next
  case (FS_append_fill n ch)
  then show ?thesis using fs_append_fill_ok [OF assms(1), of n ch] assms(2) by auto
next
  case (FS_resize n ch)
  then show ?thesis using fs_resize_ok [OF assms(1), of n ch] by auto
next
  case FS_clear
  then show ?thesis using fs_clear_ok [OF assms(1)] by auto
next
  case (FS_assign sv)
  then show ?thesis
    using fs_assign_view_ok [OF fs_holds_bounds(1) [OF assms(1)], of sv] assms(2) by (auto simp: fits_or_asserts_def)
qed

text \<open>
  C20: a fixed string is a bounded string. A sequence of modifications of a string that holds
  \<open>txt\<close>, whose views do not overlap the buffer and whose counts of characters to append do not wrap around when they are added to the
  capacity, gives the text the same operations give on plain strings, NUL-terminated and within the
  capacity, or stops at the assertion of the first operation that would exceed the capacity or pop
  an empty string, without an access outside the buffer. For a larger count the assertion is passed: see below.
\<close>

theorem fixed_string_run_refines_text:
  assumes "fs_holds s t" and "\<forall>x \<in> set xs. fs_op_ok (unat (fs_N s)) x"
  shows "case text_run (unat (fs_N s)) t xs of
      Some t' \<Rightarrow> \<exists>s'. fs_run s xs = Inr s' \<and> fs_holds s' t' \<and> fs_view s' = t'
    | None \<Rightarrow> \<exists>msg. fs_run s xs = Inl (Assertion_Failed msg)"
  using assms
proof (induction xs arbitrary: s t)
  case Nil
  then show ?case by (simp add: fs_view_holds)
next
  case (Cons x xs)
  have step: "case text_step (unat (fs_N s)) t x of
      Some t' \<Rightarrow> fs_gives (fs_step s x) (fs_N s) t'
    | None \<Rightarrow> \<exists>msg. fs_step s x = Inl (Assertion_Failed msg)"
    using Cons.prems by (intro fs_step_ok) auto
  show ?case
  proof (cases "text_step (unat (fs_N s)) t x")
    case None
    with step show ?thesis by auto
  next
    case (Some t')
    with step obtain s' where s': "fs_step s x = Inr s'" "fs_holds s' t'" "fs_N s' = fs_N s"
      by (auto simp: fs_gives_def)
    then have run: "fs_run s (x # xs) = fs_run s' xs" by simp
    have spec: "text_run (unat (fs_N s)) t (x # xs) = text_run (unat (fs_N s')) t' xs"
      using Some s'(3) by simp
    show ?thesis
      unfolding run spec using Cons.prems(2) s'(3) by (intro Cons.IH [OF s'(2)]) simp
  qed
qed

text \<open>A string of capacity 8 at address 16 that holds \<open>ab\<close>.\<close>

lemma place_example: "place_ok 8 16 (replicate 9 NUL)"
  by (simp add: place_ok_def)

lemma fs_example: "\<exists>s. fs_from_view 8 16 (replicate 9 NUL) ''ab'' = Inr s \<and> fs_holds s ''ab'' \<and> fs_N s = 8"
  using fs_from_view_ok [OF place_example, of "''ab''"] by (auto simp: fits_or_asserts_def fs_gives_def)

theorem fixed_string_run_refines_text_witness:
  "\<exists>s s'. fs_from_view 8 16 (replicate 9 NUL) ''ab'' = Inr s \<and>
     fs_run s [FS_push CHR ''c'', FS_pop, FS_append ''de'', FS_append_fill 1 CHR ''f''] = Inr s' \<and> fs_view s' = ''abdef'' \<and>
     (\<exists>msg. fs_run s [FS_append_fill 7 CHR ''f''] = Inl (Assertion_Failed msg))"
proof -
  from fs_example obtain s where s: "fs_from_view 8 16 (replicate 9 NUL) ''ab'' = Inr s" "fs_holds s ''ab''" "fs_N s = 8"
    by blast
  let ?xs = "[FS_push CHR ''c'', FS_pop, FS_append ''de'', FS_append_fill 1 CHR ''f'']"
  have "text_run (unat (fs_N s)) ''ab'' ?xs = Some ''abdef''" using s(3) by simp
  with fixed_string_run_refines_text [OF s(2), of ?xs] s(3) have 1: "\<exists>s'. fs_run s ?xs = Inr s' \<and> fs_view s' = ''abdef''" by auto
  have "text_run (unat (fs_N s)) ''ab'' [FS_append_fill 7 CHR ''f''] = None" using s(3) by simp
  with fixed_string_run_refines_text [OF s(2), of "[FS_append_fill 7 CHR ''f'']"] s(3)
  have "\<exists>msg. fs_run s [FS_append_fill 7 CHR ''f''] = Inl (Assertion_Failed msg)" by simp
  with 1 s(1) show ?thesis by blast
qed

text \<open>
  every constructor and assignment leaves the text of its argument in the object, or fails the
  capacity assertion when it does not fit. The buffer comes from the object's own arena: the
  allocation never fails, whatever the address, and leaves the arena full.
\<close>

theorem fixed_string_constructors:
  assumes "place_ok N place garbage" and "sv_ok sv" and "unat len \<le> length sv" and "fs_holds other t" and "fs_holds s u"
  shows "fs_gives (fs_default N place garbage) N [] \<and>
    fits_or_asserts (fs_from_cstr N place garbage (Some sv)) N (c_string sv) \<and>
    fs_gives (fs_from_cstr N place garbage None) N [] \<and>
    fits_or_asserts (fs_from_ptr_len N place garbage sv len) N (take (unat len) sv) \<and>
    fits_or_asserts (fs_from_view N place garbage sv) N sv \<and>
    fits_or_asserts (fs_from_fill N place garbage count ch) N (replicate (unat count) ch) \<and>
    fits_or_asserts (fs_from_other N place garbage other) N t \<and>
    (fs_N other = N \<longrightarrow> fs_gives (fs_copy place garbage other) N t) \<and>
    (fs_N other = fs_N s \<longrightarrow> fs_gives (fs_assign False s other) (fs_N s) t) \<and> fs_assign True s s = Inr s \<and>
    fits_or_asserts (fs_assign_view s sv) (fs_N s) sv \<and>
    fits_or_asserts (fs_assign_cstr s (Some sv)) (fs_N s) (c_string sv) \<and>
    fs_gives (fs_assign_cstr s None) (fs_N s) [] \<and>
    (\<exists>r. allocate_buf (fs_raw N place garbage count) = Inr r \<and> stack_arena_remaining (fs_arena r) = 0)"
proof -
  note room = fs_holds_bounds(1) [OF assms(5)]
  have "fs_gives (fs_from_cstr N place garbage None) N []" "fs_gives (fs_assign_cstr s None) (fs_N s) []"
    using fs_from_cstr_ok [OF assms(1), of None] fs_assign_cstr_ok [OF room, of None] by (simp_all add: fits_or_asserts_def)
  moreover have "\<exists>r. allocate_buf (fs_raw N place garbage count) = Inr r \<and> stack_arena_remaining (fs_arena r) = 0"
    using allocate_buf_raw [OF assms(1)] by blast
  ultimately show ?thesis
    using assms fs_default_ok fs_from_cstr_ok [of N place garbage "Some sv"] fs_from_ptr_len_ok fs_from_view_ok
      fs_from_fill_ok fs_from_other_ok fs_assign_ok [OF room] fs_assign_view_ok [OF room] fs_assign_cstr_ok [OF room, of "Some sv"]
    by (simp add: fs_assign_def)
qed

theorem fixed_string_constructors_witness:
  "fs_gives (fs_from_cstr 8 16 (replicate 9 NUL) (Some ''hi'')) 8 ''hi''"
proof -
  from fs_example obtain s where s: "fs_holds s ''ab''" by blast
  have "sv_ok ''hi''" "unat (2 :: size_t) \<le> length ''hi''" by simp_all
  from fixed_string_constructors [OF place_example this s s] show ?thesis
    by (simp add: fits_or_asserts_def c_string_def)
qed

lemma fs_substr_ok:
  assumes "fs_holds s t"
  shows "fs_substr s pos count = (if unat pos \<le> length t then Inr (take (unat count) (drop (unat pos) t))
    else Inl (Assertion_Failed ''fixed_string::substr: pos out of range''))"
proof -
  note h = fs_holds_bounds [OF assms]
  have "take (unat (min count (fs_size s - pos))) (drop (unat pos) (fs_chars s)) = take (unat count) (drop (unat pos) t)"
    if "unat pos \<le> length t"
  proof -
    have "unat (min count (fs_size s - pos)) = min (unat count) (length t - unat pos)"
      using that h(2) by (simp add: min_def word_le_nat_alt unat_sub_no_wrap)
    moreover have "drop (unat pos) t = take (length t - unat pos) (drop (unat pos) (fs_chars s))"
      using h(5) by (metis drop_take)
    ultimately show ?thesis by (simp add: take_take)
  qed
  then show ?thesis using h(2) by (simp add: fs_substr_def word_le_nat_alt)
qed

lemma fs_c_str_ok:
  assumes "fs_holds s t" and "NUL \<notin> set t"
  shows "fs_c_str s = t"
proof -
  have "fs_chars s = t @ NUL # drop (Suc (length t)) (fs_chars s)"
    using fs_holds_bounds [OF assms(1)] by (metis id_take_nth_drop le_imp_less_Suc)
  moreover have "takeWhile (\<lambda>c. c \<noteq> NUL) (t @ NUL # xs) = t" for xs
    using assms(2) by (subst takeWhile_append2) auto
  ultimately show ?thesis
    unfolding fs_c_str_def c_string_def by metis
qed

text \<open>
  the observers of a string that holds \<open>t\<close> are those of \<open>t\<close>: indexing, \<^verbatim>\<open>at\<close> with its
  assertion, \<^verbatim>\<open>front\<close>, \<^verbatim>\<open>back\<close>, \<^verbatim>\<open>substr\<close> with its clamping and assertion, equality and ordering;
  \<^verbatim>\<open>s[size()]\<close> is the terminator, and \<^verbatim>\<open>c_str()\<close> is \<open>t\<close> when \<open>t\<close> has no NUL in it.
\<close>

theorem fixed_string_observers:
  assumes "fs_holds s t" and "fs_holds other u"
  shows "fs_view s = t \<and>
    (\<forall>i. unat i < length t \<longrightarrow> fs_index s i = Inr (t ! unat i)) \<and> fs_index s (fs_size s) = Inr NUL \<and>
    (\<forall>i. fs_at s i = (if unat i < length t then Inr (t ! unat i)
       else Inl (Assertion_Failed ''fixed_string::at: index out of range''))) \<and>
    (t \<noteq> [] \<longrightarrow> fs_front s = Inr (hd t) \<and> fs_back s = Inr (last t)) \<and>
    (\<forall>pos count. fs_substr s pos count = (if unat pos \<le> length t then Inr (take (unat count) (drop (unat pos) t))
       else Inl (Assertion_Failed ''fixed_string::substr: pos out of range''))) \<and>
    (NUL \<notin> set t \<longrightarrow> fs_c_str s = t) \<and>
    fs_eq s other = (t = u) \<and> fs_compare s other = sv_compare t u \<and> fs_empty s = (t = [])"
proof -
  note h = fs_holds_bounds [OF assms(1)]
  have nth: "fs_chars s ! i = t ! i" if "i < length t" for i
    using that h(5) by (metis nth_take)
  have idx: "\<forall>i. unat i < length t \<longrightarrow> fs_index s i = Inr (t ! unat i)" "fs_index s (fs_size s) = Inr NUL"
    using h nth by (simp_all add: fs_index_def buf_get_def)
  have at: "\<forall>i. fs_at s i = (if unat i < length t then Inr (t ! unat i)
      else Inl (Assertion_Failed ''fixed_string::at: index out of range''))"
    using h nth by (simp add: fs_at_def buf_get_def word_less_nat_alt)
  have ends: "fs_front s = Inr (hd t)" "fs_back s = Inr (last t)" if ne: "t \<noteq> []"
  proof -
    have "unat (fs_size s - 1) = length t - 1"
      using h(2) ne by (simp add: unat_minus_one unat_eq_0 [symmetric])
    then show "fs_front s = Inr (hd t)" "fs_back s = Inr (last t)"
      using h(3,7) ne nth [of 0] nth [of "length t - 1"]
      by (simp_all add: fs_front_def fs_back_def buf_get_def hd_conv_nth last_conv_nth)
  qed
  have empty: "fs_empty s = (t = [])"
    using h(2) by (simp add: fs_empty_def unat_eq_0 [symmetric])
  show ?thesis
    using idx at ends empty fs_substr_ok [OF assms(1)] fs_c_str_ok [OF assms(1)]
      fs_view_holds [OF assms(1)] fs_view_holds [OF assms(2)]
    by (simp add: fs_eq_def fs_compare_def)
qed

theorem fixed_string_observers_witness:
  "\<exists>s. fs_from_view 8 16 (replicate 9 NUL) ''ab'' = Inr s \<and> fs_view s = ''ab'' \<and> fs_at s 5 = Inl (Assertion_Failed ''fixed_string::at: index out of range'')"
proof -
  from fs_example obtain s where s: "fs_from_view 8 16 (replicate 9 NUL) ''ab'' = Inr s" "fs_holds s ''ab''" by blast
  from fixed_string_observers [OF s(2) s(2)] s(1) show ?thesis by simp
qed

text \<open>The first position at or after \<open>i\<close>, if there is one within the next \<open>k\<close>.\<close>

lemma sv_find_from_spec:
  assumes "i + k < 2 ^ 63"
  shows "let r = sv_find_from hay needle i k; occurs = (\<lambda>j. take (length needle) (drop j hay) = needle) in
    if \<exists>j. i \<le> j \<and> j \<le> i + k \<and> occurs j
    then unat r = (LEAST j. i \<le> j \<and> occurs j) else r = npos"
  using assms
proof (induction k arbitrary: i)
  case 0
  have "(LEAST j. i \<le> j \<and> take (length needle) (drop j hay) = needle) = i"
    if "take (length needle) (drop i hay) = needle"
    using that by (intro Least_equality) auto
  with 0 show ?case by (auto simp: Let_def unat_of_nat)
next
  case (Suc k)
  show ?case
  proof (cases "take (length needle) (drop i hay) = needle")
    case True
    then have "(LEAST j. i \<le> j \<and> take (length needle) (drop j hay) = needle) = i"
      by (intro Least_equality) auto
    with True Suc.prems show ?thesis by (auto simp: Let_def unat_of_nat)
  next
    case False
    then have "i \<le> j \<and> take (length needle) (drop j hay) = needle \<longleftrightarrow>
        Suc i \<le> j \<and> take (length needle) (drop j hay) = needle" for j
      by (cases "i = j") auto
    then have least: "(LEAST j. i \<le> j \<and> take (length needle) (drop j hay) = needle) =
        (LEAST j. Suc i \<le> j \<and> take (length needle) (drop j hay) = needle)"
      and ex: "(\<exists>j. i \<le> j \<and> j \<le> i + Suc k \<and> take (length needle) (drop j hay) = needle) \<longleftrightarrow>
        (\<exists>j. Suc i \<le> j \<and> j \<le> Suc i + k \<and> take (length needle) (drop j hay) = needle)"
      by (auto simp: conj_ac)
    show ?thesis
      unfolding Let_def least ex using Suc.IH [of "Suc i"] Suc.prems False by (simp add: Let_def)
  qed
qed

text \<open>
  \<^verbatim>\<open>find\<close> returns the first position at or after \<open>pos\<close> where the needle occurs in the text, and
  \<^verbatim>\<open>npos\<close> if there is none.
\<close>

theorem fixed_string_find:
  assumes "fs_holds s t" and "unat pos \<le> length t"
  shows "let occurs = (\<lambda>j. j \<le> length t \<and> take (length needle) (drop j t) = needle) in
    if \<exists>j. unat pos \<le> j \<and> occurs j
    then unat (fs_find s needle pos) = (LEAST j. unat pos \<le> j \<and> occurs j)
    else fs_find s needle pos = npos"
proof -
  let ?occ = "\<lambda>j. take (length needle) (drop j t) = needle"
  have "unat pos + (length t - unat pos) < 2 ^ 63"
    using fs_holds_bounds(3,4) [OF assms(1)] assms(2) by simp
  note spec = sv_find_from_spec [OF this, of t needle]
  have ex: "(\<exists>j. unat pos \<le> j \<and> j \<le> unat pos + (length t - unat pos) \<and> ?occ j) \<longleftrightarrow>
      (\<exists>j. unat pos \<le> j \<and> j \<le> length t \<and> ?occ j)"
    using assms(2) by auto
  have "(LEAST j. unat pos \<le> j \<and> ?occ j) = (LEAST j. unat pos \<le> j \<and> j \<le> length t \<and> ?occ j)"
    if "unat pos \<le> k" "k \<le> length t" "?occ k" for k
  proof (rule Least_equality [symmetric])
    have *: "unat pos \<le> k \<and> ?occ k" using that by simp
    show "unat pos \<le> (LEAST j. unat pos \<le> j \<and> ?occ j) \<and> (LEAST j. unat pos \<le> j \<and> ?occ j) \<le> length t \<and>
        ?occ (LEAST j. unat pos \<le> j \<and> ?occ j)"
      using LeastI [of "\<lambda>j. unat pos \<le> j \<and> ?occ j", OF *] Least_le [of "\<lambda>j. unat pos \<le> j \<and> ?occ j", OF *] that(2)
      by (meson order_trans)
  qed (auto intro: Least_le)
  with spec ex assms show ?thesis
    by (auto simp: Let_def fs_find_def sv_find_def fs_view_holds)
qed

text \<open>Concatenation: the sum of the capacities always suffices for two fixed strings.\<close>

theorem fixed_string_concat:
  assumes "fs_holds lhs t" and "fs_holds rhs u" and "sv_ok sv"
  shows "unat (fs_N lhs) + unat (fs_N rhs) < 2 ^ 62 \<Longrightarrow> place_ok (fs_N lhs + fs_N rhs) place garbage \<Longrightarrow>
      fs_gives (fs_concat place garbage lhs rhs) (fs_N lhs + fs_N rhs) (t @ u)"
    and "place_ok (fs_N lhs) place garbage \<Longrightarrow> length t + length sv \<le> unat (fs_N lhs) \<Longrightarrow>
      fs_gives (fs_concat_view place garbage lhs sv) (fs_N lhs) (t @ sv)"
    and "place_ok (fs_N rhs) place garbage \<Longrightarrow> length sv + length u \<le> unat (fs_N rhs) \<Longrightarrow>
      fs_gives (view_concat_fs place garbage sv rhs) (fs_N rhs) (sv @ u)"
proof -
  have ok: "sv_ok t" "sv_ok u"
    using fs_holds_bounds(3,4) [OF assms(1)] fs_holds_bounds(3,4) [OF assms(2)] by simp_all
  have app: "fs_gives (out_bind m (\<lambda>r. fs_append r b)) N (a @ b)"
    if m: "fs_gives m N a" and len: "length a + length b \<le> unat N" "sv_ok b" for m N a b
  proof -
    obtain r where "m = Inr r" "fs_holds r a" "fs_N r = N"
      using m by (auto simp: fs_gives_def)
    with fs_append_ok [of r a b] len show ?thesis by simp
  qed
  show "fs_gives (fs_concat place garbage lhs rhs) (fs_N lhs + fs_N rhs) (t @ u)"
    if "unat (fs_N lhs) + unat (fs_N rhs) < 2 ^ 62" "place_ok (fs_N lhs + fs_N rhs) place garbage"
  proof -
    have sum: "unat (fs_N lhs + fs_N rhs) = unat (fs_N lhs) + unat (fs_N rhs)"
      using that(1) by (simp add: unat_add_no_wrap)
    have len: "length t + length u \<le> unat (fs_N lhs + fs_N rhs)"
      using fs_holds_bounds(3) [OF assms(1)] fs_holds_bounds(3) [OF assms(2)] by (simp add: sum)
    have "fs_gives (fs_from_view (fs_N lhs + fs_N rhs) place garbage t) (fs_N lhs + fs_N rhs) t"
      using fs_from_view_ok [OF that(2) ok(1)] len by (simp add: fits_or_asserts_def)
    from app [OF this len ok(2)] show ?thesis
      by (simp add: fs_concat_def fs_view_holds [OF assms(1)] fs_view_holds [OF assms(2)])
  qed
  show "fs_gives (fs_concat_view place garbage lhs sv) (fs_N lhs) (t @ sv)"
    if "place_ok (fs_N lhs) place garbage" "length t + length sv \<le> unat (fs_N lhs)"
    using app [OF fs_from_other_ok(2) [OF that(1) assms(1) refl] that(2) assms(3)] by (simp add: fs_concat_view_def)
  show "fs_gives (view_concat_fs place garbage sv rhs) (fs_N rhs) (sv @ u)"
    if "place_ok (fs_N rhs) place garbage" "length sv + length u \<le> unat (fs_N rhs)"
    using app [of "fs_from_view (fs_N rhs) place garbage sv" "fs_N rhs" sv u] fs_from_view_ok [OF that(1) assms(3)] that(2) ok(2)
    by (simp add: fits_or_asserts_def view_concat_fs_def fs_view_holds [OF assms(2)])
qed

text \<open>
  \<^verbatim>\<open>append(count, ch)\<close> adds before it compares, so a count near \<open>2 ^ 64\<close> wraps past the
  capacity assertion of a non-empty string and the \<^verbatim>\<open>memset\<close> writes outside the buffer.
\<close>

theorem fixed_string_append_count_wraps:
  assumes "fs_holds s t" and "t \<noteq> []"
  shows "fs_append_fill s (- fs_size s) ch = Inl Out_Of_Bounds"
proof -
  note h = fs_holds_bounds [OF assms(1)]
  have "fs_size s \<noteq> 0"
    using h(2) assms(2) by (simp add: unat_eq_0 [symmetric])
  then have "unat (- fs_size s) + unat (fs_size s) = 2 ^ 64"
    using unat_uminus_add by fastforce
  then show ?thesis
    using h(4,7) by (simp add: fs_append_fill_def buf_fill_def)
qed

theorem fixed_string_append_count_wraps_witness:
  "\<exists>s. fs_from_view 8 16 (replicate 9 NUL) ''ab'' = Inr s \<and> fs_append_fill s (- fs_size s) CHR ''x'' = Inl Out_Of_Bounds"
proof -
  from fs_example obtain s where s: "fs_from_view 8 16 (replicate 9 NUL) ''ab'' = Inr s" "fs_holds s ''ab''" by blast
  from fixed_string_append_count_wraps [OF s(2), of "CHR ''x''"] s(1) show ?thesis by simp
qed

end
