(* ===== verification/Job_System.thy ===== *)
theory Job_System
  imports Spsc_Queue
begin

text \<open>
  The thread pool, \<^verbatim>\<open>include/sap_core/job_system.h\<close> and \<^verbatim>\<open>src/job_system.cpp\<close>. One thread submits;
  each worker owns the consumer side of one \<^verbatim>\<open>spsc_queue\<close>. The first part is \<^verbatim>\<open>submit\<close> as a call,
  the second the interleaving of the submitter, the workers and the destructor, with the queue calls
  as the atomic accesses and possibly stale loads of \<^verbatim>\<open>Spsc_Queue\<close>. Jobs are values; running one is recorded.
\<close>

section \<open>Definitions\<close>

definition queue_capacity :: size_t where
  "queue_capacity = 4096"

record 'J job_system =
  m_queues :: "'J spsc_queue list"
  m_next_queue :: u32
  m_pending_jobs :: u32

definition job_system_make :: "u32 \<Rightarrow> 'J \<Rightarrow> 'J job_system" where
  "job_system_make thread_count init =
     \<lparr>m_queues = replicate (unat thread_count) (spsc_queue_make queue_capacity init),
      m_next_queue = 0, m_pending_jobs = 0\<rparr>"

text \<open>
  The loop over the queues. The counter is a \<^verbatim>\<open>u32\<close> and so is the sum \<^verbatim>\<open>start + i\<close>. A push that
  fails has not moved the job, so the next round offers the same one.
\<close>

function submit_loop :: "'J spsc_queue list \<Rightarrow> u32 \<Rightarrow> u32 \<Rightarrow> u32 \<Rightarrow> 'J \<Rightarrow> (bool \<times> 'J spsc_queue list) outcome" where
  "submit_loop qs count start i job =
     (if i < count
      then (let k = unat ((start + i) mod count)
            in if k < length qs
               then out_bind (try_push_move queue_capacity (qs ! k) job) (\<lambda>(ok, job', q').
                      case job' of
                        None \<Rightarrow> Inr (ok, qs[k := q'])
                      | Some j \<Rightarrow> submit_loop (qs[k := q']) count start (i + 1) j)
               else Inl Out_Of_Bounds)
      else Inr (False, qs))"
  by pat_completeness auto
termination
  by (relation "measure (\<lambda>(qs, count, start, i, job). unat count - unat i)")
    (auto simp: unat_inc_less word_less_nat_alt)

declare submit_loop.simps [simp del]

definition submit :: "'J job_system \<Rightarrow> 'J \<Rightarrow> (bool \<times> 'J job_system) outcome" where
  "submit js job =
     (let count = of_nat (length (m_queues js))
      in if count = 0 then Inl Division_By_Zero
         else (let start = m_next_queue js mod count;
                   js1 = js\<lparr>m_next_queue := m_next_queue js + 1\<rparr>
               in out_bind (submit_loop (m_queues js1) count start 0 job) (\<lambda>(ok, qs).
                    if ok then Inr (True, js1\<lparr>m_queues := qs, m_pending_jobs := m_pending_jobs js1 + 1\<rparr>)
                    else Inr (False, js1\<lparr>m_queues := qs\<rparr>))))"

text \<open>\<^verbatim>\<open>wait_idle\<close> leaves its loop when it loads zero.\<close>

definition wait_idle_done :: "'J job_system \<Rightarrow> bool" where
  "wait_idle_done js \<longleftrightarrow> m_pending_jobs js = 0"

definition thread_count :: "'J job_system \<Rightarrow> u32" where
  "thread_count js = of_nat (length (m_queues js))"

section \<open>submit\<close>

definition job_system_ok :: "'J job_system \<Rightarrow> bool" where
  "job_system_ok js \<longleftrightarrow>
     (\<forall>q \<in> set (m_queues js). spsc_inv queue_capacity q) \<and> m_queues js \<noteq> [] \<and> length (m_queues js) \<le> 2 ^ 31"

definition queue_full :: "'J spsc_queue \<Rightarrow> bool" where
  "queue_full q \<longleftrightarrow> length (spsc_contents queue_capacity q) \<ge> unat queue_capacity - 1"

lemma try_push_move_cases:
  assumes "spsc_inv queue_capacity q"
  shows "if queue_full q then try_push_move queue_capacity q x = Inr (False, Some x, q)
    else \<exists>q'. try_push_move queue_capacity q x = Inr (True, None, q') \<and> spsc_inv queue_capacity q' \<and>
      spsc_contents queue_capacity q' = spsc_contents queue_capacity q @ [x]"
proof -
  obtain q' where q': "try_push queue_capacity q x = Inr (\<not> queue_full q, q')" "spsc_inv queue_capacity q'"
    "spsc_contents queue_capacity q' = (if \<not> queue_full q then spsc_contents queue_capacity q @ [x] else spsc_contents queue_capacity q)"
    using spsc.push_law [OF assms, of x] by (auto simp: queue_full_def not_le)
  moreover have "q' = q" if "queue_full q"
    using q'(1) that by (auto simp: try_push_def Let_def split: if_splits)
  ultimately show ?thesis
    by (auto simp: try_push_move_eq)
qed

text \<open>The position probed in round \<open>i\<close>.\<close>

definition probe :: "nat \<Rightarrow> nat \<Rightarrow> nat \<Rightarrow> nat" where
  "probe n start i = (start + i) mod n"

lemma unat_probe:
  fixes start i count :: u32
  assumes "unat count = n" and "n \<le> 2 ^ 31" and "start < count" and "i < count"
  shows "unat ((start + i) mod count) = probe n (unat start) (unat i)"
proof -
  have "unat start + unat i < 2 ^ 32"
    using assms by (simp add: word_less_nat_alt)
  then show ?thesis
    using assms(1) by (simp add: probe_def unat_mod unat_add_no_wrap)
qed

definition first_free :: "'J spsc_queue list \<Rightarrow> nat \<Rightarrow> nat \<Rightarrow> nat \<Rightarrow> bool" where
  "first_free qs start i d \<longleftrightarrow>
     i \<le> d \<and> d < length qs \<and> \<not> queue_full (qs ! probe (length qs) start d) \<and>
     (\<forall>j. i \<le> j \<and> j < d \<longrightarrow> queue_full (qs ! probe (length qs) start j))"

lemma submit_loop_spec:
  assumes "unat count = length qs" and "length qs \<le> 2 ^ 31" and "start < count"
    and "\<forall>q \<in> set qs. spsc_inv queue_capacity q" and "unat i \<le> length qs"
  shows "(submit_loop qs count start i job = Inr (False, qs) \<and>
           (\<forall>j. unat i \<le> j \<and> j < length qs \<longrightarrow> queue_full (qs ! probe (length qs) (unat start) j))) \<or>
    (\<exists>d q'. first_free qs (unat start) (unat i) d \<and> spsc_inv queue_capacity q' \<and>
       spsc_contents queue_capacity q' = spsc_contents queue_capacity (qs ! probe (length qs) (unat start) d) @ [job] \<and>
       submit_loop qs count start i job = Inr (True, qs[probe (length qs) (unat start) d := q']))"
  using assms(5)
proof (induction "length qs - unat i" arbitrary: i)
  case 0
  then have "\<not> i < count"
    using assms(1) by (simp add: word_less_nat_alt)
  with 0 show ?case by (subst (1 2) submit_loop.simps) auto
next
  case (Suc m)
  let ?k = "probe (length qs) (unat start) (unat i)"
  have i: "i < count" and len: "unat i < length qs"
    using Suc.hyps(2) assms(1) by (auto simp: word_less_nat_alt)
  have lt: "?k < length qs"
    unfolding probe_def by (rule mod_less_divisor) (use len in linarith)
  have k: "unat ((start + i) mod count) = ?k"
    using unat_probe [OF assms(1,2,3) i] .
  have s: "unat (i + 1) = Suc (unat i)"
    using i by (rule unat_inc_less)
  have inv: "spsc_inv queue_capacity (qs ! ?k)"
    using assms(4) lt by simp
  show ?case
  proof (cases "queue_full (qs ! ?k)")
    case False
    with try_push_move_cases [OF inv, of job] obtain q' where
      q': "try_push_move queue_capacity (qs ! ?k) job = Inr (True, None, q')" "spsc_inv queue_capacity q'"
        "spsc_contents queue_capacity q' = spsc_contents queue_capacity (qs ! ?k) @ [job]" by auto
    have "submit_loop qs count start i job = Inr (True, qs[?k := q'])"
      using i lt k q'(1) by (subst submit_loop.simps) simp
    moreover have "first_free qs (unat start) (unat i) (unat i)"
      using False len by (auto simp: first_free_def)
    ultimately show ?thesis using q' by blast
  next
    case True
    with try_push_move_cases [OF inv, of job]
    have "try_push_move queue_capacity (qs ! ?k) job = Inr (False, Some job, qs ! ?k)" by simp
    then have eq: "submit_loop qs count start i job = submit_loop qs count start (i + 1) job"
      using i lt k by (subst submit_loop.simps) simp
    have ff: "first_free qs (unat start) (unat i) d" if "first_free qs (unat start) (Suc (unat i)) d" for d
      using that True le_eq_less_or_eq [of "unat i"] by (auto simp: first_free_def Suc_le_eq)
    have full: "queue_full (qs ! probe (length qs) (unat start) j)"
      if "\<forall>j. Suc (unat i) \<le> j \<and> j < length qs \<longrightarrow> queue_full (qs ! probe (length qs) (unat start) j)"
        "unat i \<le> j" "j < length qs" for j
      using that True by (cases "j = unat i") auto
    have m: "m = length qs - unat (i + 1)" and le: "unat (i + 1) \<le> length qs"
      using Suc.hyps(2) s len by simp_all
    from Suc.hyps(1) [OF m le] show ?thesis
      unfolding eq s using ff full by blast
  qed
qed

text \<open>The probes from any start reach every queue.\<close>

lemma all_probes_full:
  assumes "\<forall>j < length qs. queue_full (qs ! probe (length qs) start j)" and "start < length qs"
  shows "\<forall>q \<in> set qs. queue_full q"
proof
  fix q assume "q \<in> set qs"
  then obtain k where k: "k < length qs" "q = qs ! k"
    by (auto simp: in_set_conv_nth)
  let ?j = "(k + (length qs - start)) mod length qs"
  have "probe (length qs) start ?j = (start + (k + (length qs - start))) mod length qs"
    by (simp add: probe_def mod_add_right_eq)
  also have "start + (k + (length qs - start)) = k + length qs"
    using assms(2) by simp
  finally have "probe (length qs) start ?j = k"
    using k(1) by simp
  moreover have "?j < length qs"
    using k(1) by (intro mod_less_divisor) linarith
  ultimately show "queue_full q"
    using assms(1) k(2) by metis
qed

text \<open>
  \<^verbatim>\<open>submit\<close> with at least one worker. It offers the job to the queues in cyclic order from the
  round-robin position; the first queue that is not full gets it at its end and the pending count
  grows by one. It returns false only if every queue is full, and then no queue and no count
  changes; no other queue is ever touched.
\<close>

theorem submit_round_robin:
  assumes "job_system_ok js"
  shows "let n = length (m_queues js); start = unat (m_next_queue js) mod n;
             js1 = js\<lparr>m_next_queue := m_next_queue js + 1\<rparr> in
    (submit js job = Inr (False, js1) \<and> (\<forall>q \<in> set (m_queues js). queue_full q)) \<or>
    (\<exists>d q'. first_free (m_queues js) start 0 d \<and>
       spsc_contents queue_capacity q' = spsc_contents queue_capacity (m_queues js ! probe n start d) @ [job] \<and>
       submit js job = Inr (True, js1\<lparr>m_queues := (m_queues js)[probe n start d := q'], m_pending_jobs := m_pending_jobs js + 1\<rparr>) \<and>
       job_system_ok (js1\<lparr>m_queues := (m_queues js)[probe n start d := q'], m_pending_jobs := m_pending_jobs js + 1\<rparr>))"
proof -
  let ?qs = "m_queues js"
  define count :: u32 where "count = of_nat (length ?qs)"
  have len: "0 < length ?qs" "length ?qs \<le> 2 ^ 31" and inv: "\<forall>q \<in> set ?qs. spsc_inv queue_capacity q"
    using assms by (auto simp: job_system_ok_def)
  then have c: "unat count = length ?qs"
    by (simp add: count_def unat_of_nat)
  then have c0: "count \<noteq> 0"
    using len(1) by auto
  have st: "unat (m_next_queue js mod count) = unat (m_next_queue js) mod length ?qs"
    by (simp add: unat_mod c)
  have lt: "m_next_queue js mod count < count"
    using len(1) by (simp add: word_less_nat_alt st c)
  have sub: "submit js job = out_bind (submit_loop ?qs count (m_next_queue js mod count) 0 job) (\<lambda>(ok, qs).
      if ok then Inr (True, js\<lparr>m_next_queue := m_next_queue js + 1, m_queues := qs, m_pending_jobs := m_pending_jobs js + 1\<rparr>)
      else Inr (False, js\<lparr>m_next_queue := m_next_queue js + 1, m_queues := qs\<rparr>))"
    using c0 by (auto simp: submit_def count_def Let_def intro!: out_bind_cong)
  have "unat (0 :: u32) \<le> length ?qs" by simp
  from submit_loop_spec [OF c len(2) lt inv this, of job] show ?thesis
  proof (elim disjE exE conjE)
    assume no: "submit_loop ?qs count (m_next_queue js mod count) 0 job = Inr (False, ?qs)"
      and full: "\<forall>j. unat (0 :: u32) \<le> j \<and> j < length ?qs \<longrightarrow> queue_full (?qs ! probe (length ?qs) (unat (m_next_queue js mod count)) j)"
    have "js\<lparr>m_next_queue := m_next_queue js + 1, m_queues := ?qs\<rparr> = js\<lparr>m_next_queue := m_next_queue js + 1\<rparr>"
      by (cases js) simp
    with no full all_probes_full [of ?qs "unat (m_next_queue js) mod length ?qs"] len(1) show ?thesis
      by (simp add: sub st Let_def)
  next
    fix d q'
    assume ff: "first_free ?qs (unat (m_next_queue js mod count)) (unat (0 :: u32)) d" and q': "spsc_inv queue_capacity q'"
      and ct: "spsc_contents queue_capacity q' =
        spsc_contents queue_capacity (?qs ! probe (length ?qs) (unat (m_next_queue js mod count)) d) @ [job]"
      and run: "submit_loop ?qs count (m_next_queue js mod count) 0 job =
        Inr (True, ?qs[probe (length ?qs) (unat (m_next_queue js mod count)) d := q'])"
    have ok: "job_system_ok (js\<lparr>m_next_queue := x, m_queues := ?qs[k := q'], m_pending_jobs := y\<rparr>)" for x y k
      using assms q' by (auto simp: job_system_ok_def dest: set_update_subset_insert [THEN subsetD])
    show ?thesis
      unfolding Let_def by (rule disjI2, rule exI [of _ d], rule exI [of _ q']) (use ff ct run ok in \<open>simp add: sub st\<close>)
  qed
qed

lemma spsc_queue_make_inv: "power_of_two c \<Longrightarrow> spsc_inv c (spsc_queue_make c init)"
  using power_of_two_pos [of c] by (simp add: spsc_inv_def spsc_queue_make_def word_less_nat_alt)

lemma queue_capacity_pow2: "power_of_two queue_capacity"
  by (simp add: queue_capacity_def power_of_two_def)

lemma spsc_queue_make_contents [simp]: "spsc_contents c (spsc_queue_make c init) = []"
  by (simp add: spsc_contents_def spsc_queue_make_def ring_size_def)

lemma job_system_make_ok: "0 < n \<Longrightarrow> unat n \<le> 2 ^ 31 \<Longrightarrow> job_system_ok (job_system_make n init)"
  by (auto simp: job_system_ok_def job_system_make_def spsc_queue_make_inv [OF queue_capacity_pow2] word_less_nat_alt)

theorem submit_round_robin_witness:
  "\<exists>js. submit (job_system_make 2 (0 :: int)) 7 = Inr (True, js)"
proof -
  have "job_system_ok (job_system_make 2 (0 :: int))"
    by (rule job_system_make_ok) simp_all
  moreover have "\<not> (\<forall>q \<in> set (m_queues (job_system_make 2 (0 :: int))). queue_full q)"
    by (simp add: job_system_make_def queue_full_def queue_capacity_def)
  ultimately show ?thesis
    using submit_round_robin [of "job_system_make 2 (0 :: int)" 7] by (auto simp: Let_def)
qed

text \<open>Without worker threads \<^verbatim>\<open>submit\<close> divides by zero.\<close>

lemma submit_no_threads: "submit (job_system_make 0 init) job = Inl Division_By_Zero"
  by (simp add: submit_def job_system_make_def)

section \<open>Submitter and workers\<close>

text \<open>
  Program counters. The submitter is outside \<^verbatim>\<open>submit\<close>, in its loop before a call of \<^verbatim>\<open>try_push\<close> or inside the call, or between the push and the
  increment of the count. A worker is in its main loop or, once it has seen the stop request, in the
  draining loop (\<open>True\<close>), before a call of \<^verbatim>\<open>try_pop\<close> or inside the call; with a job in hand; after the job, before the decrement; or has exited.
\<close>

datatype 'J submit_pc = S_Idle | S_Scan 'J u32 u32 | S_Push 'J u32 u32 | S_Count

datatype 'J worker_pc = W_Loop bool | W_Pop bool | W_Run bool 'J | W_Dec bool | W_Exit

text \<open>
  \<open>given w\<close> are the jobs accepted into queue \<open>w\<close> and \<open>ran w\<close> the jobs worker \<open>w\<close> has run, in order; the
  code does not keep them.
\<close>

record 'J js_sys =
  sys_queue :: "nat \<Rightarrow> 'J spsc_sys"
  sys_next :: u32
  sys_pending :: u32
  sys_stop :: "nat \<Rightarrow> bool"
  sys_submit :: "'J submit_pc"
  sys_worker :: "nat \<Rightarrow> 'J worker_pc"
  given :: "nat \<Rightarrow> 'J list"
  ran :: "nat \<Rightarrow> 'J list"

definition js_init :: "'J \<Rightarrow> 'J js_sys" where
  "js_init init =
     \<lparr>sys_queue = (\<lambda>_. spsc_init queue_capacity init), sys_next = 0, sys_pending = 0, sys_stop = (\<lambda>_. False),
      sys_submit = S_Idle, sys_worker = (\<lambda>_. W_Loop False), given = (\<lambda>_. []), ran = (\<lambda>_. [])\<rparr>"

text \<open>
  The steps, for \<open>count\<close> workers. A step inside a queue call is one of the queue's: one that changes the producer's program counter is
  the submitter's, one that changes the consumer's is the worker's. A call is over when the counter is idle again; it has returned true
  when an item was pushed or popped. The destructor runs on the submitting thread, after its last
  \<^verbatim>\<open>submit\<close>: once a stop is requested no call of \<^verbatim>\<open>submit\<close> begins. A worker may see the request late; when it sees it, all pushes happen before
  what follows, so no later load of \<^verbatim>\<open>m_head\<close> is older than the last push.
\<close>

inductive js_step :: "u32 \<Rightarrow> 'J js_sys \<Rightarrow> 'J js_sys \<Rightarrow> bool" for count where
  submit_call: "sys_submit s = S_Idle \<Longrightarrow> count \<noteq> 0 \<Longrightarrow> (\<forall>w. \<not> sys_stop s w) \<Longrightarrow>
    js_step count s (s\<lparr>sys_submit := S_Scan job (sys_next s mod count) 0, sys_next := sys_next s + 1\<rparr>)"
| submit_try: "sys_submit s = S_Scan job start i \<Longrightarrow> i < count \<Longrightarrow> w = unat ((start + i) mod count) \<Longrightarrow>
    spsc_step queue_capacity (sys_queue s w) q \<Longrightarrow> p_pc (sys_queue s w) = P_Idle \<Longrightarrow> p_pc q = P_Loaded job h nxt \<Longrightarrow>
    js_step count s (s\<lparr>sys_queue := (sys_queue s)(w := q), sys_submit := S_Push job start i\<rparr>)"
| submit_inside: "sys_submit s = S_Push job start i \<Longrightarrow> w = unat ((start + i) mod count) \<Longrightarrow>
    spsc_step queue_capacity (sys_queue s w) q \<Longrightarrow> p_pc q \<noteq> p_pc (sys_queue s w) \<Longrightarrow> p_pc q \<noteq> P_Idle \<Longrightarrow>
    js_step count s (s\<lparr>sys_queue := (sys_queue s)(w := q)\<rparr>)"
| submit_push: "sys_submit s = S_Push job start i \<Longrightarrow> w = unat ((start + i) mod count) \<Longrightarrow>
    spsc_step queue_capacity (sys_queue s w) q \<Longrightarrow> p_pc q \<noteq> p_pc (sys_queue s w) \<Longrightarrow> p_pc q = P_Idle \<Longrightarrow> pushed q \<noteq> pushed (sys_queue s w) \<Longrightarrow>
    js_step count s (s\<lparr>sys_queue := (sys_queue s)(w := q), given := (given s)(w := given s w @ [job]), sys_submit := S_Count\<rparr>)"
| submit_next: "sys_submit s = S_Push job start i \<Longrightarrow> w = unat ((start + i) mod count) \<Longrightarrow>
    spsc_step queue_capacity (sys_queue s w) q \<Longrightarrow> p_pc q \<noteq> p_pc (sys_queue s w) \<Longrightarrow> p_pc q = P_Idle \<Longrightarrow> pushed q = pushed (sys_queue s w) \<Longrightarrow>
    js_step count s (s\<lparr>sys_queue := (sys_queue s)(w := q), sys_submit := S_Scan job start (i + 1)\<rparr>)"
| submit_full: "sys_submit s = S_Scan job start i \<Longrightarrow> \<not> i < count \<Longrightarrow>
    js_step count s (s\<lparr>sys_submit := S_Idle\<rparr>)"
| submit_count: "sys_submit s = S_Count \<Longrightarrow>
    js_step count s (s\<lparr>sys_pending := sys_pending s + 1, sys_submit := S_Idle\<rparr>)"
| worker_try: "w < unat count \<Longrightarrow> sys_worker s w = W_Loop d \<Longrightarrow>
    spsc_step queue_capacity (sys_queue s w) q \<Longrightarrow> c_pc q \<noteq> c_pc (sys_queue s w) \<Longrightarrow>
    js_step count s (s\<lparr>sys_queue := (sys_queue s)(w := q), sys_worker := (sys_worker s)(w := W_Pop d)\<rparr>)"
| worker_inside: "w < unat count \<Longrightarrow> sys_worker s w = W_Pop d \<Longrightarrow>
    spsc_step queue_capacity (sys_queue s w) q \<Longrightarrow> c_pc q \<noteq> c_pc (sys_queue s w) \<Longrightarrow> c_pc q \<noteq> C_Idle \<Longrightarrow>
    js_step count s (s\<lparr>sys_queue := (sys_queue s)(w := q)\<rparr>)"
| worker_pop: "w < unat count \<Longrightarrow> sys_worker s w = W_Pop d \<Longrightarrow>
    spsc_step queue_capacity (sys_queue s w) q \<Longrightarrow> c_pc q \<noteq> c_pc (sys_queue s w) \<Longrightarrow> c_pc q = C_Idle \<Longrightarrow> popped q = popped (sys_queue s w) @ [job] \<Longrightarrow>
    js_step count s (s\<lparr>sys_queue := (sys_queue s)(w := q), sys_worker := (sys_worker s)(w := W_Run d job)\<rparr>)"
| worker_pause: "w < unat count \<Longrightarrow> sys_worker s w = W_Pop False \<Longrightarrow>
    spsc_step queue_capacity (sys_queue s w) q \<Longrightarrow> c_pc q \<noteq> c_pc (sys_queue s w) \<Longrightarrow> c_pc q = C_Idle \<Longrightarrow> popped q = popped (sys_queue s w) \<Longrightarrow>
    js_step count s (s\<lparr>sys_queue := (sys_queue s)(w := q), sys_worker := (sys_worker s)(w := W_Loop False)\<rparr>)"
| worker_stop: "w < unat count \<Longrightarrow> sys_worker s w = W_Loop False \<Longrightarrow> sys_stop s w \<Longrightarrow>
    q = (sys_queue s w)\<lparr>seen_head := length (head_stores (sys_queue s w)) - 1\<rparr> \<Longrightarrow>
    js_step count s (s\<lparr>sys_queue := (sys_queue s)(w := q), sys_worker := (sys_worker s)(w := W_Loop True)\<rparr>)"
| worker_exit: "w < unat count \<Longrightarrow> sys_worker s w = W_Pop True \<Longrightarrow>
    spsc_step queue_capacity (sys_queue s w) q \<Longrightarrow> c_pc q \<noteq> c_pc (sys_queue s w) \<Longrightarrow> c_pc q = C_Idle \<Longrightarrow> popped q = popped (sys_queue s w) \<Longrightarrow>
    js_step count s (s\<lparr>sys_queue := (sys_queue s)(w := q), sys_worker := (sys_worker s)(w := W_Exit)\<rparr>)"
| worker_run: "w < unat count \<Longrightarrow> sys_worker s w = W_Run d job \<Longrightarrow>
    js_step count s (s\<lparr>ran := (ran s)(w := ran s w @ [job]), sys_worker := (sys_worker s)(w := W_Dec d)\<rparr>)"
| worker_dec: "w < unat count \<Longrightarrow> sys_worker s w = W_Dec d \<Longrightarrow>
    js_step count s (s\<lparr>sys_pending := sys_pending s - 1, sys_worker := (sys_worker s)(w := W_Loop d)\<rparr>)"
| destructor_stop: "sys_submit s = S_Idle \<Longrightarrow> w < unat count \<Longrightarrow>
    js_step count s (s\<lparr>sys_stop := (sys_stop s)(w := True)\<rparr>)"

abbreviation js_reach :: "u32 \<Rightarrow> 'J js_sys \<Rightarrow> bool" where
  "js_reach count s \<equiv> \<exists>init. (js_step count)\<^sup>*\<^sup>* (js_init init) s"

subsection \<open>Steps of a queue\<close>

fun offered :: "'J producer_pc \<Rightarrow> 'J option" where
  "offered P_Idle = None"
| "offered (P_Loaded x h nxt) = Some x"
| "offered (P_Write x h nxt) = Some x"
| "offered (P_Publish x nxt) = Some x"

text \<open>A step of the producer pushes at most the item it was called with, and does nothing to the consumer's side.\<close>

lemma producer_moves:
  assumes "spsc_step c q0 q" and "p_pc q \<noteq> p_pc q0"
  shows "c_pc q = c_pc q0" "popped q = popped q0" "seen_head q = seen_head q0"
    "pushed q = pushed q0 \<or> (\<exists>x. offered (p_pc q0) = Some x \<and> pushed q = pushed q0 @ [x] \<and> p_pc q = P_Idle)"
    "p_pc q0 \<noteq> P_Idle \<Longrightarrow> p_pc q \<noteq> P_Idle \<Longrightarrow> offered (p_pc q) = offered (p_pc q0) \<and> pushed q = pushed q0"
  using assms by (auto elim!: spsc_stepE)

lemma consumer_moves:
  assumes "spsc_step c q0 q" and "c_pc q \<noteq> c_pc q0"
  shows "p_pc q = p_pc q0" "pushed q = pushed q0" "seen_head q0 \<le> seen_head q"
    "c_pc q \<noteq> C_Idle \<Longrightarrow> popped q = popped q0" "c_pc q0 = C_Idle \<Longrightarrow> c_pc q \<noteq> C_Idle"
  using assms by (auto elim!: spsc_stepE)

text \<open>A call that finds the queue empty and has seen every push is right.\<close>

lemma pop_empty_exact:
  assumes c: "power_of_two c" and inv: "spsc_sys_inv c q0" and st: "spsc_step c q0 q" "c_pc q \<noteq> c_pc q0" "c_pc q = C_Idle" "popped q = popped q0"
    and seen: "seen_head q0 = length (pushed q0)"
  shows "popped q0 = pushed q0"
proof -
  obtain t k where k: "c_pc q0 = C_Loaded t" "seen_head q0 \<le> k" "k < length (head_stores q0)" "t = head_stores q0 ! k"
    using st by (auto elim!: spsc_stepE)
  have "k = length (pushed q0)" using inv k(2,3) seen by (simp add: spsc_sys_defs)
  moreover have "head_stores q0 = slots c (length (pushed q0))" "consumer_at c (length (popped q0)) (seen_head q0) (pushed q0) (c_pc q0)"
    using inv by (simp_all add: spsc_sys_defs)
  ultimately have "slot c (length (popped q0)) = slot c (length (pushed q0))" using k(1,4) by simp
  moreover have b: "length (popped q0) \<le> length (pushed q0)" "length (pushed q0) < length (popped q0) + unat c"
    "take (length (popped q0)) (pushed q0) = popped q0"
    using inv by (auto simp: spsc_sys_defs)
  ultimately have "\<not> length (popped q0) < length (pushed q0)" using slot_neq [OF c, of "length (popped q0)" "length (pushed q0)"] by metis
  with b(1) have "length (popped q0) = length (pushed q0)" by simp
  with b(3) show ?thesis by simp
qed

lemma acquire_all_inv: "spsc_sys_inv c q \<Longrightarrow> c_pc q = C_Idle \<Longrightarrow> spsc_sys_inv c (q\<lparr>seen_head := length (head_stores q) - 1\<rparr>)"
  by (simp add: spsc_sys_defs)

subsection \<open>Invariant\<close>

definition jobs_queued :: "'J js_sys \<Rightarrow> nat \<Rightarrow> 'J list" where
  "jobs_queued s w = drop (length (popped (sys_queue s w))) (pushed (sys_queue s w))"

fun in_hand :: "'J worker_pc \<Rightarrow> 'J list" where
  "in_hand (W_Run d job) = [job]"
| "in_hand pc = []"

fun busy :: "'J worker_pc \<Rightarrow> nat" where
  "busy (W_Run d job) = 1"
| "busy (W_Dec d) = 1"
| "busy pc = 0"

fun popping :: "'J worker_pc \<Rightarrow> bool" where
  "popping (W_Pop d) = True"
| "popping pc = False"

fun stopping :: "'J worker_pc \<Rightarrow> bool" where
  "stopping (W_Loop d) = d"
| "stopping (W_Pop d) = d"
| "stopping (W_Run d job) = d"
| "stopping (W_Dec d) = d"
| "stopping W_Exit = True"

text \<open>The jobs of worker \<open>w\<close> that are submitted and not yet counted as done.\<close>

definition open_jobs :: "'J js_sys \<Rightarrow> nat \<Rightarrow> nat" where
  "open_jobs s w = length (jobs_queued s w) + busy (sys_worker s w)"

definition open_total :: "u32 \<Rightarrow> 'J js_sys \<Rightarrow> nat" where
  "open_total count s = (\<Sum>w < unat count. open_jobs s w)"

text \<open>The increment of the count comes after the push: in between the count is one too small.\<close>

definition count_ok :: "u32 \<Rightarrow> 'J js_sys \<Rightarrow> bool" where
  "count_ok count s \<longleftrightarrow> sys_pending s + (if sys_submit s = S_Count then 1 else 0) = of_nat (open_total count s)"

text \<open>A worker that has seen the stop request has seen every push.\<close>

definition queue_ok :: "'J spsc_sys \<Rightarrow> 'J worker_pc \<Rightarrow> 'J list \<Rightarrow> 'J list \<Rightarrow> bool" where
  "queue_ok q pc gs rs \<longleftrightarrow>
     spsc_sys_inv queue_capacity q \<and> pushed q = gs \<and> popped q = rs @ in_hand pc \<and> (c_pc q = C_Idle \<longleftrightarrow> \<not> popping pc) \<and>
     (stopping pc \<longrightarrow> seen_head q = length (pushed q)) \<and> (pc = W_Exit \<longrightarrow> popped q = pushed q)"

definition worker_ok :: "'J js_sys \<Rightarrow> nat \<Rightarrow> bool" where
  "worker_ok s w \<longleftrightarrow> queue_ok (sys_queue s w) (sys_worker s w) (given s w) (ran s w) \<and>
     (stopping (sys_worker s w) \<longrightarrow> sys_stop s w) \<and> (sys_stop s w \<longrightarrow> sys_submit s = S_Idle)"

text \<open>The call of \<^verbatim>\<open>try_push\<close> the submitter is in offers the job that was submitted.\<close>

definition push_ok :: "u32 \<Rightarrow> 'J js_sys \<Rightarrow> bool" where
  "push_ok count s \<longleftrightarrow> (case sys_submit s of
     S_Push job start i \<Rightarrow> i < count \<and> offered (p_pc (sys_queue s (unat ((start + i) mod count)))) = Some job | _ \<Rightarrow> True)"

definition js_inv :: "u32 \<Rightarrow> 'J js_sys \<Rightarrow> bool" where
  "js_inv count s \<longleftrightarrow> (\<forall>w < unat count. worker_ok s w) \<and> push_ok count s \<and> count_ok count s"

lemma sum_change:
  fixes n :: nat
  assumes "w < n" and "\<And>v. v \<noteq> w \<Longrightarrow> g v = (f v :: nat)"
  shows "(\<Sum>v < n. g v) + f w = (\<Sum>v < n. f v) + g w"
proof -
  have "(\<Sum>v < n. h v) = h w + (\<Sum>v \<in> {..<n} - {w}. h v)" for h :: "nat \<Rightarrow> nat"
    using assms(1) by (intro sum.remove) auto
  moreover have "(\<Sum>v \<in> {..<n} - {w}. g v) = (\<Sum>v \<in> {..<n} - {w}. f v)"
    using assms(2) by (intro sum.cong) auto
  ultimately have "(\<Sum>v < n. g v) = g w + (\<Sum>v \<in> {..<n} - {w}. f v)" "(\<Sum>v < n. f v) = f w + (\<Sum>v \<in> {..<n} - {w}. f v)"
    by auto
  then show ?thesis by simp
qed

text \<open>A step that changes worker \<open>w\<close>, its queue and the count only.\<close>

lemma js_inv_change:
  assumes inv: "js_inv count s" and w: "w < unat count" and ok: "worker_ok s' w"
    and others: "\<And>v. v \<noteq> w \<Longrightarrow> worker_ok s v \<Longrightarrow> worker_ok s' v" "\<And>v. v \<noteq> w \<Longrightarrow> open_jobs s' v = open_jobs s v"
    and count: "sys_pending s' + (if sys_submit s' = S_Count then 1 else 0) + of_nat (open_jobs s w) =
      sys_pending s + (if sys_submit s = S_Count then 1 else 0) + of_nat (open_jobs s' w)"
    and push: "push_ok count s'"
  shows "js_inv count s'"
proof -
  let ?A' = "sys_pending s' + (if sys_submit s' = S_Count then 1 else 0)"
  have "open_total count s' + open_jobs s w = open_total count s + open_jobs s' w"
    using sum_change [OF w, of "open_jobs s'" "open_jobs s"] others(2) by (simp add: open_total_def)
  then have "(of_nat (open_total count s') + of_nat (open_jobs s w) :: u32) =
      of_nat (open_total count s) + of_nat (open_jobs s' w)"
    by (metis of_nat_add)
  moreover have "?A' + of_nat (open_jobs s w) = of_nat (open_total count s) + of_nat (open_jobs s' w)"
    using count inv by (simp only: js_inv_def count_ok_def)
  ultimately have "?A' + of_nat (open_jobs s w) = of_nat (open_total count s') + of_nat (open_jobs s w)"
    by (rule trans [OF _ sym, rotated])
  then have "count_ok count s'"
    unfolding count_ok_def by (rule add_right_imp_eq)
  moreover have "worker_ok s' v" if "v < unat count" for v
    using inv ok others(1) that by (cases "v = w") (auto simp: js_inv_def)
  ultimately show ?thesis
    using push by (simp add: js_inv_def)
qed

lemma probe_less: "count \<noteq> 0 \<Longrightarrow> unat (x mod count) < unat (count :: u32)"
  by (simp add: unat_mod unat_gt_0)

text \<open>The steps of one queue.\<close>

lemma spsc_inv_prefix: "spsc_sys_inv c q \<Longrightarrow> length (popped q) \<le> length (pushed q) \<and> popped q @ drop (length (popped q)) (pushed q) = pushed q"
  using append_take_drop_id [of "length (popped q)" "pushed q"] by (simp add: spsc_sys_defs)

lemma queue_ok_length: "queue_ok q pc gs rs \<Longrightarrow> length (popped q) \<le> length (pushed q)"
  using spsc_inv_prefix [of queue_capacity q] by (simp add: queue_ok_def)

lemma queue_ok_producer:
  assumes "queue_ok q0 pc gs rs" "spsc_step queue_capacity q0 q" "p_pc q \<noteq> p_pc q0" "\<not> stopping pc"
  shows "queue_ok q pc (pushed q) rs"
  using assms producer_moves(1-3) [OF assms(2,3)] spsc_step_inv [OF queue_capacity_pow2 assms(2)]
  by (auto simp: queue_ok_def)

lemma queue_ok_consumer:
  assumes ok: "queue_ok q0 pc gs rs" and st: "spsc_step queue_capacity q0 q" "c_pc q \<noteq> c_pc q0"
  shows "pc = W_Loop d \<Longrightarrow> queue_ok q (W_Pop d) gs rs"
    and "pc = W_Pop d \<Longrightarrow> c_pc q \<noteq> C_Idle \<Longrightarrow> queue_ok q (W_Pop d) gs rs"
    and "pc = W_Pop d \<Longrightarrow> c_pc q = C_Idle \<Longrightarrow> popped q = popped q0 @ [job] \<Longrightarrow> queue_ok q (W_Run d job) gs rs"
    and "pc = W_Pop d \<Longrightarrow> c_pc q = C_Idle \<Longrightarrow> popped q = popped q0 \<Longrightarrow> queue_ok q (W_Loop d) gs rs"
    and "pc = W_Pop True \<Longrightarrow> c_pc q = C_Idle \<Longrightarrow> popped q = popped q0 \<Longrightarrow> queue_ok q W_Exit gs rs"
proof -
  note m = consumer_moves [OF st]
  have inv: "spsc_sys_inv queue_capacity q" using ok spsc_step_inv [OF queue_capacity_pow2 st(1)] by (simp add: queue_ok_def)
  then have "seen_head q \<le> length (pushed q)" by (simp add: spsc_sys_defs)
  then have seen: "stopping pc \<Longrightarrow> seen_head q = length (pushed q)" using ok m(2,3) by (simp add: queue_ok_def)
  show "pc = W_Loop d \<Longrightarrow> queue_ok q (W_Pop d) gs rs"
    and "pc = W_Pop d \<Longrightarrow> c_pc q \<noteq> C_Idle \<Longrightarrow> queue_ok q (W_Pop d) gs rs"
    and "pc = W_Pop d \<Longrightarrow> c_pc q = C_Idle \<Longrightarrow> popped q = popped q0 @ [job] \<Longrightarrow> queue_ok q (W_Run d job) gs rs"
    and "pc = W_Pop d \<Longrightarrow> c_pc q = C_Idle \<Longrightarrow> popped q = popped q0 \<Longrightarrow> queue_ok q (W_Loop d) gs rs"
    using ok inv m seen by (auto simp: queue_ok_def)
  show "queue_ok q W_Exit gs rs" if "pc = W_Pop True" "c_pc q = C_Idle" "popped q = popped q0"
  proof -
    have "popped q0 = pushed q0" using pop_empty_exact [OF queue_capacity_pow2 _ st that(2,3)] ok that(1) by (simp add: queue_ok_def)
    then show ?thesis using ok inv m seen that by (auto simp: queue_ok_def)
  qed
qed

lemma queue_ok_stop:
  "queue_ok q (W_Loop d) gs rs \<Longrightarrow> queue_ok (q\<lparr>seen_head := length (head_stores q) - 1\<rparr>) (W_Loop True) gs rs"
  using acquire_all_inv [of queue_capacity q] by (auto simp: queue_ok_def spsc_sys_defs)

text \<open>A step of the submitter in a call to the queue of worker \<open>w\<close>.\<close>

lemma js_submit_step:
  assumes inv: "js_inv count s" and w: "w < unat count" and st: "spsc_step queue_capacity (sys_queue s w) q" "p_pc q \<noteq> p_pc (sys_queue s w)"
    and act: "sys_submit s \<noteq> S_Idle" "sys_submit s \<noteq> S_Count"
    and s': "s' = s\<lparr>sys_queue := (sys_queue s)(w := q), given := (given s)(w := pushed q), sys_submit := pc\<rparr>" "push_ok count s'"
    and pc: "pc \<noteq> S_Idle" "pc = S_Count \<longleftrightarrow> pushed q \<noteq> pushed (sys_queue s w)"
  shows "js_inv count s'"
proof (rule js_inv_change [OF inv w _ _ _ _ s'(2)])
  have ok: "worker_ok s w" using inv w by (simp add: js_inv_def)
  then have ns: "\<not> stopping (sys_worker s w)" "\<not> sys_stop s w" and qo: "queue_ok (sys_queue s w) (sys_worker s w) (given s w) (ran s w)"
    using act(1) by (auto simp: worker_ok_def)
  show "worker_ok s' w" using queue_ok_producer [OF qo st ns(1)] ns by (simp add: worker_ok_def s'(1))
  show "worker_ok s' v" if "v \<noteq> w" "worker_ok s v" for v using that act(1) by (auto simp: worker_ok_def s'(1))
  show "open_jobs s' v = open_jobs s v" if "v \<noteq> w" for v using that by (simp add: open_jobs_def jobs_queued_def s'(1))
  have "popped q = popped (sys_queue s w)" using producer_moves(2) [OF st] .
  moreover have "length (pushed q) = length (pushed (sys_queue s w)) + (if pc = S_Count then 1 else 0)"
    using producer_moves(4) [OF st] pc(2) by auto
  ultimately have "open_jobs s' w = open_jobs s w + (if pc = S_Count then 1 else 0)"
    using queue_ok_length [OF qo] by (auto simp: open_jobs_def jobs_queued_def s'(1))
  then show "sys_pending s' + (if sys_submit s' = S_Count then 1 else 0) + of_nat (open_jobs s w) =
      sys_pending s + (if sys_submit s = S_Count then 1 else 0) + of_nat (open_jobs s' w)"
    using act(2) by (simp add: s'(1))
qed

text \<open>A step of worker \<open>w\<close>; a job popped is one open job fewer in the queue and one in the worker's hand.\<close>

lemma js_worker_step:
  assumes inv: "js_inv count s" and w: "w < unat count" and q: "p_pc q = p_pc (sys_queue s w)" "pushed q = pushed (sys_queue s w)"
    and ok: "queue_ok q pc (given s w) rs" "stopping pc \<longrightarrow> sys_stop s w"
    and n: "length (popped q) + busy (sys_worker s w) = length (popped (sys_queue s w)) + busy pc + e"
    and s': "s' = s\<lparr>sys_queue := (sys_queue s)(w := q), sys_worker := (sys_worker s)(w := pc), ran := (ran s)(w := rs), sys_pending := sys_pending s - of_nat e\<rparr>"
  shows "js_inv count s'"
proof (rule js_inv_change [OF inv w])
  have old: "worker_ok s w" using inv w by (simp add: js_inv_def)
  then show "worker_ok s' w" using ok by (simp add: worker_ok_def s')
  show "worker_ok s' v" if "v \<noteq> w" "worker_ok s v" for v using that by (simp add: worker_ok_def s')
  show "open_jobs s' v = open_jobs s v" if "v \<noteq> w" for v using that by (simp add: open_jobs_def jobs_queued_def s')
  have "length (popped q) \<le> length (pushed q)" "length (popped (sys_queue s w)) \<le> length (pushed (sys_queue s w))"
    using queue_ok_length ok(1) old unfolding worker_ok_def by blast+
  then have "open_jobs s w = open_jobs s' w + e" using n q(2) by (simp add: open_jobs_def jobs_queued_def s')
  then show "sys_pending s' + (if sys_submit s' = S_Count then 1 else 0) + of_nat (open_jobs s w) =
      sys_pending s + (if sys_submit s = S_Count then 1 else 0) + of_nat (open_jobs s' w)"
    by (simp add: s')
  have "push_ok count s" using inv by (simp add: js_inv_def)
  then show "push_ok count s'" using q(1) by (auto simp: push_ok_def s' split: submit_pc.splits)
qed

lemma js_inv_simple:
  assumes "js_inv count s" "sys_queue s' = sys_queue s" "sys_worker s' = sys_worker s" "given s' = given s" "ran s' = ran s"
    and "\<forall>w < unat count. (sys_stop s w \<longrightarrow> sys_stop s' w) \<and> (sys_stop s' w \<longrightarrow> sys_submit s' = S_Idle)"
    and "sys_pending s' + (if sys_submit s' = S_Count then 1 else 0) = sys_pending s + (if sys_submit s = S_Count then 1 else 0)"
    and "\<forall>job start i. sys_submit s' \<noteq> S_Push job start i"
  shows "js_inv count s'"
  using assms by (auto simp: js_inv_def worker_ok_def push_ok_def count_ok_def open_total_def open_jobs_def jobs_queued_def split: submit_pc.split)

lemma worker_queue_ok: "js_inv count s \<Longrightarrow> w < unat count \<Longrightarrow> queue_ok (sys_queue s w) (sys_worker s w) (given s w) (ran s w)"
  by (simp add: js_inv_def worker_ok_def)

lemma worker_stop_seen: "js_inv count s \<Longrightarrow> w < unat count \<Longrightarrow> stopping (sys_worker s w) \<longrightarrow> sys_stop s w"
  by (simp add: js_inv_def worker_ok_def)

lemma js_pop_step:
  assumes inv: "js_inv count s" and w: "w < unat count" and st: "spsc_step queue_capacity (sys_queue s w) q" "c_pc q \<noteq> c_pc (sys_queue s w)"
    and ok: "queue_ok q pc (given s w) (ran s w)" "stopping pc = stopping (sys_worker s w)" "busy (sys_worker s w) = 0"
      "length (popped q) = length (popped (sys_queue s w)) + busy pc"
  shows "js_inv count (s\<lparr>sys_queue := (sys_queue s)(w := q), sys_worker := (sys_worker s)(w := pc)\<rparr>)"
  using ok consumer_moves(1,2) [OF st] inv w
  by (intro js_worker_step [OF inv w, where q = q and pc = pc and rs = "ran s w" and e = 0]) (simp_all add: js_inv_def worker_ok_def)

text \<open>The target of a push is a worker's queue, and the step is the submitter's with the submitted job.\<close>

lemma push_target:
  assumes "js_inv count s" "sys_submit s = S_Push job start i" "w = unat ((start + i) mod count)"
  shows "w < unat count" "i < count" "offered (p_pc (sys_queue s w)) = Some job" "pushed (sys_queue s w) = given s w"
proof -
  show i: "i < count" and "offered (p_pc (sys_queue s w)) = Some job" using assms by (simp_all add: js_inv_def push_ok_def)
  show w: "w < unat count" unfolding assms(3) by (rule probe_less) (use i in auto)
  show "pushed (sys_queue s w) = given s w" using assms(1) w by (simp add: js_inv_def worker_ok_def queue_ok_def)
qed

lemma js_step_inv:
  assumes "js_step count s s'" and "js_inv count s"
  shows "js_inv count s'"
  using assms
proof (induction rule: js_step.induct)
  case (submit_call s job)
  then show ?case by (intro js_inv_simple [OF submit_call.prems]) simp_all
next
  case (submit_try s job start i w q h nxt)
  have w: "w < unat count" using submit_try.hyps(2,3) by (auto intro!: probe_less)
  have p: "pushed q = pushed (sys_queue s w)" "pushed (sys_queue s w) = given s w"
    using submit_try.hyps(4-6) worker_queue_ok [OF submit_try.prems w] by (auto elim!: spsc_stepE simp: queue_ok_def)
  show ?case
    by (rule js_submit_step [OF submit_try.prems w submit_try.hyps(4), where pc = "S_Push job start i"])
      (use submit_try p in \<open>simp_all add: push_ok_def\<close>)
next
  case (submit_inside s job start i w q)
  note t = push_target [OF submit_inside.prems submit_inside.hyps(1,2)]
  have "p_pc (sys_queue s w) \<noteq> P_Idle" using t(3) by auto
  note p = producer_moves(5) [OF submit_inside.hyps(3,4) this submit_inside.hyps(5)]
  show ?case
    by (rule js_submit_step [OF submit_inside.prems t(1) submit_inside.hyps(3,4), where pc = "S_Push job start i"])
      (use submit_inside t p in \<open>simp_all add: push_ok_def\<close>)
next
  case (submit_push s job start i w q)
  note t = push_target [OF submit_push.prems submit_push.hyps(1,2)]
  have p: "pushed q = given s w @ [job]" using producer_moves(4) [OF submit_push.hyps(3,4)] submit_push.hyps(6) t(3,4) by auto
  show ?case
    by (rule js_submit_step [OF submit_push.prems t(1) submit_push.hyps(3,4), where pc = S_Count])
      (use submit_push p t in \<open>simp_all add: push_ok_def\<close>)
next
  case (submit_next s job start i w q)
  note t = push_target [OF submit_next.prems submit_next.hyps(1,2)]
  show ?case
    by (rule js_submit_step [OF submit_next.prems t(1) submit_next.hyps(3,4), where pc = "S_Scan job start (i + 1)"])
      (use submit_next t in \<open>simp_all add: push_ok_def\<close>)
next
  case (submit_full s job start i)
  then show ?case by (intro js_inv_simple [OF submit_full.prems]) simp_all
next
  case (submit_count s)
  then show ?case by (intro js_inv_simple [OF submit_count.prems]) simp_all
next
  case (worker_try w s d q)
  note ok = worker_queue_ok [OF worker_try.prems worker_try.hyps(1)]
  have "c_pc q \<noteq> C_Idle" using ok worker_try.hyps(2) consumer_moves(5) [OF worker_try.hyps(3,4)] by (simp add: queue_ok_def)
  then show ?case using worker_try.hyps(2) consumer_moves(4) [OF worker_try.hyps(3,4)] queue_ok_consumer(1) [OF ok worker_try.hyps(3,4,2)]
    by (intro js_pop_step [OF worker_try.prems worker_try.hyps(1,3,4)]) simp_all
next
  case (worker_inside w s d q)
  note ok = worker_queue_ok [OF worker_inside.prems worker_inside.hyps(1)]
  have "js_inv count (s\<lparr>sys_queue := (sys_queue s)(w := q), sys_worker := (sys_worker s)(w := W_Pop d)\<rparr>)"
    using worker_inside.hyps(2,5) consumer_moves(4) [OF worker_inside.hyps(3,4)] queue_ok_consumer(2) [OF ok worker_inside.hyps(3,4,2,5)]
    by (intro js_pop_step [OF worker_inside.prems worker_inside.hyps(1,3,4)]) simp_all
  then show ?case using worker_inside.hyps(2) by (simp add: fun_upd_idem)
next
  case (worker_pop w s d q job)
  then show ?case using queue_ok_consumer(3) [OF worker_queue_ok worker_pop.hyps(3,4,2,5,6)]
    by (intro js_pop_step [OF worker_pop.prems worker_pop.hyps(1,3,4)]) simp_all
next
  case (worker_pause w s q)
  then show ?case using queue_ok_consumer(4) [OF worker_queue_ok worker_pause.hyps(3,4,2,5,6)]
    by (intro js_pop_step [OF worker_pause.prems worker_pause.hyps(1,3,4)]) simp_all
next
  case (worker_stop w s q)
  have "queue_ok q (W_Loop True) (given s w) (ran s w)"
    using queue_ok_stop [of "sys_queue s w" False] worker_queue_ok [OF worker_stop.prems worker_stop.hyps(1)] worker_stop.hyps(2,4) by simp
  with worker_stop show ?case
    by (intro js_worker_step [OF worker_stop.prems worker_stop.hyps(1), where q = q and pc = "W_Loop True" and rs = "ran s w" and e = 0]) simp_all
next
  case (worker_exit w s q)
  then show ?case using queue_ok_consumer(5) [OF worker_queue_ok worker_exit.hyps(3,4,2,5,6)]
    by (intro js_pop_step [OF worker_exit.prems worker_exit.hyps(1,3,4)]) simp_all
next
  case (worker_run w s d job)
  have "queue_ok (sys_queue s w) (W_Dec d) (given s w) (ran s w @ [job])"
    using worker_queue_ok [OF worker_run.prems worker_run.hyps(1)] worker_run.hyps(2) by (simp add: queue_ok_def)
  with worker_run worker_stop_seen [OF worker_run.prems worker_run.hyps(1)] show ?case
    by (intro js_worker_step [OF worker_run.prems worker_run.hyps(1), where q = "sys_queue s w" and pc = "W_Dec d" and rs = "ran s w @ [job]" and e = 0]) simp_all
next
  case (worker_dec w s d)
  have "queue_ok (sys_queue s w) (W_Loop d) (given s w) (ran s w)"
    using worker_queue_ok [OF worker_dec.prems worker_dec.hyps(1)] worker_dec.hyps(2) by (simp add: queue_ok_def)
  with worker_dec worker_stop_seen [OF worker_dec.prems worker_dec.hyps(1)] show ?case
    by (intro js_worker_step [OF worker_dec.prems worker_dec.hyps(1), where q = "sys_queue s w" and pc = "W_Loop d" and rs = "ran s w" and e = 1]) simp_all
next
  case (destructor_stop s w)
  then show ?case by (intro js_inv_simple [OF destructor_stop.prems]) simp_all
qed

lemma js_reach_inv:
  assumes "js_reach count s"
  shows "js_inv count s"
proof -
  from assms obtain init where "(js_step count)\<^sup>*\<^sup>* (js_init init) s" by blast
  then show ?thesis
  proof (induction rule: rtranclp_induct)
    case base
    have "pushed (spsc_init queue_capacity init) = []" "popped (spsc_init queue_capacity init) = []" "c_pc (spsc_init queue_capacity init) = C_Idle"
      by (simp_all add: spsc_init_def)
    then show ?case
      by (simp add: js_inv_def worker_ok_def queue_ok_def push_ok_def count_ok_def open_total_def open_jobs_def jobs_queued_def js_init_def
          spsc_init_inv [OF queue_capacity_pow2])
  next
    case (step s s')
    show ?case by (rule js_step_inv [OF step(2,3)])
  qed
qed

subsection \<open>Properties\<close>

lemma open_jobs_bound:
  assumes "worker_ok s w"
  shows "open_jobs s w \<le> 4096"
proof -
  have "length (pushed (sys_queue s w)) < length (popped (sys_queue s w)) + unat queue_capacity"
    using assms by (auto simp: worker_ok_def queue_ok_def spsc_sys_inv_def stores_ok_def)
  moreover have "busy (sys_worker s w) \<le> 1"
    by (cases "sys_worker s w") simp_all
  ultimately show ?thesis by (simp add: open_jobs_def jobs_queued_def queue_capacity_def)
qed

lemma open_total_bound:
  assumes "js_inv count s" and "unat count < 2 ^ 20"
  shows "open_total count s < 2 ^ 32"
proof -
  have "open_total count s \<le> (\<Sum>w < unat count. 4096)"
    unfolding open_total_def using assms(1) by (intro sum_mono open_jobs_bound) (simp add: js_inv_def)
  with assms(2) show ?thesis by simp
qed

lemma open_jobs_zero:
  assumes "worker_ok s w" and "open_jobs s w = 0"
  shows "jobs_queued s w = [] \<and> in_hand (sys_worker s w) = [] \<and> ran s w = given s w"
  using assms by (cases "sys_worker s w") (auto simp: open_jobs_def jobs_queued_def worker_ok_def queue_ok_def dest: spsc_inv_prefix)

text \<open>
  C32: With fewer than \<open>2 ^ 20\<close> workers, which cannot overflow the 32-bit count, when \<^verbatim>\<open>wait_idle\<close>, called by the
  submitting thread, reads a count of zero, every job that was ever accepted has run: all queues are empty and no worker
  holds a job.
\<close>

theorem wait_idle_all_done:
  assumes "js_reach count s" and "sys_submit s = S_Idle" and "sys_pending s = 0" and "unat count < 2 ^ 20"
  shows "\<forall>w < unat count. jobs_queued s w = [] \<and> in_hand (sys_worker s w) = [] \<and> ran s w = given s w"
proof -
  note inv = js_reach_inv [OF assms(1)]
  have "(of_nat (open_total count s) :: u32) = 0"
    using inv assms(2,3) by (simp add: js_inv_def count_ok_def)
  moreover have "unat (of_nat (open_total count s) :: u32) = open_total count s"
    using open_total_bound [OF inv assms(4)] by (simp add: unat_of_nat)
  ultimately have "open_total count s = 0" by simp
  then have "open_jobs s w = 0" if "w < unat count" for w
    using that by (simp add: open_total_def)
  with inv open_jobs_zero show ?thesis unfolding js_inv_def by blast
qed

text \<open>
  C9: every accepted job runs exactly once and in order, however the atomic accesses of the submitter and the workers interleave and
  however stale their loads of the queue indices and of the stop request are. At any time the jobs a worker has run are
  an initial part of those accepted into its queue, in that order, followed by the one in its hand and
  those still queued; when a worker has exited, every job accepted into its queue has run.
\<close>

theorem jobs_run_exactly_once:
  assumes "js_reach count s" and "w < unat count"
  shows "given s w = ran s w @ in_hand (sys_worker s w) @ jobs_queued s w \<and>
    (sys_worker s w = W_Exit \<longrightarrow> ran s w = given s w \<and> jobs_queued s w = [])"
proof -
  have ok: "queue_ok (sys_queue s w) (sys_worker s w) (given s w) (ran s w)" by (rule worker_queue_ok [OF js_reach_inv [OF assms(1)] assms(2)])
  then have "popped (sys_queue s w) @ jobs_queued s w = pushed (sys_queue s w)" 
    using spsc_inv_prefix [of queue_capacity "sys_queue s w"] unfolding queue_ok_def jobs_queued_def by blast
  with ok show ?thesis by (auto simp: queue_ok_def)
qed

subsection \<open>A run\<close>

text \<open>The four accesses of a push and of a pop that return true, as steps of the submitter and of a worker.\<close>

lemma js_push_run:
  assumes s: "sys_submit s = S_Scan job start i" "i < count" "w = unat ((start + i) mod count)"
    and st: "spsc_step queue_capacity (sys_queue s w) q1" "spsc_step queue_capacity q1 q2" "spsc_step queue_capacity q2 q3" "spsc_step queue_capacity q3 q4"
    and pc: "p_pc (sys_queue s w) = P_Idle" "p_pc q1 = P_Loaded job h nxt" "p_pc q2 = P_Write job h nxt" "p_pc q3 = P_Publish job nxt" "p_pc q4 = P_Idle"
    and p: "pushed q4 \<noteq> pushed q3"
  shows "(js_step count)\<^sup>*\<^sup>* s (s\<lparr>sys_queue := (sys_queue s)(w := q4), given := (given s)(w := given s w @ [job]), sys_submit := S_Count\<rparr>)"
proof -
  let ?s = "\<lambda>q. s\<lparr>sys_queue := (sys_queue s)(w := q), sys_submit := S_Push job start i\<rparr>"
  have "js_step count s (?s q1)" by (rule submit_try [OF s st(1) pc(1,2)])
  moreover have "js_step count (?s q1) (?s q2)" using submit_inside [of "?s q1" job start i w count q2] s(3) st(2) pc by (cases s) simp
  moreover have "js_step count (?s q2) (?s q3)" using submit_inside [of "?s q2" job start i w count q3] s(3) st(3) pc by (cases s) simp
  moreover have "js_step count (?s q3) (s\<lparr>sys_queue := (sys_queue s)(w := q4), given := (given s)(w := given s w @ [job]), sys_submit := S_Count\<rparr>)"
    using submit_push [of "?s q3" job start i w count q4] s(3) st(4) pc p by (cases s) simp
  ultimately show ?thesis by (meson converse_rtranclp_into_rtranclp rtranclp.rtrancl_refl)
qed

lemma js_pop_run:
  assumes s: "w < unat count" "sys_worker s w = W_Loop d"
    and st: "spsc_step queue_capacity (sys_queue s w) q1" "spsc_step queue_capacity q1 q2" "spsc_step queue_capacity q2 q3" "spsc_step queue_capacity q3 q4"
    and pc: "c_pc (sys_queue s w) = C_Idle" "c_pc q1 = C_Loaded t" "c_pc q2 = C_Read t" "c_pc q3 = C_Publish t job" "c_pc q4 = C_Idle"
    and p: "popped q4 = popped q3 @ [job]"
  shows "(js_step count)\<^sup>*\<^sup>* s (s\<lparr>sys_queue := (sys_queue s)(w := q4), sys_worker := (sys_worker s)(w := W_Run d job)\<rparr>)"
proof -
  let ?s = "\<lambda>q. s\<lparr>sys_queue := (sys_queue s)(w := q), sys_worker := (sys_worker s)(w := W_Pop d)\<rparr>"
  have "js_step count s (?s q1)" by (rule worker_try [OF s st(1)]) (simp add: pc)
  moreover have "js_step count (?s q1) (?s q2)" using worker_inside [of w count "?s q1" d q2] s(1) st(2) pc by (cases s) simp
  moreover have "js_step count (?s q2) (?s q3)" using worker_inside [of w count "?s q2" d q3] s(1) st(3) pc by (cases s) simp
  moreover have "js_step count (?s q3) (s\<lparr>sys_queue := (sys_queue s)(w := q4), sys_worker := (sys_worker s)(w := W_Run d job)\<rparr>)"
    using worker_pop [of w count "?s q3" d q4 job] s(1) st(4) pc p by (cases s) simp
  ultimately show ?thesis by (meson converse_rtranclp_into_rtranclp rtranclp.rtrancl_refl)
qed

text \<open>A queue into which 7 is pushed and from which it is popped.\<close>

definition queue_after :: "nat \<Rightarrow> int spsc_sys" where
  "queue_after n = (let b = (replicate (unat queue_capacity) 0)[0 := 7] in
     [spsc_init queue_capacity 0,
      (spsc_init queue_capacity 0)\<lparr>p_pc := P_Loaded 7 0 1\<rparr>,
      (spsc_init queue_capacity 0)\<lparr>p_pc := P_Write 7 0 1\<rparr>,
      (spsc_init queue_capacity 0)\<lparr>buffer := b, p_pc := P_Publish 7 1\<rparr>,
      (spsc_init queue_capacity 0)\<lparr>head_stores := [0, 1], buffer := b, pushed := [7]\<rparr>,
      (spsc_init queue_capacity 0)\<lparr>head_stores := [0, 1], buffer := b, pushed := [7], c_pc := C_Loaded 0\<rparr>,
      (spsc_init queue_capacity 0)\<lparr>head_stores := [0, 1], buffer := b, pushed := [7], seen_head := 1, c_pc := C_Read 0\<rparr>,
      (spsc_init queue_capacity 0)\<lparr>head_stores := [0, 1], buffer := b, pushed := [7], seen_head := 1, c_pc := C_Publish 0 7\<rparr>,
      (spsc_init queue_capacity 0)\<lparr>head_stores := [0, 1], tail_stores := [0, 1], buffer := b, pushed := [7], popped := [7], seen_head := 1\<rparr>] ! n)"

lemma queue_after_steps:
  "spsc_step queue_capacity (queue_after 0) (queue_after 1)" "spsc_step queue_capacity (queue_after 1) (queue_after 2)"
  "spsc_step queue_capacity (queue_after 2) (queue_after 3)" "spsc_step queue_capacity (queue_after 3) (queue_after 4)"
  "spsc_step queue_capacity (queue_after 4) (queue_after 5)" "spsc_step queue_capacity (queue_after 5) (queue_after 6)"
  "spsc_step queue_capacity (queue_after 6) (queue_after 7)" "spsc_step queue_capacity (queue_after 7) (queue_after 8)"
proof -
  have r: "ring_next queue_capacity 0 = 1" by (simp add: ring_next_def queue_capacity_def)
  have l: "0 < unat queue_capacity" by (simp add: queue_capacity_def)
  note qs = queue_after_def spsc_init_def Let_def
  show "spsc_step queue_capacity (queue_after 0) (queue_after 1)"
    using push_call [of "queue_after 0" 0 queue_capacity 7] r by (simp add: qs)
  show "spsc_step queue_capacity (queue_after 1) (queue_after 2)"
    using push_room [of "queue_after 1" 7 0 1 0 queue_capacity] by (simp add: qs)
  show "spsc_step queue_capacity (queue_after 2) (queue_after 3)"
    using push_write [of "queue_after 2" 7 0 1 queue_capacity] l by (simp add: qs)
  show "spsc_step queue_capacity (queue_after 3) (queue_after 4)"
    using push_publish [of "queue_after 3" 7 1 queue_capacity] by (simp add: qs)
  show "spsc_step queue_capacity (queue_after 4) (queue_after 5)"
    using pop_call [of "queue_after 4" 0 queue_capacity] by (simp add: qs)
  show "spsc_step queue_capacity (queue_after 5) (queue_after 6)"
    using pop_some [of "queue_after 5" 0 1 queue_capacity] by (simp add: qs)
  show "spsc_step queue_capacity (queue_after 6) (queue_after 7)"
    using pop_read [of "queue_after 6" 0 queue_capacity] l by (simp add: qs)
  show "spsc_step queue_capacity (queue_after 7) (queue_after 8)"
    using pop_publish [of "queue_after 7" 0 7 queue_capacity] r by (simp add: qs)
qed

lemma queue_after_simps:
  "p_pc (queue_after 0) = P_Idle" "p_pc (queue_after 1) = P_Loaded 7 0 1" "p_pc (queue_after 2) = P_Write 7 0 1" "p_pc (queue_after 3) = P_Publish 7 1"
  "p_pc (queue_after 4) = P_Idle" "pushed (queue_after 3) = []" "pushed (queue_after 4) = [7]" "popped (queue_after 4) = []"
  "c_pc (queue_after 4) = C_Idle" "c_pc (queue_after 5) = C_Loaded 0" "c_pc (queue_after 6) = C_Read 0" "c_pc (queue_after 7) = C_Publish 0 7"
  "c_pc (queue_after 8) = C_Idle" "popped (queue_after 7) = []" "popped (queue_after 8) = [7]"
  by (simp_all add: queue_after_def spsc_init_def Let_def)

text \<open>One worker; a job is pushed and not yet counted, then run and counted as done.\<close>

lemma submit_race_states:
  "\<exists>(s :: int js_sys) (s' :: int js_sys). js_reach 1 s \<and> js_reach 1 s' \<and>
     sys_submit s = S_Count \<and> sys_pending s = 0 \<and> jobs_queued s 0 = [7] \<and>
     sys_submit s' = S_Count \<and> sys_pending s' = 2 ^ 32 - 1 \<and> ran s' 0 = [7]"
proof -
  let ?i = "js_init (0 :: int)"
  let ?s1 = "?i\<lparr>sys_submit := S_Scan 7 (sys_next ?i mod 1) 0, sys_next := sys_next ?i + 1\<rparr>"
  let ?s2 = "?s1\<lparr>sys_queue := (sys_queue ?s1)(0 := queue_after 4), given := (given ?s1)(0 := given ?s1 0 @ [7]), sys_submit := S_Count\<rparr>"
  let ?s3 = "?s2\<lparr>sys_queue := (sys_queue ?s2)(0 := queue_after 8), sys_worker := (sys_worker ?s2)(0 := W_Run False 7)\<rparr>"
  let ?s4 = "?s3\<lparr>ran := (ran ?s3)(0 := ran ?s3 0 @ [7]), sys_worker := (sys_worker ?s3)(0 := W_Dec False)\<rparr>"
  let ?s5 = "?s4\<lparr>sys_pending := sys_pending ?s4 - 1, sys_worker := (sys_worker ?s4)(0 := W_Loop False)\<rparr>"
  have q0: "sys_queue ?s1 0 = queue_after 0" by (simp add: js_init_def queue_after_def Let_def)
  have 1: "js_step 1 ?i ?s1" by (rule submit_call) (simp_all add: js_init_def)
  have 2: "(js_step 1)\<^sup>*\<^sup>* ?s1 ?s2"
    by (rule js_push_run [where h = 0 and nxt = 1, OF _ _ _ queue_after_steps(1) [folded q0] queue_after_steps(2-4)])
      (simp_all add: q0 [simplified] queue_after_simps queue_after_simps(2) [unfolded One_nat_def])
  have 3: "(js_step 1)\<^sup>*\<^sup>* ?s2 ?s3"
    by (rule js_pop_run [where t = 0 and ?q1.0 = "queue_after 5", OF _ _ _ queue_after_steps(6-8)])
      (simp_all add: queue_after_steps(5) queue_after_simps js_init_def)
  have 4: "js_step 1 ?s3 ?s4" by (rule worker_run) simp_all
  have 5: "js_step 1 ?s4 ?s5" by (rule worker_dec) simp_all
  have r2: "(js_step 1)\<^sup>*\<^sup>* ?i ?s2" using 1 2 by (rule converse_rtranclp_into_rtranclp)
  then have "(js_step 1)\<^sup>*\<^sup>* ?i ?s3" using 3 by (rule rtranclp_trans)
  then have r5: "(js_step 1)\<^sup>*\<^sup>* ?i ?s5" using 4 5 by (meson rtranclp.rtrancl_into_rtrancl)
  have f2: "sys_submit ?s2 = S_Count" "sys_pending ?s2 = 0" "jobs_queued ?s2 0 = [7]"
    by (simp_all add: js_init_def jobs_queued_def queue_after_simps)
  have f5: "sys_submit ?s5 = S_Count" "sys_pending ?s5 = 2 ^ 32 - 1" "ran ?s5 0 = [7]" by (simp_all add: js_init_def)
  have reach2: "js_reach 1 ?s2" by (rule exI [where x = 0]) (rule r2)
  have reach5: "js_reach 1 ?s5" by (rule exI [where x = 0]) (rule r5)
  show ?thesis
    by (rule exI [of _ ?s2], rule exI [of _ ?s5], intro conjI, rule reach2, rule reach5)
      (rule f2(1), rule f2(2), rule f2(3), rule f5(1), rule f5(2), rule f5(3))
qed

text \<open>
  the count is incremented only after the push, so it is not the number of open jobs while a
  \<^verbatim>\<open>submit\<close> is in progress: it can be zero with a job queued, where \<^verbatim>\<open>wait_idle\<close> on another thread
  returns too early, and it can wrap to \<open>2 ^ 32 - 1\<close> when the worker is faster than the submitter.
\<close>

theorem submit_count_lags:
  "\<exists>(s :: int js_sys) (s' :: int js_sys). js_reach 1 s \<and> js_reach 1 s' \<and>
     sys_submit s = S_Count \<and> sys_pending s = 0 \<and> jobs_queued s 0 = [7] \<and>
     sys_submit s' = S_Count \<and> sys_pending s' = 2 ^ 32 - 1 \<and> ran s' 0 = [7]"
  by (rule submit_race_states)

theorem jobs_run_exactly_once_witness:
  "\<exists>s :: int js_sys. js_reach 1 s \<and> jobs_queued s 0 = [7] \<and> given s 0 = ran s 0 @ in_hand (sys_worker s 0) @ [7]"
proof -
  obtain s :: "int js_sys" where s: "js_reach 1 s" "jobs_queued s 0 = [7]"
    using submit_race_states by metis
  from jobs_run_exactly_once [OF s(1), of 0] s show ?thesis by auto
qed

text \<open>The worker was faster than the submitter; when the submitter has counted the job too, the count is zero and the job has run.\<close>

theorem wait_idle_all_done_witness:
  "\<exists>s :: int js_sys. js_reach 1 s \<and> sys_submit s = S_Idle \<and> sys_pending s = 0 \<and> jobs_queued s 0 = [] \<and> ran s 0 = [7] \<and> given s 0 = [7]"
proof -
  obtain s :: "int js_sys" where s: "js_reach 1 s" "sys_submit s = S_Count" "sys_pending s = 2 ^ 32 - 1" "ran s 0 = [7]"
    using submit_race_states by metis
  let ?s = "s\<lparr>sys_pending := sys_pending s + 1, sys_submit := S_Idle\<rparr>"
  have r: "js_reach 1 ?s" using s(1) js_step.submit_count [OF s(2), of 1] by (meson rtranclp.rtrancl_into_rtrancl)
  have p: "sys_submit ?s = S_Idle" "sys_pending ?s = 0" "ran ?s 0 = [7]" using s(3,4) by simp_all
  with wait_idle_all_done [OF r p(1,2)] r have "jobs_queued ?s 0 = [] \<and> ran ?s 0 = given ?s 0" by simp
  with r p show ?thesis by (intro exI [of _ ?s] conjI) simp_all
qed

end
