(* ===== verification/Reactor.thy ===== *)
theory Reactor
  imports Sap_Prelude
begin

text \<open>
  The readiness reactor on Linux, \<^verbatim>\<open>include/sap_core/io/event.h\<close>, \<^verbatim>\<open>include/sap_core/io/reactor.h\<close>
  and \<^verbatim>\<open>src/io/epoll_reactor.cpp\<close>. The system calls are parameters: a record of functions on the
  kernel's state, each returning what the call returns. \<^verbatim>\<open>errno\<close> is read from the kernel's state.
\<close>

section \<open>Events\<close>

type_synonym event = u8

definition Event_None :: event where "Event_None = 0"
definition Event_Readable :: event where "Event_Readable = 1"
definition Event_Writable :: event where "Event_Writable = 2"
definition Event_Error :: event where "Event_Error = 4"
definition Event_HangUp :: event where "Event_HangUp = 8"

lemmas event_defs = Event_None_def Event_Readable_def Event_Writable_def Event_Error_def Event_HangUp_def

definition event_or :: "event \<Rightarrow> event \<Rightarrow> event" where
  "event_or a b = a OR b"

definition event_and :: "event \<Rightarrow> event \<Rightarrow> event" where
  "event_and a b = a AND b"

definition event_not :: "event \<Rightarrow> event" where
  "event_not a = NOT a"

text \<open>\<^verbatim>\<open>|=\<close> and \<^verbatim>\<open>&=\<close>: the new value of the left operand.\<close>

definition event_or_assign :: "event \<Rightarrow> event \<Rightarrow> event" where
  "event_or_assign a b = event_or a b"

definition event_and_assign :: "event \<Rightarrow> event \<Rightarrow> event" where
  "event_and_assign a b = event_and a b"

definition event_any :: "event \<Rightarrow> bool" where
  "event_any e \<longleftrightarrow> e \<noteq> 0"

definition event_has :: "event \<Rightarrow> event \<Rightarrow> bool" where
  "event_has whole bits = event_any (event_and whole bits)"

text \<open>The constants of \<^verbatim>\<open>sys/epoll.h\<close>.\<close>

definition EPOLLIN :: u32 where "EPOLLIN = 1"
definition EPOLLOUT :: u32 where "EPOLLOUT = 4"
definition EPOLLERR :: u32 where "EPOLLERR = 8"
definition EPOLLHUP :: u32 where "EPOLLHUP = 16"

lemmas epoll_defs = EPOLLIN_def EPOLLOUT_def EPOLLERR_def EPOLLHUP_def

definition to_epoll :: "event \<Rightarrow> u32" where
  "to_epoll e =
     (let ev0 = 0;
          ev1 = (if event_has e Event_Readable then ev0 OR EPOLLIN else ev0)
      in if event_has e Event_Writable then ev1 OR EPOLLOUT else ev1)"

definition from_epoll :: "u32 \<Rightarrow> event" where
  "from_epoll ev =
     (let e0 = Event_None;
          e1 = (if ev AND EPOLLIN \<noteq> 0 then event_or_assign e0 Event_Readable else e0);
          e2 = (if ev AND EPOLLOUT \<noteq> 0 then event_or_assign e1 Event_Writable else e1);
          e3 = (if ev AND EPOLLERR \<noteq> 0 then event_or_assign e2 Event_Error else e2)
      in if ev AND EPOLLHUP \<noteq> 0 then event_or_assign e3 Event_HangUp else e3)"

section \<open>The system calls\<close>

type_synonym fd = int

record 'k kernel =
  sys_epoll_create :: "'k \<Rightarrow> int \<times> 'k"
  sys_eventfd :: "'k \<Rightarrow> int \<times> 'k"
  sys_epoll_add :: "'k \<Rightarrow> fd \<Rightarrow> fd \<Rightarrow> u32 \<Rightarrow> u64 \<Rightarrow> int \<times> 'k"
  sys_epoll_mod :: "'k \<Rightarrow> fd \<Rightarrow> fd \<Rightarrow> u32 \<Rightarrow> u64 \<Rightarrow> int \<times> 'k"
  sys_epoll_del :: "'k \<Rightarrow> fd \<Rightarrow> fd \<Rightarrow> int \<times> 'k"
  sys_epoll_wait :: "'k \<Rightarrow> fd \<Rightarrow> nat \<Rightarrow> i32 \<Rightarrow> int \<times> (u32 \<times> u64) list \<times> 'k" \<comment> \<open>\<^verbatim>\<open>maxevents\<close>, \<^verbatim>\<open>timeout\<close>\<close>
  sys_read8 :: "'k \<Rightarrow> fd \<Rightarrow> 'k"
  sys_write8 :: "'k \<Rightarrow> fd \<Rightarrow> u64 \<Rightarrow> 'k"
  sys_close :: "'k \<Rightarrow> fd \<Rightarrow> 'k"
  sys_errno :: "'k \<Rightarrow> int"
  strerror :: "int \<Rightarrow> string"

definition EINTR :: int where "EINTR = 4"

section \<open>Reactor\<close>

type_synonym 'a reactor_result = "string + 'a"

definition WAKE_TOKEN :: u64 where
  "WAKE_TOKEN = - 1"

definition MAX_EVENTS_PER_WAIT :: nat where
  "MAX_EVENTS_PER_WAIT = 64"

record reactor =
  m_epoll_fd :: fd
  m_wake_fd :: fd

record trigger =
  tr_events :: event
  tr_user_token :: u64

definition reactor_create :: "'k kernel \<Rightarrow> 'k \<Rightarrow> reactor reactor_result \<times> 'k" where
  "reactor_create K k0 =
     (let (ep, k1) = sys_epoll_create K k0
      in if ep < 0 then (Inl (''epoll_create1 failed: '' @ strerror K (sys_errno K k1)), k1)
         else (let (wfd, k2) = sys_eventfd K k1
               in if wfd < 0
                  then (let saved = sys_errno K k2; k3 = sys_close K k2 ep
                        in (Inl (''eventfd failed: '' @ strerror K saved), k3))
                  else (let (rc, k3) = sys_epoll_add K k2 ep wfd EPOLLIN WAKE_TOKEN
                        in if rc < 0
                           then (let saved = sys_errno K k3; k4 = sys_close K k3 wfd; k5 = sys_close K k4 ep
                                 in (Inl (''epoll_ctl(wake_fd) failed: '' @ strerror K saved), k5))
                           else (Inr \<lparr>m_epoll_fd = ep, m_wake_fd = wfd\<rparr>, k3))))"

definition reactor_destroy :: "'k kernel \<Rightarrow> 'k \<Rightarrow> reactor \<Rightarrow> 'k" where
  "reactor_destroy K k r =
     (let k1 = (if m_wake_fd r \<ge> 0 then sys_close K k (m_wake_fd r) else k)
      in if m_epoll_fd r \<ge> 0 then sys_close K k1 (m_epoll_fd r) else k1)"

text \<open>The new object and the moved-from one.\<close>

definition reactor_move :: "reactor \<Rightarrow> reactor \<times> reactor" where
  "reactor_move r = (\<lparr>m_epoll_fd = m_epoll_fd r, m_wake_fd = m_wake_fd r\<rparr>, \<lparr>m_epoll_fd = - 1, m_wake_fd = - 1\<rparr>)"

definition reactor_move_assign :: "'k kernel \<Rightarrow> 'k \<Rightarrow> bool \<Rightarrow> reactor \<Rightarrow> reactor \<Rightarrow> reactor \<times> reactor \<times> 'k" where
  "reactor_move_assign K k same r src =
     (if same then (r, r, k)
      else (let k1 = (if m_wake_fd r \<ge> 0 then sys_close K k (m_wake_fd r) else k);
                k2 = (if m_epoll_fd r \<ge> 0 then sys_close K k1 (m_epoll_fd r) else k1)
            in (\<lparr>m_epoll_fd = m_epoll_fd src, m_wake_fd = m_wake_fd src\<rparr>, \<lparr>m_epoll_fd = - 1, m_wake_fd = - 1\<rparr>, k2)))"

definition reactor_add :: "'k kernel \<Rightarrow> 'k \<Rightarrow> reactor \<Rightarrow> fd \<Rightarrow> event \<Rightarrow> u64 \<Rightarrow> u32 reactor_result \<times> 'k" where
  "reactor_add K k r handle interest token =
     (let (rc, k1) = sys_epoll_add K k (m_epoll_fd r) handle (to_epoll interest) token
      in if rc < 0 then (Inl (''epoll_ctl(ADD) failed: '' @ strerror K (sys_errno K k1)), k1) else (Inr 0, k1))"

definition reactor_modify :: "'k kernel \<Rightarrow> 'k \<Rightarrow> reactor \<Rightarrow> fd \<Rightarrow> event \<Rightarrow> u64 \<Rightarrow> u32 reactor_result \<times> 'k" where
  "reactor_modify K k r handle interest token =
     (let (rc, k1) = sys_epoll_mod K k (m_epoll_fd r) handle (to_epoll interest) token
      in if rc < 0 then (Inl (''epoll_ctl(MOD) failed: '' @ strerror K (sys_errno K k1)), k1) else (Inr 0, k1))"

definition reactor_remove :: "'k kernel \<Rightarrow> 'k \<Rightarrow> reactor \<Rightarrow> fd \<Rightarrow> u32 reactor_result \<times> 'k" where
  "reactor_remove K k r handle =
     (let (rc, k1) = sys_epoll_del K k (m_epoll_fd r) handle
      in if rc < 0 then (Inl (''epoll_ctl(DEL) failed: '' @ strerror K (sys_errno K k1)), k1) else (Inr 0, k1))"

text \<open>
  The loop over the reported events: \<open>n\<close> is the room left in the caller's span, beyond which a write
  is out of bounds.
\<close>

fun wait_loop :: "'k kernel \<Rightarrow> 'k \<Rightarrow> reactor \<Rightarrow> nat \<Rightarrow> (u32 \<times> u64) list \<Rightarrow> (trigger list \<times> 'k) outcome" where
  "wait_loop K k r n [] = Inr ([], k)"
| "wait_loop K k r n ((ev, token) # evs) =
     (if token = WAKE_TOKEN then wait_loop K (sys_read8 K k (m_wake_fd r)) r n evs
      else case n of
             0 \<Rightarrow> Inl Out_Of_Bounds
           | Suc n' \<Rightarrow> out_bind (wait_loop K k r n' evs) (\<lambda>(ts, k').
               Inr (\<lparr>tr_events = from_epoll ev, tr_user_token = token\<rparr> # ts, k')))"

definition wait_timeout :: "i64 \<Rightarrow> i32" where
  "wait_timeout timeout = (if timeout <s 0 then - 1 else ucast timeout)"

text \<open>
  \<^verbatim>\<open>wait\<close> with a span of \<open>room\<close> triggers; the result is the triggers written, whose number the code
  returns. \<^verbatim>\<open>timeout.count()\<close> is a 64-bit count of milliseconds, cast to \<^verbatim>\<open>int\<close>.
\<close>

definition reactor_wait ::
  "'k kernel \<Rightarrow> 'k \<Rightarrow> reactor \<Rightarrow> nat \<Rightarrow> i64 \<Rightarrow> (trigger list reactor_result \<times> 'k) outcome" where
  "reactor_wait K k r room timeout =
     (if room = 0 then Inr (Inr [], k)
      else (let max_n = (if room < MAX_EVENTS_PER_WAIT then room else MAX_EVENTS_PER_WAIT);
                t_ms = wait_timeout timeout;
                (n, evs, k1) = sys_epoll_wait K k (m_epoll_fd r) max_n t_ms
            in if n < 0
               then (if sys_errno K k1 = EINTR then Inr (Inr [], k1)
                     else Inr (Inl (''epoll_wait failed: '' @ strerror K (sys_errno K k1)), k1))
               else out_bind (wait_loop K k1 r room (take (nat n) evs)) (\<lambda>(ts, k2). Inr (Inr ts, k2))))"

definition reactor_wake :: "'k kernel \<Rightarrow> 'k \<Rightarrow> reactor \<Rightarrow> 'k" where
  "reactor_wake K k r = (if m_wake_fd r < 0 then k else sys_write8 K k (m_wake_fd r) 1)"

section \<open>Event translation\<close>

lemma event_and_bit: "(e :: event) AND 1 \<noteq> 0 \<longleftrightarrow> bit e 0" "(e :: event) AND 2 \<noteq> 0 \<longleftrightarrow> bit e 1"
  using and_exp_eq_0_iff_not_bit [of e 0] and_exp_eq_0_iff_not_bit [of e 1] by simp_all

lemma event_mask_rw:
  "(e :: event) AND 3 = (if bit e 0 then 1 else 0) OR (if bit e 1 then 2 else 0)"
proof (rule bit_word_eqI)
  fix n assume "n < LENGTH(8)"
  have b1: "bit (1 :: event) n \<longleftrightarrow> n = 0" by (simp add: bit_1_iff)
  have b2: "bit (2 :: event) n \<longleftrightarrow> n = 1" by (auto simp: bit_2_iff)
  have b3: "bit (3 :: event) n \<longleftrightarrow> n = 0 \<or> n = 1"
    using bit_or_iff [of "1 :: event" 2 n] b1 b2 by simp
  show "bit (e AND 3) n = bit ((if bit e 0 then 1 else 0) OR (if bit e 1 then 2 else 0) :: event) n"
    by (cases "bit e 0"; cases "bit e 1") (auto simp only: bit_and_iff bit_or_iff b1 b2 b3 bit_0_eq bot_apply bot_bool_def if_True if_False)
qed

text \<open>
  translating an interest to the kernel's bits and back keeps exactly the readable and writable
  bits of it, and a translated kernel event has each of the four flags just when the kernel set the
  corresponding bit.
\<close>

theorem reactor_event_translation:
  "from_epoll (to_epoll e) = event_and e (event_or Event_Readable Event_Writable)
   \<and> (event_has (from_epoll ev) Event_Readable \<longleftrightarrow> ev AND EPOLLIN \<noteq> 0)
   \<and> (event_has (from_epoll ev) Event_Writable \<longleftrightarrow> ev AND EPOLLOUT \<noteq> 0)
   \<and> (event_has (from_epoll ev) Event_Error \<longleftrightarrow> ev AND EPOLLERR \<noteq> 0)
   \<and> (event_has (from_epoll ev) Event_HangUp \<longleftrightarrow> ev AND EPOLLHUP \<noteq> 0)"
proof -
  have "from_epoll (to_epoll e) = event_and e (event_or Event_Readable Event_Writable)"
    by (simp add: from_epoll_def to_epoll_def event_has_def event_any_def event_or_def event_or_assign_def event_and_def
        event_defs epoll_defs event_and_bit event_mask_rw)
  then show ?thesis
    by (simp add: from_epoll_def event_has_def event_any_def event_or_def event_or_assign_def event_and_def event_defs)
qed

section \<open>Waiting\<close>

definition trigger_of :: "u32 \<times> u64 \<Rightarrow> trigger" where
  "trigger_of e = \<lparr>tr_events = from_epoll (fst e), tr_user_token = snd e\<rparr>"

abbreviation is_wake :: "u32 \<times> u64 \<Rightarrow> bool" where
  "is_wake e \<equiv> snd e = WAKE_TOKEN"

abbreviation drain_wake :: "'k kernel \<Rightarrow> reactor \<Rightarrow> 'k \<Rightarrow> 'k" where
  "drain_wake K r k \<equiv> sys_read8 K k (m_wake_fd r)"

lemma wait_loop_spec:
  "length (filter (\<lambda>e. \<not> is_wake e) evs) \<le> n
   \<Longrightarrow> wait_loop K k r n evs =
         Inr (map trigger_of (filter (\<lambda>e. \<not> is_wake e) evs),
              (drain_wake K r ^^ length (filter is_wake evs)) k)"
proof (induction K k r n evs rule: wait_loop.induct)
  case (2 K k r n ev token evs)
  then show ?case
    by (cases n) (simp_all add: trigger_of_def funpow_swap1 [of "drain_wake K r"] split: if_splits)
qed simp

lemma reactor_wait_eq:
  assumes "0 < room" and "sys_epoll_wait K k (m_epoll_fd r) (min room 64) (wait_timeout t) = (n, evs, k1)"
    and "n \<le> int (min room 64)" and "n \<le> int (length evs)"
  shows "reactor_wait K k r room t =
           (if n < 0
            then (if sys_errno K k1 = EINTR then Inr (Inr [], k1)
                  else Inr (Inl (''epoll_wait failed: '' @ strerror K (sys_errno K k1)), k1))
            else Inr (Inr (map trigger_of (filter (\<lambda>e. \<not> is_wake e) (take (nat n) evs))),
                      (drain_wake K r ^^ length (filter is_wake (take (nat n) evs))) k1))"
proof -
  have m: "(if room < MAX_EVENTS_PER_WAIT then room else MAX_EVENTS_PER_WAIT) = min room 64"
    by (simp add: MAX_EVENTS_PER_WAIT_def)
  have "length (take (nat n) evs) \<le> room" using assms(3) by auto
  then have "length (filter (\<lambda>e. \<not> is_wake e) (take (nat n) evs)) \<le> room"
    using length_filter_le order_trans by blast
  note w = wait_loop_spec [OF this]
  show ?thesis
    using assms(1,2) by (simp add: reactor_wait_def m w)
qed

text \<open>
  C25: a wait whose kernel call keeps its contract (at most the requested number of events, all of
  them stored) never writes outside the caller's span; it reports every kernel event other than the
  wake-up in order, with its translated flags and token, drains the wake-up descriptor once per wake-up
  event, reports an interrupted call as no event, and any other failure as an error.
\<close>

theorem reactor_wait_spec:
  assumes "0 < room" and "sys_epoll_wait K k (m_epoll_fd r) (min room 64) (wait_timeout t) = (n, evs, k1)"
    and "n \<le> int (min room 64)" and "n \<le> int (length evs)"
  shows "reactor_wait K k r room t =
           (if n < 0
            then (if sys_errno K k1 = EINTR then Inr (Inr [], k1)
                  else Inr (Inl (''epoll_wait failed: '' @ strerror K (sys_errno K k1)), k1))
            else Inr (Inr (map trigger_of (filter (\<lambda>e. \<not> is_wake e) (take (nat n) evs))),
                      (drain_wake K r ^^ length (filter is_wake (take (nat n) evs))) k1))"
  using assms by (rule reactor_wait_eq)

text \<open>
  the millisecond count reaches the kernel unchanged only below \<open>2 ^ 31\<close>: the cast to a 32-bit
  integer makes a wait of \<open>2 ^ 32\<close> milliseconds a poll that does not wait, and one of \<open>2 ^ 31\<close> a negative
  (unbounded) timeout.
\<close>

theorem wait_timeout_truncates:
  "(0 \<le> sint t \<and> sint t < 2 ^ 31 \<longrightarrow> sint (wait_timeout t) = sint t)
   \<and> (sint t < 0 \<longrightarrow> wait_timeout t = - 1)
   \<and> wait_timeout (2 ^ 32) = 0 \<and> sint (wait_timeout (2 ^ 31)) = - (2 ^ 31)"
proof -
  have lt: "t <s 0 \<longleftrightarrow> sint t < 0" by (simp add: word_sless_alt)
  have small: "sint (wait_timeout t) = sint t" if "0 \<le> sint t" "sint t < 2 ^ 31"
  proof -
    have u: "uint t = sint t" using that by (simp add: uint_sint take_bit_int_eq_self)
    have "sint (ucast t :: i32) = signed_take_bit 31 (take_bit 32 (uint t))"
      by (simp add: sint_uint unsigned_ucast_eq)
    then show ?thesis using that
      by (simp add: wait_timeout_def lt u take_bit_int_eq_self signed_take_bit_int_eq_self)
  qed
  show ?thesis using small by (auto simp: wait_timeout_def lt word_sless_alt)
qed

section \<open>Ownership of descriptors\<close>

text \<open>
  What the code relies on: a descriptor returned by \<^verbatim>\<open>epoll_create1\<close> or \<^verbatim>\<open>eventfd\<close> was not open before,
  \<^verbatim>\<open>close\<close> releases an open descriptor and fails with \<^verbatim>\<open>EBADF\<close> on any other, and \<^verbatim>\<open>epoll_ctl\<close> opens and
  closes nothing. \<open>openf\<close> is the set of open descriptors, \<open>ebadf\<close> whether a \<^verbatim>\<open>close\<close> has failed so far.
\<close>

definition opens_fresh :: "('k \<Rightarrow> fd set) \<Rightarrow> ('k \<Rightarrow> bool) \<Rightarrow> ('k \<Rightarrow> int \<times> 'k) \<Rightarrow> bool" where
  "opens_fresh openf ebadf call \<longleftrightarrow>
     (\<forall>k fd k'. call k = (fd, k') \<longrightarrow>
        ebadf k' = ebadf k \<and>
        (if fd < 0 then openf k' = openf k else fd \<notin> openf k \<and> openf k' = insert fd (openf k)))"

definition fd_contract :: "'k kernel \<Rightarrow> ('k \<Rightarrow> fd set) \<Rightarrow> ('k \<Rightarrow> bool) \<Rightarrow> bool" where
  "fd_contract K openf ebadf \<longleftrightarrow>
     opens_fresh openf ebadf (sys_epoll_create K) \<and> opens_fresh openf ebadf (sys_eventfd K) \<and>
     (\<forall>k fd. openf (sys_close K k fd) = openf k - {fd} \<and> ebadf (sys_close K k fd) = (ebadf k \<or> fd \<notin> openf k)) \<and>
     (\<forall>k ep fd ev tok. openf (snd (sys_epoll_add K k ep fd ev tok)) = openf k
                       \<and> ebadf (snd (sys_epoll_add K k ep fd ev tok)) = ebadf k)"

definition owned :: "reactor \<Rightarrow> fd set" where
  "owned r = {fd \<in> {m_wake_fd r, m_epoll_fd r}. 0 \<le> fd}"

definition reactor_wf :: "reactor \<Rightarrow> bool" where
  "reactor_wf r \<longleftrightarrow> (0 \<le> m_wake_fd r \<longrightarrow> m_wake_fd r \<noteq> m_epoll_fd r)"

lemma owned_moved [simp]: "owned \<lparr>m_epoll_fd = - 1, m_wake_fd = - 1\<rparr> = {}" "reactor_wf \<lparr>m_epoll_fd = - 1, m_wake_fd = - 1\<rparr>"
  by (auto simp: owned_def reactor_wf_def)

lemma owned_rebuild [simp]:
  "owned \<lparr>m_epoll_fd = m_epoll_fd r, m_wake_fd = m_wake_fd r\<rparr> = owned r"
  "reactor_wf \<lparr>m_epoll_fd = m_epoll_fd r, m_wake_fd = m_wake_fd r\<rparr> = reactor_wf r"
  by (auto simp: owned_def reactor_wf_def)

lemma fd_contract_close:
  assumes "fd_contract K openf ebadf"
  shows "openf (sys_close K k fd) = openf k - {fd}" "ebadf (sys_close K k fd) = (ebadf k \<or> fd \<notin> openf k)"
  using assms by (simp_all add: fd_contract_def)

lemma fd_contract_add:
  assumes "fd_contract K openf ebadf" "sys_epoll_add K k ep fd ev tok = (rc, k')"
  shows "openf k' = openf k" "ebadf k' = ebadf k"
proof -
  have "openf (snd (sys_epoll_add K k ep fd ev tok)) = openf k" "ebadf (snd (sys_epoll_add K k ep fd ev tok)) = ebadf k"
    using assms(1) by (simp_all add: fd_contract_def)
  with assms(2) show "openf k' = openf k" "ebadf k' = ebadf k" by simp_all
qed

lemma fd_contract_open:
  assumes "fd_contract K openf ebadf" "sys_epoll_create K k = (fd, k') \<or> sys_eventfd K k = (fd, k')"
  shows "ebadf k' = ebadf k" "fd < 0 \<Longrightarrow> openf k' = openf k" "0 \<le> fd \<Longrightarrow> fd \<notin> openf k" "0 \<le> fd \<Longrightarrow> openf k' = insert fd (openf k)"
proof -
  have "ebadf k' = ebadf k \<and> (if fd < 0 then openf k' = openf k else fd \<notin> openf k \<and> openf k' = insert fd (openf k))"
    using assms(2)
  proof
    assume "sys_epoll_create K k = (fd, k')"
    moreover have "opens_fresh openf ebadf (sys_epoll_create K)" using assms(1) by (simp add: fd_contract_def)
    ultimately show ?thesis unfolding opens_fresh_def by blast
  next
    assume "sys_eventfd K k = (fd, k')"
    moreover have "opens_fresh openf ebadf (sys_eventfd K)" using assms(1) by (simp add: fd_contract_def)
    ultimately show ?thesis unfolding opens_fresh_def by blast
  qed
  then show "ebadf k' = ebadf k" "fd < 0 \<Longrightarrow> openf k' = openf k" "0 \<le> fd \<Longrightarrow> fd \<notin> openf k"
    "0 \<le> fd \<Longrightarrow> openf k' = insert fd (openf k)" by simp_all
qed

lemma reactor_destroy_fds:
  assumes "fd_contract K openf ebadf" "reactor_wf r" "owned r \<subseteq> openf k"
  shows "openf (reactor_destroy K k r) = openf k - owned r" "ebadf (reactor_destroy K k r) = ebadf k"
proof -
  note cl = fd_contract_close [OF assms(1)]
  show "openf (reactor_destroy K k r) = openf k - owned r"
    using assms(3) by (auto simp: reactor_destroy_def owned_def cl Let_def)
  show "ebadf (reactor_destroy K k r) = ebadf k"
    using assms(2,3) by (auto simp: reactor_destroy_def owned_def reactor_wf_def cl Let_def)
qed

lemma reactor_create_fds:
  assumes c: "fd_contract K openf ebadf" and r: "reactor_create K k = (res, k')"
  shows "ebadf k' = ebadf k
         \<and> (case res of Inl e \<Rightarrow> openf k' = openf k
             | Inr r \<Rightarrow> openf k' = openf k \<union> owned r \<and> owned r \<inter> openf k = {} \<and> reactor_wf r)"
proof -
  obtain ep k1 where ep: "sys_epoll_create K k = (ep, k1)" by (cases "sys_epoll_create K k")
  obtain wfd k2 where wfd: "sys_eventfd K k1 = (wfd, k2)" by (cases "sys_eventfd K k1")
  obtain rc k3 where add: "sys_epoll_add K k2 ep wfd EPOLLIN WAKE_TOKEN = (rc, k3)"
    by (cases "sys_epoll_add K k2 ep wfd EPOLLIN WAKE_TOKEN")
  note o1 = fd_contract_open [OF c disjI1 [OF ep]] and o2 = fd_contract_open [OF c disjI2 [OF wfd]]
    and a3 = fd_contract_add [OF c add] and cl = fd_contract_close [OF c]
  consider "ep < 0" | "0 \<le> ep" "wfd < 0" | "0 \<le> ep" "0 \<le> wfd" "rc < 0" | "0 \<le> ep" "0 \<le> wfd" "0 \<le> rc"
    by linarith
  then show ?thesis
  proof cases
    case 1 then show ?thesis using r o1(1,2) by (auto simp: reactor_create_def ep)
  next
    case 2
    then have k': "k' = sys_close K k2 ep" "\<exists>e. res = Inl e" using r by (auto simp: reactor_create_def ep wfd Let_def)
    then show ?thesis using 2 by (auto simp: cl o1 o2(1,2))
  next
    case 3
    then have k': "k' = sys_close K (sys_close K k3 wfd) ep" "\<exists>e. res = Inl e"
      using r by (auto simp: reactor_create_def ep wfd add Let_def)
    have "ep \<noteq> wfd" using 3 o1(4) o2(3) by auto
    then show ?thesis using 3 k' o1(3) o2(3) by (auto simp: cl o1 o2 a3)
  next
    case 4
    then have "res = Inr \<lparr>m_epoll_fd = ep, m_wake_fd = wfd\<rparr>" "k' = k3"
      using r by (simp_all add: reactor_create_def ep wfd add)
    moreover have "owned \<lparr>m_epoll_fd = ep, m_wake_fd = wfd\<rparr> = {ep, wfd}" using 4 by (auto simp: owned_def)
    moreover have "ep \<noteq> wfd" using 4 o1(4) o2(3) by auto
    ultimately show ?thesis using 4 o1(3) o2(3) by (auto simp: reactor_wf_def o1(1,4) o2(1,4) a3)
  qed
qed

text \<open>Programs that create, move and destroy reactors held in numbered variables.\<close>

datatype reactor_cmd = R_Create nat | R_Move nat nat | R_Assign nat nat | R_Destroy nat

fun reactor_exec :: "'k kernel \<Rightarrow> (nat \<rightharpoonup> reactor) \<times> 'k \<Rightarrow> reactor_cmd \<Rightarrow> (nat \<rightharpoonup> reactor) \<times> 'k" where
  "reactor_exec K (st, k) (R_Create i) =
     (case st i of
        Some _ \<Rightarrow> (st, k)
      | None \<Rightarrow> (case reactor_create K k of (Inl _, k') \<Rightarrow> (st, k') | (Inr r, k') \<Rightarrow> (st(i \<mapsto> r), k')))"
| "reactor_exec K (st, k) (R_Move i j) =
     (case (st i, st j) of
        (None, Some r) \<Rightarrow> (let (new, old) = reactor_move r in (st(i \<mapsto> new, j \<mapsto> old), k))
      | _ \<Rightarrow> (st, k))"
| "reactor_exec K (st, k) (R_Assign i j) =
     (case (st i, st j) of
        (Some r, Some src) \<Rightarrow> (let (r', src', k') = reactor_move_assign K k (i = j) r src in (st(j \<mapsto> src', i \<mapsto> r'), k'))
      | _ \<Rightarrow> (st, k))"
| "reactor_exec K (st, k) (R_Destroy i) =
     (case st i of None \<Rightarrow> (st, k) | Some r \<Rightarrow> (st(i := None), reactor_destroy K k r))"

definition reactor_run :: "'k kernel \<Rightarrow> reactor_cmd list \<Rightarrow> 'k \<Rightarrow> (nat \<rightharpoonup> reactor) \<times> 'k" where
  "reactor_run K cmds k = foldl (reactor_exec K) (Map.empty, k) cmds"

definition fds_at :: "(nat \<rightharpoonup> reactor) \<Rightarrow> nat \<Rightarrow> fd set" where
  "fds_at st i = (case st i of None \<Rightarrow> {} | Some r \<Rightarrow> owned r)"

definition splits :: "fd set \<Rightarrow> (nat \<Rightarrow> fd set) \<Rightarrow> fd set \<Rightarrow> bool" where
  "splits base f T \<longleftrightarrow>
     T = base \<union> (\<Union>i. f i) \<and> (\<forall>i. f i \<inter> base = {}) \<and> (\<forall>i j. i \<noteq> j \<longrightarrow> f i \<inter> f j = {})"

definition fds_inv :: "('k \<Rightarrow> fd set) \<Rightarrow> ('k \<Rightarrow> bool) \<Rightarrow> fd set \<Rightarrow> (nat \<rightharpoonup> reactor) \<times> 'k \<Rightarrow> bool" where
  "fds_inv openf ebadf base s \<longleftrightarrow>
     \<not> ebadf (snd s) \<and> splits base (fds_at (fst s)) (openf (snd s)) \<and>
     (\<forall>i r. fst s i = Some r \<longrightarrow> reactor_wf r)"

lemma fds_at_upd [simp]:
  "fds_at (st(i \<mapsto> r)) = (fds_at st)(i := owned r)" "fds_at (st(i := None)) = (fds_at st)(i := {})"
  by (rule ext, simp add: fds_at_def)+

lemma splits_clear: "splits base f T \<Longrightarrow> splits base (f(i := {})) (T - f i)"
  unfolding splits_def by (auto split: if_splits) blast+

lemma splits_new: "splits base f T \<Longrightarrow> f i = {} \<Longrightarrow> X \<inter> T = {} \<Longrightarrow> splits base (f(i := X)) (T \<union> X)"
  unfolding splits_def by (auto split: if_splits)

lemma splits_move: "splits base f T \<Longrightarrow> i \<noteq> j \<Longrightarrow> f i = {} \<Longrightarrow> splits base (f(i := f j, j := {})) T"
  unfolding splits_def by (auto split: if_splits)

lemma splits_within: "splits base f T \<Longrightarrow> f i \<subseteq> T"
  unfolding splits_def by auto

lemma fds_at_Some [simp]: "st i = Some r \<Longrightarrow> fds_at st i = owned r" "st i = None \<Longrightarrow> fds_at st i = {}"
  by (simp_all add: fds_at_def)

lemma reactor_move_assign_destroys:
  "reactor_move_assign K k False r src = (fst (reactor_move src), snd (reactor_move src), reactor_destroy K k r)"
  by (simp add: reactor_move_assign_def reactor_move_def reactor_destroy_def Let_def)

lemma reactor_exec_inv:
  assumes c: "fd_contract K openf ebadf" and inv: "fds_inv openf ebadf base (st, k)"
  shows "fds_inv openf ebadf base (reactor_exec K (st, k) cmd)"
proof -
  have nb: "\<not> ebadf k" and sp: "splits base (fds_at st) (openf k)" and wf: "\<And>i r. st i = Some r \<Longrightarrow> reactor_wf r"
    using inv by (auto simp: fds_inv_def)
  have destroyed: "splits base ((fds_at st)(i := {})) (openf (reactor_destroy K k r))" "\<not> ebadf (reactor_destroy K k r)"
    if "st i = Some r" for i r
    using reactor_destroy_fds [OF c wf [OF that]] splits_within [OF sp, of i] splits_clear [OF sp, of i] that nb by simp_all
  show ?thesis
  proof (cases cmd)
    case (R_Create i)
    obtain res k' where r: "reactor_create K k = (res, k')" by (cases "reactor_create K k")
    note f = reactor_create_fds [OF c r]
    show ?thesis
    proof (cases "st i"; cases res)
      fix r' assume "st i = None" "res = Inr r'"
      then show ?thesis using f sp nb wf splits_new [OF sp, of i "owned r'"]
        by (auto simp: fds_inv_def R_Create r split: if_splits)
    qed (use f sp nb wf in \<open>auto simp: fds_inv_def R_Create r\<close>)
  next
    case (R_Move i j)
    show ?thesis
    proof (cases "st i = None \<and> st j \<noteq> None")
      case True
      then obtain r where e: "st i = None" "st j = Some r" by auto
      then have "i \<noteq> j" by auto
      with e show ?thesis using splits_move [OF sp, of i j] nb wf
        by (auto simp: fds_inv_def R_Move reactor_move_def fun_upd_twist split: if_splits)
    qed (use inv in \<open>auto simp: R_Move split: option.split\<close>)
  next
    case (R_Assign i j)
    show ?thesis
    proof (cases "i \<noteq> j \<and> st i \<noteq> None \<and> st j \<noteq> None")
      case True
      then obtain r src where e: "st i = Some r" "st j = Some src" "i \<noteq> j" by auto
      then show ?thesis using splits_move [OF destroyed(1) [OF e(1)], of i j] destroyed(2) [OF e(1)] wf
        by (auto simp: fds_inv_def R_Assign reactor_move_assign_destroys reactor_move_def fun_upd_twist split: if_splits)
    qed (use inv in \<open>auto simp: R_Assign reactor_move_assign_def fun_upd_idem split: option.split\<close>)
  next
    case (R_Destroy i)
    then show ?thesis using inv destroyed [of i] wf by (auto simp: fds_inv_def split: option.split if_splits)
  qed
qed

lemma reactor_run_inv:
  assumes "fd_contract K openf ebadf" "\<not> ebadf k"
  shows "fds_inv openf ebadf (openf k) (reactor_run K cmds k)"
proof (induction cmds rule: rev_induct)
  case Nil
  then show ?case using assms(2) by (simp add: reactor_run_def fds_inv_def splits_def fds_at_def)
next
  case (snoc c cs)
  then show ?case
    using reactor_exec_inv [OF assms(1)] by (cases "reactor_run K cs k") (simp add: reactor_run_def)
qed

text \<open>
  C27: over any program that creates, moves, move-assigns and destroys reactors, no descriptor is closed
  twice or closed while it is not open, every descriptor a live reactor holds is open and held by it
  alone, and nothing leaks: the open descriptors are those open at the start and those of live reactors.
\<close>

theorem reactor_descriptors_owned:
  assumes "fd_contract K openf ebadf" and "\<not> ebadf k" and "reactor_run K cmds k = (st, k')"
  shows "\<not> ebadf k' \<and> openf k' = openf k \<union> (\<Union>r \<in> ran st. owned r)
         \<and> (\<forall>i j r r'. st i = Some r \<and> st j = Some r' \<and> i \<noteq> j \<longrightarrow> owned r \<inter> owned r' = {})"
proof -
  have inv: "fds_inv openf ebadf (openf k) (st, k')" using reactor_run_inv [OF assms(1,2), of cmds] assms(3) by simp
  then have sp: "splits (openf k) (fds_at st) (openf k')" and nb: "\<not> ebadf k'" by (simp_all add: fds_inv_def)
  have open': "openf k' = openf k \<union> (\<Union>i. fds_at st i)" using sp by (simp add: splits_def)
  have un: "(\<Union>i. fds_at st i) = (\<Union>r \<in> ran st. owned r)"
  proof (intro equalityI subsetI)
    fix x assume "x \<in> (\<Union>i. fds_at st i)"
    then obtain i where "x \<in> fds_at st i" by blast
    then show "x \<in> (\<Union>r \<in> ran st. owned r)" by (cases "st i") (auto intro: ranI)
  next
    fix x assume "x \<in> (\<Union>r \<in> ran st. owned r)"
    then obtain i r where "st i = Some r" "x \<in> owned r" by (auto simp: ran_def)
    then have "x \<in> fds_at st i" by simp
    then show "x \<in> (\<Union>i. fds_at st i)" by blast
  qed
  have disj: "owned r \<inter> owned r' = {}" if e: "st i = Some r" "st j = Some r'" "i \<noteq> j" for i j r r'
  proof -
    have "fds_at st i \<inter> fds_at st j = {}" using sp e(3) unfolding splits_def by blast
    with e show ?thesis by simp
  qed
  show ?thesis
  proof (intro conjI allI impI)
    show "openf k' = openf k \<union> (\<Union>r \<in> ran st. owned r)" using open' by (simp only: un)
  qed (use nb disj in \<open>blast+\<close>)
qed

text \<open>
  A concrete kernel: the state is the list of open descriptors and whether a \<^verbatim>\<open>close\<close> has failed. A wait
  reports one readable socket with token 7 and one wake-up.
\<close>

definition fresh_fd :: "fd list \<Rightarrow> fd" where
  "fresh_fd fds = foldr max fds 2 + 1"

definition list_kernel :: "(fd list \<times> bool) kernel" where
  "list_kernel = \<lparr>
     sys_epoll_create = (\<lambda>(fds, b). (fresh_fd fds, fresh_fd fds # fds, b)),
     sys_eventfd = (\<lambda>(fds, b). (fresh_fd fds, fresh_fd fds # fds, b)),
     sys_epoll_add = (\<lambda>k _ _ _ _. (0, k)), sys_epoll_mod = (\<lambda>k _ _ _ _. (0, k)), sys_epoll_del = (\<lambda>k _ _. (0, k)),
     sys_epoll_wait = (\<lambda>k _ m _. (2, [(EPOLLIN, 7), (EPOLLIN, WAKE_TOKEN)], k)),
     sys_read8 = (\<lambda>k _. k), sys_write8 = (\<lambda>k _ _. k),
     sys_close = (\<lambda>(fds, b) fd. (removeAll fd fds, b \<or> fd \<notin> set fds)),
     sys_errno = (\<lambda>_. 0), strerror = (\<lambda>_. '''')\<rparr>"

lemma fresh_fd_fresh: "fresh_fd fds \<notin> set fds"
proof -
  have "x \<le> foldr max fds 2" if "x \<in> set fds" for x using that by (induction fds) auto
  then have "x < fresh_fd fds" if "x \<in> set fds" for x using that by (fastforce simp: fresh_fd_def)
  then show ?thesis by blast
qed

lemma fresh_fd_nonneg: "\<not> fresh_fd fds < 0"
proof -
  have "2 \<le> foldr max fds 2" by (induction fds) auto
  then show ?thesis by (simp add: fresh_fd_def)
qed

lemma list_kernel_contract: "fd_contract list_kernel (set \<circ> fst) snd"
proof -
  have "opens_fresh (set \<circ> fst) snd (\<lambda>(fds, b). (fresh_fd fds, fresh_fd fds # fds, b))"
    using fresh_fd_fresh fresh_fd_nonneg by (auto simp: opens_fresh_def)
  then show ?thesis by (auto simp: fd_contract_def list_kernel_def)
qed

theorem reactor_descriptors_owned_witness:
  "reactor_run list_kernel [R_Create 0, R_Create 1, R_Move 2 0, R_Assign 1 2, R_Destroy 1] ([0, 1, 2], False)
     = ([0 \<mapsto> \<lparr>m_epoll_fd = - 1, m_wake_fd = - 1\<rparr>, 2 \<mapsto> \<lparr>m_epoll_fd = - 1, m_wake_fd = - 1\<rparr>], [0, 1, 2], False)
   \<and> (set \<circ> fst) ([0, 1, 2 :: fd], False) = (set \<circ> fst) ([0, 1, 2], False) \<union> owned \<lparr>m_epoll_fd = - 1, m_wake_fd = - 1\<rparr>"
proof -
  let ?st = "[0 \<mapsto> \<lparr>m_epoll_fd = - 1, m_wake_fd = - 1\<rparr>, 2 \<mapsto> \<lparr>m_epoll_fd = - 1, m_wake_fd = - 1\<rparr>] :: nat \<rightharpoonup> reactor"
  have run: "reactor_run list_kernel [R_Create 0, R_Create 1, R_Move 2 0, R_Assign 1 2, R_Destroy 1] ([0, 1, 2], False)
     = (?st, [0, 1, 2], False)"
    by (simp add: reactor_run_def reactor_create_def list_kernel_def fresh_fd_def reactor_move_def
        reactor_move_assign_def reactor_destroy_def fun_eq_iff)
  have "ran ?st = {\<lparr>m_epoll_fd = - 1, m_wake_fd = - 1\<rparr>}" by (auto simp: ran_def split: if_splits)
  with run reactor_descriptors_owned [OF list_kernel_contract _ run] show ?thesis by simp
qed

theorem reactor_wait_spec_witness:
  "reactor_wait list_kernel ([], False) \<lparr>m_epoll_fd = 3, m_wake_fd = 4\<rparr> 8 0
     = Inr (Inr [\<lparr>tr_events = Event_Readable, tr_user_token = 7\<rparr>], [], False)"
proof -
  let ?evs = "[(EPOLLIN, 7), (EPOLLIN, WAKE_TOKEN)] :: (u32 \<times> u64) list"
  have call: "sys_epoll_wait list_kernel ([], False) (m_epoll_fd \<lparr>m_epoll_fd = 3, m_wake_fd = 4\<rparr>) (min 8 64) (wait_timeout 0)
      = (2, ?evs, ([], False))"
    by (simp add: list_kernel_def)
  have rd: "sys_read8 list_kernel k fd = k" for k fd by (simp add: list_kernel_def)
  have ev: "trigger_of (EPOLLIN, 7) = \<lparr>tr_events = Event_Readable, tr_user_token = 7\<rparr>"
    by (simp add: trigger_of_def from_epoll_def epoll_defs event_defs event_or_def event_or_assign_def)
  have wake: "(7 :: u64) \<noteq> WAKE_TOKEN" by (simp add: WAKE_TOKEN_def)
  show ?thesis
    using reactor_wait_spec [OF _ call] by (simp add: rd ev wake)
qed

theorem wait_timeout_truncates_witness:
  "sint (wait_timeout 1000) = 1000 \<and> wait_timeout (- 5) = - 1"
  using wait_timeout_truncates [of 1000, THEN conjunct1] wait_timeout_truncates [of "- 5", THEN conjunct2, THEN conjunct1]
  by simp

end
