(* ===== verification/Executor.thy ===== *)
theory Executor
  imports Stop_Token Reactor
begin

text \<open>
  The single-threaded executor and its bridge to the reactor, \<^verbatim>\<open>include/sap_core/async/executor.h\<close> and
  \<^verbatim>\<open>src/async/executor.cpp\<close>. An \<^verbatim>\<open>IoAwaiter\<close> lives at an address, which is its reactor token; its
  \<^verbatim>\<open>m_cb_node\<close> is the node of the stop list at the same address. A coroutine handle is a number; what a
  coroutine does when it is resumed is a parameter of the run loop.
\<close>

section \<open>State\<close>

type_synonym coro = nat

record io_awaiter =
  m_handle :: fd
  m_interest :: event
  m_fired :: event
  m_continuation :: "coro option"
  m_token :: bool
  m_add_error :: string \<comment> \<open>\<^verbatim>\<open>fixed_string<127>\<close>, by its text\<close>
  m_cancelled :: bool
  m_queued :: bool
  m_registered :: bool

record 'k executor =
  ex_kernel :: 'k
  m_reactor :: reactor
  m_ready :: "coro list"
  m_pending_io :: size_t
  m_running :: bool
  awaiters :: "u64 \<Rightarrow> io_awaiter option"

text \<open>The callback registered for cancellation is \<^verbatim>\<open>on_cancel\<close> with the awaiter's address.\<close>

type_synonym 'k exec_sys = "(u64, 'k executor) stop_sys"

abbreviation cb_node :: "u64 \<Rightarrow> addr" where
  "cb_node a \<equiv> unat a"

definition awaiter_at :: "'k exec_sys \<Rightarrow> u64 \<Rightarrow> io_awaiter outcome" where
  "awaiter_at s a = (case awaiters (world s) a of Some w \<Rightarrow> Inr w | None \<Rightarrow> Inl Dead_Object)"

definition put_awaiter :: "u64 \<Rightarrow> io_awaiter \<Rightarrow> 'k exec_sys \<Rightarrow> 'k exec_sys" where
  "put_awaiter a w s = world_update (\<lambda>x. x\<lparr>awaiters := (awaiters x)(a \<mapsto> w)\<rparr>) s"

definition push_ready :: "coro \<Rightarrow> 'k exec_sys \<Rightarrow> 'k exec_sys" where
  "push_ready h s = world_update (\<lambda>x. x\<lparr>m_ready := m_ready x @ [h]\<rparr>) s"

section \<open>Executor\<close>

definition executor_create :: "'k kernel \<Rightarrow> 'k \<Rightarrow> 'k executor reactor_result \<times> 'k" where
  "executor_create K k =
     (case reactor_create K k of
        (Inl e, k') \<Rightarrow> (Inl (''Reactor::create failed: '' @ e), k')
      | (Inr r, k') \<Rightarrow>
          (Inr \<lparr>ex_kernel = k', m_reactor = fst (reactor_move r), m_ready = [], m_pending_io = 0, m_running = False,
                awaiters = Map.empty\<rparr>, k'))"

definition executor_move :: "'k executor \<Rightarrow> 'k executor \<times> 'k executor" where
  "executor_move x =
     (let (r, old) = reactor_move (m_reactor x)
      in (x\<lparr>m_reactor := r\<rparr>, x\<lparr>m_reactor := old, m_ready := []\<rparr>))"

definition executor_move_assign :: "'k kernel \<Rightarrow> bool \<Rightarrow> 'k executor \<Rightarrow> 'k executor \<Rightarrow> 'k executor \<times> 'k executor" where
  "executor_move_assign K same x src =
     (if same then (x, x)
      else (let (r, old, k) = reactor_move_assign K (ex_kernel x) False (m_reactor x) (m_reactor src)
            in (x\<lparr>ex_kernel := k, m_reactor := r, m_ready := m_ready src, m_pending_io := m_pending_io src,
                   m_running := m_running src\<rparr>,
                src\<lparr>ex_kernel := k, m_reactor := old, m_ready := []\<rparr>)))"

definition schedule :: "coro \<Rightarrow> 'k exec_sys \<Rightarrow> 'k exec_sys" where
  "schedule h s = push_ready h s"

definition executor_stop :: "'k kernel \<Rightarrow> 'k exec_sys \<Rightarrow> 'k exec_sys" where
  "executor_stop K s =
     world_update (\<lambda>x. x\<lparr>m_running := False, ex_kernel := reactor_wake K (ex_kernel x) (m_reactor x)\<rparr>) s"

section \<open>IoAwaiter\<close>

definition io_awaiter_make :: "'k exec_sys \<Rightarrow> u64 \<Rightarrow> fd \<Rightarrow> event \<Rightarrow> bool \<Rightarrow> 'k exec_sys" where
  "io_awaiter_make s a handle interest tok =
     put_awaiter a \<lparr>m_handle = handle, m_interest = interest, m_fired = Event_None, m_continuation = None, m_token = tok,
       m_add_error = [], m_cancelled = False, m_queued = False, m_registered = False\<rparr> (node_construct s (cb_node a))"

text \<open>The implicit destructor: that of \<^verbatim>\<open>m_cb_node\<close> unlinks the node; nothing touches the reactor.\<close>

definition io_awaiter_destroy :: "'k exec_sys \<Rightarrow> u64 \<Rightarrow> 'k exec_sys outcome" where
  "io_awaiter_destroy s a =
     out_bind (node_destroy s (cb_node a)) (\<lambda>s'.
     Inr (world_update (\<lambda>x. x\<lparr>awaiters := (awaiters x)(a := None)\<rparr>) s'))"

definition await_ready :: "'k exec_sys \<Rightarrow> u64 \<Rightarrow> bool outcome" where
  "await_ready s a =
     out_bind (awaiter_at s a) (\<lambda>w. Inr (token_stop_possible (m_token w) \<and> token_stop_requested (m_token w) s))"

text \<open>The common statements of \<^verbatim>\<open>await_resume\<close> and \<^verbatim>\<open>on_cancel\<close>: leave the reactor if registered.\<close>

definition deregister :: "'k kernel \<Rightarrow> u64 \<Rightarrow> io_awaiter \<Rightarrow> 'k exec_sys \<Rightarrow> 'k exec_sys" where
  "deregister K a w s =
     (if m_registered w
      then (let (_, k) = reactor_remove K (ex_kernel (world s)) (m_reactor (world s)) (m_handle w)
            in put_awaiter a (w\<lparr>m_registered := False\<rparr>)
                 (world_update (\<lambda>x. x\<lparr>ex_kernel := k, m_pending_io := m_pending_io x - 1\<rparr>) s))
      else s)"

definition on_cancel :: "'k kernel \<Rightarrow> u64 \<Rightarrow> 'k exec_sys \<Rightarrow> 'k exec_sys outcome" where
  "on_cancel K a s =
     out_bind (awaiter_at s a) (\<lambda>w.
     if m_cancelled w then Inr s
     else (let w1 = w\<lparr>m_cancelled := True\<rparr>;
               s2 = deregister K a w1 (put_awaiter a w1 s)
           in out_bind (awaiter_at s2 a) (\<lambda>w2.
              case m_continuation w2 of
                Some h \<Rightarrow> if m_queued w2 then Inr s2 else Inr (push_ready h (put_awaiter a (w2\<lparr>m_queued := True\<rparr>) s2))
              | None \<Rightarrow> Inr s2)))"

definition await_suspend :: "'k kernel \<Rightarrow> u64 \<Rightarrow> coro \<Rightarrow> 'k exec_sys \<Rightarrow> 'k exec_sys outcome" where
  "await_suspend K a h s =
     out_bind (awaiter_at s a) (\<lambda>w0.
     let w = w0\<lparr>m_continuation := Some h\<rparr>;
         (r, k) = reactor_add K (ex_kernel (world s)) (m_reactor (world s)) (m_handle w) (m_interest w) a;
         s1 = world_update (\<lambda>x. x\<lparr>ex_kernel := k\<rparr>) s
     in case r of
          Inl err \<Rightarrow>
            Inr (push_ready h (put_awaiter a (w\<lparr>m_add_error := take (if length err > 127 then 127 else length err) err, m_queued := True\<rparr>) s1))
        | Inr _ \<Rightarrow>
            (let s2 = world_update (\<lambda>x. x\<lparr>m_pending_io := m_pending_io x + 1\<rparr>) (put_awaiter a (w\<lparr>m_registered := True\<rparr>) s1)
             in if token_stop_possible (m_token w)
                then out_bind (token_arm (on_cancel K) (m_token w) s2 (cb_node a) (Some a)) (\<lambda>(_, s3). Inr s3)
                else Inr s2))"

definition await_resume :: "'k kernel \<Rightarrow> u64 \<Rightarrow> 'k exec_sys \<Rightarrow> (u32 reactor_result \<times> 'k exec_sys) outcome" where
  "await_resume K a s =
     out_bind (awaiter_at s a) (\<lambda>w.
     let cancelled = (m_cancelled w \<or> (token_stop_possible (m_token w) \<and> token_stop_requested (m_token w) s));
         s1 = deregister K a w s
     in if m_add_error w \<noteq> [] then Inr (Inl (''reactor: '' @ takeWhile (\<lambda>c. c \<noteq> CHR 0x00) (m_add_error w)), s1)
        else if cancelled then Inr (Inl ''cancelled'', s1)
        else Inr (Inr 0, s1))"

section \<open>The run loop\<close>

text \<open>The loop over the triggers of one wait.\<close>

fun dispatch :: "trigger list \<Rightarrow> 'k exec_sys \<Rightarrow> 'k exec_sys outcome" where
  "dispatch [] s = Inr s"
| "dispatch (t # ts) s =
     out_bind (awaiter_at s (tr_user_token t)) (\<lambda>w.
     let w1 = w\<lparr>m_fired := tr_events t\<rparr>;
         s1 = put_awaiter (tr_user_token t) w1 s
     in if m_queued w1 then dispatch ts s1
        else (case m_continuation w1 of
                None \<Rightarrow> Inl Null_Deref \<comment> \<open>a null handle would be resumed\<close>
              | Some h \<Rightarrow> dispatch ts (push_ready h (put_awaiter (tr_user_token t) (w1\<lparr>m_queued := True\<rparr>) s1))))"

text \<open>
  \<open>resume h\<close> runs the coroutine up to its next suspension (\<^term>\<open>None\<close>: it never suspends), \<open>is_done\<close> is
  \<^verbatim>\<open>coroutine_handle::done\<close>. The inner loop tells whether \<^verbatim>\<open>run_until\<close> returns from inside it.
\<close>

definition target_done :: "(coro \<Rightarrow> 'k exec_sys \<Rightarrow> bool) \<Rightarrow> coro option \<Rightarrow> 'k exec_sys \<Rightarrow> bool" where
  "target_done is_done target s = (case target of None \<Rightarrow> False | Some t \<Rightarrow> is_done t s)"

partial_function (option) drain_ready ::
  "(coro \<Rightarrow> 'k exec_sys \<Rightarrow> 'k exec_sys outcome option) \<Rightarrow> (coro \<Rightarrow> 'k exec_sys \<Rightarrow> bool) \<Rightarrow> coro option \<Rightarrow> 'k exec_sys
     \<Rightarrow> (bool \<times> 'k exec_sys) outcome option" where
  "drain_ready resume is_done target s =
     (case m_ready (world s) of
        [] \<Rightarrow> Some (Inr (False, s))
      | h # hs \<Rightarrow>
          if \<not> m_running (world s) then Some (Inr (False, s))
          else Option.bind (resume h (world_update (\<lambda>x. x\<lparr>m_ready := hs\<rparr>) s)) (\<lambda>res.
               case res of
                 Inl e \<Rightarrow> Some (Inl e)
               | Inr s' \<Rightarrow> if target_done is_done target s' then Some (Inr (True, s')) else drain_ready resume is_done target s'))"

definition wait_and_dispatch :: "'k kernel \<Rightarrow> 'k exec_sys \<Rightarrow> (bool \<times> 'k exec_sys) outcome" where
  "wait_and_dispatch K s =
     out_bind (reactor_wait K (ex_kernel (world s)) (m_reactor (world s)) MAX_EVENTS_PER_WAIT (- 1)) (\<lambda>(n, k).
     let s1 = world_update (\<lambda>x. x\<lparr>ex_kernel := k\<rparr>) s
     in case n of
          Inl _ \<Rightarrow> Inr (False, world_update (\<lambda>x. x\<lparr>m_running := False\<rparr>) s1)
        | Inr ts \<Rightarrow> out_bind (dispatch ts s1) (\<lambda>s2. Inr (True, s2)))"

partial_function (option) run_loop ::
  "'k kernel \<Rightarrow> (coro \<Rightarrow> 'k exec_sys \<Rightarrow> 'k exec_sys outcome option) \<Rightarrow> (coro \<Rightarrow> 'k exec_sys \<Rightarrow> bool) \<Rightarrow> coro option \<Rightarrow> 'k exec_sys
     \<Rightarrow> 'k exec_sys outcome option" where
  "run_loop K resume is_done target s =
     (if \<not> m_running (world s) then Some (Inr s)
      else if target_done is_done target s then Some (Inr s)
      else Option.bind (drain_ready resume is_done target s) (\<lambda>res.
        case res of
          Inl e \<Rightarrow> Some (Inl e)
        | Inr (returned, s1) \<Rightarrow>
            if returned then Some (Inr s1)
            else if \<not> m_running (world s1) then Some (Inr s1)
            else if m_pending_io (world s1) = 0 \<and> m_ready (world s1) = [] then Some (Inr s1)
            else (case wait_and_dispatch K s1 of
                    Inl e \<Rightarrow> Some (Inl e)
                  | Inr (ok, s2) \<Rightarrow> if ok then run_loop K resume is_done target s2 else Some (Inr s2))))"

definition run_until ::
  "'k kernel \<Rightarrow> (coro \<Rightarrow> 'k exec_sys \<Rightarrow> 'k exec_sys outcome option) \<Rightarrow> (coro \<Rightarrow> 'k exec_sys \<Rightarrow> bool) \<Rightarrow> coro option \<Rightarrow> 'k exec_sys
     \<Rightarrow> 'k exec_sys outcome option" where
  "run_until K resume is_done target s =
     run_loop K resume is_done target (world_update (\<lambda>x. x\<lparr>m_running := True\<rparr>) s)"

definition executor_run ::
  "'k kernel \<Rightarrow> (coro \<Rightarrow> 'k exec_sys \<Rightarrow> 'k exec_sys outcome option) \<Rightarrow> (coro \<Rightarrow> 'k exec_sys \<Rightarrow> bool) \<Rightarrow> 'k exec_sys
     \<Rightarrow> 'k exec_sys outcome option" where
  "executor_run K resume is_done s = run_until K resume is_done None s"

section \<open>The kernel's interest list\<close>

text \<open>
  What the code relies on of \<^verbatim>\<open>epoll\<close>: \<open>interest k ep\<close> is the interest list of the instance \<open>ep\<close>, from
  descriptors to tokens. A new instance has none, adding fails on a descriptor already present, deleting
  removes it, and a wait reports only tokens of the list, at most as many as asked for.
\<close>

definition epoll_contract :: "'k kernel \<Rightarrow> ('k \<Rightarrow> fd \<Rightarrow> fd \<Rightarrow> u64 option) \<Rightarrow> bool" where
  "epoll_contract K interest \<longleftrightarrow>
     (\<forall>k ep k'. sys_epoll_create K k = (ep, k') \<longrightarrow> 0 \<le> ep \<longrightarrow> interest k' = (interest k)(ep := Map.empty)) \<and>
     (\<forall>k. interest (snd (sys_eventfd K k)) = interest k) \<and>
     (\<forall>k ep fd ev tok rc k'. sys_epoll_add K k ep fd ev tok = (rc, k') \<longrightarrow>
        (if rc < 0 then interest k' = interest k
         else interest k ep fd = None \<and> interest k' = (interest k)(ep := (interest k ep)(fd \<mapsto> tok)))) \<and>
     (\<forall>k ep fd. interest (snd (sys_epoll_del K k ep fd)) = (interest k)(ep := (interest k ep)(fd := None))) \<and>
     (\<forall>k ep m t n evs k'. sys_epoll_wait K k ep m t = (n, evs, k') \<longrightarrow>
        interest k' = interest k \<and> n \<le> int m \<and> n \<le> int (length evs) \<and>
        (\<forall>e \<in> set (take (nat n) evs). snd e \<in> ran (interest k ep))) \<and>
     (\<forall>k fd. interest (sys_read8 K k fd) = interest k) \<and>
     (\<forall>k fd v. interest (sys_write8 K k fd v) = interest k)"

lemma epoll_contract_simps:
  assumes "epoll_contract K interest"
  shows "interest (snd (sys_eventfd K k)) = interest k"
    and "interest (snd (sys_epoll_del K k ep fd)) = (interest k)(ep := (interest k ep)(fd := None))"
    and "interest (sys_read8 K k fd) = interest k"
    and "interest (sys_write8 K k fd v) = interest k"
  using assms by (simp_all add: epoll_contract_def)

lemma epoll_contract_add:
  assumes "epoll_contract K interest" and "sys_epoll_add K k ep fd ev tok = (rc, k')"
  shows "rc < 0 \<Longrightarrow> interest k' = interest k" and "0 \<le> rc \<Longrightarrow> interest k ep fd = None"
    and "0 \<le> rc \<Longrightarrow> interest k' = (interest k)(ep := (interest k ep)(fd \<mapsto> tok))"
proof -
  have "\<forall>k ep fd ev tok rc k'. sys_epoll_add K k ep fd ev tok = (rc, k') \<longrightarrow>
        (if rc < 0 then interest k' = interest k
         else interest k ep fd = None \<and> interest k' = (interest k)(ep := (interest k ep)(fd \<mapsto> tok)))"
    using assms(1) unfolding epoll_contract_def by (elim conjE)
  with assms(2) have "if rc < 0 then interest k' = interest k
         else interest k ep fd = None \<and> interest k' = (interest k)(ep := (interest k ep)(fd \<mapsto> tok))" by blast
  then show "rc < 0 \<Longrightarrow> interest k' = interest k" "0 \<le> rc \<Longrightarrow> interest k ep fd = None"
    "0 \<le> rc \<Longrightarrow> interest k' = (interest k)(ep := (interest k ep)(fd \<mapsto> tok))" by simp_all
qed

lemma epoll_contract_wait:
  assumes "epoll_contract K interest" and "sys_epoll_wait K k ep m t = (n, evs, k')"
  shows "interest k' = interest k \<and> n \<le> int m \<and> n \<le> int (length evs) \<and>
         (\<forall>e \<in> set (take (nat n) evs). snd e \<in> ran (interest k ep))"
proof -
  have "\<forall>k ep m t n evs k'. sys_epoll_wait K k ep m t = (n, evs, k') \<longrightarrow>
        interest k' = interest k \<and> n \<le> int m \<and> n \<le> int (length evs) \<and>
        (\<forall>e \<in> set (take (nat n) evs). snd e \<in> ran (interest k ep))"
    using assms(1) unfolding epoll_contract_def by (elim conjE)
  with assms(2) show ?thesis by blast
qed

text \<open>A new reactor watches its wake-up descriptor and nothing else.\<close>

lemma reactor_create_interest:
  assumes c: "epoll_contract K interest" and r: "reactor_create K k = (Inr r, k')"
  shows "0 \<le> m_epoll_fd r" "interest k' (m_epoll_fd r) = [m_wake_fd r \<mapsto> WAKE_TOKEN]"
proof -
  obtain ep k1 where ep: "sys_epoll_create K k = (ep, k1)" by force
  obtain wfd k2 where wfd: "sys_eventfd K k1 = (wfd, k2)" by force
  obtain rc k3 where add: "sys_epoll_add K k2 ep wfd EPOLLIN WAKE_TOKEN = (rc, k3)" by force
  have ok: "0 \<le> ep" "0 \<le> rc" and rk: "r = \<lparr>m_epoll_fd = ep, m_wake_fd = wfd\<rparr>" "k' = k3"
    using r by (auto simp: reactor_create_def ep wfd add Let_def split: if_splits)
  have "\<forall>k ep k'. sys_epoll_create K k = (ep, k') \<longrightarrow> 0 \<le> ep \<longrightarrow> interest k' = (interest k)(ep := Map.empty)"
    using c unfolding epoll_contract_def by (elim conjE)
  then have i1: "interest k1 = (interest k)(ep := Map.empty)" using ep ok(1) by blast
  have i2: "interest k2 = interest k1" using epoll_contract_simps(1) [OF c, of k1] wfd by simp
  have i3: "interest k3 = (interest k2)(ep := (interest k2 ep)(wfd \<mapsto> WAKE_TOKEN))"
    by (rule epoll_contract_add(3) [OF c add ok(2)])
  show "0 \<le> m_epoll_fd r" "interest k' (m_epoll_fd r) = [m_wake_fd r \<mapsto> WAKE_TOKEN]" by (simp_all add: rk ok i1 i2 i3)
qed

section \<open>Invariants\<close>

definition registered_set :: "'k executor \<Rightarrow> u64 set" where
  "registered_set x = {a. \<exists>w. awaiters x a = Some w \<and> m_registered w}"

text \<open>
  The reactor's interest list holds the wake-up descriptor and the registered awaiters, each under its own
  address, and \<^verbatim>\<open>m_pending_io\<close> counts them. No awaiter lives at the wake-up token.
\<close>

definition io_inv :: "('k \<Rightarrow> fd \<Rightarrow> fd \<Rightarrow> u64 option) \<Rightarrow> 'k executor \<Rightarrow> bool" where
  "io_inv interest x \<longleftrightarrow>
     (\<forall>fd tok. interest (ex_kernel x) (m_epoll_fd (m_reactor x)) fd = Some tok \<longleftrightarrow>
        fd = m_wake_fd (m_reactor x) \<and> tok = WAKE_TOKEN
        \<or> (\<exists>w. awaiters x tok = Some w \<and> m_registered w \<and> m_handle w = fd)) \<and>
     awaiters x WAKE_TOKEN = None \<and> m_pending_io x = of_nat (card (registered_set x))"

text \<open>
  \<open>parked a = Some h\<close>: the coroutine \<open>h\<close> is suspended at the awaiter \<open>a\<close>. It is registered or queued, and it is
  in the ready queue once if queued and not at all otherwise. Of the other awaiters none is registered,
  and one is marked queued just when it was suspended before.
\<close>

definition park_inv :: "'k executor \<Rightarrow> (u64 \<rightharpoonup> coro) \<Rightarrow> bool" where
  "park_inv x parked \<longleftrightarrow>
     (\<forall>a h. parked a = Some h \<longrightarrow>
        (\<exists>w. awaiters x a = Some w \<and> m_continuation w = Some h \<and> (m_registered w \<or> m_queued w) \<and>
             count_list (m_ready x) h = (if m_queued w then 1 else 0))) \<and>
     (\<forall>a b h. parked a = Some h \<longrightarrow> parked b = Some h \<longrightarrow> a = b) \<and>
     (\<forall>a w. awaiters x a = Some w \<longrightarrow> parked a = None \<longrightarrow>
        \<not> m_registered w \<and> (m_queued w \<longleftrightarrow> m_continuation w \<noteq> None))"

lemma park_invD:
  assumes "park_inv x parked"
  shows "parked a = Some h \<Longrightarrow> \<exists>w. awaiters x a = Some w \<and> m_continuation w = Some h \<and> (m_registered w \<or> m_queued w) \<and>
             count_list (m_ready x) h = (if m_queued w then 1 else 0)"
    and "parked a = Some h \<Longrightarrow> parked b = Some h \<Longrightarrow> a = b"
    and "awaiters x a = Some w \<Longrightarrow> parked a = None \<Longrightarrow> \<not> m_registered w \<and> (m_queued w \<longleftrightarrow> m_continuation w \<noteq> None)"
  using assms unfolding park_inv_def by blast+

lemma park_inv_update:
  assumes inv: "park_inv x parked" and w: "awaiters x a = Some w" and x': "awaiters x' = (awaiters x)(a \<mapsto> w')" "m_ready x' = m_ready x"
    and keep: "m_continuation w' = m_continuation w" "m_queued w' = m_queued w" "m_registered w' \<Longrightarrow> m_registered w"
      "m_queued w \<or> m_registered w' = m_registered w"
  shows "park_inv x' parked"
  unfolding park_inv_def
proof (intro conjI allI impI)
  fix b h assume b: "parked b = Some h"
  show "\<exists>w. awaiters x' b = Some w \<and> m_continuation w = Some h \<and> (m_registered w \<or> m_queued w) \<and>
      count_list (m_ready x') h = (if m_queued w then 1 else 0)"
    using park_invD(1) [OF inv b] w keep by (cases "b = a") (auto simp: x')
next
  fix b c h assume "parked b = Some h" "parked c = Some h"
  then show "b = c" by (rule park_invD(2) [OF inv])
next
  fix b u assume u: "awaiters x' b = Some u" and b: "parked b = None"
  show "\<not> m_registered u" "m_queued u \<longleftrightarrow> m_continuation u \<noteq> None"
    using park_invD(3) [OF inv _ b] u w keep by (cases "b = a"; auto simp: x')+
qed

lemma park_inv_enqueue:
  assumes inv: "park_inv x parked" and w: "awaiters x a = Some w" "m_continuation w = Some h" "\<not> m_queued w"
    and x': "awaiters x' = (awaiters x)(a \<mapsto> w')" "m_ready x' = m_ready x @ [h]"
    and keep: "m_continuation w' = Some h" "m_queued w'"
  shows "park_inv x' parked"
proof -
  have a: "parked a = Some h"
  proof (cases "parked a")
    case None
    then show ?thesis using park_invD(3) [OF inv w(1)] w by simp
  next
    case (Some h')
    then show ?thesis using park_invD(1) [OF inv] w by fastforce
  qed
  have c0: "count_list (m_ready x) h = 0" using park_invD(1) [OF inv a] w by auto
  show ?thesis
    unfolding park_inv_def
  proof (intro conjI allI impI)
    fix b k assume b: "parked b = Some k"
    show "\<exists>w. awaiters x' b = Some w \<and> m_continuation w = Some k \<and> (m_registered w \<or> m_queued w) \<and>
        count_list (m_ready x') k = (if m_queued w then 1 else 0)"
    proof (cases "b = a")
      case True
      with a b have "k = h" by simp
      with True keep c0 show ?thesis by (simp add: x')
    next
      case False
      with park_invD(2) [OF inv a] b have "k \<noteq> h" by blast
      with False park_invD(1) [OF inv b] show ?thesis by (auto simp: x')
    qed
  next
    fix b c k assume "parked b = Some k" "parked c = Some k"
    then show "b = c" by (rule park_invD(2) [OF inv])
  next
    fix b u assume u: "awaiters x' b = Some u" and b: "parked b = None"
    with a have "b \<noteq> a" by auto
    with u have "awaiters x b = Some u" by (simp add: x')
    from park_invD(3) [OF inv this b] show "\<not> m_registered u" "m_queued u \<longleftrightarrow> m_continuation u \<noteq> None" by auto
  qed
qed

lemma io_inv_interest:
  assumes "io_inv interest x"
  shows "interest (ex_kernel x) (m_epoll_fd (m_reactor x)) fd = Some tok \<longleftrightarrow>
        fd = m_wake_fd (m_reactor x) \<and> tok = WAKE_TOKEN
        \<or> (\<exists>w. awaiters x tok = Some w \<and> m_registered w \<and> m_handle w = fd)"
  using assms by (simp add: io_inv_def)

lemma registered_set_upd:
  "awaiters x' = (awaiters x)(a \<mapsto> w') \<Longrightarrow>
     registered_set x' = (if m_registered w' then insert a (registered_set x) else registered_set x - {a})"
  by (auto simp: registered_set_def)

lemma io_inv_update:
  assumes inv: "io_inv interest x" and w: "awaiters x a = Some w"
    and x': "awaiters x' = (awaiters x)(a \<mapsto> w')" "interest (ex_kernel x') = interest (ex_kernel x)"
      "m_reactor x' = m_reactor x" "m_pending_io x' = m_pending_io x"
    and keep: "m_registered w' = m_registered w" "m_handle w' = m_handle w"
  shows "io_inv interest x'"
proof -
  have "registered_set x' = registered_set x"
    using w keep(1) by (auto simp: x'(1) registered_set_def)
  moreover have "(\<exists>u. awaiters x' tok = Some u \<and> m_registered u \<and> m_handle u = fd)
      \<longleftrightarrow> (\<exists>u. awaiters x tok = Some u \<and> m_registered u \<and> m_handle u = fd)" for tok fd
    using w keep by (auto simp: x'(1))
  moreover have "a \<noteq> WAKE_TOKEN" using inv w by (auto simp: io_inv_def)
  ultimately show ?thesis
    using inv by (simp add: io_inv_def x')
qed

lemma io_inv_deregister:
  assumes inv: "io_inv interest x" and w: "awaiters x a = Some w" "m_registered w"
    and x': "awaiters x' = (awaiters x)(a \<mapsto> w')" "m_reactor x' = m_reactor x" "m_pending_io x' = m_pending_io x - 1"
      "interest (ex_kernel x') = (interest (ex_kernel x))
         (m_epoll_fd (m_reactor x) := (interest (ex_kernel x) (m_epoll_fd (m_reactor x)))(m_handle w := None))"
    and keep: "\<not> m_registered w'"
  shows "io_inv interest x'"
proof -
  have a: "a \<in> registered_set x" "a \<noteq> WAKE_TOKEN" using w inv by (auto simp: registered_set_def io_inv_def)
  have set': "registered_set x' = registered_set x - {a}" using keep by (simp add: registered_set_upd [OF x'(1)])
  have pos: "0 < card (registered_set x)" using a by (auto simp: card_gt_0_iff)
  have "card (registered_set x') = card (registered_set x) - 1" using a by (simp add: set')
  then have pend: "m_pending_io x' = of_nat (card (registered_set x'))"
    using inv pos by (simp add: io_inv_def x'(3) of_nat_diff)
  have own: "interest (ex_kernel x) (m_epoll_fd (m_reactor x)) (m_handle w) = Some a"
    using w by (auto simp: io_inv_interest [OF inv])
  have "interest (ex_kernel x') (m_epoll_fd (m_reactor x')) fd = Some tok \<longleftrightarrow>
        fd = m_wake_fd (m_reactor x') \<and> tok = WAKE_TOKEN
        \<or> (\<exists>u. awaiters x' tok = Some u \<and> m_registered u \<and> m_handle u = fd)" for fd tok
  proof (cases "fd = m_handle w")
    case True
    have "\<not> (fd = m_wake_fd (m_reactor x) \<and> tok = WAKE_TOKEN)"
      "\<not> (\<exists>u. awaiters x' tok = Some u \<and> m_registered u \<and> m_handle u = fd)"
      using own a(2) keep True io_inv_interest [OF inv, of fd tok] by (auto simp: x'(1))
    then show ?thesis using True by (simp add: x')
  next
    case False
    then have "(\<exists>u. awaiters x' tok = Some u \<and> m_registered u \<and> m_handle u = fd)
        \<longleftrightarrow> (\<exists>u. awaiters x tok = Some u \<and> m_registered u \<and> m_handle u = fd)"
      using w keep by (auto simp: x'(1))
    with False show ?thesis by (simp add: x'(2,4) io_inv_interest [OF inv])
  qed
  then show ?thesis using pend a inv by (simp add: io_inv_def x'(1))
qed

lemma io_inv_register:
  assumes inv: "io_inv interest x" and w: "awaiters x a = Some w" "\<not> m_registered w"
    and free: "interest (ex_kernel x) (m_epoll_fd (m_reactor x)) (m_handle w) = None"
    and x': "awaiters x' = (awaiters x)(a \<mapsto> w')" "m_reactor x' = m_reactor x" "m_pending_io x' = m_pending_io x + 1"
      "interest (ex_kernel x') = (interest (ex_kernel x))
         (m_epoll_fd (m_reactor x) := (interest (ex_kernel x) (m_epoll_fd (m_reactor x)))(m_handle w \<mapsto> a))"
    and keep: "m_registered w'" "m_handle w' = m_handle w"
  shows "io_inv interest x'"
proof -
  have a: "a \<notin> registered_set x" "a \<noteq> WAKE_TOKEN" using w inv by (auto simp: registered_set_def io_inv_def)
  have set': "registered_set x' = insert a (registered_set x)" using keep by (simp add: registered_set_upd [OF x'(1)])
  have pend: "m_pending_io x' = of_nat (card (registered_set x'))"
    using inv a by (simp add: io_inv_def x'(3) set')
  have "interest (ex_kernel x') (m_epoll_fd (m_reactor x')) fd = Some tok \<longleftrightarrow>
        fd = m_wake_fd (m_reactor x') \<and> tok = WAKE_TOKEN
        \<or> (\<exists>u. awaiters x' tok = Some u \<and> m_registered u \<and> m_handle u = fd)" for fd tok
  proof (cases "fd = m_handle w")
    case True
    have "\<not> (fd = m_wake_fd (m_reactor x) \<and> tok = WAKE_TOKEN)"
      "\<not> (\<exists>u. awaiters x tok = Some u \<and> m_registered u \<and> m_handle u = fd)"
      using free True io_inv_interest [OF inv, of fd tok] by auto
    then have "(\<exists>u. awaiters x' tok = Some u \<and> m_registered u \<and> m_handle u = fd) \<longleftrightarrow> tok = a"
      using True keep by (auto simp: x'(1))
    with \<open>\<not> (fd = m_wake_fd (m_reactor x) \<and> tok = WAKE_TOKEN)\<close> show ?thesis using True by (auto simp: x'(2,4))
  next
    case False
    then have "(\<exists>u. awaiters x' tok = Some u \<and> m_registered u \<and> m_handle u = fd)
        \<longleftrightarrow> (\<exists>u. awaiters x tok = Some u \<and> m_registered u \<and> m_handle u = fd)"
      using w keep by (auto simp: x'(1))
    with False show ?thesis by (simp add: x'(2,4) io_inv_interest [OF inv])
  qed
  then show ?thesis using pend a inv by (simp add: io_inv_def x'(1))
qed

section \<open>Operations on the executor's state\<close>

lemma exec_sys_simps [simp]:
  "world (put_awaiter a w s) = (world s)\<lparr>awaiters := (awaiters (world s))(a \<mapsto> w)\<rparr>"
  "nodes (put_awaiter a w s) = nodes s" "stopped (put_awaiter a w s) = stopped s" "head (put_awaiter a w s) = head s"
  "world (push_ready h s) = (world s)\<lparr>m_ready := m_ready (world s) @ [h]\<rparr>"
  "nodes (push_ready h s) = nodes s" "stopped (push_ready h s) = stopped s" "head (push_ready h s) = head s"
  by (simp_all add: put_awaiter_def push_ready_def)

lemma world_update_fold: "world_update f (world_update g s) = world_update (\<lambda>x. f (g x)) s"
  by (cases s) simp

lemma awaiter_at_eq [simp]: "awaiters (world s) a = Some w \<Longrightarrow> awaiter_at s a = Inr w"
  by (simp add: awaiter_at_def)

definition dereg_world :: "'k kernel \<Rightarrow> u64 \<Rightarrow> io_awaiter \<Rightarrow> 'k executor \<Rightarrow> 'k executor" where
  "dereg_world K a w x =
     (if m_registered w
      then x\<lparr>ex_kernel := snd (sys_epoll_del K (ex_kernel x) (m_epoll_fd (m_reactor x)) (m_handle w)),
             m_pending_io := m_pending_io x - 1, awaiters := (awaiters x)(a \<mapsto> w\<lparr>m_registered := False\<rparr>)\<rparr>
      else x)"

lemma reactor_remove_kernel: "snd (reactor_remove K k r fd) = snd (sys_epoll_del K k (m_epoll_fd r) fd)"
  by (simp add: reactor_remove_def case_prod_beta Let_def)

lemma deregister_world: "deregister K a w s = world_update (dereg_world K a w) s"
  by (cases s) (simp add: deregister_def dereg_world_def put_awaiter_def case_prod_beta reactor_remove_kernel)

definition cancel_world :: "'k kernel \<Rightarrow> u64 \<Rightarrow> 'k executor \<Rightarrow> 'k executor" where
  "cancel_world K a x =
     (case awaiters x a of
        None \<Rightarrow> x
      | Some w \<Rightarrow>
          if m_cancelled w then x
          else (let y = dereg_world K a (w\<lparr>m_cancelled := True\<rparr>) (x\<lparr>awaiters := (awaiters x)(a \<mapsto> w\<lparr>m_cancelled := True\<rparr>)\<rparr>)
                in case m_continuation w of
                     None \<Rightarrow> y
                   | Some h \<Rightarrow>
                       if m_queued w then y
                       else y\<lparr>m_ready := m_ready y @ [h],
                              awaiters := (awaiters y)(a \<mapsto> w\<lparr>m_cancelled := True, m_registered := False, m_queued := True\<rparr>)\<rparr>))"

lemma dereg_world_awaiter:
  "awaiters x a = Some w \<Longrightarrow> awaiters (dereg_world K a w x) = (awaiters x)(a \<mapsto> w\<lparr>m_registered := False\<rparr>)"
  by (cases w) (auto simp: dereg_world_def fun_upd_idem)

lemma dereg_world_simps [simp]:
  "m_ready (dereg_world K a w x) = m_ready x" "m_reactor (dereg_world K a w x) = m_reactor x"
  "m_running (dereg_world K a w x) = m_running x"
  by (simp_all add: dereg_world_def)

lemma on_cancel_world:
  assumes "awaiters (world s) a = Some w"
  shows "on_cancel K a s = Inr (world_update (cancel_world K a) s)"
proof (cases "m_cancelled w")
  case True
  with assms show ?thesis by (cases s) (simp add: on_cancel_def cancel_world_def)
next
  case False
  let ?w = "w\<lparr>m_cancelled := True\<rparr>"
  let ?y = "dereg_world K a ?w ((world s)\<lparr>awaiters := (awaiters (world s))(a \<mapsto> ?w)\<rparr>)"
  have y: "awaiters ?y = (awaiters (world s))(a \<mapsto> ?w\<lparr>m_registered := False\<rparr>)"
    by (subst dereg_world_awaiter) simp_all
  have s2: "deregister K a ?w (put_awaiter a ?w s) = s\<lparr>world := ?y\<rparr>"
    by (cases s) (simp add: deregister_world put_awaiter_def)
  have at: "awaiter_at (s\<lparr>world := ?y\<rparr>) a = Inr (?w\<lparr>m_registered := False\<rparr>)" by (simp add: awaiter_at_def y)
  have "on_cancel K a s = (case m_continuation w of
      Some h \<Rightarrow> if m_queued w then Inr (s\<lparr>world := ?y\<rparr>)
                else Inr (push_ready h (put_awaiter a (?w\<lparr>m_registered := False, m_queued := True\<rparr>) (s\<lparr>world := ?y\<rparr>)))
    | None \<Rightarrow> Inr (s\<lparr>world := ?y\<rparr>))"
    using assms False by (cases "m_continuation w") (simp_all add: on_cancel_def s2 at Let_def del: exec_sys_simps)
  also have "\<dots> = Inr (s\<lparr>world := cancel_world K a (world s)\<rparr>)"
    using assms False by (cases "m_continuation w") (simp_all add: cancel_world_def push_ready_def put_awaiter_def Let_def)
  also have "\<dots> = Inr (world_update (cancel_world K a) s)" by (cases s) simp
  finally show ?thesis .
qed

lemma cancel_world_awaiters:
  assumes "awaiters x a = Some w" "\<not> m_cancelled w"
  shows "awaiters (cancel_world K a x) = (awaiters x)(a \<mapsto>
           w\<lparr>m_cancelled := True, m_registered := False, m_queued := m_queued w \<or> m_continuation w \<noteq> None\<rparr>)"
  using assms dereg_world_awaiter [of "x\<lparr>awaiters := (awaiters x)(a \<mapsto> w\<lparr>m_cancelled := True\<rparr>)\<rparr>" a "w\<lparr>m_cancelled := True\<rparr>" K]
  by (cases w) (auto simp: cancel_world_def Let_def split: option.split)

lemma dereg_world_io_inv:
  assumes c: "epoll_contract K interest" and inv: "io_inv interest x" and w: "awaiters x a = Some w"
  shows "io_inv interest (dereg_world K a w x)"
proof (cases "m_registered w")
  case True
  show ?thesis
    by (rule io_inv_deregister [OF inv w True, where w' = "w\<lparr>m_registered := False\<rparr>"])
      (use True in \<open>simp_all add: dereg_world_def epoll_contract_simps [OF c]\<close>)
qed (simp add: dereg_world_def inv)

lemma dereg_world_park_inv:
  assumes inv: "park_inv x parked" and w: "awaiters x a = Some w" "m_queued w"
  shows "park_inv (dereg_world K a w x) parked"
  by (rule park_inv_update [OF inv w(1) dereg_world_awaiter [OF w(1)]]) (use w in simp_all)

lemma cancel_world_inv:
  assumes c: "epoll_contract K interest" and io: "io_inv interest x" and pk: "park_inv x parked"
    and w: "awaiters x a = Some w" "m_continuation w \<noteq> None"
  shows "io_inv interest (cancel_world K a x)" and "park_inv (cancel_world K a x) parked"
proof -
  let ?w = "w\<lparr>m_cancelled := True\<rparr>"
  let ?x = "x\<lparr>awaiters := (awaiters x)(a \<mapsto> ?w)\<rparr>"
  let ?y = "dereg_world K a ?w ?x"
  obtain h where h: "m_continuation w = Some h" using w by auto
  have x1: "io_inv interest ?x" by (rule io_inv_update [OF io w(1), where w' = ?w]) simp_all
  have y1: "io_inv interest ?y" by (rule dereg_world_io_inv [OF c x1]) simp
  have ya: "awaiters ?y = (awaiters x)(a \<mapsto> ?w\<lparr>m_registered := False\<rparr>)" by (subst dereg_world_awaiter) simp_all
  let ?z = "?y\<lparr>m_ready := m_ready ?y @ [h], awaiters := (awaiters ?y)(a \<mapsto> w\<lparr>m_cancelled := True, m_registered := False, m_queued := True\<rparr>)\<rparr>"
  have eq: "cancel_world K a x = (if m_cancelled w then x else if m_queued w then ?y else ?z)"
    using w h by (simp add: cancel_world_def Let_def)
  have z1: "io_inv interest ?z"
    by (rule io_inv_update [OF y1, of a "?w\<lparr>m_registered := False\<rparr>" _ "w\<lparr>m_cancelled := True, m_registered := False, m_queued := True\<rparr>"])
      (simp_all add: ya)
  show "io_inv interest (cancel_world K a x)" using io y1 z1 by (simp add: eq)
  have "park_inv ?y parked" if "m_queued w"
    by (rule park_inv_update [OF pk w(1) ya]) (use that in simp_all)
  moreover have "park_inv ?z parked" if "\<not> m_queued w"
    by (rule park_inv_enqueue [OF pk w(1) h that, where w' = "w\<lparr>m_cancelled := True, m_registered := False, m_queued := True\<rparr>"])
      (simp_all add: ya h)
  ultimately show "park_inv (cancel_world K a x) parked" using pk by (simp add: eq)
qed

section \<open>The stop list\<close>

definition aw_frame :: "'k executor \<Rightarrow> 'k executor \<Rightarrow> bool" where
  "aw_frame x y \<longleftrightarrow>
     (\<forall>a. case awaiters x a of
            None \<Rightarrow> awaiters y a = None
          | Some w \<Rightarrow> (\<exists>w'. awaiters y a = Some w' \<and> m_continuation w' = m_continuation w \<and> m_cancelled w' = m_cancelled w \<and>
                             m_token w' = m_token w \<and> (m_registered w' \<longrightarrow> m_registered w)))"

lemma aw_frame_refl [simp]: "awaiters y = awaiters x \<Longrightarrow> aw_frame x y"
  by (simp add: aw_frame_def split: option.split)

lemma aw_frame_upd:
  "awaiters x a = Some w \<Longrightarrow> awaiters y = (awaiters x)(a \<mapsto> w') \<Longrightarrow> m_continuation w' = m_continuation w \<Longrightarrow>
   m_cancelled w' = m_cancelled w \<Longrightarrow> m_token w' = m_token w \<Longrightarrow> (m_registered w' \<Longrightarrow> m_registered w) \<Longrightarrow> aw_frame x y"
  by (auto simp: aw_frame_def split: option.split)

lemma aw_frame_trans:
  assumes "aw_frame x y" "aw_frame y z"
  shows "aw_frame x z"
  unfolding aw_frame_def
proof
  fix a
  show "case awaiters x a of None \<Rightarrow> awaiters z a = None
    | Some w \<Rightarrow> \<exists>w'. awaiters z a = Some w' \<and> m_continuation w' = m_continuation w \<and> m_cancelled w' = m_cancelled w \<and>
                      m_token w' = m_token w \<and> (m_registered w' \<longrightarrow> m_registered w)"
    using assms(1) [unfolded aw_frame_def, rule_format, of a] assms(2) [unfolded aw_frame_def, rule_format, of a]
    by (cases "awaiters x a"; cases "awaiters y a") auto
qed

text \<open>
  The armed nodes \<open>ps\<close> are those of suspended awaiters that were not cancelled; every registered awaiter with
  a token is among them; an awaiter and its node live at the same time.
\<close>

definition stop_part :: "'k exec_sys \<Rightarrow> (addr \<times> u64) list \<Rightarrow> bool" where
  "stop_part s ps \<longleftrightarrow> armed s ps \<and>
     (\<forall>n a. (n, a) \<in> set ps \<longrightarrow> n = cb_node a \<and>
        (\<exists>w. awaiters (world s) a = Some w \<and> m_continuation w \<noteq> None \<and> \<not> m_cancelled w)) \<and>
     (\<forall>a w. awaiters (world s) a = Some w \<longrightarrow> m_registered w \<longrightarrow> m_token w \<longrightarrow> (cb_node a, a) \<in> set ps) \<and>
     (\<forall>a w. awaiters (world s) a = Some w \<longrightarrow> m_cancelled w \<longrightarrow> m_continuation w \<noteq> None) \<and>
     (\<forall>a. nodes s (cb_node a) = None \<longleftrightarrow> awaiters (world s) a = None)"

lemma stop_partD:
  assumes "stop_part s ps"
  shows "armed s ps" and "(n, a) \<in> set ps \<Longrightarrow> n = cb_node a"
    and "(n, a) \<in> set ps \<Longrightarrow> \<exists>w. awaiters (world s) a = Some w \<and> m_continuation w \<noteq> None \<and> \<not> m_cancelled w"
    and "awaiters (world s) a = Some w \<Longrightarrow> m_registered w \<Longrightarrow> m_token w \<Longrightarrow> (cb_node a, a) \<in> set ps"
    and "awaiters (world s) a = Some w \<Longrightarrow> m_cancelled w \<Longrightarrow> m_continuation w \<noteq> None"
    and "nodes s (cb_node a) = None \<longleftrightarrow> awaiters (world s) a = None"
  using assms unfolding stop_part_def by blast+

lemma stop_partI:
  assumes "armed s ps" and "\<And>n a. (n, a) \<in> set ps \<Longrightarrow> n = cb_node a"
    and "\<And>n a. (n, a) \<in> set ps \<Longrightarrow> \<exists>w. awaiters (world s) a = Some w \<and> m_continuation w \<noteq> None \<and> \<not> m_cancelled w"
    and "\<And>a w. awaiters (world s) a = Some w \<Longrightarrow> m_registered w \<Longrightarrow> m_token w \<Longrightarrow> (cb_node a, a) \<in> set ps"
    and "\<And>a w. awaiters (world s) a = Some w \<Longrightarrow> m_cancelled w \<Longrightarrow> m_continuation w \<noteq> None"
    and "\<And>a. nodes s (cb_node a) = None \<longleftrightarrow> awaiters (world s) a = None"
  shows "stop_part s ps"
  unfolding stop_part_def using assms by (intro conjI allI impI) simp_all

lemma armed_world [simp]: "armed (world_update f s) ps = armed s ps"
  by (simp add: armed_def stop_inv_def)

lemma stop_part_world:
  assumes sp: "stop_part s ps" and fr: "aw_frame (world s) (f (world s))"
  shows "stop_part (world_update f s) ps"
proof (rule stop_partI)
  note fr' = fr [unfolded aw_frame_def, rule_format]
  show "armed (world_update f s) ps" using stop_partD(1) [OF sp] by simp
  show "n = cb_node a" if "(n, a) \<in> set ps" for n a using stop_partD(2) [OF sp that] .
  show "\<exists>w. awaiters (world (world_update f s)) a = Some w \<and> m_continuation w \<noteq> None \<and> \<not> m_cancelled w" if "(n, a) \<in> set ps" for n a
    using stop_partD(3) [OF sp that] fr' [of a] by fastforce
  show "(cb_node a, a) \<in> set ps" if "awaiters (world (world_update f s)) a = Some w" "m_registered w" "m_token w" for a w
    using stop_partD(4) [OF sp, of a] that fr' [of a] by (cases "awaiters (world s) a") auto
  show "m_continuation w \<noteq> None" if "awaiters (world (world_update f s)) a = Some w" "m_cancelled w" for a w
    using stop_partD(5) [OF sp, of a] that fr' [of a] by (cases "awaiters (world s) a") auto
  show "nodes (world_update f s) (cb_node a) = None \<longleftrightarrow> awaiters (world (world_update f s)) a = None" for a
    using stop_partD(6) [OF sp, of a] fr' [of a] by (cases "awaiters (world s) a") auto
qed

text \<open>An awaiter is suspended: nothing is armed, or its own node is.\<close>

lemma stop_part_park:
  assumes sp: "stop_part s ps" and w: "awaiters (world s) a = Some w" "m_continuation w = None"
    and s': "awaiters (world s') = (awaiters (world s))(a \<mapsto> w')" "dom (nodes s') = dom (nodes s)" "armed s' qs"
    and w': "m_continuation w' \<noteq> None" "\<not> m_cancelled w'"
    and qs: "qs = ps \<and> \<not> (m_registered w' \<and> m_token w') \<or> qs = (cb_node a, a) # ps"
  shows "stop_part s' qs"
proof (rule stop_partI)
  have notin: "(n, a) \<notin> set ps" for n using stop_partD(3) [OF sp, of n a] w by auto
  show "armed s' qs" by fact
  show "n = cb_node b" if "(n, b) \<in> set qs" for n b using stop_partD(2) [OF sp, of n b] that qs by auto
  show "\<exists>w. awaiters (world s') b = Some w \<and> m_continuation w \<noteq> None \<and> \<not> m_cancelled w" if "(n, b) \<in> set qs" for n b
    using stop_partD(3) [OF sp, of n b] that qs w' by (cases "b = a") (auto simp: s'(1))
  show "(cb_node b, b) \<in> set qs" if "awaiters (world s') b = Some u" "m_registered u" "m_token u" for b u
    using stop_partD(4) [OF sp, of b u] that qs by (cases "b = a") (auto simp: s'(1))
  show "m_continuation u \<noteq> None" if "awaiters (world s') b = Some u" "m_cancelled u" for b u
    using stop_partD(5) [OF sp, of b u] that w' by (cases "b = a") (auto simp: s'(1))
  show "nodes s' (cb_node b) = None \<longleftrightarrow> awaiters (world s') b = None" for b
  proof -
    have "nodes s' (cb_node b) = None \<longleftrightarrow> nodes s (cb_node b) = None" using s'(2) by blast
    then show ?thesis using stop_partD(6) [OF sp, of b] w(1) by (cases "b = a") (simp_all add: s'(1))
  qed
qed

text \<open>The invariant of the whole system.\<close>

definition ex_inv :: "('k \<Rightarrow> fd \<Rightarrow> fd \<Rightarrow> u64 option) \<Rightarrow> 'k exec_sys \<Rightarrow> (u64 \<rightharpoonup> coro) \<Rightarrow> bool" where
  "ex_inv interest s parked \<longleftrightarrow>
     io_inv interest (world s) \<and> park_inv (world s) parked \<and> (\<exists>ps. stop_part s ps \<and> (stopped s \<longrightarrow> ps = []))"

lemma ex_invI:
  "io_inv interest (world s) \<Longrightarrow> park_inv (world s) parked \<Longrightarrow> stop_part s ps \<Longrightarrow> (stopped s \<Longrightarrow> ps = []) \<Longrightarrow> ex_inv interest s parked"
  unfolding ex_inv_def by blast

lemma ex_inv_world:
  assumes "ex_inv interest s parked" and "io_inv interest (f (world s))" and "park_inv (f (world s)) parked'"
    and "aw_frame (world s) (f (world s))"
  shows "ex_inv interest (world_update f s) parked'"
proof -
  obtain ps where ps: "stop_part s ps" "stopped s \<longrightarrow> ps = []" using assms(1) unfolding ex_inv_def by blast
  from stop_part_world [where f = f, OF ps(1) assms(4)] show ?thesis using assms(2,3) ps(2) unfolding ex_inv_def by auto
qed

section \<open>Every operation keeps the invariant\<close>

lemma registered_parked:
  assumes "park_inv x parked" "awaiters x a = Some w" "m_registered w"
  shows "\<exists>h. parked a = Some h \<and> m_continuation w = Some h"
proof (cases "parked a")
  case None
  with park_invD(3) [OF assms(1,2)] assms(3) show ?thesis by simp
next
  case (Some h)
  with park_invD(1) [OF assms(1)] assms(2) show ?thesis by fastforce
qed

definition fire_trigger :: "trigger \<Rightarrow> 'k executor \<Rightarrow> 'k executor" where
  "fire_trigger t x =
     (case awaiters x (tr_user_token t) of
        None \<Rightarrow> x
      | Some w \<Rightarrow>
          (let y = x\<lparr>awaiters := (awaiters x)(tr_user_token t \<mapsto> w\<lparr>m_fired := tr_events t, m_queued := True\<rparr>)\<rparr>
           in if m_queued w then y
              else case m_continuation w of None \<Rightarrow> x | Some h \<Rightarrow> y\<lparr>m_ready := m_ready x @ [h]\<rparr>))"

lemma dispatch_Cons:
  assumes "awaiters (world s) (tr_user_token t) = Some w" "m_continuation w = Some h"
  shows "dispatch (t # ts) s = dispatch ts (world_update (fire_trigger t) s)"
proof -
  have q: "w\<lparr>m_fired := e, m_queued := True\<rparr> = w\<lparr>m_fired := e\<rparr>" if "m_queued w" for e using that by (cases w) simp
  show ?thesis
    using assms by (cases s) (auto simp: fire_trigger_def Let_def put_awaiter_def push_ready_def q awaiter_at_def)
qed

lemma fire_trigger_inv:
  assumes io: "io_inv interest x" and pk: "park_inv x parked" and w: "awaiters x (tr_user_token t) = Some w" "m_registered w"
  shows "io_inv interest (fire_trigger t x)" "park_inv (fire_trigger t x) parked" "aw_frame x (fire_trigger t x)"
    and "awaiters (fire_trigger t x) = (awaiters x)(tr_user_token t \<mapsto> w\<lparr>m_fired := tr_events t, m_queued := True\<rparr>)"
proof -
  let ?w = "w\<lparr>m_fired := tr_events t, m_queued := True\<rparr>"
  obtain h where h: "m_continuation w = Some h" using registered_parked [OF pk w] by blast
  show aw: "awaiters (fire_trigger t x) = (awaiters x)(tr_user_token t \<mapsto> ?w)"
    using w h by (simp add: fire_trigger_def Let_def)
  show "io_inv interest (fire_trigger t x)"
    by (rule io_inv_update [OF io w(1) aw]) (use w h in \<open>simp_all add: fire_trigger_def Let_def\<close>)
  show "aw_frame x (fire_trigger t x)"
    by (rule aw_frame_upd [OF w(1) aw]) simp_all
  show "park_inv (fire_trigger t x) parked"
  proof (cases "m_queued w")
    case True
    show ?thesis by (rule park_inv_update [OF pk w(1) aw]) (use True w h in \<open>simp_all add: fire_trigger_def Let_def\<close>)
  next
    case False
    show ?thesis by (rule park_inv_enqueue [OF pk w(1) h False aw]) (use False w h in \<open>simp_all add: fire_trigger_def Let_def\<close>)
  qed
qed

lemma dispatch_inv:
  assumes "ex_inv interest s parked" and "\<forall>t \<in> set ts. tr_user_token t \<in> registered_set (world s)"
  shows "\<exists>s'. dispatch ts s = Inr s' \<and> ex_inv interest s' parked \<and> registered_set (world s') = registered_set (world s)"
  using assms
proof (induction ts arbitrary: s)
  case (Cons t ts)
  have io: "io_inv interest (world s)" and pk: "park_inv (world s) parked" using Cons.prems(1) by (simp_all add: ex_inv_def)
  obtain w where w: "awaiters (world s) (tr_user_token t) = Some w" "m_registered w"
    using Cons.prems(2) by (auto simp: registered_set_def)
  obtain h where h: "m_continuation w = Some h" using registered_parked [OF pk w] by blast
  note ft = fire_trigger_inv [OF io pk w]
  let ?s = "world_update (fire_trigger t) s"
  have inv: "ex_inv interest ?s parked" by (rule ex_inv_world [where f = "fire_trigger t", OF Cons.prems(1) ft(1-3)])
  have reg: "registered_set (world ?s) = registered_set (world s)"
    using w by (auto simp: registered_set_def ft(4))
  obtain s' where "dispatch ts ?s = Inr s'" "ex_inv interest s' parked" "registered_set (world s') = registered_set (world ?s)"
    using Cons.IH [OF inv] Cons.prems(2) reg by auto
  then show ?case using dispatch_Cons [OF w(1) h] reg by auto
qed simp

lemma drain_wake_interest:
  assumes "epoll_contract K interest"
  shows "interest ((drain_wake K r ^^ n) k) = interest k"
  by (induction n) (simp_all add: epoll_contract_simps [OF assms])

lemma ex_inv_kernel:
  assumes "ex_inv interest s parked" "interest k = interest (ex_kernel (world s))"
  shows "ex_inv interest (world_update (\<lambda>x. x\<lparr>ex_kernel := k\<rparr>) s) parked"
    and "ex_inv interest (world_update (\<lambda>x. x\<lparr>ex_kernel := k, m_running := b\<rparr>) s) parked"
proof -
  have "io_inv interest ((world s)\<lparr>ex_kernel := k\<rparr>)" "park_inv ((world s)\<lparr>ex_kernel := k\<rparr>) parked"
    "io_inv interest ((world s)\<lparr>ex_kernel := k, m_running := b\<rparr>)" "park_inv ((world s)\<lparr>ex_kernel := k, m_running := b\<rparr>) parked"
    using assms unfolding ex_inv_def io_inv_def park_inv_def registered_set_def by simp_all
  then show "ex_inv interest (world_update (\<lambda>x. x\<lparr>ex_kernel := k\<rparr>) s) parked"
    "ex_inv interest (world_update (\<lambda>x. x\<lparr>ex_kernel := k, m_running := b\<rparr>) s) parked"
    by (auto intro!: ex_inv_world [OF assms(1)])
qed

lemma wait_result:
  assumes c: "epoll_contract K interest" and inv: "ex_inv interest s parked"
    and rw: "reactor_wait K (ex_kernel (world s)) (m_reactor (world s)) MAX_EVENTS_PER_WAIT (- 1) = Inr (Inr ts, k)"
  shows "ex_inv interest (world_update (\<lambda>x. x\<lparr>ex_kernel := k\<rparr>) s) parked"
    and "registered_set (world (world_update (\<lambda>x. x\<lparr>ex_kernel := k\<rparr>) s)) = registered_set (world s)"
    and "\<forall>t \<in> set ts. tr_user_token t \<in> registered_set (world s)"
proof -
  let ?x = "world s" let ?r = "m_reactor (world s)"
  obtain n evs k1 where w: "sys_epoll_wait K (ex_kernel ?x) (m_epoll_fd ?r) (min 64 64) (wait_timeout (- 1)) = (n, evs, k1)"
    by (metis prod_cases3)
  note cw = epoll_contract_wait [OF c w]
  let ?es = "take (nat n) evs"
  have "ts = [] \<and> k = k1 \<or> (ts = map trigger_of (filter (\<lambda>e. \<not> is_wake e) ?es) \<and>
      k = (drain_wake K ?r ^^ length (filter is_wake ?es)) k1)"
    using rw reactor_wait_eq [OF _ w] cw by (auto simp: MAX_EVENTS_PER_WAIT_def split: if_splits)
  then have k: "interest k = interest (ex_kernel ?x)" and ts: "set ts \<subseteq> trigger_of ` {e \<in> set ?es. \<not> is_wake e}"
    using cw drain_wake_interest [OF c] by auto
  show "ex_inv interest (world_update (\<lambda>x. x\<lparr>ex_kernel := k\<rparr>) s) parked" by (rule ex_inv_kernel(1) [OF inv k])
  show "registered_set (world (world_update (\<lambda>x. x\<lparr>ex_kernel := k\<rparr>) s)) = registered_set ?x" by (simp add: registered_set_def)
  have io: "io_inv interest ?x" using inv by (simp add: ex_inv_def)
  show "\<forall>t \<in> set ts. tr_user_token t \<in> registered_set ?x"
  proof
    fix t assume "t \<in> set ts"
    then obtain e where e: "e \<in> set ?es" "\<not> is_wake e" "t = trigger_of e" using ts by blast
    then obtain fd where "interest (ex_kernel ?x) (m_epoll_fd ?r) fd = Some (snd e)" using cw by (auto simp: ran_def)
    with e io_inv_interest [OF io] show "tr_user_token t \<in> registered_set ?x" by (auto simp: registered_set_def trigger_of_def)
  qed
qed

lemma wait_error:
  assumes c: "epoll_contract K interest"
    and rw: "reactor_wait K k r MAX_EVENTS_PER_WAIT (- 1) = res"
  shows "\<exists>n k1. res = Inr (n, k1) \<and> (\<forall>e. n = Inl e \<longrightarrow> interest k1 = interest k)"
proof -
  obtain n evs k1 where w: "sys_epoll_wait K k (m_epoll_fd r) (min 64 64) (wait_timeout (- 1)) = (n, evs, k1)"
    by (metis prod_cases3)
  show ?thesis
    using rw reactor_wait_eq [OF _ w] epoll_contract_wait [OF c w] by (auto simp: MAX_EVENTS_PER_WAIT_def)
qed

lemma wait_and_dispatch_inv:
  assumes c: "epoll_contract K interest" and inv: "ex_inv interest s parked"
  shows "\<exists>b s'. wait_and_dispatch K s = Inr (b, s') \<and> ex_inv interest s' parked"
proof -
  obtain n k where n: "reactor_wait K (ex_kernel (world s)) (m_reactor (world s)) MAX_EVENTS_PER_WAIT (- 1) = Inr (n, k)"
      "\<And>e. n = Inl e \<Longrightarrow> interest k = interest (ex_kernel (world s))"
    using wait_error [OF c refl] by metis
  show ?thesis
  proof (cases n)
    case (Inl e)
    then show ?thesis
      using n(1) ex_inv_kernel(2) [OF inv n(2) [OF Inl], of False] by (cases s) (auto simp: wait_and_dispatch_def)
  next
    case (Inr ts)
    note wr = wait_result [OF c inv n(1) [unfolded Inr]]
    obtain s' where "dispatch ts (world_update (\<lambda>x. x\<lparr>ex_kernel := k\<rparr>) s) = Inr s'" "ex_inv interest s' parked"
      using dispatch_inv [OF wr(1), of ts] wr(2,3) by auto
    then show ?thesis using n(1) Inr by (intro exI [of _ True] exI [of _ s']) (simp add: wait_and_dispatch_def)
  qed
qed

definition cancelled_awaiter :: "io_awaiter \<Rightarrow> io_awaiter" where
  "cancelled_awaiter w = w\<lparr>m_cancelled := True, m_registered := False, m_queued := True\<rparr>"

lemma fold_cancel_awaiters:
  assumes "distinct as" and "\<And>a. a \<in> set as \<Longrightarrow> \<exists>w. awaiters x a = Some w \<and> m_continuation w \<noteq> None \<and> \<not> m_cancelled w"
  shows "awaiters (fold (cancel_world K) as x) b =
           (if b \<in> set as then map_option cancelled_awaiter (awaiters x b) else awaiters x b)"
  using assms
proof (induction as arbitrary: x)
  case (Cons a as)
  obtain w where w: "awaiters x a = Some w" "m_continuation w \<noteq> None" "\<not> m_cancelled w"
    using Cons.prems(2) [of a] by (metis list.set_intros(1))
  have aw: "awaiters (cancel_world K a x) = (awaiters x)(a \<mapsto> cancelled_awaiter w)"
    using cancel_world_awaiters [OF w(1,3), of K] w(2) by (simp add: cancelled_awaiter_def)
  have "\<exists>w. awaiters (cancel_world K a x) c = Some w \<and> m_continuation w \<noteq> None \<and> \<not> m_cancelled w" if "c \<in> set as" for c
    using Cons.prems that by (auto simp: aw)
  with Cons.IH [of "cancel_world K a x"] Cons.prems(1) w show ?case by (auto simp: aw)
qed simp

lemma request_stop_inv:
  assumes c: "epoll_contract K interest" and inv: "ex_inv interest s parked"
  shows "\<exists>b s'. request_stop (on_cancel K) s = Some (Inr (b, s')) \<and> ex_inv interest s' parked \<and> stopped s' \<and>
     (if stopped s then s' = s else (\<exists>ps. stop_part s ps \<and> world s' = fold (cancel_world K) (map snd ps) (world s) \<and> (\<forall>a. awaiters (world s') a =
        (if (cb_node a, a) \<in> set ps then map_option cancelled_awaiter (awaiters (world s) a) else awaiters (world s) a))))"
proof (cases "stopped s")
  case True
  then show ?thesis using inv by (intro exI [of _ False] exI [of _ s]) (simp add: request_stop_def)
next
  case False
  let ?x = "world s"
  obtain ps where ps: "stop_part s ps" and io: "io_inv interest ?x" and pk: "park_inv ?x parked"
    using inv unfolding ex_inv_def by blast
  have arm: "armed (s\<lparr>stopped := True\<rparr>) ps" using stop_partD(1) [OF ps] by (simp add: armed_def stop_inv_def)
  define as where "as = map snd ps"
  have mem: "n = cb_node a \<and> (\<exists>w. awaiters ?x a = Some w \<and> m_continuation w \<noteq> None \<and> \<not> m_cancelled w)" if "(n, a) \<in> set ps" for n a
    using stop_partD(2,3) [OF ps that] by blast
  have in_as: "a \<in> set as \<longleftrightarrow> (cb_node a, a) \<in> set ps" for a using mem by (force simp: as_def)
  have "map fst ps = map cb_node as" using mem by (auto simp: as_def intro!: map_cong)
  then have d: "distinct as" using stop_partD(1) [OF ps] by (simp add: armed_def stop_inv_def distinct_map)
  have alive: "\<exists>w. awaiters ?x a = Some w \<and> m_continuation w \<noteq> None \<and> \<not> m_cancelled w" if "a \<in> set as" for a
    using that mem in_as by blast
  define Q where "Q = (\<lambda>y. io_inv interest y \<and> park_inv y parked \<and> (\<forall>a \<in> set as. \<exists>w. awaiters y a = Some w \<and> m_continuation w \<noteq> None))"
  have Q0: "Q (world (s\<lparr>stopped := True\<rparr>))" using io pk alive unfolding Q_def by fastforce
  have fire: "on_cancel K a t = Inr (world_update (cancel_world K a) t) \<and> Q (cancel_world K a (world t))"
    if a: "a \<in> snd ` set ps" and q: "Q (world t)" for a and t :: "'a exec_sys"
  proof -
    from a have "a \<in> set as" by (simp add: as_def)
    with q obtain w where w: "awaiters (world t) a = Some w" "m_continuation w \<noteq> None" unfolding Q_def by blast
    have "\<exists>w. awaiters (cancel_world K a (world t)) b = Some w \<and> m_continuation w \<noteq> None" if "b \<in> set as" for b
    proof (cases "m_cancelled w")
      case True
      then have "cancel_world K a (world t) = world t" using w by (simp add: cancel_world_def)
      with q that show ?thesis by (simp add: Q_def)
    next
      case False
      with q that w cancel_world_awaiters [OF w(1) False, of K] show ?thesis by (auto simp: Q_def)
    qed
    with on_cancel_world [OF w(1), of K] cancel_world_inv [OF c _ _ w] q show ?thesis unfolding Q_def by blast
  qed
  obtain s' where s': "fire_loop (on_cancel K) (s\<lparr>stopped := True\<rparr>) = Some (Inr s')"
      "world s' = fold (cancel_world K) as ?x" "Q (world s')" "armed s' []" "stopped s'" "dom (nodes s') = dom (nodes s)"
    using fire_loop_world [of "s\<lparr>stopped := True\<rparr>" ps Q "on_cancel K" "cancel_world K", OF arm Q0 fire] by (auto simp: as_def)
  have aw: "awaiters (world s') a = (if a \<in> set as then map_option cancelled_awaiter (awaiters ?x a) else awaiters ?x a)" for a
    using fold_cancel_awaiters [OF d alive] s'(2) by simp
  have "nodes s' (cb_node a) = None \<longleftrightarrow> awaiters (world s') a = None" for a
  proof -
    have "nodes s (cb_node a) = None \<longleftrightarrow> awaiters ?x a = None" by (rule stop_partD(6) [OF ps])
    moreover have "nodes s' (cb_node a) = None \<longleftrightarrow> nodes s (cb_node a) = None" using s'(6) by blast
    ultimately show ?thesis by (simp add: aw)
  qed
  moreover have "\<not> (m_registered w \<and> m_token w)" if w: "awaiters (world s') a = Some w" for a w
  proof (cases "a \<in> set as")
    case True
    with w show ?thesis by (auto simp: aw cancelled_awaiter_def)
  next
    case False
    with w have "awaiters ?x a = Some w" "(cb_node a, a) \<notin> set ps" using in_as [of a] by (simp_all add: aw)
    then show ?thesis using stop_partD(4) [OF ps] by blast
  qed
  moreover have "m_continuation w \<noteq> None" if "awaiters (world s') a = Some w" "m_cancelled w" for a w
    using that stop_partD(5) [OF ps, of a] alive [of a] by (auto simp: aw cancelled_awaiter_def split: if_splits)
  ultimately have "stop_part s' []" using s'(4) by (intro stop_partI) auto
  then have inv': "ex_inv interest s' parked" using s'(3) unfolding Q_def ex_inv_def by blast
  have "request_stop (on_cancel K) s = Some (Inr (True, s'))" using s'(1) False by (simp add: request_stop_def)
  moreover have "\<forall>a. awaiters (world s') a =
      (if (cb_node a, a) \<in> set ps then map_option cancelled_awaiter (awaiters ?x a) else awaiters ?x a)"
    using aw in_as by simp
  ultimately show ?thesis using inv' s'(2,5) ps False unfolding as_def by (intro exI [of _ True] exI [of _ s']) auto
qed

lemma park_inv_park:
  assumes inv: "park_inv x parked" and w: "awaiters x a = Some w" "m_continuation w = None"
    and h: "h \<notin> ran parked" "h \<notin> set (m_ready x)"
    and x': "awaiters x' = (awaiters x)(a \<mapsto> w')" "m_ready x' = (if m_queued w' then m_ready x @ [h] else m_ready x)"
    and keep: "m_continuation w' = Some h" "m_registered w' \<or> m_queued w'"
  shows "park_inv x' (parked(a \<mapsto> h))"
  unfolding park_inv_def
proof (intro conjI allI impI)
  fix b k assume b: "(parked(a \<mapsto> h)) b = Some k"
  show "\<exists>w. awaiters x' b = Some w \<and> m_continuation w = Some k \<and> (m_registered w \<or> m_queued w) \<and>
      count_list (m_ready x') k = (if m_queued w then 1 else 0)"
  proof (cases "b = a")
    case True
    with b keep h(2) show ?thesis by (simp add: x' count_list_0_iff)
  next
    case False
    with b have pb: "parked b = Some k" by simp
    with h(1) have "k \<noteq> h" by (auto simp: ran_def)
    with False park_invD(1) [OF inv pb] show ?thesis by (auto simp: x')
  qed
next
  fix b c k assume "(parked(a \<mapsto> h)) b = Some k" "(parked(a \<mapsto> h)) c = Some k"
  then show "b = c" using h(1) park_invD(2) [OF inv] by (auto simp: ran_def split: if_splits)
next
  fix b u assume u: "awaiters x' b = Some u" and b: "(parked(a \<mapsto> h)) b = None"
  then have "awaiters x b = Some u" "parked b = None" by (simp_all add: x' split: if_splits)
  from park_invD(3) [OF inv this] show "\<not> m_registered u" "m_queued u \<longleftrightarrow> m_continuation u \<noteq> None" by simp_all
qed

lemma reactor_add_cases:
  assumes c: "epoll_contract K interest" and r: "reactor_add K k r fd ev tok = (res, k')"
  shows "(\<exists>e. res = Inl e \<and> interest k' = interest k) \<or>
         (res = Inr 0 \<and> interest k (m_epoll_fd r) fd = None \<and>
          interest k' = (interest k)(m_epoll_fd r := (interest k (m_epoll_fd r))(fd \<mapsto> tok)))"
proof -
  obtain rc k1 where a: "sys_epoll_add K k (m_epoll_fd r) fd (to_epoll ev) tok = (rc, k1)" by force
  show ?thesis using r epoll_contract_add [OF c a] by (cases "rc < 0") (auto simp: reactor_add_def a)
qed

lemma await_suspend_spec:
  assumes c: "epoll_contract K interest" and inv: "ex_inv interest s parked"
    and w: "awaiters (world s) a = Some w" "m_continuation w = None" and nr: "await_ready s a = Inr False"
    and h: "h \<notin> ran parked" "h \<notin> set (m_ready (world s))"
  shows "\<exists>s' w'. await_suspend K a h s = Inr s' \<and> ex_inv interest s' (parked(a \<mapsto> h)) \<and>
           awaiters (world s') = (awaiters (world s))(a \<mapsto> w') \<and> m_running (world s') = m_running (world s) \<and>
           ex_kernel (world s') = snd (reactor_add K (ex_kernel (world s)) (m_reactor (world s)) (m_handle w) (m_interest w) a) \<and>
           set (m_ready (world s')) \<subseteq> insert h (set (m_ready (world s)))"
proof -
  let ?x = "world s"
  obtain ps where ps: "stop_part s ps" "stopped s \<longrightarrow> ps = []" and io: "io_inv interest ?x" and pk: "park_inv ?x parked"
    using inv unfolding ex_inv_def by blast
  have np: "parked a = None" using park_invD(1) [OF pk, of a] w by fastforce
  have nreg: "\<not> m_registered w" using park_invD(3) [OF pk w(1) np] by simp
  have tok: "\<not> (m_token w \<and> stopped s)" using nr w by (auto simp: await_ready_def token_stop_possible_def token_stop_requested_def)
  obtain res k where r: "reactor_add K (ex_kernel ?x) (m_reactor ?x) (m_handle w) (m_interest w) a = (res, k)" by force
  have nc: "\<not> m_cancelled w" using stop_partD(5) [OF ps(1) w(1)] w(2) by blast
  from reactor_add_cases [OF c r] show ?thesis
  proof
    assume "\<exists>e. res = Inl e \<and> interest k = interest (ex_kernel ?x)"
    then obtain e where e: "res = Inl e" "interest k = interest (ex_kernel ?x)" by blast
    let ?w = "w\<lparr>m_continuation := Some h, m_add_error := take (if length e > 127 then 127 else length e) e, m_queued := True\<rparr>"
    let ?f = "\<lambda>x. x\<lparr>ex_kernel := k, awaiters := (awaiters x)(a \<mapsto> ?w), m_ready := m_ready x @ [h]\<rparr>"
    have eq: "await_suspend K a h s = Inr (world_update ?f s)"
      using w by (simp add: await_suspend_def r e(1) Let_def put_awaiter_def push_ready_def world_update_fold)
    have "io_inv interest (?f ?x)" by (rule io_inv_update [OF io w(1), where w' = ?w]) (use e(2) nreg in simp_all)
    moreover have "park_inv (?f ?x) (parked(a \<mapsto> h))" by (rule park_inv_park [OF pk w h, where w' = ?w]) simp_all
    moreover have "stop_part (world_update ?f s) ps"
      by (rule stop_part_park [OF ps(1) w, where w' = ?w]) (use stop_partD(1) [OF ps(1)] nc nreg in simp_all)
    ultimately have "ex_inv interest (world_update ?f s) (parked(a \<mapsto> h))" using ps(2) by (intro ex_invI [where ps = ps]) simp_all
    then show ?thesis using eq r by auto
  next
    assume ok: "res = Inr 0 \<and> interest (ex_kernel ?x) (m_epoll_fd (m_reactor ?x)) (m_handle w) = None \<and>
      interest k = (interest (ex_kernel ?x))(m_epoll_fd (m_reactor ?x) := (interest (ex_kernel ?x) (m_epoll_fd (m_reactor ?x)))(m_handle w \<mapsto> a))"
    let ?w = "w\<lparr>m_continuation := Some h, m_registered := True\<rparr>"
    let ?f = "\<lambda>x. x\<lparr>ex_kernel := k, awaiters := (awaiters x)(a \<mapsto> ?w), m_pending_io := m_pending_io x + 1\<rparr>"
    let ?s = "world_update ?f s"
    have eq: "await_suspend K a h s = (if m_token w then out_bind (token_arm (on_cancel K) True ?s (cb_node a) (Some a)) (\<lambda>(_, s3). Inr s3) else Inr ?s)"
      using w ok by (simp add: await_suspend_def r Let_def put_awaiter_def token_stop_possible_def world_update_fold)
    have io': "io_inv interest (?f ?x)" by (rule io_inv_register [OF io w(1) nreg, where w' = ?w]) (use ok in simp_all)
    have pk': "park_inv (?f ?x) (parked(a \<mapsto> h))"
      by (rule park_inv_park [OF pk w h, where w' = ?w]) (use park_invD(3) [OF pk w(1) np] w in simp_all)
    show ?thesis
    proof (cases "m_token w")
      case False
      have "stop_part ?s ps"
        by (rule stop_part_park [OF ps(1) w, where w' = ?w]) (use stop_partD(1) [OF ps(1)] nc False in simp_all)
      then have "ex_inv interest ?s (parked(a \<mapsto> h))" using ps(2) io' pk' by (intro ex_invI [where ps = ps]) simp_all
      then show ?thesis using eq False r by auto
    next
      case True
      obtain n where n: "nodes ?s (cb_node a) = Some n" using stop_partD(6) [OF ps(1), of a] w(1) by auto
      have ns: "\<not> nd_state n"
      proof
        assume "nd_state n"
        then obtain b where "(cb_node a, b) \<in> set ps"
          using stop_partD(1) [OF ps(1)] n by (fastforce simp: armed_def stop_inv_def)
        then show False using stop_partD(2,3) [OF ps(1)] w by fastforce
      qed
      have arm: "armed ?s ps" "\<not> stopped ?s" using stop_partD(1) [OF ps(1)] True tok by simp_all
      obtain s' where s': "token_arm (on_cancel K) True ?s (cb_node a) (Some a) = Inr (False, s')" "armed s' ((cb_node a, a) # ps)"
          "\<not> stopped s'" "world s' = world ?s" "dom (nodes s') = dom (nodes ?s)"
        using token_arm_links [OF arm n ns, of "on_cancel K" a] by blast
      have "stop_part s' ((cb_node a, a) # ps)"
        by (rule stop_part_park [OF ps(1) w, where w' = ?w]) (use s' nc in simp_all)
      then have "ex_inv interest s' (parked(a \<mapsto> h))" using s' io' pk' by (intro ex_invI) simp_all
      then show ?thesis using eq True s'(1,4) r by auto
    qed
  qed
qed

lemma await_suspend_inv:
  assumes "epoll_contract K interest" and "ex_inv interest s parked"
    and "awaiters (world s) a = Some w" "m_continuation w = None" and "await_ready s a = Inr False"
    and "h \<notin> ran parked" "h \<notin> set (m_ready (world s))"
  shows "\<exists>s'. await_suspend K a h s = Inr s' \<and> ex_inv interest s' (parked(a \<mapsto> h))"
  using await_suspend_spec [OF assms] by blast

text \<open>\<^verbatim>\<open>await_resume\<close> returns by the branches of the code and leaves the reactor.\<close>

definition resume_result :: "io_awaiter \<Rightarrow> bool \<Rightarrow> u32 reactor_result" where
  "resume_result w stop =
     (if m_add_error w \<noteq> [] then Inl (''reactor: '' @ takeWhile (\<lambda>c. c \<noteq> CHR 0x00) (m_add_error w))
      else if m_cancelled w \<or> (m_token w \<and> stop) then Inl ''cancelled'' else Inr 0)"

lemma await_resume_eq:
  "awaiters (world s) a = Some w \<Longrightarrow>
     await_resume K a s = Inr (resume_result w (stopped s), world_update (dereg_world K a w) s)"
  by (simp add: await_resume_def resume_result_def Let_def deregister_world token_stop_possible_def token_stop_requested_def)

lemma dereg_world_frame: "awaiters x a = Some w \<Longrightarrow> aw_frame x (dereg_world K a w x)"
  by (rule aw_frame_upd [OF _ dereg_world_awaiter]) simp_all

lemma park_inv_unpark:
  assumes inv: "park_inv x parked" and a: "parked a = Some h" and r: "m_ready x = h # hs"
    and x': "awaiters x' = (awaiters x)(a \<mapsto> w')" "m_ready x' = hs"
    and w: "awaiters x a = Some w" "m_continuation w' = m_continuation w" "m_queued w' = m_queued w" "\<not> m_registered w'"
  shows "park_inv x' (parked(a := None))"
  unfolding park_inv_def
proof (intro conjI allI impI)
  fix b k assume b: "(parked(a := None)) b = Some k"
  then have pb: "parked b = Some k" "b \<noteq> a" by (simp_all split: if_splits)
  then have "k \<noteq> h" using park_invD(2) [OF inv a] by blast
  then show "\<exists>w. awaiters x' b = Some w \<and> m_continuation w = Some k \<and> (m_registered w \<or> m_queued w) \<and>
      count_list (m_ready x') k = (if m_queued w then 1 else 0)"
    using park_invD(1) [OF inv pb(1)] pb(2) r by (auto simp: x')
next
  fix b c k assume "(parked(a := None)) b = Some k" "(parked(a := None)) c = Some k"
  then show "b = c" using park_invD(2) [OF inv] by (auto split: if_splits)
next
  fix b u assume u: "awaiters x' b = Some u" and b: "(parked(a := None)) b = None"
  have q: "m_queued w \<and> m_continuation w = Some h" using park_invD(1) [OF inv a] w(1) r by (auto split: if_splits)
  show "\<not> m_registered u" "m_queued u \<longleftrightarrow> m_continuation u \<noteq> None"
    using u b q w park_invD(3) [OF inv, of b u] by (cases "b = a"; simp add: x')+
qed

lemma await_resume_parked_inv:
  assumes c: "epoll_contract K interest" and inv: "ex_inv interest s parked" and a: "parked a = Some h"
    and r: "m_ready (world s) = h # hs"
  shows "\<exists>w s'. awaiters (world s) a = Some w \<and>
     await_resume K a (world_update (\<lambda>x. x\<lparr>m_ready := hs\<rparr>) s) = Inr (resume_result w (stopped s), s') \<and>
     ex_inv interest s' (parked(a := None))"
proof -
  have io: "io_inv interest (world s)" and pk: "park_inv (world s) parked" using inv by (simp_all add: ex_inv_def)
  obtain w where w: "awaiters (world s) a = Some w" using park_invD(1) [OF pk a] by blast
  let ?f = "\<lambda>x. dereg_world K a w (x\<lparr>m_ready := hs\<rparr>)"
  have w': "awaiters ((world s)\<lparr>m_ready := hs\<rparr>) a = Some w" using w by simp
  have "io_inv interest ((world s)\<lparr>m_ready := hs\<rparr>)" using io by (simp add: io_inv_def registered_set_def)
  then have "io_inv interest (?f (world s))" by (rule dereg_world_io_inv [OF c _ w'])
  moreover have "park_inv (?f (world s)) (parked(a := None))"
    by (rule park_inv_unpark [OF pk a r _ _ w, where w' = "w\<lparr>m_registered := False\<rparr>"])
      (simp_all add: dereg_world_awaiter [OF w'])
  moreover have "aw_frame (world s) (?f (world s))"
    by (rule aw_frame_trans [OF _ dereg_world_frame [OF w']]) simp
  ultimately have "ex_inv interest (world_update ?f s) (parked(a := None))" by (rule ex_inv_world [where f = ?f, OF inv])
  then show ?thesis
    using await_resume_eq [of "world_update (\<lambda>x. x\<lparr>m_ready := hs\<rparr>) s" a w K] w by (simp add: world_update_fold)
qed

lemma await_resume_ready_inv:
  assumes inv: "ex_inv interest s parked" and w: "awaiters (world s) a = Some w" "m_continuation w = None"
  shows "await_resume K a s = Inr (resume_result w (stopped s), s)"
proof -
  have pk: "park_inv (world s) parked" using inv by (simp add: ex_inv_def)
  have "parked a = None" using park_invD(1) [OF pk, of a] w by fastforce
  then have "\<not> m_registered w" using park_invD(3) [OF pk w(1)] by simp
  then show ?thesis using await_resume_eq [OF w(1), of K] by (cases s) (simp add: dereg_world_def)
qed

lemma park_inv_ready:
  assumes inv: "park_inv x parked" and h: "h \<notin> ran parked"
  shows "m_ready x = h # hs \<Longrightarrow> park_inv (x\<lparr>m_ready := hs\<rparr>) parked" and "park_inv (x\<lparr>m_ready := m_ready x @ [h]\<rparr>) parked"
proof -
  have ne: "k \<noteq> h" if "parked b = Some k" for b k using that h by (auto simp: ran_def)
  have same: "park_inv (x\<lparr>m_ready := hs\<rparr>) parked" if "\<And>k. k \<noteq> h \<Longrightarrow> count_list hs k = count_list (m_ready x) k" for hs
    unfolding park_inv_def
  proof (intro conjI allI impI)
    fix b k assume b: "parked b = Some k"
    then show "\<exists>w. awaiters (x\<lparr>m_ready := hs\<rparr>) b = Some w \<and> m_continuation w = Some k \<and> (m_registered w \<or> m_queued w) \<and>
      count_list (m_ready (x\<lparr>m_ready := hs\<rparr>)) k = (if m_queued w then 1 else 0)"
      using park_invD(1) [OF inv b] that [OF ne [OF b]] by simp
  qed (use park_invD(2,3) [OF inv] in auto)
  show "m_ready x = h # hs \<Longrightarrow> park_inv (x\<lparr>m_ready := hs\<rparr>) parked" by (rule same) simp
  show "park_inv (x\<lparr>m_ready := m_ready x @ [h]\<rparr>) parked" by (rule same) simp
qed

lemma ready_inv:
  assumes inv: "ex_inv interest s parked" and h: "h \<notin> ran parked"
  shows "m_ready (world s) = h # hs \<Longrightarrow> ex_inv interest (world_update (\<lambda>x. x\<lparr>m_ready := hs\<rparr>) s) parked"
    and "ex_inv interest (schedule h s) parked"
proof -
  have io: "io_inv interest ((world s)\<lparr>m_ready := hs\<rparr>)" for hs
    using inv by (simp add: ex_inv_def io_inv_def registered_set_def)
  have pk: "park_inv (world s) parked" using inv by (simp add: ex_inv_def)
  show "m_ready (world s) = h # hs \<Longrightarrow> ex_inv interest (world_update (\<lambda>x. x\<lparr>m_ready := hs\<rparr>) s) parked"
    using park_inv_ready(1) [OF pk h] io by (intro ex_inv_world [OF inv]) simp_all
  show "ex_inv interest (schedule h s) parked"
    unfolding schedule_def push_ready_def using park_inv_ready(2) [OF pk h] io by (intro ex_inv_world [OF inv]) simp_all
qed

lemma executor_stop_inv:
  assumes c: "epoll_contract K interest" and inv: "ex_inv interest s parked"
  shows "ex_inv interest (executor_stop K s) parked"
proof -
  let ?k = "reactor_wake K (ex_kernel (world s)) (m_reactor (world s))"
  have "interest ?k = interest (ex_kernel (world s))" by (simp add: reactor_wake_def epoll_contract_simps [OF c])
  note i = this
  have sw: "x\<lparr>m_running := False, ex_kernel := k\<rparr> = x\<lparr>ex_kernel := k, m_running := False\<rparr>" for x :: "'a executor" and k
    by (cases x) simp
  have "executor_stop K s = world_update (\<lambda>x. x\<lparr>ex_kernel := ?k, m_running := False\<rparr>) s"
    by (cases s) (simp add: executor_stop_def sw)
  then show ?thesis using ex_inv_kernel(2) [OF inv i, of False] by simp
qed

lemma io_awaiter_make_inv:
  assumes inv: "ex_inv interest s parked" and a: "awaiters (world s) a = None" "a \<noteq> WAKE_TOKEN"
  shows "ex_inv interest (io_awaiter_make s a handle ev tok) parked"
proof -
  let ?s = "io_awaiter_make s a handle ev tok"
  obtain ps where ps: "stop_part s ps" "stopped s \<longrightarrow> ps = []" and io: "io_inv interest (world s)" and pk: "park_inv (world s) parked"
    using inv unfolding ex_inv_def by blast
  obtain w where aw: "awaiters (world ?s) = (awaiters (world s))(a \<mapsto> w)"
    and w: "m_continuation w = None" "\<not> m_registered w" "\<not> m_queued w" "\<not> m_cancelled w"
    by (simp add: io_awaiter_make_def node_construct_def)
  have rest: "ex_kernel (world ?s) = ex_kernel (world s)" "m_reactor (world ?s) = m_reactor (world s)" "m_ready (world ?s) = m_ready (world s)"
    "m_pending_io (world ?s) = m_pending_io (world s)" "stopped ?s = stopped s"
    "nodes ?s = (nodes s)(cb_node a \<mapsto> stop_callback_node_make)"
    by (simp_all add: io_awaiter_make_def node_construct_def)
  have np: "parked a = None" using park_invD(1) [OF pk, of a] a by fastforce
  have "registered_set (world ?s) = registered_set (world s)"
    using a w by (auto simp: registered_set_def aw)
  moreover have "(\<exists>u. awaiters (world ?s) t = Some u \<and> m_registered u \<and> m_handle u = fd)
      \<longleftrightarrow> (\<exists>u. awaiters (world s) t = Some u \<and> m_registered u \<and> m_handle u = fd)" for t fd
    using a w by (auto simp: aw)
  ultimately have "io_inv interest (world ?s)" using io a(2) by (simp add: io_inv_def rest aw)
  moreover have "park_inv (world ?s) parked"
    unfolding park_inv_def
  proof (intro conjI allI impI)
    fix b h assume b: "parked b = Some h"
    with np have "b \<noteq> a" by auto
    then show "\<exists>w. awaiters (world ?s) b = Some w \<and> m_continuation w = Some h \<and> (m_registered w \<or> m_queued w) \<and>
      count_list (m_ready (world ?s)) h = (if m_queued w then 1 else 0)"
      using park_invD(1) [OF pk b] by (auto simp: aw rest)
  next
    fix b u assume "awaiters (world ?s) b = Some u" "parked b = None"
    then show "\<not> m_registered u" "m_queued u \<longleftrightarrow> m_continuation u \<noteq> None"
      using park_invD(3) [OF pk, of b u] w by (cases "b = a"; simp add: aw)+
  qed (use park_invD(2) [OF pk] in blast)
  moreover have "stop_part ?s ps"
  proof (rule stop_partI)
    have notin: "(n, b) \<in> set ps \<Longrightarrow> b \<noteq> a \<and> n \<noteq> cb_node a" for n b using stop_partD(2,3) [OF ps(1), of n b] a by auto
    then have "cb_node a \<notin> fst ` set ps" by fastforce
    then have "armed (node_construct s (cb_node a)) ps"
      unfolding node_construct_def
      by (intro armed_update_outside [OF stop_partD(1) [OF ps(1)]]) (auto simp: stop_callback_node_make_def)
    then show "armed ?s ps" by (simp add: io_awaiter_make_def put_awaiter_def)
    show "n = cb_node b" if "(n, b) \<in> set ps" for n b by (rule stop_partD(2) [OF ps(1) that])
    show "\<exists>w. awaiters (world ?s) b = Some w \<and> m_continuation w \<noteq> None \<and> \<not> m_cancelled w" if "(n, b) \<in> set ps" for n b
      using stop_partD(3) [OF ps(1) that] notin [OF that] by (simp add: aw)
    show "(cb_node b, b) \<in> set ps" if "awaiters (world ?s) b = Some u" "m_registered u" "m_token u" for b u
      using stop_partD(4) [OF ps(1), of b u] that w by (cases "b = a") (auto simp: aw)
    show "m_continuation u \<noteq> None" if "awaiters (world ?s) b = Some u" "m_cancelled u" for b u
      using stop_partD(5) [OF ps(1), of b u] that w by (cases "b = a") (auto simp: aw)
    show "nodes ?s (cb_node b) = None \<longleftrightarrow> awaiters (world ?s) b = None" for b
      using stop_partD(6) [OF ps(1), of b] by (cases "b = a") (auto simp: aw rest)
  qed
  ultimately show ?thesis using ps(2) rest(5) by (auto intro!: ex_invI [where ps = ps])
qed

lemma io_awaiter_destroy_inv:
  assumes inv: "ex_inv interest s parked" and w: "awaiters (world s) a = Some w" and np: "parked a = None"
  shows "\<exists>s'. io_awaiter_destroy s a = Inr s' \<and> ex_inv interest s' parked \<and> world s' = (world s)\<lparr>awaiters := (awaiters (world s))(a := None)\<rparr>"
proof -
  obtain ps where ps: "stop_part s ps" "stopped s \<longrightarrow> ps = []" and io: "io_inv interest (world s)" and pk: "park_inv (world s) parked"
    using inv unfolding ex_inv_def by blast
  have nreg: "\<not> m_registered w" using park_invD(3) [OF pk w np] by simp
  obtain n where "nodes s (cb_node a) = Some n" using stop_partD(6) [OF ps(1), of a] w by auto
  from node_destroy_armed [OF stop_partD(1) [OF ps(1)] this] obtain s1 where
    s1: "node_destroy s (cb_node a) = Inr s1" "armed s1 (filter (\<lambda>p. fst p \<noteq> cb_node a) ps)" "stopped s1 = stopped s"
      "world s1 = world s" "dom (nodes s1) = dom (nodes s) - {cb_node a}" by blast
  let ?s = "world_update (\<lambda>x. x\<lparr>awaiters := (awaiters x)(a := None)\<rparr>) s1"
  let ?qs = "filter (\<lambda>p. fst p \<noteq> cb_node a) ps"
  have d: "io_awaiter_destroy s a = Inr ?s" by (simp add: io_awaiter_destroy_def s1(1))
  have "registered_set (world ?s) = registered_set (world s)"
    using w nreg by (auto simp: registered_set_def s1(4))
  moreover have "(\<exists>u. awaiters (world ?s) t = Some u \<and> m_registered u \<and> m_handle u = fd)
      \<longleftrightarrow> (\<exists>u. awaiters (world s) t = Some u \<and> m_registered u \<and> m_handle u = fd)" for t fd
    using w nreg by (auto simp: s1(4))
  ultimately have "io_inv interest (world ?s)" using io by (simp add: io_inv_def s1(4))
  moreover have "park_inv (world ?s) parked"
    unfolding park_inv_def
  proof (intro conjI allI impI)
    fix b h assume b: "parked b = Some h"
    with np have "b \<noteq> a" by auto
    then show "\<exists>w. awaiters (world ?s) b = Some w \<and> m_continuation w = Some h \<and> (m_registered w \<or> m_queued w) \<and>
      count_list (m_ready (world ?s)) h = (if m_queued w then 1 else 0)"
      using park_invD(1) [OF pk b] by (auto simp: s1(4))
  next
    fix b u assume "awaiters (world ?s) b = Some u" "parked b = None"
    then show "\<not> m_registered u" "m_queued u \<longleftrightarrow> m_continuation u \<noteq> None"
      using park_invD(3) [OF pk, of b u] by (auto simp: s1(4) split: if_splits)
  qed (use park_invD(2) [OF pk] in blast)
  moreover have "stop_part ?s ?qs"
  proof (rule stop_partI)
    have ne: "b \<noteq> a" if "(n, b) \<in> set ?qs" for n b using that stop_partD(2) [OF ps(1), of n b] by auto
    show "armed ?s ?qs" using s1(2) by simp
    show "n = cb_node b" if "(n, b) \<in> set ?qs" for n b using that stop_partD(2) [OF ps(1), of n b] by simp
    show "\<exists>w. awaiters (world ?s) b = Some w \<and> m_continuation w \<noteq> None \<and> \<not> m_cancelled w" if "(n, b) \<in> set ?qs" for n b
      using stop_partD(3) [OF ps(1), of n b] that ne [OF that] by (simp add: s1(4))
    show "(cb_node b, b) \<in> set ?qs" if "awaiters (world ?s) b = Some u" "m_registered u" "m_token u" for b u
      using stop_partD(4) [OF ps(1), of b u] that by (auto simp: s1(4) split: if_splits)
    show "m_continuation u \<noteq> None" if "awaiters (world ?s) b = Some u" "m_cancelled u" for b u
      using stop_partD(5) [OF ps(1), of b u] that by (auto simp: s1(4) split: if_splits)
    show "nodes ?s (cb_node b) = None \<longleftrightarrow> awaiters (world ?s) b = None" for b
    proof -
      have "nodes s1 (cb_node b) = None \<longleftrightarrow> cb_node b \<notin> dom (nodes s) - {cb_node a}" using s1(5) by (metis domIff)
      then show ?thesis using stop_partD(6) [OF ps(1), of b] by (auto simp: s1(4))
    qed
  qed
  ultimately have "ex_inv interest ?s parked" using ps(2) s1(3) by (auto intro!: ex_invI [where ps = ?qs])
  with d s1(4) show ?thesis by simp
qed

end
