(* ===== verification/Executor_Runs.thy ===== *)
theory Executor_Runs
  imports Executor
begin

text \<open>
  Runs of the executor: the operations a program can perform, in any order its coroutines and the kernel
  choose, and what holds in every state they reach. The run loop \<^verbatim>\<open>run_until\<close> is related to these runs
  and shown to return.
\<close>

section \<open>Steps\<close>

text \<open>
  A state is the system and the coroutines suspended at awaiters. The guards are the programs considered here:
  an awaiter is awaited once, by a coroutine that is not suspended elsewhere nor queued; it is
  destroyed when no coroutine is suspended at it; \<^verbatim>\<open>schedule\<close> is not used on a coroutine suspended at an
  awaiter. A coroutine taken from the ready queue first runs \<^verbatim>\<open>await_resume\<close>. The code neither documents nor checks that an awaiter
  is awaited once; what happens otherwise is shown below for the functions themselves, without these steps, in the part on
  awaiting an awaiter again.
\<close>

type_synonym 'k run_state = "'k exec_sys \<times> (u64 \<rightharpoonup> coro)"

abbreviation pop_ready :: "coro list \<Rightarrow> 'k exec_sys \<Rightarrow> 'k exec_sys" where
  "pop_ready hs s \<equiv> world_update (\<lambda>x. x\<lparr>m_ready := hs\<rparr>) s"

inductive ex_step :: "'k kernel \<Rightarrow> 'k run_state \<Rightarrow> 'k run_state \<Rightarrow> bool" for K where
  construct: "awaiters (world s) a = None \<Longrightarrow> a \<noteq> WAKE_TOKEN \<Longrightarrow> ex_step K (s, p) (io_awaiter_make s a handle ev tok, p)"
| suspend: "awaiters (world s) a = Some w \<Longrightarrow> m_continuation w = None \<Longrightarrow> await_ready s a = Inr False \<Longrightarrow>
    h \<notin> ran p \<Longrightarrow> h \<notin> set (m_ready (world s)) \<Longrightarrow> await_suspend K a h s = Inr s' \<Longrightarrow> ex_step K (s, p) (s', p(a \<mapsto> h))"
| no_suspend: "awaiters (world s) a = Some w \<Longrightarrow> m_continuation w = None \<Longrightarrow> await_ready s a = Inr True \<Longrightarrow>
    await_resume K a s = Inr (r, s') \<Longrightarrow> ex_step K (s, p) (s', p)"
| resume_parked: "m_ready (world s) = h # hs \<Longrightarrow> p a = Some h \<Longrightarrow> await_resume K a (pop_ready hs s) = Inr (r, s') \<Longrightarrow>
    ex_step K (s, p) (s', p(a := None))"
| resume_other: "m_ready (world s) = h # hs \<Longrightarrow> h \<notin> ran p \<Longrightarrow> ex_step K (s, p) (pop_ready hs s, p)"
| destroy: "awaiters (world s) a = Some w \<Longrightarrow> p a = None \<Longrightarrow> io_awaiter_destroy s a = Inr s' \<Longrightarrow> ex_step K (s, p) (s', p)"
| schedule: "h \<notin> ran p \<Longrightarrow> ex_step K (s, p) (Executor.schedule h s, p)"
| cancel: "request_stop (on_cancel K) s = Some (Inr (b, s')) \<Longrightarrow> ex_step K (s, p) (s', p)"
| wait: "wait_and_dispatch K s = Inr (b, s') \<Longrightarrow> ex_step K (s, p) (s', p)"
| stop: "ex_step K (s, p) (executor_stop K s, p)"
| start: "ex_step K (s, p) (world_update (\<lambda>x. x\<lparr>m_running := True\<rparr>) s, p)"

abbreviation ex_steps :: "'k kernel \<Rightarrow> 'k run_state \<Rightarrow> 'k run_state \<Rightarrow> bool" where
  "ex_steps K \<equiv> (ex_step K)\<^sup>*\<^sup>*"

text \<open>The states a program reaches from an executor that \<^verbatim>\<open>Executor::create\<close> returned.\<close>

definition ex_reach :: "'k kernel \<Rightarrow> 'k run_state \<Rightarrow> bool" where
  "ex_reach K s \<longleftrightarrow> (\<exists>k x k'. executor_create K k = (Inr x, k') \<and> ex_steps K (stop_init x, Map.empty) s)"

lemma executor_create_inv:
  assumes c: "epoll_contract K interest" and x: "executor_create K k = (Inr x, k')"
  shows "ex_inv interest (stop_init x) Map.empty"
proof -
  obtain r where r: "reactor_create K k = (Inr r, k')" and xr: "x = \<lparr>ex_kernel = k', m_reactor = fst (reactor_move r),
      m_ready = [], m_pending_io = 0, m_running = False, awaiters = Map.empty\<rparr>"
    using x by (auto simp: executor_create_def split: prod.splits sum.splits)
  have "io_inv interest x"
    using reactor_create_interest [OF c r] by (auto simp: io_inv_def xr reactor_move_def registered_set_def)
  moreover have "park_inv x Map.empty" by (simp add: park_inv_def xr)
  moreover have "stop_part (stop_init x) []"
    using stop_init_inv [of x] by (intro stop_partI) (auto simp: armed_def stop_init_def xr)
  ultimately show ?thesis by (intro ex_invI [where ps = "[]"]) (simp_all add: stop_init_def)
qed

lemma ex_step_inv:
  assumes c: "epoll_contract K interest" and st: "ex_step K (s, p) (s', p')" and inv: "ex_inv interest s p"
  shows "ex_inv interest s' p'"
  using st
proof cases
  case construct
  then show ?thesis using io_awaiter_make_inv [OF inv] by simp
next
  case suspend
  then show ?thesis using await_suspend_inv [OF c inv] by fastforce
next
  case no_suspend
  then show ?thesis using await_resume_ready_inv [OF inv] inv by auto
next
  case resume_parked
  then show ?thesis using await_resume_parked_inv [OF c inv] by fastforce
next
  case resume_other
  then show ?thesis using ready_inv(1) [OF inv] by simp
next
  case destroy
  then show ?thesis using io_awaiter_destroy_inv [OF inv] by fastforce
next
  case schedule
  then show ?thesis using ready_inv(2) [OF inv] by simp
next
  case cancel
  then show ?thesis using request_stop_inv [OF c inv] by fastforce
next
  case wait
  then show ?thesis using wait_and_dispatch_inv [OF c inv] by fastforce
next
  case stop
  then show ?thesis using executor_stop_inv [OF c inv] by simp
next
  case start
  have "(\<lambda>x. x\<lparr>ex_kernel := ex_kernel (world s), m_running := True\<rparr>) (world s) = (world s)\<lparr>m_running := True\<rparr>" by simp
  then show ?thesis using start ex_inv_kernel(2) [OF inv refl, of True] by (cases s) simp
qed

lemma ex_steps_inv:
  assumes "epoll_contract K interest" "ex_steps K (s, p) (s', p')" "ex_inv interest s p"
  shows "ex_inv interest s' p'"
  using assms(2,3)
  by (induction "(s, p)" arbitrary: s p rule: converse_rtranclp_induct) (auto dest: ex_step_inv [OF assms(1)])

lemma ex_reach_inv:
  assumes "epoll_contract K interest" "ex_reach K (s, p)"
  shows "ex_inv interest s p"
proof -
  obtain k x k' where "executor_create K k = (Inr x, k')" "ex_steps K (stop_init x, Map.empty) (s, p)"
    using assms(2) unfolding ex_reach_def by blast
  then show ?thesis using ex_steps_inv [OF assms(1)] executor_create_inv [OF assms(1)] by simp
qed

section \<open>What holds in every reachable state\<close>

text \<open>
  C3: in programs that await each awaiter once, no reachable state lets the executor touch a dead awaiter or a null handle: dispatching whatever the
  kernel reports, requesting a stop, resuming a suspended coroutine taken from the queue, and destroying
  an awaiter no coroutine is suspended at all complete normally.
\<close>

theorem executor_never_dangles:
  assumes "epoll_contract K interest" and "ex_reach K (s, p)"
  shows "(\<exists>b s'. wait_and_dispatch K s = Inr (b, s')) \<and>
         (\<exists>b s'. request_stop (on_cancel K) s = Some (Inr (b, s'))) \<and>
         (\<forall>a h hs. p a = Some h \<and> m_ready (world s) = h # hs \<longrightarrow> (\<exists>r s'. await_resume K a (pop_ready hs s) = Inr (r, s'))) \<and>
         (\<forall>a. awaiters (world s) a \<noteq> None \<and> p a = None \<longrightarrow> (\<exists>s'. io_awaiter_destroy s a = Inr s'))"
proof (intro conjI allI impI)
  note inv = ex_reach_inv [OF assms]
  show "\<exists>b s'. wait_and_dispatch K s = Inr (b, s')" using wait_and_dispatch_inv [OF assms(1) inv] by blast
  show "\<exists>b s'. request_stop (on_cancel K) s = Some (Inr (b, s'))" using request_stop_inv [OF assms(1) inv] by blast
  show "\<exists>r s'. await_resume K a (pop_ready hs s) = Inr (r, s')" if "p a = Some h \<and> m_ready (world s) = h # hs" for a h hs
    using await_resume_parked_inv [OF assms(1) inv] that by blast
  show "\<exists>s'. io_awaiter_destroy s a = Inr s'" if "awaiters (world s) a \<noteq> None \<and> p a = None" for a
    using io_awaiter_destroy_inv [OF inv] that by blast
qed

lemma card_registered_lt: "card (registered_set x) < 2 ^ 64" if "awaiters x WAKE_TOKEN = None"
proof -
  have "registered_set x \<subseteq> UNIV - {WAKE_TOKEN}" using that by (auto simp: registered_set_def)
  then have "card (registered_set x) \<le> card (UNIV - {WAKE_TOKEN :: u64})" by (intro card_mono) simp_all
  also have "\<dots> < 2 ^ 64" by (simp add: card_word)
  finally show ?thesis .
qed

lemma parked_queued_or_watched:
  assumes "ex_inv interest s p" and "p a = Some h"
  shows "count_list (m_ready (world s)) h = 1 \<or> (count_list (m_ready (world s)) h = 0 \<and>
      (\<exists>fd. interest (ex_kernel (world s)) (m_epoll_fd (m_reactor (world s))) fd = Some a) \<and> a \<in> registered_set (world s))"
proof -
  have io: "io_inv interest (world s)" and pk: "park_inv (world s) p"
    using assms(1) by (simp_all add: ex_inv_def)
  show ?thesis
    using park_invD(1) [OF pk assms(2)] by (auto simp: io_inv_interest [OF io] registered_set_def split: if_splits)
qed

lemma pending_io_counts:
  assumes "ex_inv interest s p"
  shows "unat (m_pending_io (world s)) = card (registered_set (world s))"
proof -
  have io: "io_inv interest (world s)" using assms by (simp add: ex_inv_def)
  have "card (registered_set (world s)) < 2 ^ 64" using io by (intro card_registered_lt) (simp add: io_inv_def)
  then show ?thesis using io by (simp add: io_inv_def unat_of_nat)
qed

lemma idle_nothing_parked:
  assumes "ex_inv interest s p" and "m_pending_io (world s) = 0" "m_ready (world s) = []"
  shows "p = Map.empty"
proof (rule ext)
  fix a
  have "registered_set (world s) = {}" using pending_io_counts [OF assms(1)] assms(2) by simp
  then show "p a = None" using parked_queued_or_watched [OF assms(1), of a] assms(3) by (cases "p a") auto
qed

text \<open>
  C4: in programs that await each awaiter once, a suspended coroutine is never lost and never queued twice: it is in the ready queue exactly once, or it
  is not and the reactor watches its descriptor under its own token. \<^verbatim>\<open>m_pending_io\<close> is the number of
  awaiters the reactor watches, so when the loop leaves because nothing is pending and nothing is ready,
  no coroutine is left suspended.
\<close>

theorem executor_no_lost_wakeup:
  assumes "epoll_contract K interest" and "ex_reach K (s, p)"
  shows "(\<forall>a h. p a = Some h \<longrightarrow>
            count_list (m_ready (world s)) h = 1 \<or>
            (count_list (m_ready (world s)) h = 0 \<and>
             (\<exists>fd. interest (ex_kernel (world s)) (m_epoll_fd (m_reactor (world s))) fd = Some a))) \<and>
         unat (m_pending_io (world s)) = card (registered_set (world s)) \<and>
         (m_pending_io (world s) = 0 \<and> m_ready (world s) = [] \<longrightarrow> p = Map.empty)"
  using parked_queued_or_watched [OF ex_reach_inv [OF assms]] pending_io_counts [OF ex_reach_inv [OF assms]]
    idle_nothing_parked [OF ex_reach_inv [OF assms]] by blast

text \<open>
  C23: in programs that await each awaiter once, a stop request takes effect at every suspended coroutine whose awaiter has a token: its
  descriptor leaves the reactor, it is in the ready queue exactly once, and its \<^verbatim>\<open>await_resume\<close> returns the error result
  \<open>cancelled\<close> (or the registration error it already had). No awaiter with a token stays registered. This is what the code does; the
  README of the directory says in its place that a cancelled awaiter throws \<^verbatim>\<open>CancelledError\<close>.
\<close>

theorem stop_request_reaches_all:
  assumes "epoll_contract K interest" and "ex_reach K (s, p)" and "request_stop (on_cancel K) s = Some (Inr (b, s'))"
  shows "\<forall>a h. p a = Some h \<longrightarrow>
           (\<exists>w. awaiters (world s') a = Some w \<and>
                (m_token w \<longrightarrow> \<not> m_registered w \<and> count_list (m_ready (world s')) h = 1 \<and>
                   (\<exists>e s''. await_resume K a s' = Inr (Inl e, s'') \<and> (m_add_error w = [] \<longrightarrow> e = ''cancelled''))))"
proof (intro allI impI)
  fix a h assume a: "p a = Some h"
  have inv: "ex_inv interest s' p" and st: "stopped s'"
    using request_stop_inv [OF assms(1) ex_reach_inv [OF assms(1,2)]] assms(3) by auto
  obtain ps where ps: "stop_part s' ps" "ps = []" and pk: "park_inv (world s') p"
    using inv st unfolding ex_inv_def by blast
  obtain w where w: "awaiters (world s') a = Some w" "m_registered w \<or> m_queued w"
    "count_list (m_ready (world s')) h = (if m_queued w then 1 else 0)"
    using park_invD(1) [OF pk a] by blast
  have "\<not> m_registered w" if "m_token w" using stop_partD(4) [OF ps(1) w(1)] that ps(2) by auto
  with w st show "\<exists>w. awaiters (world s') a = Some w \<and>
      (m_token w \<longrightarrow> \<not> m_registered w \<and> count_list (m_ready (world s')) h = 1 \<and>
         (\<exists>e s''. await_resume K a s' = Inr (Inl e, s'') \<and> (m_add_error w = [] \<longrightarrow> e = ''cancelled'')))"
    using await_resume_eq [OF w(1), of K] by (auto simp: resume_result_def)
qed

section \<open>The run loop\<close>

text \<open>
  A resumed coroutine performs steps: the loop hands it the state with its handle taken from the queue.
\<close>

definition resumes_by_steps :: "'k kernel \<Rightarrow> (coro \<Rightarrow> 'k exec_sys \<Rightarrow> 'k exec_sys outcome option) \<Rightarrow> bool" where
  "resumes_by_steps K resume \<longleftrightarrow>
     (\<forall>s p h hs r. ex_reach K (s, p) \<longrightarrow> m_ready (world s) = h # hs \<longrightarrow> resume h (pop_ready hs s) = Some r \<longrightarrow>
        (\<exists>s' p'. r = Inr s' \<and> ex_steps K (s, p) (s', p')))"

lemma ex_reach_steps: "ex_reach K a \<Longrightarrow> ex_steps K a b \<Longrightarrow> ex_reach K b"
  unfolding ex_reach_def by (meson rtranclp_trans)

definition drained :: "'k kernel \<Rightarrow> (coro \<Rightarrow> 'k exec_sys \<Rightarrow> bool) \<Rightarrow> coro option \<Rightarrow> (bool \<times> 'k exec_sys) outcome \<Rightarrow> bool" where
  "drained K is_done target r \<longleftrightarrow>
     (\<exists>b s' p'. r = Inr (b, s') \<and> ex_reach K (s', p') \<and>
        (if b then target_done is_done target s' else m_ready (world s') = [] \<or> \<not> m_running (world s')))"

lemma drain_ready_reach:
  assumes "drain_ready resume is_done target s = Some r"
  shows "resumes_by_steps K resume \<longrightarrow> (\<forall>p. ex_reach K (s, p) \<longrightarrow> drained K is_done target r)"
proof (rule drain_ready.raw_induct [OF _ assms], intro impI allI)
  fix f resume is_done target p and s :: "'a exec_sys" and r
  assume IH: "\<And>resume is_done target s r. f resume is_done target s = Some r \<Longrightarrow>
      resumes_by_steps K resume \<longrightarrow> (\<forall>p. ex_reach K (s, p) \<longrightarrow> drained K is_done target r)"
    and eq: "(case m_ready (world s) of [] \<Rightarrow> Some (Inr (False, s))
      | h # hs \<Rightarrow> if \<not> m_running (world s) then Some (Inr (False, s))
          else Option.bind (resume h (pop_ready hs s)) (\<lambda>res. case res of Inl e \<Rightarrow> Some (Inl e)
             | Inr s' \<Rightarrow> if target_done is_done target s' then Some (Inr (True, s')) else f resume is_done target s')) = Some r"
    and rs: "resumes_by_steps K resume" and re: "ex_reach K (s, p)"
  show "drained K is_done target r"
  proof (cases "m_running (world s) \<and> m_ready (world s) \<noteq> []")
    case False
    then have "r = Inr (False, s)" using eq by (auto split: list.splits)
    with False re show ?thesis by (auto simp: drained_def)
  next
    case True
    then obtain h hs where hs: "m_ready (world s) = h # hs" by (cases "m_ready (world s)") auto
    obtain m where m: "resume h (pop_ready hs s) = Some m" using eq True hs by (auto simp: bind_eq_Some_conv)
    obtain s1 p1 where s1: "m = Inr s1" "ex_reach K (s1, p1)"
      using rs re hs m ex_reach_steps unfolding resumes_by_steps_def by blast
    have "(if target_done is_done target s1 then Some (Inr (True, s1)) else f resume is_done target s1) = Some r"
      using eq True hs m s1(1) by simp
    then show ?thesis using IH [of resume is_done target s1 r] rs s1(2) by (auto simp: drained_def split: if_splits)
  qed
qed

definition run_exits :: "'k kernel \<Rightarrow> (coro \<Rightarrow> 'k exec_sys \<Rightarrow> bool) \<Rightarrow> coro option \<Rightarrow> 'k exec_sys outcome \<Rightarrow> bool" where
  "run_exits K is_done target r \<longleftrightarrow>
     (\<exists>s' p'. r = Inr s' \<and> ex_reach K (s', p') \<and>
        (target_done is_done target s' \<or> \<not> m_running (world s') \<or>
         (m_pending_io (world s') = 0 \<and> m_ready (world s') = [])))"

lemma wait_and_dispatch_step:
  assumes "epoll_contract K interest" "ex_reach K (s, p)"
  shows "\<exists>b s'. wait_and_dispatch K s = Inr (b, s') \<and> ex_reach K (s', p) \<and> (b \<or> \<not> m_running (world s'))"
proof -
  obtain b s' where w: "wait_and_dispatch K s = Inr (b, s')"
    using wait_and_dispatch_inv [OF assms(1) ex_reach_inv [OF assms]] by blast
  have "ex_step K (s, p) (s', p)" by (rule ex_step.wait [OF w])
  then have "ex_reach K (s', p)" using ex_reach_steps [OF assms(2)] by blast
  moreover have "b \<or> \<not> m_running (world s')"
    using w by (auto simp: wait_and_dispatch_def Let_def out_bind_Inr_iff split: sum.splits) (metis sum.exhaust)
  ultimately show ?thesis using w by blast
qed

lemma run_loop_reach:
  assumes "run_loop K resume is_done target s = Some r"
  shows "epoll_contract K interest \<longrightarrow> resumes_by_steps K resume \<longrightarrow> (\<forall>p. ex_reach K (s, p) \<longrightarrow> run_exits K is_done target r)"
proof (rule run_loop.raw_induct [OF _ assms], intro impI allI)
  fix f K resume is_done target p and s :: "'a exec_sys" and r
  assume IH: "\<And>K resume is_done target s r. f K resume is_done target s = Some r \<Longrightarrow>
      epoll_contract K interest \<longrightarrow> resumes_by_steps K resume \<longrightarrow> (\<forall>p. ex_reach K (s, p) \<longrightarrow> run_exits K is_done target r)"
    and eq: "(if \<not> m_running (world s) then Some (Inr s) else if target_done is_done target s then Some (Inr s)
      else Option.bind (drain_ready resume is_done target s) (\<lambda>res. case res of Inl e \<Rightarrow> Some (Inl e)
        | Inr (returned, s1) \<Rightarrow> if returned then Some (Inr s1) else if \<not> m_running (world s1) then Some (Inr s1)
            else if m_pending_io (world s1) = 0 \<and> m_ready (world s1) = [] then Some (Inr s1)
            else (case wait_and_dispatch K s1 of Inl e \<Rightarrow> Some (Inl e)
                  | Inr (ok, s2) \<Rightarrow> if ok then f K resume is_done target s2 else Some (Inr s2)))) = Some r"
    and c: "epoll_contract K interest" and rs: "resumes_by_steps K resume" and re: "ex_reach K (s, p)"
  show "run_exits K is_done target r"
  proof (cases "m_running (world s) \<and> \<not> target_done is_done target s")
    case False
    then have "r = Inr s" using eq by (auto split: if_splits)
    with False re show ?thesis by (auto simp: run_exits_def)
  next
    case True
    then obtain d where d: "drain_ready resume is_done target s = Some d" using eq by (auto simp: bind_eq_Some_conv)
    then obtain b s1 p1 where s1: "d = Inr (b, s1)" "ex_reach K (s1, p1)" "b \<longrightarrow> target_done is_done target s1"
      using drain_ready_reach [OF d, of K] rs re unfolding drained_def by (metis (full_types))
    obtain ok s2 where s2: "wait_and_dispatch K s1 = Inr (ok, s2)" "ex_reach K (s2, p1)" "ok \<or> \<not> m_running (world s2)"
      using wait_and_dispatch_step [OF c s1(2)] by blast
    let ?out = "b \<or> \<not> m_running (world s1) \<or> (m_pending_io (world s1) = 0 \<and> m_ready (world s1) = [])"
    have r: "Some r = (if ?out then Some (Inr s1) else if ok then f K resume is_done target s2 else Some (Inr s2))"
      using eq True d s1(1) s2(1) by (auto split: if_splits)
    show ?thesis
    proof (cases "\<not> ?out \<and> ok")
      case True
      then have "f K resume is_done target s2 = Some r" using r by (simp only: if_True if_False simp_thms)
      then show ?thesis using IH c rs s2(2) by blast
    next
      case False
      then consider "?out" | "\<not> ?out" "\<not> ok" by blast
      then show ?thesis
      proof cases
        case 1
        then have "r = Inr s1" using r by (simp only: if_True option.inject)
        with 1 s1 show ?thesis unfolding run_exits_def by blast
      next
        case 2
        then have "r = Inr s2" using r by (simp only: if_False option.inject)
        with 2 s2 show ?thesis unfolding run_exits_def by blast
      qed
    qed
  qed
qed

text \<open>
  when \<^verbatim>\<open>run_until\<close> returns, for coroutines that keep the interface's contract, it has done nothing
  undefined, and it returns because its target is done, because it was stopped, or because no coroutine is
  suspended at an awaiter and none is ready.
\<close>

theorem run_until_exit:
  assumes "epoll_contract K interest" and "resumes_by_steps K resume" and "ex_reach K (s, p)"
    and "run_until K resume is_done target s = Some r"
  shows "\<exists>s' p'. r = Inr s' \<and> ex_reach K (s', p') \<and>
           (target_done is_done target s' \<or> \<not> m_running (world s') \<or> (p' = Map.empty \<and> m_ready (world s') = []))"
proof -
  have "ex_reach K (world_update (\<lambda>x. x\<lparr>m_running := True\<rparr>) s, p)"
    using ex_reach_steps [OF assms(3)] ex_step.start by blast
  then have "run_exits K is_done target r"
    using run_loop_reach [OF assms(4) [unfolded run_until_def], of interest] assms(1,2) by blast
  then obtain s' p' where s': "r = Inr s'" "ex_reach K (s', p')"
      "target_done is_done target s' \<or> \<not> m_running (world s') \<or> (m_pending_io (world s') = 0 \<and> m_ready (world s') = [])"
    unfolding run_exits_def by blast
  have "p' = Map.empty" if "m_pending_io (world s') = 0" "m_ready (world s') = []"
    using idle_nothing_parked [OF ex_reach_inv [OF assms(1) s'(2)] that] .
  with s' show ?thesis by blast
qed

text \<open>Without I/O the loop returns: every resumption makes progress, measured by \<open>m\<close>.\<close>

lemma drain_ready_returns:
  assumes res: "\<And>h hs t. m_ready (world t) = h # hs \<Longrightarrow> m_running (world t) \<Longrightarrow> m_pending_io (world t) = 0 \<Longrightarrow>
      \<exists>t'. resume h (pop_ready hs t) = Some (Inr t') \<and> m_pending_io (world t') = 0 \<and> m t' < (m t :: nat)"
    and "m_pending_io (world s) = 0"
  shows "\<exists>b s'. drain_ready resume is_done target s = Some (Inr (b, s')) \<and> m_pending_io (world s') = 0 \<and>
           (if b then target_done is_done target s' else m_ready (world s') = [] \<or> \<not> m_running (world s'))"
  using assms(2)
proof (induction "m s" arbitrary: s rule: less_induct)
  case less
  show ?case
  proof (cases "m_running (world s) \<and> m_ready (world s) \<noteq> []")
    case False
    then have "drain_ready resume is_done target s = Some (Inr (False, s))"
      by (subst drain_ready.simps) (auto split: list.splits)
    with False less.prems show ?thesis by auto
  next
    case True
    then obtain h hs where hs: "m_ready (world s) = h # hs" by (cases "m_ready (world s)") auto
    obtain t where t: "resume h (pop_ready hs s) = Some (Inr t)" "m_pending_io (world t) = 0" "m t < m s"
      using res [OF hs] True less.prems by blast
    have eq: "drain_ready resume is_done target s =
        (if target_done is_done target t then Some (Inr (True, t)) else drain_ready resume is_done target t)"
      using True hs t(1) by (subst drain_ready.simps) simp
    show ?thesis
    proof (cases "target_done is_done target t")
      case True
      with eq t(2) show ?thesis by (intro exI [of _ True] exI [of _ t]) simp
    next
      case False
      with eq less.hyps [OF t(3,2)] show ?thesis by simp
    qed
  qed
qed

text \<open>
  C13: with no I/O pending, \<^verbatim>\<open>run_until\<close> returns whenever every resumption returns without registering I/O and
  decreases some measure of the work left; it then leaves the target done, the ready queue empty, or the
  executor stopped.
\<close>

theorem run_until_returns:
  assumes "\<And>h hs t. m_ready (world t) = h # hs \<Longrightarrow> m_running (world t) \<Longrightarrow> m_pending_io (world t) = 0 \<Longrightarrow>
      \<exists>t'. resume h (pop_ready hs t) = Some (Inr t') \<and> m_pending_io (world t') = 0 \<and> m t' < (m t :: nat)"
    and "m_pending_io (world s) = 0"
  shows "\<exists>s'. run_until K resume is_done target s = Some (Inr s') \<and>
           (target_done is_done target s' \<or> \<not> m_running (world s') \<or> m_ready (world s') = [])"
proof -
  let ?s = "world_update (\<lambda>x. x\<lparr>m_running := True\<rparr>) s"
  have p: "m_pending_io (world ?s) = 0" using assms(2) by simp
  obtain b s' where d: "drain_ready resume is_done target ?s = Some (Inr (b, s'))" "m_pending_io (world s') = 0"
      "if b then target_done is_done target s' else m_ready (world s') = [] \<or> \<not> m_running (world s')"
    using drain_ready_returns [where m = m and resume = resume and is_done = is_done and target = target, OF _ p] assms(1)
    by metis
  show ?thesis
  proof (cases "target_done is_done target ?s")
    case True
    then show ?thesis unfolding run_until_def by (subst run_loop.simps) auto
  next
    case False
    then have "run_until K resume is_done target s = Some (Inr s')"
      unfolding run_until_def using d by (subst run_loop.simps) (auto split: if_splits)
    with d(3) show ?thesis by (auto split: if_splits)
  qed
qed

section \<open>Dispatch\<close>

lemma dispatch_queues:
  assumes "ex_inv interest s parked" and "\<forall>t \<in> set ts. tr_user_token t \<in> registered_set (world s)" and "dispatch ts s = Inr s'"
  shows "(\<forall>a w. awaiters (world s) a = Some w \<and> m_queued w \<longrightarrow> (\<exists>w'. awaiters (world s') a = Some w' \<and> m_queued w')) \<and>
         (\<forall>t \<in> set ts. \<exists>w'. awaiters (world s') (tr_user_token t) = Some w' \<and> m_queued w')"
  using assms
proof (induction ts arbitrary: s)
  case (Cons t ts)
  have io: "io_inv interest (world s)" and pk: "park_inv (world s) parked" using Cons.prems(1) by (simp_all add: ex_inv_def)
  obtain w where w: "awaiters (world s) (tr_user_token t) = Some w" "m_registered w"
    using Cons.prems(2) by (auto simp: registered_set_def)
  obtain h where h: "m_continuation w = Some h" using registered_parked [OF pk w] by blast
  note ft = fire_trigger_inv [OF io pk w]
  let ?s = "world_update (fire_trigger t) s"
  have inv: "ex_inv interest ?s parked" by (rule ex_inv_world [where f = "fire_trigger t", OF Cons.prems(1) ft(1-3)])
  have reg: "registered_set (world ?s) = registered_set (world s)"
    using w by (auto simp: registered_set_def ft(4))
  have d: "dispatch ts ?s = Inr s'" using Cons.prems(3) dispatch_Cons [OF w(1) h] by simp
  have q: "\<exists>u. awaiters (world ?s) a = Some u \<and> m_queued u"
    if "a = tr_user_token t \<or> (\<exists>v. awaiters (world s) a = Some v \<and> m_queued v)" for a
    using that by (auto simp: ft(4))
  note ih = Cons.IH [OF inv _ d] Cons.prems(2) reg
  then have keep: "\<exists>w'. awaiters (world s') a = Some w' \<and> m_queued w'" if "\<exists>u. awaiters (world ?s) a = Some u \<and> m_queued u" for a
    using that by auto
  show ?case using ih keep q by auto
qed simp

lemma dispatch_frame:
  assumes "ex_inv interest s parked" and "\<forall>t \<in> set ts. tr_user_token t \<in> registered_set (world s)" and "dispatch ts s = Inr s'"
  shows "dom (awaiters (world s')) = dom (awaiters (world s)) \<and> ex_kernel (world s') = ex_kernel (world s) \<and>
         m_running (world s') = m_running (world s) \<and> set (m_ready (world s')) \<subseteq> set (m_ready (world s)) \<union> ran parked"
  using assms
proof (induction ts arbitrary: s)
  case (Cons t ts)
  have io: "io_inv interest (world s)" and pk: "park_inv (world s) parked" using Cons.prems(1) by (simp_all add: ex_inv_def)
  obtain w where w: "awaiters (world s) (tr_user_token t) = Some w" "m_registered w"
    using Cons.prems(2) by (auto simp: registered_set_def)
  obtain h where h: "parked (tr_user_token t) = Some h" "m_continuation w = Some h" using registered_parked [OF pk w] by blast
  note ft = fire_trigger_inv [OF io pk w]
  let ?s = "world_update (fire_trigger t) s"
  have inv: "ex_inv interest ?s parked" by (rule ex_inv_world [where f = "fire_trigger t", OF Cons.prems(1) ft(1-3)])
  have "registered_set (world ?s) = registered_set (world s)"
    using w by (auto simp: registered_set_def ft(4))
  moreover have "dispatch ts ?s = Inr s'" using Cons.prems(3) dispatch_Cons [OF w(1) h(2)] by simp
  ultimately have "dom (awaiters (world s')) = dom (awaiters (world ?s)) \<and> ex_kernel (world s') = ex_kernel (world ?s) \<and>
      m_running (world s') = m_running (world ?s) \<and> set (m_ready (world s')) \<subseteq> set (m_ready (world ?s)) \<union> ran parked"
    using Cons.IH [OF inv] Cons.prems(2) by simp
  moreover have "dom (awaiters (world ?s)) = dom (awaiters (world s))"
    using w(1) by (auto simp: ft(4))
  moreover have "ex_kernel (world ?s) = ex_kernel (world s)" "m_running (world ?s) = m_running (world s)"
      "set (m_ready (world ?s)) \<subseteq> set (m_ready (world s)) \<union> ran parked"
    using w h by (auto simp: fire_trigger_def Let_def intro: ranI)
  ultimately show ?case by auto
qed simp

text \<open>
  each readiness the kernel reports reaches the coroutine that waits for it: after the wait, every reported
  token is that of an awaiter with a suspended coroutine, and that coroutine is in the ready queue exactly
  once, however often it was reported.
\<close>

theorem wait_wakes_reported:
  assumes "epoll_contract K interest" and "ex_reach K (s, p)"
    and "reactor_wait K (ex_kernel (world s)) (m_reactor (world s)) MAX_EVENTS_PER_WAIT (- 1) = Inr (Inr ts, k)"
    and "wait_and_dispatch K s = Inr (b, s')"
  shows "\<forall>t \<in> set ts. \<exists>h. p (tr_user_token t) = Some h \<and> count_list (m_ready (world s')) h = 1"
proof
  fix t assume t: "t \<in> set ts"
  note inv = ex_reach_inv [OF assms(1,2)]
  have inv': "ex_inv interest s' p" using wait_and_dispatch_inv [OF assms(1) inv] assms(4) by auto
  obtain s1 where s1: "ex_inv interest s1 p" "registered_set (world s1) = registered_set (world s)" "dispatch ts s1 = Inr s'"
    and reg: "\<forall>t \<in> set ts. tr_user_token t \<in> registered_set (world s)"
    using wait_result [OF assms(1) inv assms(3)] assms(3,4) by (auto simp: wait_and_dispatch_def out_bind_Inr_iff)
  obtain w' where w': "awaiters (world s') (tr_user_token t) = Some w'" "m_queued w'"
    using dispatch_queues [OF s1(1) _ s1(3)] reg s1(2) t by auto
  obtain w h where "p (tr_user_token t) = Some h"
    using reg t registered_parked [of "world s" p "tr_user_token t"] inv by (auto simp: registered_set_def ex_inv_def)
  moreover from this w' have "count_list (m_ready (world s')) h = 1"
    using park_invD(1) [of "world s'" p "tr_user_token t" h] inv' by (auto simp: ex_inv_def)
  ultimately show "\<exists>h. p (tr_user_token t) = Some h \<and> count_list (m_ready (world s')) h = 1" by blast
qed

subsection \<open>Awaiting an awaiter again\<close>

text \<open>Reports for an awaiter whose continuation counts as queued only set the fired events.\<close>

lemma dispatch_queued:
  assumes "awaiters (world s) a = Some w" "m_queued w" "\<forall>t \<in> set ts. tr_user_token t = a"
  shows "\<exists>s' ev. dispatch ts s = Inr s' \<and> world s' = (world s)\<lparr>awaiters := (awaiters (world s))(a \<mapsto> w\<lparr>m_fired := ev\<rparr>)\<rparr> \<and>
           nodes s' = nodes s \<and> head s' = head s \<and> stopped s' = stopped s"
  using assms
proof (induction ts arbitrary: s w)
  case Nil
  then show ?case by (intro exI [of _ s] exI [of _ "m_fired w"]) (simp add: fun_upd_idem)
next
  case (Cons t ts)
  let ?w = "w\<lparr>m_fired := tr_events t\<rparr>"
  let ?s = "put_awaiter a ?w s"
  have "awaiters (world ?s) a = Some ?w" "m_queued ?w" "\<forall>t \<in> set ts. tr_user_token t = a" using Cons.prems by simp_all
  from Cons.IH [OF this] obtain s' ev where d: "dispatch ts ?s = Inr s'" and w: 
      "world s' = (world ?s)\<lparr>awaiters := (awaiters (world ?s))(a \<mapsto> ?w\<lparr>m_fired := ev\<rparr>)\<rparr>"
      and o: "nodes s' = nodes ?s" "head s' = head ?s" "stopped s' = stopped ?s"
    by blast
  have "(world ?s)\<lparr>awaiters := (awaiters (world ?s))(a \<mapsto> x)\<rparr> = (world s)\<lparr>awaiters := (awaiters (world s))(a \<mapsto> x)\<rparr>" for x
    by (simp add: put_awaiter_def)
  then have "world s' = (world s)\<lparr>awaiters := (awaiters (world s))(a \<mapsto> ?w\<lparr>m_fired := ev\<rparr>)\<rparr>" using w by (simp only:)
  moreover have "?w\<lparr>m_fired := ev\<rparr> = w\<lparr>m_fired := ev\<rparr>" by simp
  moreover have "dispatch (t # ts) s = Inr s'" using Cons.prems d by (simp add: Let_def)
  moreover have "nodes s' = nodes s" "head s' = head s" "stopped s' = stopped s" using o by (simp_all add: put_awaiter_def)
  ultimately show ?case by metis
qed

text \<open>A registration that succeeds, with the node armed when there is a token.\<close>

abbreviation waiting_sys :: "'k \<Rightarrow> u64 \<Rightarrow> io_awaiter \<Rightarrow> coro \<Rightarrow> 'k exec_sys \<Rightarrow> 'k exec_sys" where
  "waiting_sys k a w h s \<equiv> world_update (\<lambda>x. x\<lparr>ex_kernel := k, awaiters := (awaiters x)(a \<mapsto> w\<lparr>m_continuation := Some h, m_registered := True\<rparr>),
     m_pending_io := m_pending_io x + 1\<rparr>) s"

lemma await_suspend_registered:
  assumes "awaiters (world s) a = Some w"
    and "reactor_add K (ex_kernel (world s)) (m_reactor (world s)) (m_handle w) (m_interest w) a = (Inr n, k)"
  shows "await_suspend K a h s = (if m_token w
           then out_bind (token_arm (on_cancel K) True (waiting_sys k a w h s) (cb_node a) (Some a)) (\<lambda>(_, s2). Inr s2)
           else Inr (waiting_sys k a w h s))"
  using assms by (simp add: await_suspend_def Let_def put_awaiter_def token_stop_possible_def world_update_fold)

lemma link_frame: "link s cb = Inr s' \<Longrightarrow> head s' = Some cb \<and> nodes s' cb \<noteq> None \<and> world s' = world s \<and> stopped s' = stopped s"
  by (auto simp: link_def node_update_def node_at_def out_bind_Inr_iff split: option.splits)

lemma arm_frame:
  assumes "token_arm f True s cb fn = Inr (x, s')" "\<not> stopped s"
  shows "head s' = Some cb \<and> nodes s' cb \<noteq> None \<and> world s' = world s \<and> stopped s' = stopped s"
  using assms by (auto simp: token_arm_def node_update_def node_at_def out_bind_Inr_iff split: option.splits dest: link_frame)

lemma await_suspend_frame:
  assumes "awaiters (world s) a = Some w" "\<not> stopped s"
    and "reactor_add K (ex_kernel (world s)) (m_reactor (world s)) (m_handle w) (m_interest w) a = (Inr n, k)"
    and "await_suspend K a h s = Inr s1"
  shows "world s1 = world (waiting_sys k a w h s)" "\<not> stopped s1" "m_token w \<Longrightarrow> head s1 = Some (cb_node a) \<and> nodes s1 (cb_node a) \<noteq> None"
    "\<not> m_token w \<Longrightarrow> nodes s1 = nodes s \<and> head s1 = head s"
proof -
  note r = assms(4) [unfolded await_suspend_registered [OF assms(1,3)]]
  have "world s1 = world (waiting_sys k a w h s) \<and> \<not> stopped s1 \<and> (m_token w \<longrightarrow> head s1 = Some (cb_node a) \<and> nodes s1 (cb_node a) \<noteq> None) \<and>
      (\<not> m_token w \<longrightarrow> nodes s1 = nodes s \<and> head s1 = head s)"
  proof (cases "m_token w")
    case True
    then obtain x where "token_arm (on_cancel K) True (waiting_sys k a w h s) (cb_node a) (Some a) = Inr (x, s1)"
      using r by (auto simp: out_bind_Inr_iff)
    from arm_frame [OF this] True assms(2) show ?thesis by simp
  next
    case False
    with r assms(2) show ?thesis by auto
  qed
  then show "world s1 = world (waiting_sys k a w h s)" "\<not> stopped s1" "m_token w \<Longrightarrow> head s1 = Some (cb_node a) \<and> nodes s1 (cb_node a) \<noteq> None"
    "\<not> m_token w \<Longrightarrow> nodes s1 = nodes s \<and> head s1 = head s" by simp_all
qed

text \<open>The first report of a waiting awaiter queues its continuation, the others of the same wait do not.\<close>

lemma dispatch_first:
  assumes "awaiters (world s) a = Some w" "\<not> m_queued w" "m_continuation w = Some h" "\<forall>t \<in> set ts. tr_user_token t = a" "ts \<noteq> []"
  shows "\<exists>s' ev. dispatch ts s = Inr s' \<and> world s' = (world s)\<lparr>m_ready := m_ready (world s) @ [h],
             awaiters := (awaiters (world s))(a \<mapsto> w\<lparr>m_queued := True, m_fired := ev\<rparr>)\<rparr> \<and>
           nodes s' = nodes s \<and> head s' = head s \<and> stopped s' = stopped s"
proof -
  obtain t ts' where ts: "ts = t # ts'" using assms(5) by (cases ts) auto
  let ?w = "w\<lparr>m_fired := tr_events t, m_queued := True\<rparr>"
  let ?s = "push_ready h (put_awaiter a ?w (put_awaiter a (w\<lparr>m_fired := tr_events t\<rparr>) s))"
  have "dispatch ts s = dispatch ts' ?s" using assms(1-4) by (simp add: ts Let_def)
  moreover obtain s' ev where "dispatch ts' ?s = Inr s'" "world s' = (world ?s)\<lparr>awaiters := (awaiters (world ?s))(a \<mapsto> ?w\<lparr>m_fired := ev\<rparr>)\<rparr>"
      "nodes s' = nodes ?s" "head s' = head ?s" "stopped s' = stopped ?s"
    using dispatch_queued [of ?s a ?w ts'] assms(4) unfolding ts by (force simp: push_ready_def put_awaiter_def)
  ultimately show ?thesis by (intro exI [of _ s'] exI [of _ ev]) (simp add: push_ready_def put_awaiter_def)
qed

text \<open>
  A whole await of an awaiter not awaited before: it suspends, its descriptor is reported, its coroutine is taken from
  the ready queue, which \<open>q\<close> is then, and resumed.
\<close>

lemma await_cycle:
  assumes w: "awaiters (world s) a = Some w" "\<not> m_queued w" "\<not> m_cancelled w" "m_add_error w = []" and n: "\<not> stopped s"
    and add: "reactor_add K (ex_kernel (world s)) (m_reactor (world s)) (m_handle w) (m_interest w) a = (Inr n, k)"
    and sus: "await_suspend K a h s = Inr s1" and trig: "dispatch ts s1 = Inr s2" "\<forall>t \<in> set ts. tr_user_token t = a" "ts \<noteq> []"
    and res: "await_resume K a (world_update (\<lambda>x. x\<lparr>m_ready := q\<rparr>) s2) = Inr (r, s3)"
  shows "m_ready (world s2) = m_ready (world s) @ [h]" "r = Inr 0"
    "\<exists>ev. awaiters (world s3) a = Some (w\<lparr>m_continuation := Some h, m_queued := True, m_fired := ev, m_registered := False\<rparr>)"
    "m_ready (world s3) = q" "nodes s3 = nodes s1" "head s3 = head s1" "\<not> stopped s3"
proof -
  let ?w = "w\<lparr>m_continuation := Some h, m_registered := True\<rparr>"
  note 1 = await_suspend_frame [OF w(1) n add sus]
  have w1: "awaiters (world s1) a = Some ?w" "m_ready (world s1) = m_ready (world s)" by (simp_all add: 1(1))
  obtain ev where 2: "world s2 = (world s1)\<lparr>m_ready := m_ready (world s1) @ [h], awaiters := (awaiters (world s1))(a \<mapsto> ?w\<lparr>m_queued := True, m_fired := ev\<rparr>)\<rparr>"
      "nodes s2 = nodes s1" "head s2 = head s1" "stopped s2 = stopped s1"
    using dispatch_first [OF w1(1) _ _ trig(2,3), of h] w(2) trig(1) by auto
  show "m_ready (world s2) = m_ready (world s) @ [h]" by (simp add: 2(1) w1(2))
  have rs: "r = Inr 0 \<and> s3 = deregister K a (?w\<lparr>m_queued := True, m_fired := ev\<rparr>) (world_update (\<lambda>x. x\<lparr>m_ready := q\<rparr>) s2)"
    using res w(3,4) 1(2) by (simp add: await_resume_def awaiter_at_def 2 Let_def token_stop_requested_def)
  then show "r = Inr 0" ..
  from rs show "\<exists>ev. awaiters (world s3) a = Some (w\<lparr>m_continuation := Some h, m_queued := True, m_fired := ev, m_registered := False\<rparr>)"
    "m_ready (world s3) = q" "nodes s3 = nodes s1" "head s3 = head s1" "\<not> stopped s3"
    using 1(2) 2 by (auto simp: deregister_def put_awaiter_def split: prod.splits)
qed

text \<open>
  C37: Awaiting the same awaiter a second time strands the coroutine. The first await of a new awaiter works: the report of its
  descriptor queues the coroutine, and the resumption gives success. But the resumption leaves \<^verbatim>\<open>m_queued\<close> set, so in a second
  await, however often the descriptor is reported ready, the coroutine is never put in the ready queue, while
  the awaiter stays registered and counted as pending.
\<close>

theorem awaiter_reuse_strands:
  assumes mk: "s = io_awaiter_make s0 a handle ev tok" "\<not> stopped s0"
    and add: "reactor_add K (ex_kernel (world s)) (m_reactor (world s)) handle ev a = (Inr n, k)"
    and first: "await_suspend K a h s = Inr s1" "dispatch ts s1 = Inr s2" "\<forall>t \<in> set ts. tr_user_token t = a" "ts \<noteq> []"
      "await_resume K a (world_update (\<lambda>x. x\<lparr>m_ready := q\<rparr>) s2) = Inr (r, s3)"
    and again: "reactor_add K (ex_kernel (world s3)) (m_reactor (world s3)) handle ev a = (Inr n', k')"
      "await_suspend K a h' s3 = Inr s4" "\<forall>t \<in> set ts'. tr_user_token t = a"
  shows "m_ready (world s2) = m_ready (world s0) @ [h] \<and> r = Inr 0 \<and>
         (\<exists>s5. dispatch ts' s4 = Inr s5 \<and> m_ready (world s5) = q \<and> a \<in> registered_set (world s5) \<and>
            m_pending_io (world s5) = m_pending_io (world s3) + 1)"
proof -
  let ?w = "\<lparr>m_handle = handle, m_interest = ev, m_fired = Event_None, m_continuation = None, m_token = tok,
       m_add_error = [], m_cancelled = False, m_queued = False, m_registered = False\<rparr>"
  have w: "awaiters (world s) a = Some ?w" "m_ready (world s) = m_ready (world s0)" "\<not> stopped s"
    using mk by (simp_all add: io_awaiter_make_def node_construct_def)
  note c = await_cycle [OF w(1) _ _ _ w(3) _ first, simplified, OF add]
  obtain ev' where w3: "awaiters (world s3) a = Some (?w\<lparr>m_continuation := Some h, m_queued := True, m_fired := ev', m_registered := False\<rparr>)"
    using c(3) by auto
  note 4 = await_suspend_frame [OF w3 c(7), simplified, OF again(1,2)]
  have w4: "\<exists>u. awaiters (world s4) a = Some u \<and> m_queued u \<and> m_registered u" by (simp add: 4(1))
  then obtain u where u: "awaiters (world s4) a = Some u" "m_queued u" "m_registered u" by blast
  obtain s5 e5 where "dispatch ts' s4 = Inr s5" "world s5 = (world s4)\<lparr>awaiters := (awaiters (world s4))(a \<mapsto> u\<lparr>m_fired := e5\<rparr>)\<rparr>"
    using dispatch_queued [OF u(1,2) again(3)] by blast
  then show ?thesis using c w(2) u(3) by (intro conjI exI [of _ s5]) (simp_all add: registered_set_def 4(1))
qed

text \<open>Linking the first node of the stop list once more makes it its own neighbour; destroying it then leaves the head dangling.\<close>

lemma relink_head:
  assumes "nodes s cb = Some n" "head s = Some cb"
  shows "link s cb = Inr (s\<lparr>nodes := (nodes s)(cb \<mapsto> n\<lparr>nd_prev := Some cb, nd_next := Some cb, nd_state := True\<rparr>)\<rparr>)"
  using assms by (cases s; cases n) (simp add: link_def node_update_def node_at_def)

lemma self_linked_destroy:
  assumes "nodes s cb = Some n" "nd_prev n = Some cb" "nd_next n = Some cb" "nd_state n"
  shows "node_destroy s cb = Inr (s\<lparr>nodes := (nodes s)(cb := None)\<rparr>)"
  using assms by (simp add: node_destroy_def unlink_def node_update_def node_at_def)

lemma dangling_head: "head s = Some cb \<Longrightarrow> nodes s cb = None \<Longrightarrow> \<not> stopped s \<Longrightarrow> request_stop f s = Some (Inl Dead_Object)"
  by (simp add: request_stop_def fire_loop.simps [of f "s\<lparr>stopped := True\<rparr>"] unlink_def node_at_def)

lemma await_resume_frame: "await_resume K a s = Inr (r, s') \<Longrightarrow> nodes s' = nodes s \<and> head s' = head s \<and> stopped s' = stopped s"
  by (auto simp: await_resume_def deregister_def put_awaiter_def out_bind_Inr_iff Let_def split: prod.splits if_splits)

lemma rearm:
  assumes "awaiters (world s) a = Some w" "m_token w" "\<not> stopped s" "nodes s (cb_node a) \<noteq> None" "head s = Some (cb_node a)"
    and "reactor_add K (ex_kernel (world s)) (m_reactor (world s)) (m_handle w) (m_interest w) a = (Inr n, k)" "await_suspend K a h s = Inr s1"
  shows "head s1 = Some (cb_node a) \<and> \<not> stopped s1 \<and>
    (\<exists>n. nodes s1 (cb_node a) = Some n \<and> nd_prev n = Some (cb_node a) \<and> nd_next n = Some (cb_node a) \<and> nd_state n)"
proof -
  obtain nd where nd: "nodes s (cb_node a) = Some nd" using assms(4) by blast
  let ?s = "waiting_sys k a w h s" let ?t = "?s\<lparr>nodes := (nodes s)(cb_node a \<mapsto> nd\<lparr>nd_fn := Some a\<rparr>)\<rparr>"
  have "token_arm (on_cancel K) True ?s (cb_node a) (Some a) = out_bind (link ?t (cb_node a)) (\<lambda>s2. Inr (False, s2))"
    using nd assms(3) by (simp add: token_arm_def node_update_def node_at_def)
  then show ?thesis using assms(2,3,5,7) relink_head [of ?t "cb_node a" "nd\<lparr>nd_fn := Some a\<rparr>"]
    unfolding await_suspend_registered [OF assms(1,6)] by auto
qed

text \<open>
  C38: Awaiting the same awaiter a second time with a stop token corrupts the stop list: its node, still linked from the first await, is linked
  again and becomes its own neighbour, so every node behind it is lost. When the awaiter is gone, the list still starts at its node, and
  a request to stop follows the dangling pointer.
\<close>

theorem awaiter_rearm_dangles:
  assumes mk: "s = io_awaiter_make s0 a handle ev True" "\<not> stopped s0"
    and add: "reactor_add K (ex_kernel (world s)) (m_reactor (world s)) handle ev a = (Inr n, k)"
    and first: "await_suspend K a h s = Inr s1" "dispatch ts s1 = Inr s2" "\<forall>t \<in> set ts. tr_user_token t = a" "ts \<noteq> []"
      "await_resume K a (world_update (\<lambda>x. x\<lparr>m_ready := q\<rparr>) s2) = Inr (r, s3)"
    and again: "reactor_add K (ex_kernel (world s3)) (m_reactor (world s3)) handle ev a = (Inr n', k')" "await_suspend K a h' s3 = Inr s4"
    and over: "await_resume K a (world_update (\<lambda>x. x\<lparr>m_ready := q'\<rparr>) s4) = Inr (r', s5)" "io_awaiter_destroy s5 a = Inr s6"
  shows "(\<exists>nd. nodes s4 (cb_node a) = Some nd \<and> nd_prev nd = Some (cb_node a) \<and> nd_next nd = Some (cb_node a)) \<and>
         request_stop (on_cancel K) s6 = Some (Inl Dead_Object)"
proof -
  let ?w = "\<lparr>m_handle = handle, m_interest = ev, m_fired = Event_None, m_continuation = None, m_token = True,
       m_add_error = [], m_cancelled = False, m_queued = False, m_registered = False\<rparr>"
  have w: "awaiters (world s) a = Some ?w" "\<not> stopped s" using mk by (simp_all add: io_awaiter_make_def node_construct_def)
  note c = await_cycle [OF w(1) _ _ _ w(2) _ first, simplified, OF add]
  have 1: "head s1 = Some (cb_node a)" "nodes s1 (cb_node a) \<noteq> None"
    using await_suspend_frame(3) [OF w, simplified, OF add first(1)] by auto
  obtain ev' where w3: "awaiters (world s3) a = Some (?w\<lparr>m_continuation := Some h, m_queued := True, m_fired := ev', m_registered := False\<rparr>)"
    using c(3) by auto
  obtain nd where 4: "head s4 = Some (cb_node a)" "\<not> stopped s4" "nodes s4 (cb_node a) = Some nd"
      "nd_prev nd = Some (cb_node a)" "nd_next nd = Some (cb_node a)" "nd_state nd"
    using rearm [OF w3 _ c(7), simplified, OF _ _ again] 1 c(5,6) by auto
  have 5: "nodes s5 = nodes s4" "head s5 = head s4" "stopped s5 = stopped s4" using await_resume_frame [OF over(1)] by simp_all
  have "node_destroy s5 (cb_node a) = Inr (s5\<lparr>nodes := (nodes s5)(cb_node a := None)\<rparr>)"
    by (rule self_linked_destroy) (use 4 5 in simp_all)
  then have "head s6 = Some (cb_node a)" "nodes s6 (cb_node a) = None" "\<not> stopped s6"
    using over(2) 4 5 by (auto simp: io_awaiter_destroy_def)
  then show ?thesis using 4 dangling_head by blast
qed

section \<open>A concrete kernel and run\<close>

text \<open>
  The state is the interest list. The descriptor 5 is always ready, so a wait reports it when it is
  registered. A coroutine with handle 7 waits for it at the awaiter with address 16, with a stop token.
\<close>

definition poll_kernel :: "(fd \<Rightarrow> fd \<Rightarrow> u64 option) kernel" where
  "poll_kernel = \<lparr>
     sys_epoll_create = (\<lambda>k. (3, k(3 := Map.empty))), sys_eventfd = (\<lambda>k. (4, k)),
     sys_epoll_add = (\<lambda>k ep fd _ tok. if k ep fd = None then (0, k(ep := (k ep)(fd \<mapsto> tok))) else (- 1, k)),
     sys_epoll_mod = (\<lambda>k ep fd _ tok. if k ep fd = None then (- 1, k) else (0, k(ep := (k ep)(fd \<mapsto> tok)))),
     sys_epoll_del = (\<lambda>k ep fd. (if k ep fd = None then - 1 else 0, k(ep := (k ep)(fd := None)))),
     sys_epoll_wait = (\<lambda>k ep m _. case k ep 5 of Some tok \<Rightarrow> if 0 < m then (1, [(EPOLLIN, tok)], k) else (0, [], k) | None \<Rightarrow> (0, [], k)),
     sys_read8 = (\<lambda>k _. k), sys_write8 = (\<lambda>k _ _. k), sys_close = (\<lambda>k fd. k(fd := Map.empty)),
     sys_errno = (\<lambda>_. 17), strerror = (\<lambda>_. ''File exists'')\<rparr>"

lemma poll_kernel_contract: "epoll_contract poll_kernel id"
  unfolding epoll_contract_def poll_kernel_def by (auto split: option.splits if_splits intro: ranI)

definition demo_executor :: "(fd \<Rightarrow> fd \<Rightarrow> u64 option) executor" where
  "demo_executor = \<lparr>ex_kernel = (\<lambda>_. Map.empty)(3 := [4 \<mapsto> WAKE_TOKEN]), m_reactor = \<lparr>m_epoll_fd = 3, m_wake_fd = 4\<rparr>,
     m_ready = [], m_pending_io = 0, m_running = False, awaiters = Map.empty\<rparr>"

lemma demo_create: "fst (executor_create poll_kernel (\<lambda>_. Map.empty)) = Inr demo_executor"
  by (simp add: executor_create_def reactor_create_def poll_kernel_def reactor_move_def demo_executor_def)

definition demo_awaiter :: "(fd \<Rightarrow> fd \<Rightarrow> u64 option) exec_sys" where
  "demo_awaiter = io_awaiter_make (stop_init demo_executor) 16 5 Event_Readable True"

lemma demo_awaiter_facts:
  "\<exists>w. awaiters (world demo_awaiter) 16 = Some w \<and> m_continuation w = None \<and> m_token w"
  "await_ready demo_awaiter 16 = Inr False" "m_ready (world demo_awaiter) = []"
  by (simp_all add: demo_awaiter_def io_awaiter_make_def node_construct_def stop_init_def demo_executor_def await_ready_def
      awaiter_at_def token_stop_requested_def token_stop_possible_def)

lemma demo_reach0: "ex_reach poll_kernel (stop_init demo_executor, Map.empty)"
proof -
  obtain k' where "executor_create poll_kernel (\<lambda>_. Map.empty) = (Inr demo_executor, k')"
    using demo_create by (metis prod.collapse)
  then show ?thesis unfolding ex_reach_def by blast
qed

lemma demo_reach1: "ex_reach poll_kernel (demo_awaiter, Map.empty)"
proof -
  have "ex_step poll_kernel (stop_init demo_executor, Map.empty) (demo_awaiter, Map.empty)"
    unfolding demo_awaiter_def by (rule ex_step.construct) (simp_all add: stop_init_def demo_executor_def WAKE_TOKEN_def)
  then show ?thesis using ex_reach_steps [OF demo_reach0] by blast
qed

text \<open>The coroutine is suspended at the awaiter.\<close>

definition demo_parked :: "(fd \<Rightarrow> fd \<Rightarrow> u64 option) exec_sys" where
  "demo_parked = (case await_suspend poll_kernel 16 7 demo_awaiter of Inr s \<Rightarrow> s | Inl _ \<Rightarrow> demo_awaiter)"

lemma demo_parked_eq: "await_suspend poll_kernel 16 7 demo_awaiter = Inr demo_parked"
proof -
  obtain w where "awaiters (world demo_awaiter) 16 = Some w" "m_continuation w = None"
    using demo_awaiter_facts(1) by blast
  from await_suspend_inv [OF poll_kernel_contract ex_reach_inv [OF poll_kernel_contract demo_reach1] this demo_awaiter_facts(2), of 7]
  show ?thesis by (auto simp: demo_parked_def demo_awaiter_facts(3))
qed

lemma demo_reach2: "ex_reach poll_kernel (demo_parked, [16 \<mapsto> 7])"
proof -
  obtain w where "awaiters (world demo_awaiter) 16 = Some w" "m_continuation w = None"
    using demo_awaiter_facts(1) by blast
  then have "ex_step poll_kernel (demo_awaiter, Map.empty) (demo_parked, [16 \<mapsto> 7])"
    by (rule ex_step.suspend) (simp_all add: demo_awaiter_facts demo_parked_eq)
  then show ?thesis using ex_reach_steps [OF demo_reach1] by blast
qed

theorem executor_never_dangles_witness:
  "\<exists>b s'. wait_and_dispatch poll_kernel demo_parked = Inr (b, s')"
  using executor_never_dangles [OF poll_kernel_contract demo_reach2] by blast

theorem executor_no_lost_wakeup_witness:
  "count_list (m_ready (world demo_parked)) 7 = 1 \<or>
   (count_list (m_ready (world demo_parked)) 7 = 0 \<and>
    (\<exists>fd. id (ex_kernel (world demo_parked)) (m_epoll_fd (m_reactor (world demo_parked))) fd = Some 16))"
  using executor_no_lost_wakeup [OF poll_kernel_contract demo_reach2] by (metis fun_upd_same)

lemma demo_parked_world:
  "ex_kernel (world demo_parked) = (\<lambda>_. Map.empty)(3 := [4 \<mapsto> WAKE_TOKEN, 5 \<mapsto> 16])"
  "m_reactor (world demo_parked) = \<lparr>m_epoll_fd = 3, m_wake_fd = 4\<rparr>"
  "map_option m_token (awaiters (world demo_parked) 16) = Some True"
  by (simp_all add: demo_parked_def demo_awaiter_def io_awaiter_make_def node_construct_def stop_init_def demo_executor_def
      await_suspend_def awaiter_at_def put_awaiter_def reactor_add_def poll_kernel_def token_stop_possible_def token_arm_def
      node_update_def node_at_def link_def stop_callback_node_make_def Let_def)

theorem stop_request_reaches_all_witness:
  "\<exists>b s' w. request_stop (on_cancel poll_kernel) demo_parked = Some (Inr (b, s')) \<and> awaiters (world s') 16 = Some w \<and>
     (m_token w \<longrightarrow> count_list (m_ready (world s')) 7 = 1)"
proof -
  obtain b s' where r: "request_stop (on_cancel poll_kernel) demo_parked = Some (Inr (b, s'))"
    using request_stop_inv [OF poll_kernel_contract ex_reach_inv [OF poll_kernel_contract demo_reach2]] by blast
  from stop_request_reaches_all [OF poll_kernel_contract demo_reach2 r] show ?thesis using r by (metis fun_upd_same)
qed

theorem wait_wakes_reported_witness:
  "\<exists>b s'. wait_and_dispatch poll_kernel demo_parked = Inr (b, s') \<and> count_list (m_ready (world s')) 7 = 1"
proof -
  obtain b s' where d: "wait_and_dispatch poll_kernel demo_parked = Inr (b, s')"
    using wait_and_dispatch_inv [OF poll_kernel_contract ex_reach_inv [OF poll_kernel_contract demo_reach2]] by blast
  have w: "reactor_wait poll_kernel (ex_kernel (world demo_parked)) (m_reactor (world demo_parked)) MAX_EVENTS_PER_WAIT (- 1)
      = Inr (Inr [\<lparr>tr_events = from_epoll EPOLLIN, tr_user_token = 16\<rparr>], ex_kernel (world demo_parked))"
    by (simp add: reactor_wait_def demo_parked_world poll_kernel_def MAX_EVENTS_PER_WAIT_def WAKE_TOKEN_def)
  from wait_wakes_reported [OF poll_kernel_contract demo_reach2 w d] d show ?thesis by auto
qed

text \<open>A resumption for coroutines that are not suspended at an awaiter: they just finish.\<close>

definition finish :: "coro \<Rightarrow> (fd \<Rightarrow> fd \<Rightarrow> u64 option) exec_sys \<Rightarrow> (fd \<Rightarrow> fd \<Rightarrow> u64 option) exec_sys outcome option" where
  "finish h s = (if \<exists>a w. awaiters (world s) a = Some w \<and> m_continuation w = Some h then None else Some (Inr s))"

lemma finish_by_steps: "resumes_by_steps poll_kernel finish"
  unfolding resumes_by_steps_def
proof (intro allI impI)
  fix s p h hs r
  assume re: "ex_reach poll_kernel (s, p)" and hs: "m_ready (world s) = h # hs" and r: "finish h (pop_ready hs s) = Some r"
  have pk: "park_inv (world s) p" using ex_reach_inv [OF poll_kernel_contract re] by (simp add: ex_inv_def)
  have "h \<notin> ran p"
  proof
    assume "h \<in> ran p"
    then obtain a where "p a = Some h" by (auto simp: ran_def)
    with park_invD(1) [OF pk] r show False by (fastforce simp: finish_def split: if_splits)
  qed
  then have "ex_step poll_kernel (s, p) (pop_ready hs s, p)" by (rule ex_step.resume_other [OF hs])
  with r show "\<exists>s' p'. r = Inr s' \<and> ex_steps poll_kernel (s, p) (s', p')" by (auto simp: finish_def split: if_splits)
qed

definition demo_scheduled :: "(fd \<Rightarrow> fd \<Rightarrow> u64 option) exec_sys" where
  "demo_scheduled = Executor.schedule 7 (stop_init demo_executor)"

lemma demo_scheduled_reach: "ex_reach poll_kernel (demo_scheduled, Map.empty)"
proof -
  have "ex_step poll_kernel (stop_init demo_executor, Map.empty) (demo_scheduled, Map.empty)"
    unfolding demo_scheduled_def by (rule ex_step.schedule) simp
  then show ?thesis using ex_reach_steps [OF demo_reach0] by blast
qed

lemma demo_run: "\<exists>r. run_until poll_kernel finish (\<lambda>_ _. False) None demo_scheduled = Some r"
proof -
  let ?t = "pop_ready [] (world_update (\<lambda>x. x\<lparr>m_running := True\<rparr>) demo_scheduled)"
  have w: "m_ready (world demo_scheduled) = [7]" "m_pending_io (world demo_scheduled) = 0" "awaiters (world demo_scheduled) = Map.empty"
    by (simp_all add: demo_scheduled_def schedule_def stop_init_def demo_executor_def)
  have d2: "drain_ready finish (\<lambda>_ _. False) None t = Some (Inr (False, t))" if "m_ready (world t) = []" for t
    using that by (subst drain_ready.simps) simp
  have d1: "drain_ready finish (\<lambda>_ _. False) None (world_update (\<lambda>x. x\<lparr>m_running := True\<rparr>) demo_scheduled) = Some (Inr (False, ?t))"
    by (subst drain_ready.simps) (simp add: w finish_def target_done_def d2)
  show ?thesis
    unfolding run_until_def by (subst run_loop.simps) (simp add: d1 target_done_def w)
qed

theorem run_until_exit_witness:
  "\<exists>s' p'. run_until poll_kernel finish (\<lambda>_ _. False) None demo_scheduled = Some (Inr s') \<and>
     (\<not> m_running (world s') \<or> (p' = Map.empty \<and> m_ready (world s') = []))"
proof -
  obtain r where r: "run_until poll_kernel finish (\<lambda>_ _. False) None demo_scheduled = Some r" using demo_run by blast
  from run_until_exit [OF poll_kernel_contract finish_by_steps demo_scheduled_reach r] r show ?thesis
    by (auto simp: target_done_def)
qed

theorem run_until_returns_witness:
  "\<exists>s'. run_until poll_kernel (\<lambda>_ s. Some (Inr s)) (\<lambda>_ _. False) None demo_scheduled = Some (Inr s') \<and>
     (\<not> m_running (world s') \<or> m_ready (world s') = [])"
proof -
  have "m_pending_io (world demo_scheduled) = 0"
    by (simp add: demo_scheduled_def schedule_def stop_init_def demo_executor_def)
  from run_until_returns [where resume = "\<lambda>_ s. Some (Inr s)" and m = "\<lambda>t. length (m_ready (world t))" and K = poll_kernel
      and is_done = "\<lambda>_ _. False" and target = None, OF _ this]
  show ?thesis by (auto simp: target_done_def)
qed

text \<open>An awaiter for descriptor 5 awaited twice by coroutine 7 over the same kernel, which reports it each time.\<close>

abbreviation report16 :: trigger where
  "report16 \<equiv> \<lparr>tr_events = Event_Readable, tr_user_token = 16\<rparr>"

lemmas reuse_defs = io_awaiter_make_def stop_init_def demo_executor_def await_suspend_def await_resume_def reactor_add_def reactor_remove_def
  poll_kernel_def token_stop_possible_def token_stop_requested_def deregister_def node_construct_def put_awaiter_def push_ready_def

theorem awaiter_reuse_strands_witness:
  "\<exists>s1 s2 s3 s4 s5. await_suspend poll_kernel 16 7 (io_awaiter_make (stop_init demo_executor) 16 5 Event_Readable False) = Inr s1 \<and>
     dispatch [report16] s1 = Inr s2 \<and> m_ready (world s2) = [7] \<and>
     await_resume poll_kernel 16 (world_update (\<lambda>x. x\<lparr>m_ready := []\<rparr>) s2) = Inr (Inr 0, s3) \<and>
     await_suspend poll_kernel 16 7 s3 = Inr s4 \<and> dispatch [report16, report16] s4 = Inr s5 \<and> m_ready (world s5) = [] \<and> 16 \<in> registered_set (world s5)"
proof -
  let ?base = "stop_init demo_executor :: (fd \<Rightarrow> fd \<Rightarrow> u64 option) exec_sys" let ?aw = "io_awaiter_make ?base 16 5 Event_Readable False"
  obtain n k s1 s2 r s3 n' k' s4 where c: "reactor_add poll_kernel (ex_kernel (world ?aw)) (m_reactor (world ?aw)) 5 Event_Readable 16 = (Inr n, k)"
      "await_suspend poll_kernel 16 7 ?aw = Inr s1" "dispatch [report16] s1 = Inr s2"
      "await_resume poll_kernel 16 (world_update (\<lambda>x. x\<lparr>m_ready := []\<rparr>) s2) = Inr (r, s3)"
      "reactor_add poll_kernel (ex_kernel (world s3)) (m_reactor (world s3)) 5 Event_Readable 16 = (Inr n', k')" "await_suspend poll_kernel 16 7 s3 = Inr s4"
    by (simp add: reuse_defs Let_def)
  have "\<not> stopped ?base" "m_ready (world ?base) = []" by (simp_all add: stop_init_def demo_executor_def)
  from awaiter_reuse_strands [OF refl this(1) c(1-3) _ _ c(4-6), of "[report16, report16]"] this(2) c show ?thesis by fastforce
qed

lemmas rearm_defs = reuse_defs token_arm_def link_def node_update_def node_at_def stop_callback_node_make_def io_awaiter_destroy_def node_destroy_def unlink_def

theorem awaiter_rearm_dangles_witness:
  "\<exists>s1 s2 s3 s4 s5 s6. await_suspend poll_kernel 16 7 (io_awaiter_make (stop_init demo_executor) 16 5 Event_Readable True) = Inr s1 \<and>
     dispatch [report16] s1 = Inr s2 \<and> await_resume poll_kernel 16 (world_update (\<lambda>x. x\<lparr>m_ready := []\<rparr>) s2) = Inr (Inr 0, s3) \<and>
     await_suspend poll_kernel 16 7 s3 = Inr s4 \<and> await_resume poll_kernel 16 (world_update (\<lambda>x. x\<lparr>m_ready := []\<rparr>) s4) = Inr (Inr 0, s5) \<and>
     io_awaiter_destroy s5 16 = Inr s6 \<and> request_stop (on_cancel poll_kernel) s6 = Some (Inl Dead_Object)"
proof -
  let ?base = "stop_init demo_executor :: (fd \<Rightarrow> fd \<Rightarrow> u64 option) exec_sys" let ?aw = "io_awaiter_make ?base 16 5 Event_Readable True"
  obtain n k s1 s2 s3 n' k' s4 s5 s6 where c: "reactor_add poll_kernel (ex_kernel (world ?aw)) (m_reactor (world ?aw)) 5 Event_Readable 16 = (Inr n, k)"
      "await_suspend poll_kernel 16 7 ?aw = Inr s1" "dispatch [report16] s1 = Inr s2"
      "await_resume poll_kernel 16 (world_update (\<lambda>x. x\<lparr>m_ready := []\<rparr>) s2) = Inr (Inr 0, s3)"
      "reactor_add poll_kernel (ex_kernel (world s3)) (m_reactor (world s3)) 5 Event_Readable 16 = (Inr n', k')" "await_suspend poll_kernel 16 7 s3 = Inr s4"
      "await_resume poll_kernel 16 (world_update (\<lambda>x. x\<lparr>m_ready := []\<rparr>) s4) = Inr (Inr 0, s5)" "io_awaiter_destroy s5 16 = Inr s6"
    by (simp add: rearm_defs Let_def)
  have "\<not> stopped ?base" by (simp add: stop_init_def)
  from awaiter_rearm_dangles [OF refl this c(1-3) _ _ c(4-8)] c show ?thesis by auto
qed

end
