(* ===== verification/Coroutines.thy ===== *)
theory Coroutines
  imports Sap_Prelude
begin

text \<open>
  Coroutine tasks, \<^verbatim>\<open>include/sap_core/async/task.h\<close>, \<^verbatim>\<open>spawn.h\<close>, \<^verbatim>\<open>sync_wait.h\<close> and \<^verbatim>\<open>when_all.h\<close>. A coroutine
  body is the client's code: a tree of what it does up to the next suspension. Frames live in a heap, so
  that destroying one twice or resuming a destroyed one is a value of the model. Symmetric transfer is a
  loop over the handles the awaiters return.
\<close>

section \<open>Bodies and frames\<close>

text \<open>
  \<^verbatim>\<open>co_return v\<close>, an exception leaving the body, \<^verbatim>\<open>co_await make_task()\<close> on a temporary task with the rest of the body
  given its exception or value, \<^verbatim>\<open>co_await stl::move(task)\<close> on a task object that lives elsewhere, and a
  suspension that something outside resumes. A task object is its handle, or null.
\<close>

type_synonym cid = nat
type_synonym task = "cid option"

datatype (dead 'v, dead 'e) body =
    Ret 'v
  | Thr 'e
  | Await "('v, 'e) body" "'e + 'v \<Rightarrow> ('v, 'e) body"
  | Await_Task task "'e + 'v \<Rightarrow> ('v, 'e) body"
  | Susp "('v, 'e) body"

text \<open>A suspended frame is before a piece of body, at a task (a temporary one or not), or at its end.\<close>

datatype (dead 'v, dead 'e) fstate =
    At "('v, 'e) body"
  | Awaiting task bool "'e + 'v \<Rightarrow> ('v, 'e) body"
  | Final

datatype promise_kind = Task_Promise | Spawn_Promise | Sync_Promise

record ('v, 'e) frame =
  fr_state :: "('v, 'e) fstate"
  fr_kind :: promise_kind
  exc :: "'e option"
  pvalue :: "'v option"
  continuation :: "cid option"
  detached :: bool
  handle_dropped :: bool
  fr_params :: "task list" \<comment> \<open>task parameters, moved into the frame\<close>

record ('v, 'e) machine =
  frames :: "cid \<Rightarrow> ('v, 'e) frame option"
  next_cid :: nat
  sem :: nat

datatype control = To cid | Outside | Parked cid

definition frame_at :: "('v, 'e) machine \<Rightarrow> cid \<Rightarrow> ('v, 'e) frame outcome" where
  "frame_at m h = (case frames m h of Some f \<Rightarrow> Inr f | None \<Rightarrow> Inl Dead_Object)"

definition set_frame :: "cid \<Rightarrow> ('v, 'e) frame \<Rightarrow> ('v, 'e) machine \<Rightarrow> ('v, 'e) machine" where
  "set_frame h f m = m\<lparr>frames := (frames m)(h \<mapsto> f)\<rparr>"

text \<open>Calling a coroutine allocates its frame; \<^verbatim>\<open>initial_suspend\<close> suspends before the body.\<close>

definition new_frame :: "promise_kind \<Rightarrow> task list \<Rightarrow> ('v, 'e) body \<Rightarrow> ('v, 'e) machine \<Rightarrow> cid \<times> ('v, 'e) machine" where
  "new_frame kd ts b m =
     (next_cid m, m\<lparr>next_cid := Suc (next_cid m), frames := (frames m)(next_cid m \<mapsto>
        \<lparr>fr_state = At b, fr_kind = kd, exc = None, pvalue = None, continuation = None, detached = False, handle_dropped = False,
         fr_params = ts\<rparr>)\<rparr>)"

text \<open>
  \<^verbatim>\<open>coroutine_handle::destroy\<close>: the temporary task the frame is suspended at and the task parameters die with the
  frame. The fuel bounds the depth of such frames; a frame is older than the temporaries it awaits and
  younger than its parameters, so the number of frames ever made is enough.
\<close>

fun frame_tasks :: "('v, 'e) frame \<Rightarrow> cid list" where
  "frame_tasks f = (case fr_state f of Awaiting (Some c) True k \<Rightarrow> [c] | _ \<Rightarrow> []) @ List.map_filter id (fr_params f)"

fun destroy_tree :: "nat \<Rightarrow> (cid \<Rightarrow> ('v, 'e) frame option) \<Rightarrow> cid \<Rightarrow> (cid \<Rightarrow> ('v, 'e) frame option) outcome" where
  "destroy_tree 0 fs h = Inl Dead_Object"
| "destroy_tree (Suc n) fs h =
     (case fs h of
        None \<Rightarrow> Inl Dead_Object
      | Some f \<Rightarrow>
          out_bind (fold (\<lambda>c r. out_bind r (\<lambda>fs'. destroy_tree n fs' c)) (frame_tasks f) (Inr fs)) (\<lambda>fs'.
          Inr (fs'(h := None))))"

definition handle_destroy :: "('v, 'e) machine \<Rightarrow> cid \<Rightarrow> ('v, 'e) machine outcome" where
  "handle_destroy m h = out_bind (destroy_tree (Suc (next_cid m)) (frames m) h) (\<lambda>fs. Inr (m\<lparr>frames := fs\<rparr>))"

definition handle_done :: "('v, 'e) machine \<Rightarrow> cid \<Rightarrow> bool outcome" where
  "handle_done m h = out_bind (frame_at m h) (\<lambda>f. Inr (fr_state f = Final))"

section \<open>Task\<close>

text \<open>\<^verbatim>\<open>return_value\<close>, \<^verbatim>\<open>take\<close> and \<^verbatim>\<open>unhandled_exception\<close> of the promises.\<close>

definition return_value :: "'v \<Rightarrow> ('v, 'e) frame \<Rightarrow> ('v, 'e) frame" where
  "return_value v f = f\<lparr>pvalue := Some v\<rparr>"

definition unhandled_exception :: "'e \<Rightarrow> ('v, 'e) frame \<Rightarrow> ('v, 'e) frame" where
  "unhandled_exception e f = f\<lparr>exc := Some e\<rparr>"

definition take_result :: "('v, 'e) frame \<Rightarrow> ('e + 'v) outcome" where
  "take_result f =
     (case exc f of
        Some e \<Rightarrow> Inr (Inl e)
      | None \<Rightarrow> (case pvalue f of Some v \<Rightarrow> Inr (Inr v) | None \<Rightarrow> Inl Null_Deref))"

definition task_final_suspend :: "('v, 'e) machine \<Rightarrow> cid \<Rightarrow> (('v, 'e) machine \<times> control) outcome" where
  "task_final_suspend m h =
     out_bind (frame_at m h) (\<lambda>p.
     if detached p then out_bind (handle_destroy m h) (\<lambda>m'. Inr (m', Outside))
     else Inr (m, case continuation p of Some c \<Rightarrow> To c | None \<Rightarrow> Outside))"

definition task_move :: "task \<Rightarrow> task \<times> task" where
  "task_move t = (t, None)"

definition task_destroy :: "('v, 'e) machine \<Rightarrow> task \<Rightarrow> ('v, 'e) machine outcome" where
  "task_destroy m t = (case t of None \<Rightarrow> Inr m | Some h \<Rightarrow> handle_destroy m h)"

definition task_move_assign :: "('v, 'e) machine \<Rightarrow> bool \<Rightarrow> task \<Rightarrow> task \<Rightarrow> (task \<times> task \<times> ('v, 'e) machine) outcome" where
  "task_move_assign m same t src =
     (if same then Inr (t, t, m) else out_bind (task_destroy m t) (\<lambda>m'. Inr (src, None, m')))"

definition task_await_ready :: "('v, 'e) machine \<Rightarrow> task \<Rightarrow> bool outcome" where
  "task_await_ready m t = (case t of None \<Rightarrow> Inr True | Some h \<Rightarrow> handle_done m h)"

definition task_await_suspend :: "('v, 'e) machine \<Rightarrow> task \<Rightarrow> cid \<Rightarrow> (('v, 'e) machine \<times> control) outcome" where
  "task_await_suspend m t awaiter =
     (case t of
        None \<Rightarrow> Inl Null_Deref
      | Some h \<Rightarrow> out_bind (frame_at m h) (\<lambda>f. Inr (set_frame h (f\<lparr>continuation := Some awaiter\<rparr>) m, To h)))"

definition task_await_resume :: "('v, 'e) machine \<Rightarrow> task \<Rightarrow> ('e + 'v) outcome" where
  "task_await_resume m t =
     (case t of None \<Rightarrow> Inl Null_Deref | Some h \<Rightarrow> out_bind (frame_at m h) take_result)"

definition task_done :: "('v, 'e) machine \<Rightarrow> task \<Rightarrow> bool outcome" where
  "task_done m t = (case t of None \<Rightarrow> Inr True | Some h \<Rightarrow> handle_done m h)"

section \<open>SpawnHandle\<close>

definition spawn_final_suspend :: "('v, 'e) machine \<Rightarrow> cid \<Rightarrow> (('v, 'e) machine \<times> control) outcome" where
  "spawn_final_suspend m h =
     out_bind (frame_at m h) (\<lambda>p.
     if handle_dropped p then out_bind (handle_destroy m h) (\<lambda>m'. Inr (m', Outside))
     else Inr (m, case continuation p of Some c \<Rightarrow> To c | None \<Rightarrow> Outside))"

text \<open>The runner's handle and the address of the executor the task was spawned on, either null.\<close>

record spawn_handle =
  sh_handle :: "cid option"
  sh_executor :: "u64 option"

abbreviation null_handle :: spawn_handle where
  "null_handle \<equiv> \<lparr>sh_handle = None, sh_executor = None\<rparr>"

abbreviation handle_on :: "u64 \<Rightarrow> cid \<Rightarrow> spawn_handle" where
  "handle_on ex h \<equiv> \<lparr>sh_handle = Some h, sh_executor = Some ex\<rparr>"

definition spawn_handle_default :: spawn_handle where
  "spawn_handle_default = null_handle"

definition spawn_handle_make :: "cid \<Rightarrow> spawn_handle" where
  "spawn_handle_make h = \<lparr>sh_handle = Some h, sh_executor = None\<rparr>"

definition set_executor :: "u64 \<Rightarrow> spawn_handle \<Rightarrow> spawn_handle" where
  "set_executor ex t = t\<lparr>sh_executor := Some ex\<rparr>"

definition spawn_bool :: "spawn_handle \<Rightarrow> bool" where
  "spawn_bool t \<longleftrightarrow> sh_handle t \<noteq> None"

definition spawn_release :: "('v, 'e) machine \<Rightarrow> spawn_handle \<Rightarrow> (spawn_handle \<times> ('v, 'e) machine) outcome" where
  "spawn_release m t =
     (case sh_handle t of
        None \<Rightarrow> Inr (t, m)
      | Some h \<Rightarrow> out_bind (frame_at m h) (\<lambda>f.
          if fr_state f = Final then out_bind (handle_destroy m h) (\<lambda>m'. Inr (null_handle, m'))
          else Inr (null_handle, set_frame h (f\<lparr>handle_dropped := True\<rparr>) m)))"

definition spawn_destroy :: "('v, 'e) machine \<Rightarrow> spawn_handle \<Rightarrow> ('v, 'e) machine outcome" where
  "spawn_destroy m t = out_bind (spawn_release m t) (\<lambda>(_, m'). Inr m')"

definition spawn_move_assign :: "('v, 'e) machine \<Rightarrow> bool \<Rightarrow> spawn_handle \<Rightarrow> spawn_handle
    \<Rightarrow> (spawn_handle \<times> spawn_handle \<times> ('v, 'e) machine) outcome" where
  "spawn_move_assign m same t src =
     (if same then Inr (t, t, m) else out_bind (spawn_release m t) (\<lambda>(_, m'). Inr (src, null_handle, m')))"

definition spawn_move :: "spawn_handle \<Rightarrow> spawn_handle \<times> spawn_handle" where
  "spawn_move t = (t, null_handle)"

definition spawn_done :: "('v, 'e) machine \<Rightarrow> spawn_handle \<Rightarrow> bool outcome" where
  "spawn_done m t = (case sh_handle t of None \<Rightarrow> Inr True | Some h \<Rightarrow> handle_done m h)"

definition spawn_await_ready :: "('v, 'e) machine \<Rightarrow> spawn_handle \<Rightarrow> bool outcome" where
  "spawn_await_ready m t = (case sh_handle t of None \<Rightarrow> Inr True | Some h \<Rightarrow> handle_done m h)"

definition spawn_await_suspend :: "('v, 'e) machine \<Rightarrow> spawn_handle \<Rightarrow> cid \<Rightarrow> ('v, 'e) machine outcome" where
  "spawn_await_suspend m t awaiter =
     (case sh_handle t of
        None \<Rightarrow> Inl Null_Deref
      | Some h \<Rightarrow> out_bind (frame_at m h) (\<lambda>f. Inr (set_frame h (f\<lparr>continuation := Some awaiter\<rparr>) m)))"

definition spawn_await_resume :: "('v, 'e) machine \<Rightarrow> spawn_handle \<Rightarrow> ('e + 'v) outcome" where
  "spawn_await_resume m t =
     (case sh_handle t of None \<Rightarrow> Inl Null_Deref | Some h \<Rightarrow> out_bind (frame_at m h) take_result)"

definition sync_final_suspend :: "('v, 'e) machine \<Rightarrow> cid \<Rightarrow> (('v, 'e) machine \<times> control) outcome" where
  "sync_final_suspend m h = Inr (m\<lparr>sem := Suc (sem m)\<rparr>, Outside)"

section \<open>Resuming\<close>

definition final_suspend :: "('v, 'e) machine \<Rightarrow> cid \<Rightarrow> promise_kind \<Rightarrow> (('v, 'e) machine \<times> control) outcome" where
  "final_suspend m h kd =
     (case kd of Task_Promise \<Rightarrow> task_final_suspend m h | Spawn_Promise \<Rightarrow> spawn_final_suspend m h | Sync_Promise \<Rightarrow> sync_final_suspend m h)"

text \<open>
  What a frame does when control reaches it. At \<^verbatim>\<open>co_await\<close> on a task it transfers to the task's frame unless the
  task is ready; when control comes back it takes the task's result, and a temporary task dies.
\<close>

definition co_await :: "('v, 'e) machine \<Rightarrow> cid \<Rightarrow> ('v, 'e) frame \<Rightarrow> task \<Rightarrow> bool \<Rightarrow> ('e + 'v \<Rightarrow> ('v, 'e) body)
    \<Rightarrow> (('v, 'e) machine \<times> control) outcome" where
  "co_await m h f t temp k =
     (let m1 = set_frame h (f\<lparr>fr_state := Awaiting t temp k\<rparr>) m
      in out_bind (task_await_ready m1 t) (\<lambda>ready. if ready then Inr (m1, To h) else task_await_suspend m1 t h))"

definition co_step :: "('v, 'e) machine \<Rightarrow> cid \<Rightarrow> (('v, 'e) machine \<times> control) outcome" where
  "co_step m h =
     out_bind (frame_at m h) (\<lambda>f.
     case fr_state f of
       At b \<Rightarrow> (case b of
           Ret v \<Rightarrow> final_suspend (set_frame h (return_value v (f\<lparr>fr_state := Final\<rparr>)) m) h (fr_kind f)
         | Thr e \<Rightarrow> final_suspend (set_frame h (unhandled_exception e (f\<lparr>fr_state := Final\<rparr>)) m) h (fr_kind f)
         | Await b' k \<Rightarrow> (let (c, m1) = new_frame Task_Promise [] b' m in co_await m1 h f (Some c) True k)
         | Await_Task t k \<Rightarrow> co_await m h f t False k
         | Susp b' \<Rightarrow> Inr (set_frame h (f\<lparr>fr_state := At b'\<rparr>) m, Parked h))
     | Awaiting t temp k \<Rightarrow>
         out_bind (task_await_resume m t) (\<lambda>r.
         let m1 = set_frame h (f\<lparr>fr_state := At (k r)\<rparr>) m
         in out_bind (if temp then task_destroy m1 t else Inr m1) (\<lambda>m2. Inr (m2, To h)))
     | Final \<Rightarrow> Inl Dead_Object)"

text \<open>\<^verbatim>\<open>resume\<close> transfers control from frame to frame until it comes back; the result tells who is parked, if anyone.\<close>

partial_function (option) resume :: "('v, 'e) machine \<Rightarrow> cid \<Rightarrow> (('v, 'e) machine \<times> cid option) outcome option" where
  "resume m h =
     (case co_step m h of
        Inl e \<Rightarrow> Some (Inl e)
      | Inr (m', ctl) \<Rightarrow> (case ctl of To c \<Rightarrow> resume m' c | Outside \<Rightarrow> Some (Inr (m', None)) | Parked c \<Rightarrow> Some (Inr (m', Some c))))"

definition task_detach :: "('v, 'e) machine \<Rightarrow> task \<Rightarrow> (task \<times> ('v, 'e) machine \<times> cid option) outcome option" where
  "task_detach m t =
     (case t of
        None \<Rightarrow> Some (Inr (None, m, None))
      | Some h \<Rightarrow> (case frame_at m h of
          Inl e \<Rightarrow> Some (Inl e)
        | Inr f \<Rightarrow> map_option (map_sum id (\<lambda>r. (None, r))) (resume (set_frame h (f\<lparr>detached := True\<rparr>) m) h)))"

text \<open>\<^verbatim>\<open>Executor::spawn_detach\<close>.\<close>

definition spawn_detach :: "('v, 'e) machine \<Rightarrow> task \<Rightarrow> (task \<times> ('v, 'e) machine \<times> cid option) outcome option" where
  "spawn_detach m t = task_detach m t"

section \<open>Entry points\<close>

text \<open>The body \<^verbatim>\<open>co_return co_await stl::move(task)\<close> of \<^verbatim>\<open>spawn_runner\<close> and \<^verbatim>\<open>make_sync_wait_task\<close>.\<close>

definition forward :: "'e + 'v \<Rightarrow> ('v, 'e) body" where
  "forward r = (case r of Inl e \<Rightarrow> Thr e | Inr v \<Rightarrow> Ret v)"

definition spawn_runner :: "task \<Rightarrow> ('v, 'e) machine \<Rightarrow> cid \<times> ('v, 'e) machine" where
  "spawn_runner t m = new_frame Spawn_Promise [t] (Await_Task t forward) m"

definition spawn :: "u64 \<Rightarrow> ('v, 'e) machine \<Rightarrow> task \<Rightarrow> (spawn_handle \<times> ('v, 'e) machine \<times> cid option) outcome option" where
  "spawn ex m t =
     (let (h, m1) = spawn_runner t m
      in map_option (map_sum id (\<lambda>r. (set_executor ex (spawn_handle_make h), r))) (resume m1 h))"

text \<open>The task is a reference to \<^verbatim>\<open>sync_wait\<close>'s parameter here, not a parameter of the coroutine's own.\<close>

definition make_sync_wait_task :: "task \<Rightarrow> ('v, 'e) machine \<Rightarrow> cid \<times> ('v, 'e) machine" where
  "make_sync_wait_task t m = new_frame Sync_Promise [] (Await_Task t forward) m"

text \<open>\<^verbatim>\<open>sync_wait_task\<close>, the owner of that frame: its handle, or null once moved from.\<close>

type_synonym sync_wait_task = "cid option"

definition sync_wait_task_move :: "sync_wait_task \<Rightarrow> sync_wait_task \<times> sync_wait_task" where
  "sync_wait_task_move t = (t, None)"

definition sync_wait_task_destroy :: "('v, 'e) machine \<Rightarrow> sync_wait_task \<Rightarrow> ('v, 'e) machine outcome" where
  "sync_wait_task_destroy m t = (case t of None \<Rightarrow> Inr m | Some h \<Rightarrow> handle_destroy m h)"

text \<open>The promise gets the semaphore, the one of this machine, and the frame is resumed.\<close>

definition sync_wait_task_start :: "('v, 'e) machine \<Rightarrow> sync_wait_task \<Rightarrow> (('v, 'e) machine \<times> cid option) outcome option" where
  "sync_wait_task_start m t = (case t of None \<Rightarrow> Some (Inl Null_Deref) | Some h \<Rightarrow> resume m h)"

text \<open>
  \<^verbatim>\<open>sync_wait\<close>: \<^verbatim>\<open>sem.acquire()\<close> blocks for ever when the runner did not get to its end, which is \<^term>\<open>None\<close>. On
  return the runner and then the task parameter die.
\<close>

definition sync_wait :: "('v, 'e) machine \<Rightarrow> task \<Rightarrow> (('e + 'v) \<times> ('v, 'e) machine) outcome option" where
  "sync_wait m t =
     (let (h, m1) = make_sync_wait_task t (m\<lparr>sem := 0\<rparr>)
      in Option.bind (sync_wait_task_start m1 (Some h)) (\<lambda>res.
         case res of
           Inl e \<Rightarrow> Some (Inl e)
         | Inr (m2, _) \<Rightarrow>
             if sem m2 = 0 then None
             else Some (out_bind (frame_at m2 h) (\<lambda>f. out_bind (take_result f) (\<lambda>r.
                        out_bind (sync_wait_task_destroy m2 (Some h)) (\<lambda>m3.
                        out_bind (task_destroy m3 t) (\<lambda>m4. Inr (r, m4))))))))"

text \<open>
  \<^verbatim>\<open>sync_wait\<close> on a spawned task, in a state \<open>s\<close> with the coroutines \<open>mach s\<close>; \<open>run_until\<close> is that of the executor at an address, \<open>dflt\<close> is
  \<^verbatim>\<open>T{}\<close>.
\<close>

definition sync_wait_spawn :: "('s \<Rightarrow> ('v, 'e) machine) \<Rightarrow> (u64 \<Rightarrow> 's \<Rightarrow> cid \<Rightarrow> 's outcome option) \<Rightarrow> 'v \<Rightarrow> 's \<Rightarrow> spawn_handle
    \<Rightarrow> (('e + 'v) \<times> 's) outcome option" where
  "sync_wait_spawn mach run_until dflt s t =
     (case spawn_done (mach s) t of
        Inl e \<Rightarrow> Some (Inl e)
      | Inr d \<Rightarrow>
          Option.bind (if d then Some (Inr s)
                       else case (sh_executor t, sh_handle t) of (Some ex, Some h) \<Rightarrow> run_until ex s h | _ \<Rightarrow> Some (Inl Null_Deref)) (\<lambda>res.
          Some (out_bind res (\<lambda>s1.
                out_bind (spawn_done (mach s1) t) (\<lambda>d1.
                if \<not> d1 then Inr (Inr dflt, s1)
                else case sh_handle t of
                       None \<Rightarrow> Inl Null_Deref
                     | Some h \<Rightarrow> out_bind (frame_at (mach s1) h) (\<lambda>f. out_bind (take_result f) (\<lambda>r. Inr (r, s1))))))))"

text \<open>\<^verbatim>\<open>when_all\<close> awaits its tasks, moved into its frame, in argument order and makes a tuple of the values.\<close>

fun when_all_body :: "('v list \<Rightarrow> 'v) \<Rightarrow> 'v list \<Rightarrow> task list \<Rightarrow> ('v, 'e) body" where
  "when_all_body tup vs [] = Ret (tup vs)"
| "when_all_body tup vs (t # ts) = Await_Task t (\<lambda>r. case r of Inl e \<Rightarrow> Thr e | Inr v \<Rightarrow> when_all_body tup (vs @ [v]) ts)"

definition when_all :: "('v list \<Rightarrow> 'v) \<Rightarrow> task list \<Rightarrow> ('v, 'e) machine \<Rightarrow> cid \<times> ('v, 'e) machine" where
  "when_all tup ts m = new_frame Task_Promise ts (when_all_body tup [] ts) m"

section \<open>Direct-style meaning of a body\<close>

text \<open>
  The result of a body and whether running it suspends, given those of the tasks that live elsewhere.
  A plain body awaits its own temporaries only.
\<close>

primrec plain :: "('v, 'e) body \<Rightarrow> bool" where
  "plain (Ret v) = True"
| "plain (Thr e) = True"
| "plain (Await b k) = (plain b \<and> (\<forall>r. plain (k r)))"
| "plain (Await_Task t k) = False"
| "plain (Susp b) = plain b"

primrec eval_body :: "(task \<Rightarrow> 'e + 'v) \<Rightarrow> ('v, 'e) body \<Rightarrow> 'e + 'v" where
  "eval_body env (Ret v) = Inr v"
| "eval_body env (Thr e) = Inl e"
| "eval_body env (Await b k) = (eval_body env \<circ> k) (eval_body env b)"
| "eval_body env (Await_Task t k) = (eval_body env \<circ> k) (env t)"
| "eval_body env (Susp b) = eval_body env b"

primrec suspends :: "(task \<Rightarrow> 'e + 'v) \<Rightarrow> (task \<Rightarrow> bool) \<Rightarrow> ('v, 'e) body \<Rightarrow> bool" where
  "suspends env susp (Ret v) = False"
| "suspends env susp (Thr e) = False"
| "suspends env susp (Await b k) = (suspends env susp b \<or> (suspends env susp \<circ> k) (eval_body env b))"
| "suspends env susp (Await_Task t k) = (susp t \<or> (suspends env susp \<circ> k) (env t))"
| "suspends env susp (Susp b) = True"

section \<open>Single steps\<close>

abbreviation done_frame :: "'e + 'v \<Rightarrow> ('v, 'e) frame \<Rightarrow> ('v, 'e) frame" where
  "done_frame r f \<equiv> (case r of Inl e \<Rightarrow> unhandled_exception e (f\<lparr>fr_state := Final\<rparr>)
                     | Inr v \<Rightarrow> return_value v (f\<lparr>fr_state := Final\<rparr>))"

definition fresh_above :: "('v, 'e) machine \<Rightarrow> bool" where
  "fresh_above m \<longleftrightarrow> (\<forall>c \<ge> next_cid m. frames m c = None)"

definition child_frame :: "('v, 'e) body \<Rightarrow> cid \<Rightarrow> ('v, 'e) frame" where
  "child_frame b h = \<lparr>fr_state = At b, fr_kind = Task_Promise, exc = None, pvalue = None, continuation = Some h, detached = False,
     handle_dropped = False, fr_params = []\<rparr>"

lemma fresh_aboveD: "fresh_above m \<Longrightarrow> next_cid m \<le> c \<Longrightarrow> frames m c = None"
  by (simp add: fresh_above_def)

lemma frame_at_eq [simp]: "frames m h = Some f \<Longrightarrow> frame_at m h = Inr f"
  by (simp add: frame_at_def)

lemma set_frame_simps [simp]:
  "frames (set_frame h f m) = (frames m)(h \<mapsto> f)" "next_cid (set_frame h f m) = next_cid m" "sem (set_frame h f m) = sem m"
  by (simp_all add: set_frame_def)

text \<open>The step into a temporary task: its frame is new, and control goes there.\<close>

lemma step_await:
  assumes f: "frames m h = Some f" "fr_state f = At (Await b k)" and fr: "fresh_above m"
  shows "co_step m h = Inr (m\<lparr>next_cid := Suc (next_cid m),
            frames := (frames m)(h \<mapsto> f\<lparr>fr_state := Awaiting (Some (next_cid m)) True k\<rparr>, next_cid m \<mapsto> child_frame b h)\<rparr>,
          To (next_cid m))"
proof -
  have "h \<noteq> next_cid m" using f fresh_aboveD [OF fr, of h] by auto
  then show ?thesis
    using f by (simp add: co_step_def co_await_def new_frame_def task_await_ready_def handle_done_def frame_at_def
        task_await_suspend_def child_frame_def set_frame_def fun_upd_twist Let_def)
qed

text \<open>A task at its end hands its result to its awaiter.\<close>

lemma step_task_return:
  assumes "frames m c = Some g" "fr_state g = At (forward r)" "fr_kind g = Task_Promise" "\<not> detached g" "continuation g = Some h"
  shows "co_step m c = Inr (set_frame c (done_frame r g) m, To h)"
  using assms
  by (cases r) (simp_all add: co_step_def forward_def final_suspend_def task_final_suspend_def frame_at_def
      return_value_def unhandled_exception_def)

lemma take_result_done: "exc g = None \<Longrightarrow> take_result (done_frame r g) = Inr r"
  by (cases r) (simp_all add: take_result_def return_value_def unhandled_exception_def)

text \<open>The awaiting frame takes the result; a temporary task without parameters is freed.\<close>

lemma step_temp_resume:
  assumes f: "frames m h = Some f" "fr_state f = Awaiting (Some c) True k" and ne: "h \<noteq> c"
    and g: "frames m c = Some (done_frame r g)" "exc g = None" "fr_params g = []"
  shows "co_step m h = Inr (m\<lparr>frames := (frames m)(h \<mapsto> f\<lparr>fr_state := At (k r)\<rparr>, c := None)\<rparr>, To h)"
proof -
  have t: "frame_tasks (done_frame r g) = []" using g(3)
    by (cases r) (simp_all add: return_value_def unhandled_exception_def map_filter_simps)
  show ?thesis
    using f ne g(1) t by (simp add: co_step_def task_await_resume_def frame_at_def take_result_done [OF g(2)] Let_def task_destroy_def
        handle_destroy_def set_frame_def del: frame_tasks.simps)
qed

section \<open>Running a body without outside help\<close>

lemma resume_step:
  "resume m h = (case co_step m h of Inl e \<Rightarrow> Some (Inl e)
     | Inr (m', To c) \<Rightarrow> resume m' c | Inr (m', Outside) \<Rightarrow> Some (Inr (m', None)) | Inr (m', Parked c) \<Rightarrow> Some (Inr (m', Some c)))"
  by (subst resume.simps) (auto split: sum.split control.split)

text \<open>
  \<open>m\<close> becomes \<open>m'\<close> with more frames made in between, all of them freed, and the frame \<open>h\<close> changed.
\<close>

definition only_frame :: "cid \<Rightarrow> ('v, 'e) frame \<Rightarrow> ('v, 'e) machine \<Rightarrow> ('v, 'e) machine \<Rightarrow> bool" where
  "only_frame h f m m' \<longleftrightarrow> frames m' = (frames m)(h \<mapsto> f) \<and> next_cid m \<le> next_cid m' \<and> sem m' = sem m \<and> fresh_above m'"

lemma only_frame_trans:
  "only_frame h f m m1 \<Longrightarrow> only_frame h g m1 m2 \<Longrightarrow> only_frame h g m m2"
  by (auto simp: only_frame_def)

text \<open>The heap with a temporary task awaited by \<open>h\<close>, and the two steps at the end of the task.\<close>

definition with_child :: "cid \<Rightarrow> ('v, 'e) frame \<Rightarrow> ('v, 'e) body \<Rightarrow> ('e + 'v \<Rightarrow> ('v, 'e) body) \<Rightarrow> ('v, 'e) machine \<Rightarrow> ('v, 'e) machine" where
  "with_child h f b k m = m\<lparr>next_cid := Suc (next_cid m),
     frames := (frames m)(h \<mapsto> f\<lparr>fr_state := Awaiting (Some (next_cid m)) True k\<rparr>, next_cid m \<mapsto> child_frame b h)\<rparr>"

lemma alive_below: "fresh_above m \<Longrightarrow> frames m h = Some f \<Longrightarrow> h < next_cid m"
  by (rule ccontr) (simp add: fresh_above_def not_less)

lemma fresh_with_child: "fresh_above m \<Longrightarrow> frames m h = Some f \<Longrightarrow> fresh_above (with_child h f b k m)"
  using alive_below [of m h f] by (auto simp: fresh_above_def with_child_def)

lemma child_return:
  assumes f: "frames m h = Some f" and fr: "fresh_above m"
    and m1: "frames m1 = (frames m)(h \<mapsto> f'\<lparr>fr_state := Awaiting (Some (next_cid m)) True k\<rparr>, next_cid m \<mapsto> child_frame (forward r) h)"
      "next_cid m < next_cid m1" "fresh_above m1"
  shows "\<exists>m2 m3. co_step m1 (next_cid m) = Inr (m2, To h) \<and> co_step m2 h = Inr (m3, To h) \<and>
           frames m3 = (frames m)(h \<mapsto> f'\<lparr>fr_state := At (k r)\<rparr>) \<and> next_cid m3 = next_cid m1 \<and> sem m3 = sem m1 \<and> fresh_above m3"
proof -
  let ?c = "next_cid m"
  have ne: "h \<noteq> ?c" using f fresh_aboveD [OF fr, of h] by auto
  let ?m2 = "set_frame ?c (done_frame r (child_frame (forward r) h)) m1"
  have s1: "co_step m1 ?c = Inr (?m2, To h)"
    by (rule step_task_return) (simp_all add: m1 child_frame_def)
  let ?m3 = "?m2\<lparr>frames := (frames ?m2)(h \<mapsto> f'\<lparr>fr_state := At (k r)\<rparr>, ?c := None)\<rparr>"
  have s2: "co_step ?m2 h = Inr (?m3, To h)"
    using step_temp_resume [where m = ?m2 and h = h and f = "f'\<lparr>fr_state := Awaiting (Some ?c) True k\<rparr>" and c = ?c and k = k
        and r = r and g = "child_frame (forward r) h"] ne
    by (simp add: m1 child_frame_def)
  have "frames m ?c = None" using fresh_aboveD [OF fr] by simp
  then have "frames ?m3 = (frames m)(h \<mapsto> f'\<lparr>fr_state := At (k r)\<rparr>)" using ne by (auto simp: m1)
  moreover have "fresh_above ?m3" using m1(2,3) f fresh_aboveD [OF fr, of h] by (auto simp: fresh_above_def)
  ultimately show ?thesis using s1 s2 by (intro exI [of _ ?m2] exI [of _ ?m3]) simp
qed

lemma resume_body:
  assumes "plain b" and "frames m h = Some f" and "fr_state f = At b" and "fresh_above m"
  shows "if suspends env susp b then \<exists>m' c. resume m h = Some (Inr (m', Some c)) \<and> sem m' = sem m
         else \<exists>m'. resume m h = resume m' h \<and> only_frame h (f\<lparr>fr_state := At (forward (eval_body env b))\<rparr>) m m'"
  using assms
proof (induction b arbitrary: m h f)
  case (Ret v)
  then have "f\<lparr>fr_state := At (forward (eval_body env (Ret v)))\<rparr> = f" by (cases f) (simp add: forward_def)
  then show ?case using Ret by (auto simp: only_frame_def fun_upd_idem)
next
  case (Thr e)
  then have "f\<lparr>fr_state := At (forward (eval_body env (Thr e)))\<rparr> = f" by (cases f) (simp add: forward_def)
  then show ?case using Thr by (auto simp: only_frame_def fun_upd_idem)
next
  case (Susp b)
  then show ?case by (simp add: resume_step [of m h] co_step_def)
next
  case (Await_Task t k)
  then show ?case by simp
next
  case (Await b k)
  let ?r = "eval_body env b"
  let ?m1 = "with_child h f b k m"
  let ?c = "next_cid m"
  have ne: "h \<noteq> ?c" using Await.prems(2) fresh_aboveD [OF Await.prems(4), of h] by auto
  have s1: "resume m h = resume ?m1 ?c"
    by (subst resume_step) (simp add: step_await [OF Await.prems(2-4)] with_child_def)
  have c1: "frames ?m1 ?c = Some (child_frame b h)" "fr_state (child_frame b h) = At b" "fresh_above ?m1" "plain b"
    using Await.prems fresh_with_child [OF Await.prems(4,2)] by (simp_all add: with_child_def child_frame_def)
  show ?case
  proof (cases "suspends env susp b")
    case True
    with Await.IH(1) [OF c1(4,1,2,3)] s1 show ?thesis by (auto simp: with_child_def)
  next
    case False
    then obtain m2 where m2: "resume ?m1 ?c = resume m2 ?c" "only_frame ?c ((child_frame b h)\<lparr>fr_state := At (forward ?r)\<rparr>) ?m1 m2"
      using Await.IH(1) [OF c1(4,1,2,3)] by auto
    have fm2: "frames m2 = (frames m)(h \<mapsto> f\<lparr>fr_state := Awaiting (Some ?c) True k\<rparr>, ?c \<mapsto> child_frame (forward ?r) h)"
      "?c < next_cid m2" "fresh_above m2" "sem m2 = sem m"
      using m2(2) by (auto simp: only_frame_def with_child_def child_frame_def)
    obtain m3 m4 where m4: "co_step m2 ?c = Inr (m3, To h)" "co_step m3 h = Inr (m4, To h)"
        "frames m4 = (frames m)(h \<mapsto> f\<lparr>fr_state := At (k ?r)\<rparr>)" "next_cid m4 = next_cid m2" "sem m4 = sem m2" "fresh_above m4"
      using child_return [OF Await.prems(2,4) fm2(1-3)] by blast
    have s4: "resume m h = resume m4 h" using s1 m2(1) m4(1,2) resume_step [of m2 ?c] resume_step [of m3 h] by simp
    have k: "frames m4 h = Some (f\<lparr>fr_state := At (k ?r)\<rparr>)" "plain (k ?r)" using m4(3) Await.prems(1) by auto
    have of4: "only_frame h (f\<lparr>fr_state := At (k ?r)\<rparr>) m m4" using m4 fm2 by (auto simp: only_frame_def)
    show ?thesis
      using Await.IH(2) [of "k ?r" m4 h "f\<lparr>fr_state := At (k ?r)\<rparr>"] k m4(6) s4 of4 False only_frame_trans [OF of4]
      by (auto simp: only_frame_def split: if_splits)
  qed
qed

section \<open>Awaiting a task that lives elsewhere\<close>

text \<open>A task that has not started, with body \<open>b\<close>; and one that has finished with result \<open>r\<close>.\<close>

definition task_at :: "('v, 'e) machine \<Rightarrow> cid \<Rightarrow> ('v, 'e) body \<Rightarrow> bool" where
  "task_at m c b \<longleftrightarrow> (\<exists>g. frames m c = Some g \<and> fr_state g = At b \<and> fr_kind g = Task_Promise \<and> exc g = None \<and> \<not> detached g \<and>
     fr_params g = [])"

definition finished :: "('v, 'e) machine \<Rightarrow> cid \<Rightarrow> 'e + 'v \<Rightarrow> bool" where
  "finished m c r \<longleftrightarrow> (\<exists>g. frames m c = Some g \<and> fr_state g = Final \<and> fr_params g = [] \<and> take_result g = Inr r)"

lemma await_begin:
  assumes "frames m h = Some f" "fr_state f = At (Await_Task (Some c) k)" "frames m c = Some g" "fr_state g \<noteq> Final" "h \<noteq> c"
  shows "resume m h = resume (set_frame c (g\<lparr>continuation := Some h\<rparr>) (set_frame h (f\<lparr>fr_state := Awaiting (Some c) False k\<rparr>) m)) c"
  using assms by (subst resume_step)
    (simp add: co_step_def co_await_def task_await_ready_def handle_done_def task_await_suspend_def frame_at_def Let_def)

lemma await_end:
  assumes f: "frames m h = Some f" "fr_state f = Awaiting (Some c) False k" and ne: "h \<noteq> c"
    and g: "frames m c = Some g" "fr_state g = At (forward r)" "fr_kind g = Task_Promise" "exc g = None" "\<not> detached g" "continuation g = Some h"
  shows "resume m c = resume (set_frame h (f\<lparr>fr_state := At (k r)\<rparr>) (set_frame c (done_frame r g) m)) h"
proof -
  let ?m1 = "set_frame c (done_frame r g) m"
  have "co_step m c = Inr (?m1, To h)" by (rule step_task_return [OF g(1-3,5,6)])
  moreover have "co_step ?m1 h = Inr (set_frame h (f\<lparr>fr_state := At (k r)\<rparr>) ?m1, To h)"
    using ne f by (simp add: co_step_def task_await_resume_def frame_at_def take_result_done [OF g(4)] Let_def)
  ultimately show ?thesis using resume_step [of m c] resume_step [of ?m1 h] by simp
qed

lemma fresh_set_frame: "fresh_above m \<Longrightarrow> frames m h = Some f \<Longrightarrow> fresh_above (set_frame h g m)"
  using alive_below [of m h f] by (auto simp: fresh_above_def)

lemma resume_await_task:
  assumes f: "frames m h = Some f" "fr_state f = At (Await_Task (Some c) k)" and ne: "h \<noteq> c" and t: "task_at m c b"
    and b: "plain b" and fr: "fresh_above m"
  shows "if suspends env susp b then \<exists>m' l. resume m h = Some (Inr (m', Some l)) \<and> sem m' = sem m
         else \<exists>m'. resume m h = resume m' h \<and> finished m' c (eval_body env b) \<and>
                frames m' = (frames m)(h \<mapsto> f\<lparr>fr_state := At (k (eval_body env b))\<rparr>, c := frames m' c) \<and>
                next_cid m \<le> next_cid m' \<and> sem m' = sem m \<and> fresh_above m'"
proof -
  let ?r = "eval_body env b"
  obtain g where g: "frames m c = Some g" "fr_state g = At b" "fr_kind g = Task_Promise" "exc g = None" "\<not> detached g" "fr_params g = []"
    using t unfolding task_at_def by blast
  let ?f = "f\<lparr>fr_state := Awaiting (Some c) False k\<rparr>" let ?g = "g\<lparr>continuation := Some h\<rparr>"
  let ?m1 = "set_frame c ?g (set_frame h ?f m)"
  have s1: "resume m h = resume ?m1 c" by (rule await_begin [OF f g(1) _ ne]) (simp add: g(2))
  have fr1: "fresh_above ?m1" by (rule fresh_set_frame [where f = g, OF fresh_set_frame [OF fr f(1)]]) (use ne g in simp)
  have c1: "frames ?m1 c = Some ?g" "fr_state ?g = At b" using g by simp_all
  note rb = resume_body [OF b c1 fr1, of env susp]
  show ?thesis
  proof (cases "suspends env susp b")
    case True
    with rb s1 show ?thesis by simp
  next
    case False
    let ?g2 = "?g\<lparr>fr_state := At (forward ?r)\<rparr>"
    obtain m2 where m2: "resume ?m1 c = resume m2 c" "only_frame c ?g2 ?m1 m2" using rb False by auto
    have c2: "frames m2 = (frames m)(h \<mapsto> ?f, c \<mapsto> ?g2)" "next_cid m \<le> next_cid m2" "sem m2 = sem m" "fresh_above m2"
      using m2(2) by (auto simp: only_frame_def)
    have hc: "frames m2 h = Some ?f" "frames m2 c = Some ?g2" using ne by (simp_all add: c2)
    let ?m4 = "set_frame h (?f\<lparr>fr_state := At (k ?r)\<rparr>) (set_frame c (done_frame ?r ?g2) m2)"
    have r: "resume m h = resume ?m4 h" unfolding s1 m2(1) by (rule await_end [OF hc(1) _ ne hc(2)]) (simp_all add: g)
    have ex: "exc ?g2 = None" using g by simp
    have "finished ?m4 c ?r"
      using ne take_result_done [OF ex, of ?r] g(6)
      by (cases ?r) (simp_all add: finished_def return_value_def unhandled_exception_def)
    moreover have "fresh_above ?m4" by (rule fresh_set_frame [where f = ?f, OF fresh_set_frame [OF c2(4) hc(2)]]) (use ne hc in simp)
    moreover have "frames ?m4 = (frames m)(h \<mapsto> f\<lparr>fr_state := At (k ?r)\<rparr>, c := frames ?m4 c)" using ne by (auto simp: c2)
    ultimately show ?thesis using r c2 False by (simp only: if_False) (intro exI [of _ ?m4], simp)
  qed
qed

lemma handle_destroy_final:
  assumes "frames m h = Some f" "fr_state f = Final" "fr_params f = []"
  shows "handle_destroy m h = Inr (m\<lparr>frames := (frames m)(h := None)\<rparr>)"
  using assms by (simp add: handle_destroy_def map_filter_simps)

text \<open>The end of \<^verbatim>\<open>sync_wait\<close>: the runner releases the semaphore, the caller takes the result and both frames die.\<close>

lemma sync_wait_collect:
  assumes mk: "make_sync_wait_task (Some c) (m\<lparr>sem := 0\<rparr>) = (h, m1)" and rs: "resume m1 h = resume m2 h"
    and h2: "frames m2 h = Some f" "fr_state f = At (forward r)" "fr_kind f = Sync_Promise" "exc f = None" "fr_params f = []"
    and d: "\<And>m3. frames m3 = (frames m2)(h := None) \<Longrightarrow> next_cid m3 = next_cid m2 \<Longrightarrow> \<exists>m4. handle_destroy m3 c = Inr m4 \<and> frames m4 = fs"
  shows "\<exists>m'. sync_wait m (Some c) = Some (Inr (r, m')) \<and> frames m' = fs"
proof -
  let ?m3 = "(set_frame h (done_frame r f) m2)\<lparr>sem := Suc (sem m2)\<rparr>"
  have "co_step m2 h = Inr (?m3, Outside)"
    using h2 by (cases r) (simp_all add: co_step_def forward_def final_suspend_def sync_final_suspend_def set_frame_def
        return_value_def unhandled_exception_def)
  then have r3: "resume m1 h = Some (Inr (?m3, None))" using rs resume_step [of m2 h] by simp
  have h3: "frames ?m3 h = Some (done_frame r f)" "fr_state (done_frame r f) = Final" "fr_params (done_frame r f) = []"
    using h2 by (cases r; simp add: return_value_def unhandled_exception_def)+
  have tr: "take_result (done_frame r f) = Inr r" by (rule take_result_done) (rule h2)
  let ?m4 = "?m3\<lparr>frames := (frames ?m3)(h := None)\<rparr>"
  have d4: "handle_destroy ?m3 h = Inr ?m4" by (rule handle_destroy_final [OF h3])
  obtain m5 where m5: "handle_destroy ?m4 c = Inr m5" "frames m5 = fs" using d [of ?m4] by auto
  have d5: "task_destroy ?m4 (Some c) = Inr m5" using m5(1) by (simp add: task_destroy_def)
  have a: "frame_at ?m3 h = Inr (done_frame r f)" using h3(1) by (simp add: frame_at_def)
  have z: "sem ?m3 \<noteq> 0" by simp
  have "sync_wait m (Some c) = Some (Inr (r, m5))"
    unfolding sync_wait_def sync_wait_task_start_def sync_wait_task_destroy_def option.case Let_def mk prod.case r3 bind.bind_lunit sum.case
    using z by (simp only: a tr d4 d5 out_bind_simps if_False)
  then show ?thesis using m5(2) by blast
qed

text \<open>The runner of \<^verbatim>\<open>sync_wait\<close>.\<close>

definition sync_runner :: "cid \<Rightarrow> ('v, 'e) frame" where
  "sync_runner c = \<lparr>fr_state = At (Await_Task (Some c) forward), fr_kind = Sync_Promise, exc = None, pvalue = None,
    continuation = None, detached = False, handle_dropped = False, fr_params = []\<rparr>"

definition with_sync_runner :: "cid \<Rightarrow> ('v, 'e) machine \<Rightarrow> ('v, 'e) machine" where
  "with_sync_runner c m = m\<lparr>sem := 0, next_cid := Suc (next_cid m), frames := (frames m)(next_cid m \<mapsto> sync_runner c)\<rparr>"

lemma with_sync_runner:
  "make_sync_wait_task (Some c) (m\<lparr>sem := 0\<rparr>) = (next_cid m, with_sync_runner c m)"
  "frames (with_sync_runner c m) = (frames m)(next_cid m \<mapsto> sync_runner c)"
  "next_cid (with_sync_runner c m) = Suc (next_cid m)" "sem (with_sync_runner c m) = 0"
  "fresh_above m \<Longrightarrow> fresh_above (with_sync_runner c m)"
  by (auto simp: make_sync_wait_task_def new_frame_def with_sync_runner_def sync_runner_def fresh_above_def)

text \<open>
  C6: \<^verbatim>\<open>sync_wait\<close> on a task returns exactly when the task's body does not suspend; it then returns what the body
  evaluates to in direct style (its value, or its exception rethrown), and every frame made on the way,
  the task's own among them, has been freed once. If the body suspends, the call blocks: on one
  thread nothing is left that could resume it.
\<close>

theorem sync_wait_direct_style:
  assumes "task_at m c b" and "plain b" and "fresh_above m"
  shows "if suspends env susp b then sync_wait m (Some c) = None
         else \<exists>m'. sync_wait m (Some c) = Some (Inr (eval_body env b, m')) \<and> frames m' = (frames m)(c := None)"
proof -
  let ?h = "next_cid m" let ?r = "eval_body env b" let ?m1 = "with_sync_runner c m" let ?f = "sync_runner c"
  note w = with_sync_runner [where c = c and m = m]
  have ne: "?h \<noteq> c" using assms(1) alive_below [OF assms(3), of c] by (auto simp: task_at_def)
  have t1: "task_at ?m1 c b" using assms(1) ne by (auto simp: task_at_def w)
  have h1: "frames ?m1 ?h = Some ?f" "fr_state ?f = At (Await_Task (Some c) forward)" by (simp_all add: w sync_runner_def)
  note rt = resume_await_task [OF h1 ne t1 assms(2) w(5) [OF assms(3)], of env susp]
  show ?thesis
  proof (cases "suspends env susp b")
    case True
    then obtain m' l where "resume ?m1 ?h = Some (Inr (m', Some l))" "sem m' = 0" using rt by (auto simp: w)
    with True show ?thesis by (simp add: sync_wait_def sync_wait_task_start_def sync_wait_task_destroy_def w)
  next
    case False
    let ?f2 = "?f\<lparr>fr_state := At (forward ?r)\<rparr>"
    obtain m2 where m2: "resume ?m1 ?h = resume m2 ?h" "finished m2 c ?r" "frames m2 = (frames ?m1)(?h \<mapsto> ?f2, c := frames m2 c)"
      using rt False by auto
    have h2: "frames m2 ?h = Some ?f2" using m2(3) ne by (metis fun_upd_same fun_upd_other)
    obtain g where g: "frames m2 c = Some g" "fr_state g = Final" "fr_params g = []" using m2(2) by (auto simp: finished_def)
    have eq: "(frames m2)(?h := None, c := None) = (frames m)(c := None)"
    proof (rule ext)
      fix x show "((frames m2)(?h := None, c := None)) x = ((frames m)(c := None)) x"
        using fresh_aboveD [OF assms(3), of ?h] fun_cong [OF m2(3), of x] by (auto simp: w)
    qed
    have "\<exists>m4. handle_destroy m3 c = Inr m4 \<and> frames m4 = (frames m)(c := None)" if "frames m3 = (frames m2)(?h := None)" for m3
      using handle_destroy_final [of m3 c g] that g ne by (simp add: eq [symmetric])
    with sync_wait_collect [OF w(1) m2(1) h2] False show ?thesis by (simp add: sync_runner_def)
  qed
qed

theorem sync_wait_direct_style_witness:
  "let b = Await (Thr ''io'') (\<lambda>r. case r of Inl e \<Rightarrow> Ret e | Inr v \<Rightarrow> Susp (Ret v));
       m = \<lparr>frames = (\<lambda>_. None)(0 \<mapsto> \<lparr>fr_state = At b, fr_kind = Task_Promise, exc = None, pvalue = None, continuation = None, detached = False,
              handle_dropped = False, fr_params = []\<rparr>), next_cid = 1, sem = 0\<rparr>
   in \<exists>m'. sync_wait m (Some 0) = Some (Inr (Inr ''io'', m')) \<and> frames m' = (\<lambda>_. None)"
proof -
  let ?b = "Await (Thr ''io'') (\<lambda>r. case r of Inl e \<Rightarrow> Ret e | Inr v \<Rightarrow> Susp (Ret v)) :: (string, string) body"
  let ?m = "\<lparr>frames = (\<lambda>_. None)(0 \<mapsto> \<lparr>fr_state = At ?b, fr_kind = Task_Promise, exc = None, pvalue = None, continuation = None,
    detached = False, handle_dropped = False, fr_params = []\<rparr>), next_cid = 1, sem = 0\<rparr>"
  have "task_at ?m 0 ?b" "plain ?b" "fresh_above ?m" by (auto simp: task_at_def fresh_above_def split: sum.split)
  from sync_wait_direct_style [OF this, of "\<lambda>_. Inl []" "\<lambda>_. False"] show ?thesis by simp
qed

end
