(* ===== verification/Coroutine_Lifetimes.thy ===== *)
theory Coroutine_Lifetimes
  imports Coroutines
begin

text \<open>
  Who frees a coroutine frame, and when: spawned tasks whose handle is dropped at any point of the run,
  detached tasks, and the frames of \<^verbatim>\<open>when_all\<close> and of its tasks.
\<close>

section \<open>Running to the end while the handle may go away\<close>

text \<open>
  What happens after \<^verbatim>\<open>resume()\<close> has come back: whoever was parked is resumed, over and over, until nobody is.
  The handle is dropped after \<open>d\<close> more rounds, or at the end.
\<close>

partial_function (option) settle :: "nat \<Rightarrow> spawn_handle \<Rightarrow> ('v, 'e) machine \<Rightarrow> cid option \<Rightarrow> ('v, 'e) machine outcome option" where
  "settle d t m p =
     (case p of
        None \<Rightarrow> Some (map_sum id snd (spawn_release m t))
      | Some h \<Rightarrow>
          (case (if d = 0 then spawn_release m t else Inr (t, m)) of
             Inl e \<Rightarrow> Some (Inl e)
           | Inr (t', m') \<Rightarrow> Option.bind (resume m' h) (\<lambda>r. case r of Inl e \<Rightarrow> Some (Inl e) | Inr (m2, p2) \<Rightarrow> settle (d - 1) t' m2 p2)))"

definition drive :: "nat \<Rightarrow> spawn_handle \<Rightarrow> ('v, 'e) machine \<Rightarrow> cid \<Rightarrow> ('v, 'e) machine outcome option" where
  "drive d t m h = Option.bind (resume m h) (\<lambda>r. case r of Inl e \<Rightarrow> Some (Inl e) | Inr (m2, p2) \<Rightarrow> settle d t m2 p2)"

lemma drive_SomeE:
  assumes "drive d t m h = Some (Inr m')"
  obtains m1 p where "resume m h = Some (Inr (m1, p))" "settle d t m1 p = Some (Inr m')"
proof -
  obtain r where r: "resume m h = Some r" using assms by (cases "resume m h") (simp_all add: drive_def)
  with assms show ?thesis by (cases r) (auto simp: drive_def intro: that)
qed

lemma drive_to: "co_step m h = Inr (m', To c) \<Longrightarrow> drive d t m h = drive d t m' c"
  by (simp add: drive_def resume_step [of m h])

lemma drive_outside: "co_step m h = Inr (m', Outside) \<Longrightarrow> drive d t m h = Some (map_sum id snd (spawn_release m' t))"
  by (simp add: drive_def resume_step [of m h] settle.simps [of d t m'])

lemma drive_parked:
  "co_step m h = Inr (m1, Parked p) \<Longrightarrow> (if d = 0 then spawn_release m1 t else Inr (t, m1)) = Inr (t', m') \<Longrightarrow>
   drive d t m h = drive (d - 1) t' m' p"
  by (simp add: drive_def resume_step [of m h] settle.simps [of d t m1])

text \<open>What dropping a handle does to the heap while the spawned coroutine is pending.\<close>

definition drop_mark :: "spawn_handle \<Rightarrow> spawn_handle \<Rightarrow> (cid \<Rightarrow> ('v, 'e) frame option) \<Rightarrow> cid \<Rightarrow> ('v, 'e) frame option" where
  "drop_mark t t' fs x = (if t' \<noteq> t \<and> Some x = sh_handle t then map_option (handle_dropped_update (\<lambda>_. True)) (fs x) else fs x)"

definition pending_root :: "spawn_handle \<Rightarrow> cid \<Rightarrow> ('v, 'e) machine \<Rightarrow> bool" where
  "pending_root t h m \<longleftrightarrow> (case sh_handle t of None \<Rightarrow> True | Some root \<Rightarrow> root \<noteq> h \<and> (\<exists>fr. frames m root = Some fr \<and> fr_state fr \<noteq> Final))"

lemma drop_mark_same [simp]: "drop_mark t t fs = fs"
  by (rule ext) (simp add: drop_mark_def)

lemma drop_mark_other: "Some x \<noteq> sh_handle t \<Longrightarrow> drop_mark t t' fs x = fs x"
  by (simp add: drop_mark_def)

lemma drop_mark_upd: "Some h \<noteq> sh_handle t \<Longrightarrow> drop_mark t t' (fs(h := v)) = (drop_mark t t' fs)(h := v)"
  by (rule ext) (simp add: drop_mark_def)

lemma drop_mark_trans:
  assumes "t1 = t \<or> t1 = null_handle" "t2 = t1 \<or> t2 = null_handle"
  shows "drop_mark t1 t2 (drop_mark t t1 fs) = drop_mark t t2 fs"
  using assms by (auto simp: drop_mark_def fun_eq_iff)

lemma drop_mark_None [simp]: "drop_mark t t' fs x = None \<longleftrightarrow> fs x = None"
  by (simp add: drop_mark_def)

lemma pending_root_ne: "pending_root t h m \<Longrightarrow> Some h \<noteq> sh_handle t"
  by (cases "sh_handle t") (auto simp: pending_root_def)

lemma drive_susp:
  assumes f: "frames m h = Some f" "fr_state f = At (Susp b)" and p: "pending_root t h m" and fr: "fresh_above m"
  shows "\<exists>t' m'. drive d t m h = drive (d - 1) t' m' h \<and> (t' = t \<or> t' = null_handle) \<and>
           frames m' = (drop_mark t t' (frames m))(h \<mapsto> f\<lparr>fr_state := At b\<rparr>) \<and> next_cid m' = next_cid m \<and> fresh_above m'"
proof -
  let ?m1 = "set_frame h (f\<lparr>fr_state := At b\<rparr>) m"
  have s: "co_step m h = Inr (?m1, Parked h)" using f by (simp add: co_step_def)
  have fr1: "fresh_above ?m1" using fr alive_below [OF fr f(1)] by (auto simp: fresh_above_def)
  show ?thesis
  proof (cases "d = 0 \<and> sh_handle t \<noteq> None")
    case False
    then have "(if d = 0 then spawn_release ?m1 t else Inr (t, ?m1)) = Inr (t, ?m1)" by (auto simp: spawn_release_def)
    from drive_parked [OF s this] fr1 show ?thesis by (intro exI [of _ t] exI [of _ ?m1]) simp
  next
    case True
    then obtain root fr' where r: "sh_handle t = Some root" "root \<noteq> h" "frames m root = Some fr'" "fr_state fr' \<noteq> Final"
      using p by (auto simp: pending_root_def)
    let ?m2 = "set_frame root (fr'\<lparr>handle_dropped := True\<rparr>) ?m1"
    have "(if d = 0 then spawn_release ?m1 t else Inr (t, ?m1)) = Inr (null_handle, ?m2)" using True r by (simp add: spawn_release_def)
    from drive_parked [OF s this] have "drive d t m h = drive (d - 1) null_handle ?m2 h" .
    moreover have "frames ?m2 = (drop_mark t null_handle (frames m))(h \<mapsto> f\<lparr>fr_state := At b\<rparr>)"
      using r by (auto simp: drop_mark_def fun_eq_iff)
    moreover have "fresh_above ?m2" using fr1 alive_below [OF fr r(3)] by (auto simp: fresh_above_def)
    ultimately show ?thesis by (intro exI [of _ null_handle] exI [of _ ?m2]) simp
  qed
qed

text \<open>The frame \<open>h\<close> got from body \<open>b\<close> to its end; the handle may have been dropped on the way.\<close>

definition drives_to :: "nat \<Rightarrow> spawn_handle \<Rightarrow> ('v, 'e) machine \<Rightarrow> cid \<Rightarrow> ('v, 'e) frame \<Rightarrow> bool" where
  "drives_to d t m h f \<longleftrightarrow>
     (\<exists>d' t' m'. drive d t m h = drive d' t' m' h \<and> (t' = t \<or> t' = null_handle) \<and> frames m' = (drop_mark t t' (frames m))(h \<mapsto> f) \<and>
        next_cid m \<le> next_cid m' \<and> fresh_above m')"

lemma drives_to_refl: "frames m h = Some f \<Longrightarrow> fresh_above m \<Longrightarrow> drives_to d t m h f"
  unfolding drives_to_def by (intro exI [of _ d] exI [of _ t] exI [of _ m]) (simp add: fun_upd_idem)

lemma drives_to_step:
  assumes "drive d t m h = drive d1 t1 m1 h" "t1 = t \<or> t1 = null_handle" "frames m1 = (drop_mark t t1 (frames m))(h := v)"
    and n: "next_cid m \<le> next_cid m1" and ne: "Some h \<noteq> sh_handle t" and "drives_to d1 t1 m1 h f"
  shows "drives_to d t m h f"
proof -
  obtain d2 t2 m2 where 2: "drive d1 t1 m1 h = drive d2 t2 m2 h" "t2 = t1 \<or> t2 = null_handle"
      "frames m2 = (drop_mark t1 t2 (frames m1))(h \<mapsto> f)" "next_cid m1 \<le> next_cid m2" "fresh_above m2"
    using assms(6) unfolding drives_to_def by blast
  have ne1: "Some h \<noteq> sh_handle t1" using ne assms(2) by auto
  have "frames m2 = (drop_mark t t2 (frames m))(h \<mapsto> f)"
    unfolding 2(3) assms(3) drop_mark_upd [OF ne1] drop_mark_trans [OF assms(2) 2(2)] by simp
  then show ?thesis unfolding drives_to_def using 2 assms(1,2) n by (intro exI [of _ d2] exI [of _ t2] exI [of _ m2]) auto
qed

lemma pending_root_child:
  assumes p: "pending_root t h m" and f: "frames m h = Some f" and fr: "fresh_above m"
  shows "pending_root t (next_cid m) (with_child h f b k m)"
  using p alive_below [OF fr] by (auto simp: pending_root_def with_child_def split: option.splits)

lemma drive_temp_body:
  assumes f: "frames m h = Some f" "fr_state f = At (Await b k)" and p: "pending_root t h m" and fr: "fresh_above m"
    and c: "drives_to d t (with_child h f b k m) (next_cid m) (child_frame (forward r) h)"
  shows "\<exists>d1 t1 m1. drive d t m h = drive d1 t1 m1 h \<and> (t1 = t \<or> t1 = null_handle) \<and> next_cid m \<le> next_cid m1 \<and> fresh_above m1 \<and>
           frames m1 = (drop_mark t t1 (frames m))(h \<mapsto> f\<lparr>fr_state := At (k r)\<rparr>)"
proof -
  let ?c = "next_cid m" let ?m1 = "with_child h f b k m"
  have s1: "drive d t m h = drive d t ?m1 ?c" by (rule drive_to) (simp add: step_await [OF f fr] with_child_def)
  obtain d2 t2 m2 where 2: "drive d t ?m1 ?c = drive d2 t2 m2 ?c" "t2 = t \<or> t2 = null_handle" "next_cid ?m1 \<le> next_cid m2" "fresh_above m2"
      "frames m2 = (drop_mark t t2 (frames ?m1))(?c \<mapsto> child_frame (forward r) h)"
    using c unfolding drives_to_def by blast
  have ne: "Some h \<noteq> sh_handle t" using pending_root_ne [OF p] .
  have nc: "Some ?c \<noteq> sh_handle t" using pending_root_ne [OF pending_root_child [OF p f(1) fr]] .
  let ?md = "m\<lparr>frames := drop_mark t t2 (frames m)\<rparr>"
  have hd: "frames ?md h = Some f" by (simp add: f(1) drop_mark_other [OF ne])
  have frd: "fresh_above ?md" using fr by (simp add: fresh_above_def)
  have fm2: "frames m2 = (frames ?md)(h \<mapsto> f\<lparr>fr_state := Awaiting (Some (next_cid ?md)) True k\<rparr>, next_cid ?md \<mapsto> child_frame (forward r) h)"
    unfolding 2(5) by (simp add: with_child_def drop_mark_upd [OF ne] drop_mark_upd [OF nc])
  have lt: "next_cid ?md < next_cid m2" using 2(3) by (simp add: with_child_def)
  obtain m3 m4 where m4: "co_step m2 ?c = Inr (m3, To h)" "co_step m3 h = Inr (m4, To h)"
      "frames m4 = (frames ?md)(h \<mapsto> f\<lparr>fr_state := At (k r)\<rparr>)" "next_cid m4 = next_cid m2" "fresh_above m4"
    using child_return [OF hd frd fm2 lt 2(4)] by auto
  have "drive d t m h = drive d2 t2 m4 h" using s1 2(1) drive_to [OF m4(1)] drive_to [OF m4(2)] by simp
  then show ?thesis using 2(2) m4(3-5) lt by (intro exI [of _ d2] exI [of _ t2] exI [of _ m4]) simp
qed

lemma pending_root_mono:
  assumes p: "pending_root t h m" and t': "t' = t \<or> t' = null_handle" and m': "frames m' = (drop_mark t t' (frames m))(h := v)"
  shows "pending_root t' h m'"
  using t'
proof
  assume "t' = t" then show ?thesis using p m' by (auto simp: pending_root_def split: option.splits)
next
  assume "t' = null_handle" then show ?thesis by (simp add: pending_root_def)
qed

lemma drive_body:
  assumes "plain b" and "frames m h = Some f" and "fr_state f = At b" and "pending_root t h m" and "fresh_above m"
  shows "drives_to d t m h (f\<lparr>fr_state := At (forward (eval_body env b))\<rparr>)"
  using assms
proof (induction b arbitrary: m h f d t)
  case (Ret v)
  then have "f\<lparr>fr_state := At (forward (eval_body env (Ret v)))\<rparr> = f" by (cases f) (simp add: forward_def)
  then show ?case using drives_to_refl Ret.prems by metis
next
  case (Thr e)
  then have "f\<lparr>fr_state := At (forward (eval_body env (Thr e)))\<rparr> = f" by (cases f) (simp add: forward_def)
  then show ?case using drives_to_refl Thr.prems by metis
next
  case (Await_Task t k)
  then show ?case by simp
next
  case (Susp b)
  obtain t' m' where 1: "drive d t m h = drive (d - 1) t' m' h" "t' = t \<or> t' = null_handle"
      "frames m' = (drop_mark t t' (frames m))(h \<mapsto> f\<lparr>fr_state := At b\<rparr>)" "next_cid m' = next_cid m" "fresh_above m'"
    using drive_susp [OF Susp.prems(2-5)] by blast
  have h': "frames m' h = Some (f\<lparr>fr_state := At b\<rparr>)" using 1(3) by simp
  have pl: "plain b" using Susp.prems(1) by simp
  have "drives_to (d - 1) t' m' h (f\<lparr>fr_state := At (forward (eval_body env b))\<rparr>)"
    using Susp.IH [OF pl h' _ pending_root_mono [OF Susp.prems(4) 1(2,3)] 1(5)] by simp
  from drives_to_step [OF 1(1-3) _ pending_root_ne [OF Susp.prems(4)] this] 1(4) show ?case by simp
next
  case (Await b k)
  let ?r = "eval_body env b" let ?m1 = "with_child h f b k m"
  have pl: "plain b" "plain (k ?r)" using Await.prems(1) by auto
  have c: "frames ?m1 (next_cid m) = Some (child_frame b h)" "fr_state (child_frame b h) = At b"
    by (simp_all add: with_child_def child_frame_def)
  have "drives_to d t ?m1 (next_cid m) ((child_frame b h)\<lparr>fr_state := At (forward ?r)\<rparr>)"
    by (rule Await.IH(1) [OF pl(1) c pending_root_child [OF Await.prems(4,2,5)] fresh_with_child [OF Await.prems(5,2)]])
  then have "drives_to d t ?m1 (next_cid m) (child_frame (forward ?r) h)" by (simp add: child_frame_def)
  from drive_temp_body [OF Await.prems(2-5) this] obtain d1 t1 m1 where
    1: "drive d t m h = drive d1 t1 m1 h" "t1 = t \<or> t1 = null_handle" "frames m1 = (drop_mark t t1 (frames m))(h \<mapsto> f\<lparr>fr_state := At (k ?r)\<rparr>)"
      "next_cid m \<le> next_cid m1" "fresh_above m1" by blast
  have h1: "frames m1 h = Some (f\<lparr>fr_state := At (k ?r)\<rparr>)" using 1(3) by simp
  have "drives_to d1 t1 m1 h (f\<lparr>fr_state := At (forward (eval_body env (k ?r)))\<rparr>)"
    using Await.IH(2) [OF _ pl(2) h1 _ pending_root_mono [OF Await.prems(4) 1(2,3)] 1(5)] by simp
  from drives_to_step [OF 1(1-4) pending_root_ne [OF Await.prems(4)] this] show ?case by simp
qed

section \<open>Destroying a frame with its task parameters\<close>

definition leaf :: "(cid \<Rightarrow> ('v, 'e) frame option) \<Rightarrow> cid \<Rightarrow> bool" where
  "leaf fs c \<longleftrightarrow> (\<exists>g. fs c = Some g \<and> frame_tasks g = [])"

lemma destroy_leaves:
  assumes "distinct cs" "\<forall>c\<in>set cs. leaf fs c"
  shows "fold (\<lambda>c r. out_bind r (\<lambda>fs'. destroy_tree (Suc n) fs' c)) cs (Inr fs) = Inr (fs |` (- set cs))"
  using assms
proof (induction cs arbitrary: fs)
  case Nil
  then show ?case by simp
next
  case (Cons c cs)
  obtain g where g: "fs c = Some g" "frame_tasks g = []" using Cons.prems(2) by (auto simp: leaf_def simp del: frame_tasks.simps)
  have "\<forall>x\<in>set cs. leaf (fs(c := None)) x" using Cons.prems by (auto simp: leaf_def simp del: frame_tasks.simps)
  moreover have "(fs(c := None)) |` (- set cs) = fs |` (- set (c # cs))" by (auto simp: restrict_map_def)
  moreover have "destroy_tree (Suc n) fs c = Inr (fs(c := None))" using g by (simp del: frame_tasks.simps)
  ultimately show ?case using Cons.IH [of "fs(c := None)"] Cons.prems(1)
    by (simp only: fold_simps out_bind_simps distinct.simps simp_thms)
qed

lemma handle_destroy_params:
  assumes f: "frames m h = Some f" "fr_state f = Final" "fr_params f = map Some cs"
    and cs: "distinct cs" "h \<notin> set cs" "\<forall>c\<in>set cs. leaf (frames m) c" and fr: "fresh_above m"
  shows "handle_destroy m h = Inr (m\<lparr>frames := frames m |` (- insert h (set cs))\<rparr>)"
proof -
  have pos: "next_cid m = Suc (next_cid m - 1)" using alive_below [OF fr f(1)] by simp
  have "List.map_filter id (map Some cs) = cs" by (induction cs) (simp_all add: map_filter_simps)
  then have ft: "frame_tasks f = cs" using f by simp
  have "destroy_tree (Suc (next_cid m)) (frames m) h = Inr ((frames m |` (- set cs))(h := None))"
    using f(1) ft destroy_leaves [OF cs(1,3), of "next_cid m - 1"] pos by (simp del: frame_tasks.simps)
  moreover have "(frames m |` (- set cs))(h := None) = frames m |` (- insert h (set cs))" by (auto simp: restrict_map_def)
  ultimately show ?thesis by (simp add: handle_destroy_def)
qed

lemma leaf_done: "fs c = Some (done_frame r g) \<Longrightarrow> fr_params g = [] \<Longrightarrow> leaf fs c"
  by (cases r) (simp_all add: leaf_def return_value_def unhandled_exception_def map_filter_simps)

text \<open>Two tasks that have not started: one awaits a temporary that suspends and throws, and recovers; one returns.\<close>

definition wit_recovering :: "(nat, string) body" where
  "wit_recovering = Await (Susp (Thr ''io'')) (\<lambda>r. case r of Inl e \<Rightarrow> Ret 0 | Inr v \<Rightarrow> Ret v)"

definition wit_task_frame :: "(nat, string) body \<Rightarrow> (nat, string) frame" where
  "wit_task_frame b = \<lparr>fr_state = At b, fr_kind = Task_Promise, exc = None, pvalue = None, continuation = None, detached = False,
     handle_dropped = False, fr_params = []\<rparr>"

definition wit_machine :: "(nat, string) machine" where
  "wit_machine = \<lparr>frames = (\<lambda>_. None)(0 \<mapsto> wit_task_frame wit_recovering, Suc 0 \<mapsto> wit_task_frame (Ret 7)), next_cid = 2, sem = 0\<rparr>"

lemma wit_machine_facts:
  "task_at wit_machine 0 wit_recovering" "plain wit_recovering" "task_at wit_machine (Suc 0) (Ret 7)" "fresh_above wit_machine"
  "\<not> suspends env susp (Ret 7 :: (nat, string) body)" "plain (Ret 7)"
  by (auto simp: task_at_def wit_machine_def wit_task_frame_def wit_recovering_def fresh_above_def split: sum.split)

section \<open>Detached tasks\<close>

text \<open>
  C22: A detached task runs to its end and frees its frame there, exactly once, however often its body suspends
  and is resumed: at the end the heap is the one before without the task's frame.
\<close>

theorem detached_task_frees_itself:
  assumes "task_at m c b" and "plain b" and "fresh_above m"
  shows "\<exists>m1 p m'. task_detach m (Some c) = Some (Inr (None, m1, p)) \<and> settle d null_handle m1 p = Some (Inr m') \<and>
           frames m' = (frames m)(c := None)"
proof -
  obtain g where g: "frames m c = Some g" "fr_state g = At b" "fr_kind g = Task_Promise" "fr_params g = []"
    using assms(1) unfolding task_at_def by blast
  let ?g = "g\<lparr>detached := True\<rparr>" let ?m0 = "set_frame c ?g m" let ?r = "eval_body undefined b"
  have 0: "frames ?m0 c = Some ?g" "fr_state ?g = At b" "pending_root null_handle c ?m0" "fresh_above ?m0"
    using g assms(3) alive_below [OF assms(3) g(1)] by (auto simp: pending_root_def fresh_above_def)
  obtain d' t' m2 where 2: "drive d null_handle ?m0 c = drive d' t' m2 c" "t' = null_handle"
      "frames m2 = (drop_mark null_handle t' (frames ?m0))(c \<mapsto> ?g\<lparr>fr_state := At (forward ?r)\<rparr>)" "fresh_above m2"
    using drive_body [OF assms(2) 0(1-4), of d undefined] unfolding drives_to_def by blast
  let ?g2 = "?g\<lparr>fr_state := At (forward ?r)\<rparr>" let ?m3 = "set_frame c (done_frame ?r ?g2) m2"
  let ?m4 = "?m3\<lparr>frames := (frames ?m3)(c := None)\<rparr>"
  have "handle_destroy ?m3 c = Inr ?m4"
    by (rule handle_destroy_final [where f = "done_frame ?r ?g2"]; cases ?r)
      (simp_all add: g(4) return_value_def unhandled_exception_def)
  then have "co_step m2 c = Inr (?m4, Outside)"
    using 2(2,3) g(3) by (cases ?r) (simp_all add: co_step_def forward_def final_suspend_def task_final_suspend_def frame_at_def
        return_value_def unhandled_exception_def)
  from drive_outside [OF this, of d' null_handle] have dr: "drive d null_handle ?m0 c = Some (Inr ?m4)"
    using 2(1,2) by (simp add: spawn_release_def)
  then obtain m1 p where r: "resume ?m0 c = Some (Inr (m1, p))" "settle d null_handle m1 p = Some (Inr ?m4)"
    by (rule drive_SomeE)
  have "task_detach m (Some c) = Some (Inr (None, m1, p))" using g(1) r(1) by (simp add: task_detach_def)
  moreover have "frames ?m4 = (frames m)(c := None)" by (auto simp: 2(2,3))
  ultimately show ?thesis using r(2) by blast
qed

theorem detached_task_frees_itself_witness:
  "\<exists>m1 p m'. task_detach wit_machine (Some 0) = Some (Inr (None, m1, p)) \<and> settle 1 null_handle m1 p = Some (Inr m') \<and>
     frames m' = (frames wit_machine)(0 := None)"
  by (rule detached_task_frees_itself [OF wit_machine_facts(1,2,4)])

section \<open>Spawned tasks\<close>

text \<open>From the start of the runner to the point where it holds the task's result.\<close>

lemma drive_runner:
  assumes t: "task_at m c b" and b: "plain b" and fr: "fresh_above m" and h: "h = fst (spawn_runner (Some c) m)"
  shows "\<exists>g d' t' m'. drive d (handle_on ex h) (snd (spawn_runner (Some c) m)) h = drive d' t' m' h \<and> (t' = handle_on ex h \<or> t' = null_handle) \<and>
           frames m' = (frames m)(h \<mapsto> \<lparr>fr_state = At (forward (eval_body env b)), fr_kind = Spawn_Promise, exc = None, pvalue = None,
             continuation = None, detached = False, handle_dropped = (sh_handle t' = None), fr_params = [Some c]\<rparr>,
             c \<mapsto> done_frame (eval_body env b) g) \<and> fr_params g = [] \<and> fresh_above m' \<and> h \<noteq> c"
proof -
  let ?r = "eval_body env b"
  obtain g where g: "frames m c = Some g" "fr_state g = At b" "fr_kind g = Task_Promise" "exc g = None" "\<not> detached g" "fr_params g = []"
    using t unfolding task_at_def by blast
  have h: "h = next_cid m" using h by (simp add: spawn_runner_def new_frame_def)
  have ne: "h \<noteq> c" using alive_below [OF fr g(1)] h by simp
  let ?f = "\<lambda>st. \<lparr>fr_state = st, fr_kind = Spawn_Promise, exc = None, pvalue = None, continuation = None, detached = False,
    handle_dropped = False, fr_params = [Some c]\<rparr>"
  let ?m1 = "snd (spawn_runner (Some c) m)" let ?g = "g\<lparr>continuation := Some h\<rparr>"
  let ?m2 = "set_frame c ?g (set_frame h (?f (Awaiting (Some c) False forward)) ?m1)"
  have f1: "frames ?m1 = (frames m)(h \<mapsto> ?f (At (Await_Task (Some c) forward)))" "next_cid ?m1 = Suc h"
    by (simp_all add: spawn_runner_def new_frame_def h)
  have "co_step ?m1 h = Inr (?m2, To c)"
    using ne g by (simp add: co_step_def frame_at_def f1 co_await_def task_await_ready_def handle_done_def task_await_suspend_def Let_def)
  then have s1: "drive d (handle_on ex h) ?m1 h = drive d (handle_on ex h) ?m2 c" by (rule drive_to)
  have 2: "frames ?m2 c = Some ?g" "fr_state ?g = At b" "pending_root (handle_on ex h) c ?m2" "fresh_above ?m2"
    using g ne fr alive_below [OF fr g(1)] h by (auto simp: pending_root_def fresh_above_def f1)
  let ?g2 = "?g\<lparr>fr_state := At (forward ?r)\<rparr>"
  obtain d' t' m3 where 3: "drive d (handle_on ex h) ?m2 c = drive d' t' m3 c" "t' = handle_on ex h \<or> t' = null_handle"
      "frames m3 = (drop_mark (handle_on ex h) t' (frames ?m2))(c \<mapsto> ?g2)" "fresh_above m3"
    using drive_body [OF b 2, of d env] unfolding drives_to_def by blast
  let ?h3 = "(?f (Awaiting (Some c) False forward))\<lparr>handle_dropped := (sh_handle t' = None)\<rparr>"
  have h3: "frames m3 = (frames m)(h \<mapsto> ?h3, c \<mapsto> ?g2)" using 3(2,3) ne by (auto simp: f1 drop_mark_def fun_eq_iff)
  let ?m4 = "set_frame c (done_frame ?r ?g2) m3"
  have s4: "co_step m3 c = Inr (?m4, To h)" by (rule step_task_return) (use g h3 in simp_all)
  let ?m5 = "set_frame h (?h3\<lparr>fr_state := At (forward ?r)\<rparr>) ?m4"
  have ex: "exc ?g2 = None" using g by simp
  have s5: "co_step ?m4 h = Inr (?m5, To h)"
    using ne h3 by (simp add: co_step_def task_await_resume_def frame_at_def take_result_done [OF ex] Let_def)
  have "drive d (handle_on ex h) ?m1 h = drive d' t' ?m5 h" using s1 3(1) drive_to [OF s4] drive_to [OF s5] by simp
  moreover have "fresh_above ?m5" using 3(4) alive_below [OF 3(4), of h] alive_below [OF 3(4), of c] h3 ne by (auto simp: fresh_above_def)
  ultimately show ?thesis using 3(2) ne g(6)
    by (intro exI [of _ ?g2] exI [of _ d'] exI [of _ t'] exI [of _ ?m5]) (auto simp: h3)
qed

text \<open>The last step of the runner, and what is left when the handle is dropped too.\<close>

lemma runner_end:
  assumes f: "frames m h = Some f" "fr_state f = At (forward r)" "fr_kind f = Spawn_Promise" "continuation f = None" "fr_params f = [Some c]"
    and drop: "handle_dropped f = (sh_handle t = None)" "t = handle_on ex h \<or> t = null_handle" and c: "leaf (frames m) c" "h \<noteq> c" and fr: "fresh_above m"
  shows "\<exists>m'. drive d t m h = Some (Inr m') \<and> frames m' = frames m |` (- {h, c})"
proof -
  let ?m1 = "set_frame h (done_frame r f) m"
  have h1: "frames ?m1 h = Some (done_frame r f)" "fr_state (done_frame r f) = Final" "fr_params (done_frame r f) = map Some [c]"
    using f by (cases r; simp add: return_value_def unhandled_exception_def)+
  have l: "\<forall>x\<in>set [c]. leaf (frames ?m1) x" using c by (simp add: leaf_def del: frame_tasks.simps)
  have fr1: "fresh_above ?m1" using fr alive_below [OF fr f(1)] by (auto simp: fresh_above_def)
  let ?m2 = "?m1\<lparr>frames := frames ?m1 |` (- insert h (set [c]))\<rparr>"
  have hd: "handle_destroy ?m1 h = Inr ?m2" by (rule handle_destroy_params [OF h1 _ _ l fr1]) (use c in simp_all)
  have "co_step m h = spawn_final_suspend ?m1 h"
    using f by (cases r) (simp_all add: co_step_def forward_def final_suspend_def return_value_def unhandled_exception_def)
  moreover have "handle_dropped (done_frame r f) = (sh_handle t = None)" "continuation (done_frame r f) = None"
    using drop f by (cases r; simp add: return_value_def unhandled_exception_def)+
  ultimately have st: "co_step m h = (if sh_handle t = None then Inr (?m2, Outside) else Inr (?m1, Outside))"
    using h1(1) hd by (simp add: spawn_final_suspend_def frame_at_def)
  have "drive d t m h = Some (Inr ?m2)"
  proof (cases "sh_handle t")
    case None
    then show ?thesis using st drive_outside [of m h ?m2 d t] by (simp add: spawn_release_def)
  next
    case (Some x)
    then have "co_step m h = Inr (?m1, Outside)" "t = handle_on ex h" using st drop by auto
    then show ?thesis using drive_outside [of m h ?m1 d t] h1 hd by (simp add: spawn_release_def)
  qed
  moreover have "frames ?m2 = frames m |` (- {h, c})" by (auto simp: restrict_map_def fun_eq_iff)
  ultimately show ?thesis by blast
qed

text \<open>
  C5: Spawning a task never leaks and never frees twice, whenever the handle is dropped: before the first
  resumption, between any two, or after the end. When all is over the runner and the task are gone, and
  every other frame is as it was.
\<close>

theorem spawned_task_freed_once:
  assumes "task_at m c b" and "plain b" and "fresh_above m"
  shows "\<exists>h m1 p m'. spawn ex m (Some c) = Some (Inr (handle_on ex h, m1, p)) \<and> settle d (handle_on ex h) m1 p = Some (Inr m') \<and>
           frames m' = (frames m)(c := None)"
proof -
  let ?h = "fst (spawn_runner (Some c) m)" let ?m0 = "snd (spawn_runner (Some c) m)"
  have hn: "?h = next_cid m" by (simp add: spawn_runner_def new_frame_def)
  let ?f = "\<lambda>t'::spawn_handle. \<lparr>fr_state = At (forward (eval_body undefined b)), fr_kind = Spawn_Promise, exc = None, pvalue = None,
    continuation = None, detached = False, handle_dropped = (sh_handle t' = None), fr_params = [Some c]\<rparr>"
  obtain g d' t' m2 where 2: "drive d (handle_on ex ?h) ?m0 ?h = drive d' t' m2 ?h" "t' = handle_on ex ?h \<or> t' = null_handle"
      "frames m2 = (frames m)(?h \<mapsto> ?f t', c \<mapsto> done_frame (eval_body undefined b) g)" "fr_params g = []" "fresh_above m2" "?h \<noteq> c"
    using drive_runner [OF assms refl, of d ex undefined] by blast
  have l: "leaf (frames m2) c" by (rule leaf_done [where r = "eval_body undefined b" and g = g]) (simp_all add: 2(3,4))
  have h2: "frames m2 ?h = Some (?f t')" using 2(6) by (simp add: 2(3))
  have "\<exists>m'. drive d' t' m2 ?h = Some (Inr m') \<and> frames m' = frames m2 |` (- {?h, c})"
    by (rule runner_end [where f = "?f t'", OF h2 _ _ _ _ _ 2(2) l 2(6,5)]) simp_all
  then obtain m' where m': "drive d (handle_on ex ?h) ?m0 ?h = Some (Inr m')" "frames m' = frames m2 |` (- {?h, c})" using 2(1) by auto
  obtain m1 p where r: "resume ?m0 ?h = Some (Inr (m1, p))" "settle d (handle_on ex ?h) m1 p = Some (Inr m')" using m'(1) by (rule drive_SomeE)
  have "spawn ex m (Some c) = Some (Inr (handle_on ex ?h, m1, p))" using r(1) by (simp add: spawn_def split_beta set_executor_def spawn_handle_make_def)
  moreover have "frames m' = (frames m)(c := None)"
    unfolding m'(2) 2(3) using fresh_aboveD [OF assms(3), of ?h] hn 2(6) by (auto simp: restrict_map_def fun_eq_iff)
  ultimately show ?thesis using r(2) by blast
qed

theorem spawned_task_freed_once_witness:
  "\<exists>h m1 p m'. spawn 64 wit_machine (Some 0) = Some (Inr (handle_on 64 h, m1, p)) \<and> settle 0 (handle_on 64 h) m1 p = Some (Inr m') \<and>
     frames m' = (frames wit_machine)(0 := None)"
  by (rule spawned_task_freed_once [OF wit_machine_facts(1,2,4)])

text \<open>
  Spawning a task that never suspends runs it on the spot: \<^verbatim>\<open>sync_wait\<close> on the handle returns its result without
  running the executor.
\<close>

theorem spawn_sync_wait_result:
  assumes "task_at m c b" and "plain b" and "fresh_above m" and "\<not> suspends env susp b"
  shows "\<exists>h m1. spawn ex m (Some c) = Some (Inr (handle_on ex h, m1, None)) \<and> spawn_done m1 (handle_on ex h) = Inr True \<and>
           sync_wait_spawn id run_until dflt m1 (handle_on ex h) = Some (Inr (eval_body env b, m1))"
proof -
  let ?h = "fst (spawn_runner (Some c) m)" let ?m0 = "snd (spawn_runner (Some c) m)" let ?r = "eval_body env b"
  have hn: "?h = next_cid m" by (simp add: spawn_runner_def new_frame_def)
  have ne: "?h \<noteq> c" using assms(1) alive_below [OF assms(3), of c] hn by (auto simp: task_at_def)
  let ?f = "\<lparr>fr_state = At (Await_Task (Some c) forward), fr_kind = Spawn_Promise, exc = None, pvalue = None, continuation = None,
    detached = False, handle_dropped = False, fr_params = [Some c]\<rparr>"
  have f0: "frames ?m0 = (frames m)(?h \<mapsto> ?f)" "next_cid ?m0 = Suc ?h" by (simp_all add: spawn_runner_def new_frame_def)
  have 0: "frames ?m0 ?h = Some ?f" "fr_state ?f = At (Await_Task (Some c) forward)" "task_at ?m0 c b" "fresh_above ?m0"
    using f0 assms(1,3) ne hn by (auto simp: task_at_def fresh_above_def)
  let ?f2 = "?f\<lparr>fr_state := At (forward ?r)\<rparr>"
  obtain m2 where m2: "resume ?m0 ?h = resume m2 ?h" "frames m2 = (frames ?m0)(?h \<mapsto> ?f2, c := frames m2 c)"
    using resume_await_task [OF 0(1,2) ne 0(3) assms(2) 0(4), of env susp] assms(4) by auto
  have h2: "frames m2 ?h = Some ?f2" using m2(2) ne by (metis fun_upd_same fun_upd_other)
  let ?m3 = "set_frame ?h (done_frame ?r ?f2) m2"
  have "co_step m2 ?h = Inr (?m3, Outside)"
    using h2 by (cases ?r) (simp_all add: co_step_def forward_def final_suspend_def spawn_final_suspend_def frame_at_def
        return_value_def unhandled_exception_def)
  then have "resume ?m0 ?h = Some (Inr (?m3, None))" using m2(1) resume_step [of m2 ?h] by simp
  then have "spawn ex m (Some c) = Some (Inr (handle_on ex ?h, ?m3, None))" by (simp add: spawn_def split_beta set_executor_def spawn_handle_make_def)
  moreover have td: "spawn_done ?m3 (handle_on ex ?h) = Inr True"
    by (cases ?r) (simp_all add: spawn_done_def handle_done_def frame_at_def return_value_def unhandled_exception_def)
  moreover have "sync_wait_spawn id run_until dflt ?m3 (handle_on ex ?h) = Some (Inr (?r, ?m3))"
    using td take_result_done [of ?f2 ?r] by (simp add: sync_wait_spawn_def frame_at_def)
  ultimately show ?thesis by blast
qed

theorem spawn_sync_wait_result_witness:
  "\<exists>h m1. spawn 64 wit_machine (Some (Suc 0)) = Some (Inr (handle_on 64 h, m1, None)) \<and> spawn_done m1 (handle_on 64 h) = Inr True \<and>
     sync_wait_spawn id (\<lambda>_ _ _. None) 0 m1 (handle_on 64 h) = Some (Inr (Inr 7, m1))"
  using spawn_sync_wait_result [OF wit_machine_facts(3,6,4) wit_machine_facts(5) [of "\<lambda>_. Inr 0" "\<lambda>_. False"], of 64 "\<lambda>_ _ _. None" 0] by simp

text \<open>
  Awaiting an empty task, a moved-from or a detached one among them, is not a no-op: it is ready, and taking
  its result dereferences a null handle.
\<close>

theorem await_empty_task_faults:
  assumes "frames m h = Some f" and "fr_state f = At (Await_Task None k)"
  shows "resume m h = Some (Inl Null_Deref) \<and> task_done m None = Inr True"
proof -
  let ?m1 = "set_frame h (f\<lparr>fr_state := Awaiting None False k\<rparr>) m"
  have "co_step m h = Inr (?m1, To h)" using assms by (simp add: co_step_def co_await_def task_await_ready_def Let_def)
  moreover have "co_step ?m1 h = Inl Null_Deref" by (simp add: co_step_def frame_at_def task_await_resume_def)
  ultimately show ?thesis using resume_step [of m h] resume_step [of ?m1 h] by (simp add: task_done_def)
qed

theorem await_empty_task_faults_witness:
  "resume \<lparr>frames = (\<lambda>_. None)(0 \<mapsto> wit_task_frame (Await_Task None forward)), next_cid = 1, sem = 0\<rparr> 0 = Some (Inl Null_Deref)"
  using await_empty_task_faults [of "\<lparr>frames = (\<lambda>_. None)(0 \<mapsto> wit_task_frame (Await_Task None forward)), next_cid = 1, sem = 0\<rparr>" 0
      "wit_task_frame (Await_Task None forward)" forward]
  by (simp add: wit_task_frame_def)

section \<open>when_all\<close>

text \<open>Tasks that have not started, with their bodies; the first exception in argument order, or the tuple of the values.\<close>

definition tasks_at :: "('v, 'e) machine \<Rightarrow> (cid \<times> ('v, 'e) body) list \<Rightarrow> bool" where
  "tasks_at m cbs \<longleftrightarrow> distinct (map fst cbs) \<and> (\<forall>(c, b)\<in>set cbs. task_at m c b \<and> plain b)"

definition handles :: "(cid \<times> ('v, 'e) body) list \<Rightarrow> task list" where
  "handles cbs = map Some (map fst cbs)"

lemma handles_simps [simp]: "handles [] = []" "handles (cb # cbs) = Some (fst cb) # handles cbs"
  by (simp_all add: handles_def)

definition first_error_or :: "('v list \<Rightarrow> 'v) \<Rightarrow> 'v list \<Rightarrow> ('e + 'v) list \<Rightarrow> 'e + 'v" where
  "first_error_or tup vs rs = (case find isl rs of Some r \<Rightarrow> r | None \<Rightarrow> Inr (tup (vs @ map projr rs)))"

lemma first_error_or_simps [simp]:
  "first_error_or tup vs [] = Inr (tup vs)"
  "first_error_or tup vs (Inl e # rs) = Inl e"
  "first_error_or tup vs (Inr v # rs) = first_error_or tup (vs @ [v]) rs"
  by (simp_all add: first_error_or_def split: option.split)

lemma leaf_finished: "finished m c r \<Longrightarrow> leaf (frames m) c"
  by (auto simp: finished_def leaf_def map_filter_simps)

lemma leaf_task_at: "task_at m c b \<Longrightarrow> leaf (frames m) c"
  by (auto simp: task_at_def leaf_def map_filter_simps)

lemma tasks_at_cong:
  assumes "tasks_at m cbs" and e: "\<And>c. c \<in> fst ` set cbs \<Longrightarrow> frames m' c = frames m c"
  shows "tasks_at m' cbs"
proof -
  have "task_at m' c b = task_at m c b" if "(c, b) \<in> set cbs" for c b
    using e [of c] that by (force simp: task_at_def)
  then show ?thesis using assms(1) by (auto simp: tasks_at_def)
qed

lemma leaf_cong: "fs c = fs' c \<Longrightarrow> leaf fs c = leaf fs' c"
  by (simp add: leaf_def del: frame_tasks.simps)

text \<open>The tasks \<^verbatim>\<open>when_all\<close> gets to: those up to the first that fails.\<close>

fun awaited :: "(task \<Rightarrow> 'e + 'v) \<Rightarrow> (cid \<times> ('v, 'e) body) list \<Rightarrow> (cid \<times> ('v, 'e) body) list" where
  "awaited env [] = []"
| "awaited env (cb # cbs) = cb # (if isl (eval_body env (snd cb)) then [] else awaited env cbs)"

lemma awaited_subset: "set (awaited env cbs) \<subseteq> set cbs"
  by (induction cbs) auto

text \<open>
  The body of \<^verbatim>\<open>when_all\<close> from the point where \<open>vs\<close> are collected: only its own frame and those of the tasks it gets to change.
\<close>

lemma resume_when_all:
  assumes "frames m h = Some f" "fr_state f = At (when_all_body tup vs (handles cbs))" "tasks_at m cbs"
    and "\<forall>(c, b)\<in>set (awaited env cbs). \<not> suspends env susp b" "h \<notin> fst ` set cbs" "fresh_above m"
  shows "\<exists>m'. resume m h = resume m' h \<and>
           frames m' h = Some (f\<lparr>fr_state := At (forward (first_error_or tup vs (map (eval_body env \<circ> snd) cbs)))\<rparr>) \<and>
           (\<forall>x. x \<noteq> h \<longrightarrow> x \<notin> fst ` set (awaited env cbs) \<longrightarrow> frames m' x = frames m x) \<and>
           (\<forall>(c, b)\<in>set (awaited env cbs). finished m' c (eval_body env b)) \<and> fresh_above m'"
  using assms
proof (induction cbs arbitrary: m f vs)
  case Nil
  then have "f\<lparr>fr_state := At (forward (Inr (tup vs)))\<rparr> = f" by (cases f) (simp add: forward_def)
  with Nil show ?case by (intro exI [of _ m]) simp
next
  case (Cons cb cbs)
  obtain c b where cb: "cb = (c, b)" by (cases cb)
  let ?r = "eval_body env b"
  let ?k = "\<lambda>r. case r of Inl e \<Rightarrow> Thr e | Inr v \<Rightarrow> when_all_body tup (vs @ [v]) (handles cbs)"
  have t: "task_at m c b" "plain b" "\<not> suspends env susp b" "h \<noteq> c" "c \<notin> fst ` set cbs" and ts: "tasks_at m cbs"
    using Cons.prems by (auto simp: tasks_at_def cb)
  have s0: "fr_state f = At (Await_Task (Some c) ?k)" using Cons.prems(2) by (simp add: cb)
  obtain m1 where 1: "resume m h = resume m1 h" "finished m1 c ?r" "fresh_above m1"
      "frames m1 = (frames m)(h \<mapsto> f\<lparr>fr_state := At (?k ?r)\<rparr>, c := frames m1 c)"
    using resume_await_task [OF Cons.prems(1) s0 t(4,1,2) Cons.prems(6), of env susp] t(3) by auto
  have o: "frames m1 x = frames m x" if "x \<noteq> h" "x \<noteq> c" for x using fun_cong [OF 1(4), of x] that by simp
  have h1: "frames m1 h = Some (f\<lparr>fr_state := At (?k ?r)\<rparr>)" using fun_cong [OF 1(4), of h] t(4) by simp
  have ts1: "tasks_at m1 cbs" by (rule tasks_at_cong [OF ts o]) (use t(5) Cons.prems(5) in auto)
  show ?case
  proof (cases ?r)
    case (Inl e)
    with 1 h1 o show ?thesis by (intro exI [of _ m1]) (auto simp: cb forward_def)
  next
    case (Inr v)
    have s1: "fr_state (f\<lparr>fr_state := At (?k ?r)\<rparr>) = At (when_all_body tup (vs @ [v]) (handles cbs))" using Inr by simp
    have nh: "h \<notin> fst ` set cbs" and ns: "\<forall>(c, b)\<in>set (awaited env cbs). \<not> suspends env susp b"
      using Cons.prems(4,5) Inr by (auto simp: cb)
    have u: "f\<lparr>fr_state := At (?k ?r), fr_state := st\<rparr> = f\<lparr>fr_state := st\<rparr>" for st by simp
    obtain m2 where 2: "resume m1 h = resume m2 h" "fresh_above m2"
        "frames m2 h = Some (f\<lparr>fr_state := At (forward (first_error_or tup (vs @ [v]) (map (eval_body env \<circ> snd) cbs)))\<rparr>)"
        "\<And>x. x \<noteq> h \<Longrightarrow> x \<notin> fst ` set (awaited env cbs) \<Longrightarrow> frames m2 x = frames m1 x"
        "\<forall>(c, b)\<in>set (awaited env cbs). finished m2 c (eval_body env b)"
      using Cons.IH [OF h1 s1 ts1 ns nh 1(3)] unfolding u by blast
    have "c \<notin> fst ` set (awaited env cbs)" using t(5) awaited_subset by blast
    then have "frames m2 c = frames m1 c" using 2(4) t(4) by metis
    then have "finished m2 c ?r" using 1(2) by (simp add: finished_def)
    with 1(1) 2 o Inr show ?thesis by (intro exI [of _ m2]) (auto simp: cb comp_def)
  qed
qed

lemma awaited_leaves:
  assumes t: "tasks_at m cbs" and o: "\<And>x. x \<in> fst ` set cbs \<Longrightarrow> x \<notin> fst ` set (awaited env cbs) \<Longrightarrow> frames m' x = frames m x"
    and f: "\<forall>(c, b)\<in>set (awaited env cbs). finished m' c (eval_body env b)"
  shows "\<forall>c\<in>fst ` set cbs. leaf (frames m') c"
proof
  fix c assume c: "c \<in> fst ` set cbs"
  show "leaf (frames m') c"
  proof (cases "c \<in> fst ` set (awaited env cbs)")
    case True
    then show ?thesis using f leaf_finished by fastforce
  next
    case False
    have "leaf (frames m) c" using t c leaf_task_at by (fastforce simp: tasks_at_def)
    then show ?thesis using o [OF c False] leaf_cong by metis
  qed
qed

lemma when_all_cleanup:
  assumes W: "frames m' w = Some (done_frame r f)" "fr_params f = handles cbs" and cs: "distinct (map fst cbs)" "w \<notin> fst ` set cbs"
    "\<forall>c\<in>fst ` set cbs. leaf (frames m') c" and fr: "fresh_above m'" and w: "frames m w = None"
    and o: "\<And>x. x \<noteq> w \<Longrightarrow> x \<notin> fst ` set cbs \<Longrightarrow> frames m' x = frames m x"
  shows "\<exists>m6. handle_destroy m' w = Inr m6 \<and> frames m6 = frames m |` (- fst ` set cbs)"
proof -
  have d: "fr_state (done_frame r f) = Final" "fr_params (done_frame r f) = map Some (map fst cbs)"
    using W(2) by (cases r; simp add: return_value_def unhandled_exception_def handles_def)+
  have "handle_destroy m' w = Inr (m'\<lparr>frames := frames m' |` (- insert w (set (map fst cbs)))\<rparr>)"
    by (rule handle_destroy_params [OF W(1) d cs(1) _ _ fr]) (use cs in auto)
  moreover have "frames m' |` (- insert w (set (map fst cbs))) = frames m |` (- fst ` set cbs)"
    using o w by (auto simp: restrict_map_def fun_eq_iff)
  ultimately show ?thesis by simp
qed

text \<open>Started on its own, \<^verbatim>\<open>when_all\<close> runs the tasks up to the first that fails and ends with its result.\<close>

lemma when_all_started:
  assumes t: "tasks_at m cbs" and ns: "\<forall>(c, b)\<in>set (awaited env cbs). \<not> suspends env susp b" and fr: "fresh_above m"
    and w: "frames m w = Some W" "fr_state W = At (when_all_body tup [] (handles cbs))" "fr_kind W = Task_Promise" "exc W = None"
      "\<not> detached W" "continuation W = None" "w \<notin> fst ` set cbs"
  shows "\<exists>m1 W1. resume m w = Some (Inr (m1, None)) \<and> frames m1 w = Some W1 \<and> fr_state W1 = Final \<and>
           take_result W1 = Inr (first_error_or tup [] (map (eval_body env \<circ> snd) cbs)) \<and>
           (\<forall>(c, b)\<in>set (awaited env cbs). finished m1 c (eval_body env b)) \<and>
           (\<forall>x. x \<noteq> w \<longrightarrow> x \<notin> fst ` set (awaited env cbs) \<longrightarrow> frames m1 x = frames m x)"
proof -
  let ?r = "first_error_or tup [] (map (eval_body env \<circ> snd) cbs)"
  let ?W = "W\<lparr>fr_state := At (forward ?r)\<rparr>"
  obtain m' where 1: "resume m w = resume m' w" "frames m' w = Some ?W"
      "\<forall>x. x \<noteq> w \<longrightarrow> x \<notin> fst ` set (awaited env cbs) \<longrightarrow> frames m' x = frames m x"
      "\<forall>(c, b)\<in>set (awaited env cbs). finished m' c (eval_body env b)"
    using resume_when_all [OF w(1,2) t ns w(7) fr] by blast
  let ?m1 = "set_frame w (done_frame ?r ?W) m'"
  have "co_step m' w = Inr (?m1, Outside)"
    using 1(2) w(3-6) by (cases ?r) (simp_all add: co_step_def forward_def final_suspend_def task_final_suspend_def frame_at_def
      return_value_def unhandled_exception_def)
  then have "resume m w = Some (Inr (?m1, None))" using 1(1) resume_step [of m' w] by simp
  moreover have "take_result (done_frame ?r ?W) = Inr ?r" by (rule take_result_done) (simp add: w(4))
  moreover have "fr_state (done_frame ?r ?W) = Final" by (cases ?r) (simp_all add: return_value_def unhandled_exception_def)
  moreover have "finished ?m1 c (eval_body env b)" if "(c, b) \<in> set (awaited env cbs)" for c b
  proof -
    have "c \<noteq> w" using that w(7) awaited_subset by force
    then show ?thesis using 1(4) that by (auto simp: finished_def)
  qed
  ultimately show ?thesis using 1(3) by (intro exI [of _ ?m1] exI [of _ "done_frame ?r ?W"]) auto
qed

lemma when_all_waited:
  assumes t: "tasks_at m cbs" and ns: "\<forall>(c, b)\<in>set (awaited env cbs). \<not> suspends env susp b" and fr: "fresh_above m"
  shows "\<exists>m'. sync_wait (snd (when_all tup (handles cbs) m)) (Some (fst (when_all tup (handles cbs) m))) =
              Some (Inr (first_error_or tup [] (map (eval_body env \<circ> snd) cbs), m')) \<and>
            frames m' = frames m |` (- fst ` set cbs)"
proof -
  let ?ts = "handles cbs" let ?w = "next_cid m" let ?r = "first_error_or tup [] (map (eval_body env \<circ> snd) cbs)"
  define m0 where "m0 = snd (when_all tup ?ts m)"
  define W :: "('a, 'b) frame" where "W = \<lparr>fr_state = At (when_all_body tup [] ?ts), fr_kind = Task_Promise, exc = None, pvalue = None,
    continuation = None, detached = False, handle_dropped = False, fr_params = ?ts\<rparr>"
  have m0: "fst (when_all tup ?ts m) = ?w" "frames m0 = (frames m)(?w \<mapsto> W)" "next_cid m0 = Suc ?w"
    by (simp_all add: when_all_def new_frame_def m0_def W_def)
  have fr0: "fresh_above m0" using fr by (simp add: fresh_above_def m0)
  let ?h = "next_cid m0" let ?m1 = "with_sync_runner ?w m0"
  note w = with_sync_runner [where c = ?w and m = m0]
  have ltc: "c < ?w" if "c \<in> fst ` set cbs" for c using that t alive_below [OF fr] by (fastforce simp: tasks_at_def task_at_def)
  have ne: "?h \<noteq> ?w" by (simp add: m0)
  let ?f = "(sync_runner ?w)\<lparr>fr_state := Awaiting (Some ?w) False forward\<rparr>" let ?W = "W\<lparr>continuation := Some ?h\<rparr>"
  let ?m2 = "set_frame ?w ?W (set_frame ?h ?f ?m1)"
  have s1: "resume ?m1 ?h = resume ?m2 ?w"
    by (rule await_begin [where f = "sync_runner ?w" and k = forward and g = W])
      (simp_all add: w sync_runner_def W_def m0)
  have W2: "frames ?m2 ?w = Some ?W" "fr_state ?W = At (when_all_body tup [] ?ts)" by (simp_all add: W_def)
  have fr2: "fresh_above ?m2" using w(5) [OF fr0] by (auto simp: fresh_above_def w m0)
  have o2: "frames ?m2 c = frames m c" if "c < ?w" for c using that by (simp add: w m0)
  have t2: "tasks_at ?m2 cbs" by (rule tasks_at_cong [OF t o2 [OF ltc]])
  have nw: "?w \<notin> fst ` set cbs" using ltc by blast
  obtain m3 where 3: "resume ?m2 ?w = resume m3 ?w" "frames m3 ?w = Some (?W\<lparr>fr_state := At (forward ?r)\<rparr>)" "fresh_above m3"
      "\<And>x. x \<noteq> ?w \<Longrightarrow> x \<notin> fst ` set (awaited env cbs) \<Longrightarrow> frames m3 x = frames ?m2 x"
      "\<forall>(c, b)\<in>set (awaited env cbs). finished m3 c (eval_body env b)"
    using resume_when_all [OF W2 t2 ns nw fr2] by blast
  have sub: "x \<notin> fst ` set cbs \<Longrightarrow> x \<notin> fst ` set (awaited env cbs)" for x using awaited_subset by blast
  have lv: "\<forall>c\<in>fst ` set cbs. leaf (frames m3) c" by (rule awaited_leaves [OF t2 3(4) 3(5)]) (use nw in blast)+
  have hc: "?h \<notin> fst ` set cbs" using ltc m0(3) by fastforce
  have h3: "frames m3 ?h = Some ?f" using 3(4) [OF ne sub [OF hc]] ne by simp
  let ?W3 = "done_frame ?r (?W\<lparr>fr_state := At (forward ?r)\<rparr>)"
  let ?m4 = "set_frame ?h (?f\<lparr>fr_state := At (forward ?r)\<rparr>) (set_frame ?w ?W3 m3)"
  have rs: "resume ?m1 ?h = resume ?m4 ?h"
    unfolding s1 3(1) by (rule await_end [OF h3 _ ne 3(2)]) (simp_all add: W_def)
  have d: "\<exists>m6. handle_destroy m5 ?w = Inr m6 \<and> frames m6 = frames m |` (- fst ` set cbs)"
    if m5: "frames m5 = (frames ?m4)(?h := None)" "next_cid m5 = next_cid ?m4" for m5
  proof (rule when_all_cleanup [where f = "?W\<lparr>fr_state := At (forward ?r)\<rparr>" and r = ?r])
    show "\<forall>c\<in>fst ` set cbs. leaf (frames m5) c"
    proof
      fix c assume c: "c \<in> fst ` set cbs"
      then have "c \<noteq> ?h" "c \<noteq> ?w" using hc nw by metis+
      then have "frames m5 c = frames m3 c" by (simp add: m5(1))
      then show "leaf (frames m5) c" using lv c leaf_cong by blast
    qed
    show "frames m5 x = frames m x" if "x \<noteq> ?w" "x \<notin> fst ` set cbs" for x
      using 3(4) [OF that(1) sub [OF that(2)]] that fresh_aboveD [OF fr, of ?h] m0(3) by (cases "x = ?h") (simp_all add: m5(1) w m0(2))
    show "fresh_above m5" using 3(3) m5 alive_below [OF 3(3) 3(2)] by (auto simp: fresh_above_def)
  qed (use t nw ne fresh_aboveD [OF fr, of ?w] in \<open>simp_all add: m5(1) W_def tasks_at_def\<close>)
  show ?thesis using sync_wait_collect [OF w(1) rs _ _ _ _ _ d]
    unfolding m0_def [symmetric] m0(1) by (simp add: sync_runner_def)
qed

text \<open>
  C21: \<^verbatim>\<open>when_all\<close> awaits its tasks in argument order. Where the tasks up to the first failing one run without suspending,
  resuming it runs exactly those: they are finished with their results, the frame of every later task is as it was before, never
  started, and the frame of \<^verbatim>\<open>when_all\<close> holds the first exception, or the tuple of all values. Waiting for it gives that result
  and frees all frames, those of the tasks that were not started too.
\<close>

theorem when_all_in_order:
  assumes t: "tasks_at m cbs" and ns: "\<forall>(c, b)\<in>set (awaited env cbs). \<not> suspends env susp b" and fr: "fresh_above m"
  shows "(\<exists>m1 W. resume (snd (when_all tup (handles cbs) m)) (fst (when_all tup (handles cbs) m)) = Some (Inr (m1, None)) \<and>
            frames m1 (fst (when_all tup (handles cbs) m)) = Some W \<and> fr_state W = Final \<and>
            take_result W = Inr (first_error_or tup [] (map (eval_body env \<circ> snd) cbs)) \<and>
            (\<forall>(c, b)\<in>set (awaited env cbs). finished m1 c (eval_body env b)) \<and>
            (\<forall>c. c \<noteq> fst (when_all tup (handles cbs) m) \<longrightarrow> c \<notin> fst ` set (awaited env cbs) \<longrightarrow> frames m1 c = frames m c)) \<and>
         (\<exists>m'. sync_wait (snd (when_all tup (handles cbs) m)) (Some (fst (when_all tup (handles cbs) m))) =
              Some (Inr (first_error_or tup [] (map (eval_body env \<circ> snd) cbs), m')) \<and>
            frames m' = frames m |` (- fst ` set cbs))"
proof (rule conjI)
  let ?w = "next_cid m" let ?m = "snd (when_all tup (handles cbs) m)"
  have w: "fst (when_all tup (handles cbs) m) = ?w" by (simp add: when_all_def new_frame_def)
  have o: "frames ?m x = frames m x" if "x \<noteq> ?w" for x using that by (simp add: when_all_def new_frame_def)
  have lt: "c < ?w" if "c \<in> fst ` set cbs" for c using that t alive_below [OF fr] by (fastforce simp: tasks_at_def task_at_def)
  have "tasks_at ?m cbs" by (rule tasks_at_cong [OF t]) (use o lt in fastforce)
  moreover have "fresh_above ?m" using fr by (simp add: fresh_above_def when_all_def new_frame_def)
  ultimately obtain m1 W where "resume ?m ?w = Some (Inr (m1, None))" "frames m1 ?w = Some W" "fr_state W = Final"
      "take_result W = Inr (first_error_or tup [] (map (eval_body env \<circ> snd) cbs))"
      "\<forall>(c, b)\<in>set (awaited env cbs). finished m1 c (eval_body env b)"
      "\<forall>x. x \<noteq> ?w \<longrightarrow> x \<notin> fst ` set (awaited env cbs) \<longrightarrow> frames m1 x = frames ?m x"
    using when_all_started [OF _ ns, of ?m ?w] lt by (force simp: when_all_def new_frame_def)
  with o show "\<exists>m1 W. resume ?m (fst (when_all tup (handles cbs) m)) = Some (Inr (m1, None)) \<and>
      frames m1 (fst (when_all tup (handles cbs) m)) = Some W \<and> fr_state W = Final \<and>
      take_result W = Inr (first_error_or tup [] (map (eval_body env \<circ> snd) cbs)) \<and>
      (\<forall>(c, b)\<in>set (awaited env cbs). finished m1 c (eval_body env b)) \<and>
      (\<forall>c. c \<noteq> fst (when_all tup (handles cbs) m) \<longrightarrow> c \<notin> fst ` set (awaited env cbs) \<longrightarrow> frames m1 c = frames m c)"
    unfolding w by (intro exI [of _ m1] exI [of _ W]) simp
qed (rule when_all_waited [OF assms])

text \<open>A task that returns, one that throws, and one after them that would suspend.\<close>

definition wit_three :: "(nat, string) machine" where
  "wit_three = \<lparr>frames = (\<lambda>_. None)(0 \<mapsto> wit_task_frame (Ret 7), 1 \<mapsto> wit_task_frame (Thr ''io''), 2 \<mapsto> wit_task_frame (Susp (Ret 9))),
     next_cid = 3, sem = 0\<rparr>"

lemma wit_three_tasks: "tasks_at wit_three [(0, Ret 7), (1, Thr ''io''), (2, Susp (Ret 9))]" "fresh_above wit_three"
  by (auto simp: tasks_at_def task_at_def wit_three_def wit_task_frame_def fresh_above_def)

theorem when_all_in_order_witness:
  "(\<exists>m1 W. resume (snd (when_all sum_list [Some 0, Some 1, Some 2] wit_three)) 3 = Some (Inr (m1, None)) \<and> frames m1 3 = Some W \<and>
      take_result W = Inr (Inl ''io'') \<and> finished m1 0 (Inr 7) \<and> finished m1 1 (Inl ''io'') \<and>
      frames m1 2 = Some (wit_task_frame (Susp (Ret 9)))) \<and>
   (\<exists>m'. sync_wait (snd (when_all sum_list [Some 0, Some 1, Some 2] wit_three)) (Some 3) = Some (Inr (Inl ''io'', m')) \<and>
      frames m' = (\<lambda>_. None))"
proof -
  have w: "fst (when_all sum_list [Some 0, Some 1, Some 2] wit_three) = 3" by (simp add: when_all_def new_frame_def wit_three_def)
  have e: "frames wit_three |` (- {0, 1, 2}) = (\<lambda>_. None)" "frames wit_three 2 = Some (wit_task_frame (Susp (Ret 9)))"
    by (auto simp: wit_three_def restrict_map_def)
  show ?thesis
    using when_all_in_order [OF wit_three_tasks(1) _ wit_three_tasks(2), of "\<lambda>_. Inr 0" "\<lambda>_. True" sum_list] w e by fastforce
qed

end
