(* ===== verification/Iocp_Reactor.thy ===== *)
theory Iocp_Reactor
  imports Reactor
begin

text \<open>
  The readiness reactor on Windows, \<^verbatim>\<open>src/io/iocp_reactor.cpp\<close>: one poll request per registered socket, completed
  through an I/O completion port. The system calls are parameters. A poll context is a heap object whose
  address is the completion key; the parts the operating system writes, \<^verbatim>\<open>overlapped\<close> and \<^verbatim>\<open>out_buf\<close>, are read
  from the operating system's state.
\<close>

section \<open>Constants and flags\<close>

definition AFD_POLL_RECEIVE :: u32 where "AFD_POLL_RECEIVE = 0x1"
definition AFD_POLL_SEND :: u32 where "AFD_POLL_SEND = 0x4"
definition AFD_POLL_DISCONNECT :: u32 where "AFD_POLL_DISCONNECT = 0x8"
definition AFD_POLL_ABORT :: u32 where "AFD_POLL_ABORT = 0x10"
definition AFD_POLL_LOCAL_CLOSE :: u32 where "AFD_POLL_LOCAL_CLOSE = 0x20"
definition AFD_POLL_ACCEPT :: u32 where "AFD_POLL_ACCEPT = 0x80"
definition AFD_POLL_CONNECT_FAIL :: u32 where "AFD_POLL_CONNECT_FAIL = 0x100"
definition WAKE_KEY :: u64 where "WAKE_KEY = - 1"
definition kStatusCancelled :: i32 where "kStatusCancelled = 0xC0000120"

lemmas afd_defs = AFD_POLL_RECEIVE_def AFD_POLL_SEND_def AFD_POLL_DISCONNECT_def AFD_POLL_ABORT_def AFD_POLL_LOCAL_CLOSE_def
  AFD_POLL_ACCEPT_def AFD_POLL_CONNECT_FAIL_def

text \<open>Constants of the Windows headers.\<close>

definition INVALID_SOCKET :: u64 where "INVALID_SOCKET = - 1"
definition INFINITE_MS :: u32 where "INFINITE_MS = - 1"
definition WAIT_TIMEOUT :: u32 where "WAIT_TIMEOUT = 258"
definition ERROR_INVALID_PARAMETER :: u32 where "ERROR_INVALID_PARAMETER = 87"
definition STATUS_PENDING :: i32 where "STATUS_PENDING = 0x103"

definition to_afd :: "event \<Rightarrow> u32" where
  "to_afd e =
     (let f0 = 0;
          f1 = (if event_has e Event_Readable
                then f0 OR (AFD_POLL_RECEIVE OR AFD_POLL_ACCEPT OR AFD_POLL_DISCONNECT OR AFD_POLL_ABORT) else f0)
      in if event_has e Event_Writable then f1 OR (AFD_POLL_SEND OR AFD_POLL_CONNECT_FAIL) else f1)"

definition from_afd :: "u32 \<Rightarrow> event" where
  "from_afd fl =
     (let e0 = Event_None;
          e1 = (if fl AND (AFD_POLL_RECEIVE OR AFD_POLL_ACCEPT) \<noteq> 0 then event_or_assign e0 Event_Readable else e0);
          e2 = (if fl AND AFD_POLL_SEND \<noteq> 0 then event_or_assign e1 Event_Writable else e1);
          e3 = (if fl AND (AFD_POLL_DISCONNECT OR AFD_POLL_LOCAL_CLOSE) \<noteq> 0 then event_or_assign e2 Event_HangUp else e2)
      in if fl AND (AFD_POLL_ABORT OR AFD_POLL_CONNECT_FAIL) \<noteq> 0 then event_or_assign e3 Event_Error else e3)"

section \<open>The operating system\<close>

record afd_poll_info =
  api_timeout :: i64
  api_number_of_handles :: u32
  api_exclusive :: u32
  api_handle :: u64
  api_events :: u32
  api_status :: i32

record overlapped_entry =
  lp_completion_key :: u64
  lp_overlapped :: u64
  bytes_transferred :: u32

record 'k win_api =
  nt_device_io_control :: "('k \<Rightarrow> u64 \<Rightarrow> u64 \<Rightarrow> afd_poll_info \<Rightarrow> i32 \<times> 'k) option" \<comment> \<open>null when not exported\<close>
  nt_cancel_io_file_ex :: "('k \<Rightarrow> u64 \<Rightarrow> u64 \<Rightarrow> 'k) option"
  cancel_io_ex :: "'k \<Rightarrow> u64 \<Rightarrow> u64 \<Rightarrow> 'k"
  clear_overlapped :: "'k \<Rightarrow> u64 \<Rightarrow> 'k"
  overlapped_status :: "'k \<Rightarrow> u64 \<Rightarrow> i32"
  out_number_of_handles :: "'k \<Rightarrow> u64 \<Rightarrow> u32"
  out_events :: "'k \<Rightarrow> u64 \<Rightarrow> u32"
  create_port :: "'k \<Rightarrow> u64 \<times> 'k"
  associate :: "'k \<Rightarrow> u64 \<Rightarrow> u64 \<Rightarrow> u64 \<Rightarrow> bool \<times> 'k" \<comment> \<open>handle, port, key\<close>
  get_completions :: "'k \<Rightarrow> u64 \<Rightarrow> nat \<Rightarrow> u32 \<Rightarrow> bool \<times> overlapped_entry list \<times> 'k"
  post_completion :: "'k \<Rightarrow> u64 \<Rightarrow> overlapped_entry \<Rightarrow> 'k"
  wsa_base_handle :: "'k \<Rightarrow> u64 \<Rightarrow> int \<times> u64 \<times> 'k"
  close_handle :: "'k \<Rightarrow> u64 \<Rightarrow> 'k"
  get_last_error :: "'k \<Rightarrow> u32"
  wsa_last_error :: "'k \<Rightarrow> u32"

text \<open>
  \<^verbatim>\<open>NtAfd\<close>: the two entry points looked up in \<^verbatim>\<open>ntdll\<close>, once per process; both stay null when the module is not loaded.
\<close>

definition nt_afd :: "'m option \<Rightarrow> ('m \<Rightarrow> ('k \<Rightarrow> u64 \<Rightarrow> u64 \<Rightarrow> afd_poll_info \<Rightarrow> i32 \<times> 'k) option) \<Rightarrow> ('m \<Rightarrow> ('k \<Rightarrow> u64 \<Rightarrow> u64 \<Rightarrow> 'k) option)
    \<Rightarrow> 'k win_api \<Rightarrow> 'k win_api" where
  "nt_afd ntdll device_io_control cancel_io_file_ex K =
     (case ntdll of
        Some md \<Rightarrow> K\<lparr>nt_device_io_control := device_io_control md, nt_cancel_io_file_ex := cancel_io_file_ex md\<rparr>
      | None \<Rightarrow> K\<lparr>nt_device_io_control := None, nt_cancel_io_file_ex := None\<rparr>)"

definition fmt_dec :: "u32 \<Rightarrow> string" where "fmt_dec n = digits 10 (unat n)"
definition fmt_hex :: "u32 \<Rightarrow> string" where "fmt_hex n = digits 16 (unat n)"

section \<open>Reactor\<close>

record afd_poll_context =
  in_buf :: afd_poll_info
  user_token :: u64
  socket_handle :: u64
  base_handle :: u64
  interest :: event
  active :: bool
  pending :: bool

record 'k win =
  ctxs :: "u64 \<Rightarrow> afd_poll_context option"
  kern :: 'k

text \<open>The map's iteration order is not specified: the list is any order.\<close>

record iocp_reactor =
  m_iocp :: u64
  m_contexts :: "(u64 \<times> u64) list"

definition ctx_at :: "'k win \<Rightarrow> u64 \<Rightarrow> afd_poll_context outcome" where
  "ctx_at w p = (case ctxs w p of Some c \<Rightarrow> Inr c | None \<Rightarrow> Inl Dead_Object)"

definition put_ctx :: "u64 \<Rightarrow> afd_poll_context \<Rightarrow> 'k win \<Rightarrow> 'k win" where
  "put_ctx p c w = w\<lparr>ctxs := (ctxs w)(p \<mapsto> c)\<rparr>"

partial_function (option) resolve_base_handle :: "'k win_api \<Rightarrow> 'k \<Rightarrow> u64 \<Rightarrow> (u64 \<times> 'k) option" where
  "resolve_base_handle K k base =
     (case wsa_base_handle K k base of
        (rc, nxt, k1) \<Rightarrow>
          if rc \<noteq> 0 then Some (base, k1)
          else if nxt = base \<or> nxt = INVALID_SOCKET then Some (base, k1)
          else resolve_base_handle K k1 nxt)"

definition submit_poll :: "'k win_api \<Rightarrow> u64 \<Rightarrow> 'k win \<Rightarrow> (u32 reactor_result \<times> 'k win) outcome" where
  "submit_poll K p w =
     out_bind (ctx_at w p) (\<lambda>c.
     case nt_device_io_control K of
       None \<Rightarrow> Inl Null_Deref
     | Some ioctl \<Rightarrow>
         (let k1 = clear_overlapped K (kern w) p;
              buf = \<lparr>api_timeout = - (2 ^ 63), api_number_of_handles = 1, api_exclusive = 0, api_handle = base_handle c,
                     api_events = to_afd (interest c), api_status = 0\<rparr>;
              c1 = c\<lparr>in_buf := buf\<rparr>;
              (status, k2) = ioctl k1 (base_handle c) p buf;
              w1 = put_ctx p c1 (w\<lparr>kern := k2\<rparr>)
          in if status \<noteq> 0 \<and> status \<noteq> STATUS_PENDING
             then Inr (Inl (''NtDeviceIoControlFile(IOCTL_AFD_POLL) failed: 0x'' @ fmt_hex status), w1)
             else Inr (Inr 0, put_ctx p (c1\<lparr>pending := True\<rparr>) w1)))"

definition cancel_poll :: "'k win_api \<Rightarrow> u64 \<Rightarrow> 'k win \<Rightarrow> 'k win outcome" where
  "cancel_poll K p w =
     out_bind (ctx_at w p) (\<lambda>c.
     if \<not> pending c then Inr w
     else Inr (w\<lparr>kern := (case nt_cancel_io_file_ex K of
                             Some cancel \<Rightarrow> cancel (kern w) (base_handle c) p
                           | None \<Rightarrow> cancel_io_ex K (kern w) (base_handle c) p)\<rparr>))"

definition iocp_create :: "'k win_api \<Rightarrow> 'k \<Rightarrow> iocp_reactor reactor_result \<times> 'k" where
  "iocp_create K k =
     (if nt_device_io_control K = None then (Inl ''NtDeviceIoControlFile not found in ntdll'', k)
      else (let (port, k1) = create_port K k
            in if port = 0 then (Inl (''CreateIoCompletionPort failed: '' @ fmt_dec (get_last_error K k1)), k1)
               else (Inr \<lparr>m_iocp = port, m_contexts = []\<rparr>, k1)))"

subsection \<open>Teardown\<close>

fun cancel_all :: "'k win_api \<Rightarrow> (u64 \<times> u64) list \<Rightarrow> 'k win \<Rightarrow> 'k win outcome" where
  "cancel_all K [] w = Inr w"
| "cancel_all K (kv # kvs) w =
     out_bind (ctx_at w (snd kv)) (\<lambda>c.
     out_bind (cancel_poll K (snd kv) (put_ctx (snd kv) (c\<lparr>active := False\<rparr>) w)) (\<lambda>w1. cancel_all K kvs w1))"

fun any_pending :: "(u64 \<times> u64) list \<Rightarrow> 'k win \<Rightarrow> bool outcome" where
  "any_pending [] w = Inr False"
| "any_pending (kv # kvs) w = out_bind (ctx_at w (snd kv)) (\<lambda>c. if pending c then Inr True else any_pending kvs w)"

fun clear_pending :: "overlapped_entry list \<Rightarrow> 'k win \<Rightarrow> 'k win outcome" where
  "clear_pending [] w = Inr w"
| "clear_pending (en # es) w =
     (if lp_completion_key en \<noteq> WAKE_KEY
      then out_bind (ctx_at w (lp_completion_key en)) (\<lambda>c. clear_pending es (put_ctx (lp_completion_key en) (c\<lparr>pending := False\<rparr>) w))
      else clear_pending es w)"

partial_function (option) drain_all :: "'k win_api \<Rightarrow> iocp_reactor \<Rightarrow> 'k win \<Rightarrow> 'k win outcome option" where
  "drain_all K r w =
     (case any_pending (m_contexts r) w of
        Inl e \<Rightarrow> Some (Inl e)
      | Inr b \<Rightarrow>
          if \<not> b then Some (Inr w)
          else (case get_completions K (kern w) (m_iocp r) MAX_EVENTS_PER_WAIT 1000 of
                  (ok, es, k1) \<Rightarrow>
                    if \<not> ok then Some (Inr (w\<lparr>kern := k1\<rparr>))
                    else (case clear_pending es (w\<lparr>kern := k1\<rparr>) of Inl e \<Rightarrow> Some (Inl e) | Inr w1 \<Rightarrow> drain_all K r w1)))"

fun delete_all :: "(u64 \<times> u64) list \<Rightarrow> 'k win \<Rightarrow> 'k win outcome" where
  "delete_all [] w = Inr w"
| "delete_all (kv # kvs) w = out_bind (ctx_at w (snd kv)) (\<lambda>_. delete_all kvs (w\<lparr>ctxs := (ctxs w)(snd kv := None)\<rparr>))"

definition iocp_destroy :: "'k win_api \<Rightarrow> iocp_reactor \<Rightarrow> 'k win \<Rightarrow> 'k win outcome option" where
  "iocp_destroy K r w =
     (if m_iocp r = 0 then Some (Inr w)
      else (case cancel_all K (m_contexts r) w of
              Inl e \<Rightarrow> Some (Inl e)
            | Inr w1 \<Rightarrow> map_option (\<lambda>res. out_bind res (\<lambda>w2. delete_all (m_contexts r) (w2\<lparr>kern := close_handle K (kern w2) (m_iocp r)\<rparr>)))
                (drain_all K r w1)))"

text \<open>The new object and the moved-from one; on assignment the temporary tears the old contents down.\<close>

definition iocp_move :: "iocp_reactor \<Rightarrow> iocp_reactor \<times> iocp_reactor" where
  "iocp_move r = (\<lparr>m_iocp = m_iocp r, m_contexts = m_contexts r\<rparr>, \<lparr>m_iocp = 0, m_contexts = []\<rparr>)"

definition iocp_move_assign :: "'k win_api \<Rightarrow> bool \<Rightarrow> iocp_reactor \<Rightarrow> iocp_reactor \<Rightarrow> 'k win
    \<Rightarrow> (iocp_reactor \<times> iocp_reactor \<times> 'k win) outcome option" where
  "iocp_move_assign K same r src w =
     (if same then Some (Inr (r, r, w))
      else (let (tmp, src') = iocp_move src
            in map_option (map_sum id (\<lambda>w'. (tmp, src', w'))) (iocp_destroy K r w)))"

subsection \<open>Registration\<close>

fun requeue :: "'k win_api \<Rightarrow> u64 \<Rightarrow> u64 \<Rightarrow> overlapped_entry list \<Rightarrow> 'k win \<Rightarrow> 'k win outcome" where
  "requeue K port p [] w = Inr w"
| "requeue K port p (en # es) w =
     (if lp_completion_key en = WAKE_KEY then requeue K port p es w
      else out_bind (ctx_at w (lp_completion_key en)) (\<lambda>c.
           if lp_completion_key en = p \<or> \<not> active c
           then requeue K port p es (put_ctx (lp_completion_key en) (c\<lparr>pending := False\<rparr>) w)
           else requeue K port p es (w\<lparr>kern := post_completion K (kern w) port en\<rparr>)))"

partial_function (option) drain_context :: "'k win_api \<Rightarrow> u64 \<Rightarrow> u64 \<Rightarrow> 'k win \<Rightarrow> 'k win outcome option" where
  "drain_context K port p w =
     (case ctx_at w p of
        Inl e \<Rightarrow> Some (Inl e)
      | Inr c \<Rightarrow>
          if \<not> pending c then Some (Inr w)
          else (case get_completions K (kern w) port MAX_EVENTS_PER_WAIT 1000 of
                  (ok, es, k1) \<Rightarrow>
                    if \<not> ok then Some (Inr (w\<lparr>kern := k1\<rparr>))
                    else (case requeue K port p es (w\<lparr>kern := k1\<rparr>) of Inl e \<Rightarrow> Some (Inl e) | Inr w1 \<Rightarrow> drain_context K port p w1)))"

text \<open>\<^verbatim>\<open>add\<close> on a handle with a context of its own, kept from an earlier registration.\<close>

definition add_known :: "'k win_api \<Rightarrow> iocp_reactor \<Rightarrow> u64 \<Rightarrow> event \<Rightarrow> u64 \<Rightarrow> u64 \<Rightarrow> 'k win
    \<Rightarrow> (u32 reactor_result \<times> 'k win) outcome option" where
  "add_known K r handle ev token p w =
     (case ctx_at w p of
        Inl e \<Rightarrow> Some (Inl e)
      | Inr c0 \<Rightarrow>
          if active c0 then Some (Inr (Inl ''Reactor::add: handle already registered'', w))
          else Option.bind (drain_context K (m_iocp r) p w) (\<lambda>res. case res of
                 Inl e \<Rightarrow> Some (Inl e)
               | Inr w1 \<Rightarrow> Option.bind (resolve_base_handle K (kern w1) handle) (\<lambda>(base, k2).
                   let w2 = w1\<lparr>kern := k2\<rparr>
                   in if base = 0
                      then Some (Inr (Inl (''Reactor::add: WSAIoctl(SIO_BASE_HANDLE) failed: '' @ fmt_dec (wsa_last_error K k2)), w2))
                      else Some (out_bind (ctx_at w2 p) (\<lambda>c1.
                        let (ok, k3) = associate K k2 base (m_iocp r) p;
                            w3 = put_ctx p (c1\<lparr>base_handle := base\<rparr>) (w2\<lparr>kern := k3\<rparr>);
                            err = get_last_error K k3
                        in if \<not> ok \<and> err \<noteq> ERROR_INVALID_PARAMETER
                           then Inr (Inl (''CreateIoCompletionPort(associate) failed: '' @ fmt_dec err), w3)
                           else submit_poll K p (put_ctx p (c1\<lparr>base_handle := base, interest := ev, user_token := token,
                                                               active := True\<rparr>) w3))))))"

text \<open>\<^verbatim>\<open>add\<close> on a handle seen for the first time; \<open>p\<close> is the address of the new context.\<close>

definition add_new :: "'k win_api \<Rightarrow> iocp_reactor \<Rightarrow> u64 \<Rightarrow> event \<Rightarrow> u64 \<Rightarrow> u64 \<Rightarrow> 'k win
    \<Rightarrow> (u32 reactor_result \<times> iocp_reactor \<times> 'k win) outcome option" where
  "add_new K r handle ev token p w =
     Option.bind (resolve_base_handle K (kern w) handle) (\<lambda>(base, k1).
     if base = 0
     then Some (Inr (Inl (''Reactor::add: WSAIoctl(SIO_BASE_HANDLE) failed: '' @ fmt_dec (wsa_last_error K k1)), r, w\<lparr>kern := k1\<rparr>))
     else (let (ok, k2) = associate K k1 base (m_iocp r) p
           in if \<not> ok
              then Some (Inr (Inl (''CreateIoCompletionPort(associate) failed: '' @ fmt_dec (get_last_error K k2)), r, w\<lparr>kern := k2\<rparr>))
              else (let c = \<lparr>in_buf = \<lparr>api_timeout = 0, api_number_of_handles = 0, api_exclusive = 0, api_handle = 0, api_events = 0, api_status = 0\<rparr>,
                             user_token = token, socket_handle = handle, base_handle = base, interest = ev, active = True, pending = False\<rparr>;
                        r1 = r\<lparr>m_contexts := (handle, p) # m_contexts r\<rparr>
                    in Some (out_bind (submit_poll K p (put_ctx p c (w\<lparr>kern := k2\<rparr>))) (\<lambda>(res, w1).
                         case res of
                           Inl msg \<Rightarrow> out_bind (ctx_at w1 p) (\<lambda>c1. Inr (Inl msg, r1, put_ctx p (c1\<lparr>active := False\<rparr>) w1))
                         | Inr _ \<Rightarrow> Inr (Inr 0, r1, w1))))))"

definition iocp_add :: "'k win_api \<Rightarrow> iocp_reactor \<Rightarrow> u64 \<Rightarrow> event \<Rightarrow> u64 \<Rightarrow> u64 \<Rightarrow> 'k win
    \<Rightarrow> (u32 reactor_result \<times> iocp_reactor \<times> 'k win) outcome option" where
  "iocp_add K r handle ev token p w =
     (case map_of (m_contexts r) handle of
        Some q \<Rightarrow> map_option (map_sum id (\<lambda>(res, w'). (res, r, w'))) (add_known K r handle ev token q w)
      | None \<Rightarrow> add_new K r handle ev token p w)"

definition iocp_remove :: "'k win_api \<Rightarrow> iocp_reactor \<Rightarrow> u64 \<Rightarrow> 'k win \<Rightarrow> (u32 reactor_result \<times> 'k win) outcome" where
  "iocp_remove K r handle w =
     (case map_of (m_contexts r) handle of
        None \<Rightarrow> Inr (Inl ''Reactor::remove: handle not registered'', w)
      | Some p \<Rightarrow> out_bind (ctx_at w p) (\<lambda>c.
          out_bind (cancel_poll K p (put_ctx p (c\<lparr>active := False\<rparr>) w)) (\<lambda>w1. Inr (Inr 0, w1))))"

definition iocp_modify :: "'k win_api \<Rightarrow> iocp_reactor \<Rightarrow> u64 \<Rightarrow> event \<Rightarrow> u64 \<Rightarrow> u64 \<Rightarrow> 'k win
    \<Rightarrow> (u32 reactor_result \<times> iocp_reactor \<times> 'k win) outcome option" where
  "iocp_modify K r handle ev token p w =
     (case iocp_remove K r handle w of
        Inl e \<Rightarrow> Some (Inl e)
      | Inr (Inl msg, w1) \<Rightarrow> Some (Inr (Inl msg, r, w1))
      | Inr (Inr _, w1) \<Rightarrow> iocp_add K r handle ev token p w1)"

subsection \<open>Waiting\<close>

text \<open>The loop over the dequeued completions; \<open>n\<close> is the room left in the caller's span.\<close>

fun completion_loop :: "'k win_api \<Rightarrow> nat \<Rightarrow> overlapped_entry list \<Rightarrow> 'k win \<Rightarrow> (trigger list \<times> 'k win) outcome" where
  "completion_loop K n [] w = Inr ([], w)"
| "completion_loop K n (en # es) w =
     (let p = lp_completion_key en
      in if p = WAKE_KEY \<or> p = 0 then completion_loop K n es w
         else out_bind (ctx_at w p) (\<lambda>c.
           if \<not> pending c then completion_loop K n es w
           else (let w1 = put_ctx p (c\<lparr>pending := False\<rparr>) w; status = overlapped_status K (kern w1) p
                 in if \<not> active c \<or> status = kStatusCancelled then completion_loop K n es w1
                    else (case n of
                            0 \<Rightarrow> Inl Out_Of_Bounds
                          | Suc n' \<Rightarrow>
                              (let fired = (if out_number_of_handles K (kern w1) p \<ge> 1 then out_events K (kern w1) p else 0);
                                   t = \<lparr>tr_events = (if status = 0 then from_afd fired else Event_Error), tr_user_token = user_token c\<rparr>
                               in out_bind (completion_loop K n' es w1) (\<lambda>(ts, w2). Inr (t # ts, w2)))))))"

definition iocp_timeout :: "i64 \<Rightarrow> u32" where
  "iocp_timeout timeout = (if timeout <s 0 then INFINITE_MS else ucast timeout)"

definition iocp_wait :: "'k win_api \<Rightarrow> iocp_reactor \<Rightarrow> nat \<Rightarrow> i64 \<Rightarrow> 'k win \<Rightarrow> (trigger list reactor_result \<times> 'k win) outcome" where
  "iocp_wait K r room timeout w =
     (if room = 0 then Inr (Inr [], w)
      else (let max_n = (if room < MAX_EVENTS_PER_WAIT then room else MAX_EVENTS_PER_WAIT);
                (ok, es, k1) = get_completions K (kern w) (m_iocp r) max_n (iocp_timeout timeout);
                w1 = w\<lparr>kern := k1\<rparr>
            in if \<not> ok
               then (let err = get_last_error K k1
                     in if err = WAIT_TIMEOUT then Inr (Inr [], w1)
                        else Inr (Inl (''GetQueuedCompletionStatusEx failed: '' @ fmt_dec err), w1))
               else out_bind (completion_loop K room es w1) (\<lambda>(ts, w2). Inr (Inr ts, w2))))"

definition iocp_wake :: "'k win_api \<Rightarrow> iocp_reactor \<Rightarrow> 'k \<Rightarrow> 'k" where
  "iocp_wake K r k =
     (if m_iocp r = 0 then k
      else post_completion K k (m_iocp r) \<lparr>lp_completion_key = WAKE_KEY, lp_overlapped = 0, bytes_transferred = 0\<rparr>)"

end
