(* ===== verification/Iocp_Runs.thy ===== *)
theory Iocp_Runs
  imports Iocp_Reactor
begin

text \<open>
  Properties of the Windows reactor: its flag translation, that no run of it touches a freed poll
  context, what a wait reports, and how registrations behave on the error paths.
\<close>

section \<open>Flags\<close>

text \<open>
  A completed poll is readable, writable, hung up or in error just when the driver set one of the flags
  the code groups under that name. Read back, an interest in reading also asks for hang-ups and errors;
  one in writing asks for errors and not for hang-ups.
\<close>

theorem iocp_event_translation:
  "(event_has (from_afd fl) Event_Readable \<longleftrightarrow> fl AND (AFD_POLL_RECEIVE OR AFD_POLL_ACCEPT) \<noteq> 0)
   \<and> (event_has (from_afd fl) Event_Writable \<longleftrightarrow> fl AND AFD_POLL_SEND \<noteq> 0)
   \<and> (event_has (from_afd fl) Event_HangUp \<longleftrightarrow> fl AND (AFD_POLL_DISCONNECT OR AFD_POLL_LOCAL_CLOSE) \<noteq> 0)
   \<and> (event_has (from_afd fl) Event_Error \<longleftrightarrow> fl AND (AFD_POLL_ABORT OR AFD_POLL_CONNECT_FAIL) \<noteq> 0)
   \<and> from_afd (to_afd e) =
       event_or (if event_has e Event_Readable then event_or Event_Readable (event_or Event_HangUp Event_Error) else Event_None)
                (if event_has e Event_Writable then event_or Event_Writable Event_Error else Event_None)"
proof -
  have "from_afd (to_afd e) =
       event_or (if event_has e Event_Readable then event_or Event_Readable (event_or Event_HangUp Event_Error) else Event_None)
                (if event_has e Event_Writable then event_or Event_Writable Event_Error else Event_None)"
    by (cases "event_has e Event_Readable"; cases "event_has e Event_Writable")
      (simp_all add: to_afd_def from_afd_def event_or_def event_or_assign_def event_defs afd_defs)
  then show ?thesis
    by (simp add: from_afd_def event_has_def event_any_def event_or_def event_or_assign_def event_and_def event_defs)
qed

section \<open>Completion keys\<close>

text \<open>
  What the code relies on: a completion port delivers only keys that were associated with it or posted to
  it, at most as many at a time as asked for, and a new port has none. \<open>keys\<close> are the keys that may still come.
\<close>

definition port_contract :: "'k win_api \<Rightarrow> ('k \<Rightarrow> u64 set) \<Rightarrow> bool" where
  "port_contract K keys \<longleftrightarrow>
     (\<forall>k. keys (snd (create_port K k)) = {}) \<and>
     (\<forall>k h port p. keys (snd (associate K k h port p)) \<subseteq> (if fst (associate K k h port p) then insert p (keys k) else keys k)) \<and>
     (\<forall>k port en. keys (post_completion K k port en) \<subseteq> insert (lp_completion_key en) (keys k)) \<and>
     (\<forall>k port n t ok es k'. get_completions K k port n t = (ok, es, k') \<longrightarrow>
        keys k' \<subseteq> keys k \<and> (ok \<longrightarrow> lp_completion_key ` set es \<subseteq> keys k \<and> length es \<le> n)) \<and>
     (\<forall>k p. keys (clear_overlapped K k p) \<subseteq> keys k) \<and>
     (\<forall>k h p. keys (cancel_io_ex K k h p) \<subseteq> keys k) \<and>
     (\<forall>k s. keys (snd (snd (wsa_base_handle K k s))) \<subseteq> keys k) \<and>
     (\<forall>k h. keys (close_handle K k h) \<subseteq> keys k) \<and>
     (\<forall>f k h p b. nt_device_io_control K = Some f \<longrightarrow> keys (snd (f k h p b)) \<subseteq> keys k) \<and>
     (\<forall>f k h p. nt_cancel_io_file_ex K = Some f \<longrightarrow> keys (f k h p) \<subseteq> keys k)"

lemma port_contractD:
  assumes "port_contract K keys"
  shows "keys (snd (create_port K k)) = {}"
    and "keys (snd (associate K k h port p)) \<subseteq> (if fst (associate K k h port p) then insert p (keys k) else keys k)"
    and "keys (post_completion K k port en) \<subseteq> insert (lp_completion_key en) (keys k)"
    and "get_completions K k port n t = (ok, es, k') \<Longrightarrow> keys k' \<subseteq> keys k"
    and "get_completions K k port n t = (True, es, k') \<Longrightarrow> lp_completion_key ` set es \<subseteq> keys k"
    and "get_completions K k port n t = (True, es, k') \<Longrightarrow> length es \<le> n"
    and "keys (clear_overlapped K k p) \<subseteq> keys k"
    and "keys (cancel_io_ex K k h p) \<subseteq> keys k"
    and "wsa_base_handle K k s = (rc, nxt, k') \<Longrightarrow> keys k' \<subseteq> keys k"
    and "keys (close_handle K k h) \<subseteq> keys k"
    and "nt_device_io_control K = Some f \<Longrightarrow> f k h p b = (st, k') \<Longrightarrow> keys k' \<subseteq> keys k"
    and "nt_cancel_io_file_ex K = Some g \<Longrightarrow> keys (g k h p) \<subseteq> keys k"
proof -
  note c = assms [unfolded port_contract_def]
  show "keys (snd (create_port K k)) = {}" using c by simp
  show "keys (snd (associate K k h port p)) \<subseteq> (if fst (associate K k h port p) then insert p (keys k) else keys k)" using c by presburger
  show "keys (post_completion K k port en) \<subseteq> insert (lp_completion_key en) (keys k)" using c by simp
  show "keys k' \<subseteq> keys k" if "get_completions K k port n t = (ok, es, k')" using c that by metis
  show "lp_completion_key ` set es \<subseteq> keys k" if "get_completions K k port n t = (True, es, k')" using c that by metis
  show "length es \<le> n" if "get_completions K k port n t = (True, es, k')" using c that by metis
  show "keys (clear_overlapped K k p) \<subseteq> keys k" using c by simp
  show "keys (cancel_io_ex K k h p) \<subseteq> keys k" using c by simp
  show "keys k' \<subseteq> keys k" if "wsa_base_handle K k s = (rc, nxt, k')" using c that by (metis snd_conv)
  show "keys (close_handle K k h) \<subseteq> keys k" using c by simp
  show "keys k' \<subseteq> keys k" if "nt_device_io_control K = Some f" "f k h p b = (st, k')" using c that by (metis snd_conv)
  show "keys (g k h p) \<subseteq> keys k" if "nt_cancel_io_file_ex K = Some g" using c that by metis
qed

section \<open>No context is used after it was freed\<close>

text \<open>Every key that may still come is the wake-up key or the address of a live context.\<close>

definition keys_live :: "('k \<Rightarrow> u64 set) \<Rightarrow> 'k win \<Rightarrow> bool" where
  "keys_live keys w \<longleftrightarrow> keys (kern w) \<subseteq> insert WAKE_KEY (dom (ctxs w))"

text \<open>A call that comes back with the same live contexts and only keys of live ones.\<close>

definition stays :: "('k \<Rightarrow> u64 set) \<Rightarrow> 'k win \<Rightarrow> 'k win \<Rightarrow> bool" where
  "stays keys w w' \<longleftrightarrow> keys_live keys w' \<and> dom (ctxs w') = dom (ctxs w)"

lemma stays_trans: "stays keys w w1 \<Longrightarrow> stays keys w1 w2 \<Longrightarrow> stays keys w w2"
  by (simp add: stays_def)

lemma stays_put: "keys_live keys w \<Longrightarrow> ctxs w p = Some c \<Longrightarrow> stays keys w (put_ctx p c' w)"
  by (auto simp: stays_def keys_live_def put_ctx_def)

lemma stays_kern: "keys_live keys w \<Longrightarrow> keys k' \<subseteq> insert WAKE_KEY (dom (ctxs w)) \<Longrightarrow> stays keys w (w\<lparr>kern := k'\<rparr>)"
  by (auto simp: stays_def keys_live_def)

lemma stays_refl: "keys_live keys w \<Longrightarrow> stays keys w w"
  by (simp add: stays_def)

lemma stays_live: "stays keys w w' \<Longrightarrow> keys_live keys w'"
  by (simp add: stays_def)

lemma ctx_at_dom: "p \<in> dom (ctxs w) \<Longrightarrow> \<exists>c. ctxs w p = Some c \<and> ctx_at w p = Inr c"
  by (auto simp: ctx_at_def)

lemma keys_live_mono: "keys_live keys w \<Longrightarrow> keys k' \<subseteq> keys (kern w) \<Longrightarrow> keys k' \<subseteq> insert WAKE_KEY (dom (ctxs w))"
  by (auto simp: keys_live_def)

lemma put_ctx_simps [simp]:
  "ctxs (put_ctx p c w) = (ctxs w)(p \<mapsto> c)" "kern (put_ctx p c w) = kern w"
  by (simp_all add: put_ctx_def)

lemma cancel_poll_stays:
  assumes K: "port_contract K keys" and w: "keys_live keys w" and p: "p \<in> dom (ctxs w)"
  shows "\<exists>w'. cancel_poll K p w = Inr w' \<and> stays keys w w' \<and> ctxs w' = ctxs w"
proof -
  obtain c where c: "ctx_at w p = Inr c" using ctx_at_dom [OF p] by blast
  let ?k = "case nt_cancel_io_file_ex K of Some cancel \<Rightarrow> cancel (kern w) (base_handle c) p
                                         | None \<Rightarrow> cancel_io_ex K (kern w) (base_handle c) p"
  have "keys ?k \<subseteq> keys (kern w)"
    using port_contractD(8) [OF K] port_contractD(12) [OF K] by (cases "nt_cancel_io_file_ex K") simp_all
  from stays_kern [OF w keys_live_mono [OF w this]] show ?thesis
    using c stays_refl [OF w] by (cases "pending c") (simp_all add: cancel_poll_def)
qed

lemma submit_poll_stays:
  assumes K: "port_contract K keys" and w: "keys_live keys w" and p: "p \<in> dom (ctxs w)" and f: "nt_device_io_control K \<noteq> None"
  shows "\<exists>res w'. submit_poll K p w = Inr (res, w') \<and> stays keys w w'"
proof -
  obtain c where c: "ctxs w p = Some c" "ctx_at w p = Inr c" using ctx_at_dom [OF p] by blast
  obtain g where g: "nt_device_io_control K = Some g" using f by auto
  let ?buf = "\<lparr>api_timeout = - (2 ^ 63), api_number_of_handles = 1, api_exclusive = 0, api_handle = base_handle c,
                     api_events = to_afd (interest c), api_status = 0\<rparr> :: afd_poll_info"
  obtain st k2 where k2: "g (clear_overlapped K (kern w) p) (base_handle c) p ?buf = (st, k2)" by fastforce
  have "keys k2 \<subseteq> keys (kern w)" using port_contractD(11) [OF K g k2] port_contractD(7) [OF K, of "kern w" p] by blast
  from stays_kern [OF w keys_live_mono [OF w this]] have s1: "stays keys w (w\<lparr>kern := k2\<rparr>)" .
  have "ctxs (w\<lparr>kern := k2\<rparr>) p = Some c" using c by simp
  note s2 = stays_trans [OF s1 stays_put [OF stays_live [OF s1] this]]
  have s3: "stays keys w (put_ctx p d (put_ctx p (c\<lparr>in_buf := ?buf\<rparr>) (w\<lparr>kern := k2\<rparr>)))" for d
    by (rule stays_trans [OF s2 stays_put [OF stays_live [OF s2]]]) simp
  show ?thesis using c(2) g k2 s2 s3 by (simp add: submit_poll_def Let_def)
qed

lemma resolve_base_handle_keys_step:
  assumes "resolve_base_handle K k s = Some x"
  shows "port_contract K keys \<longrightarrow> keys (snd x) \<subseteq> keys k"
proof (rule resolve_base_handle.raw_induct [OF _ assms], intro impI)
  fix f :: "'a win_api \<Rightarrow> 'a \<Rightarrow> u64 \<Rightarrow> (u64 \<times> 'a) option" and K k s x
  assume IH: "\<And>K k s x. f K k s = Some x \<Longrightarrow> port_contract K keys \<longrightarrow> keys (snd x) \<subseteq> keys k"
    and eq: "(case wsa_base_handle K k s of (rc, nxt, k1) \<Rightarrow>
          if rc \<noteq> 0 then Some (s, k1) else if nxt = s \<or> nxt = INVALID_SOCKET then Some (s, k1) else f K k1 nxt) = Some x"
    and K: "port_contract K keys"
  obtain rc nxt k1 where w: "wsa_base_handle K k s = (rc, nxt, k1)" by (cases "wsa_base_handle K k s")
  have "keys k1 \<subseteq> keys k" by (rule port_contractD(9) [OF K w])
  moreover have "keys (snd x) \<subseteq> keys k1" using eq w IH [of K k1 nxt x] K by (auto split: if_splits)
  ultimately show "keys (snd x) \<subseteq> keys k" by blast
qed

lemma resolve_base_handle_stays:
  assumes "port_contract K keys" "keys_live keys w" "resolve_base_handle K (kern w) s = Some (b, k')"
  shows "stays keys w (w\<lparr>kern := k'\<rparr>)"
  using resolve_base_handle_keys_step [OF assms(3)] assms(1) by (intro stays_kern [OF assms(2)] keys_live_mono [OF assms(2)]) simp

lemma get_completions_stays:
  assumes K: "port_contract K keys" and w: "keys_live keys w" and g: "get_completions K (kern w) port n t = (ok, es, k1)"
  shows "stays keys w (w\<lparr>kern := k1\<rparr>)" and "ok \<Longrightarrow> lp_completion_key ` set es \<subseteq> insert WAKE_KEY (dom (ctxs w))"
    and "ok \<Longrightarrow> length es \<le> n"
proof -
  show "stays keys w (w\<lparr>kern := k1\<rparr>)" by (rule stays_kern [OF w keys_live_mono [OF w port_contractD(4) [OF K g]]])
  assume ok
  then have g': "get_completions K (kern w) port n t = (True, es, k1)" using g by simp
  show "lp_completion_key ` set es \<subseteq> insert WAKE_KEY (dom (ctxs w))"
    using port_contractD(5) [OF K g'] w unfolding keys_live_def by (rule subset_trans)
  show "length es \<le> n" by (rule port_contractD(6) [OF K g'])
qed

lemma requeue_stays:
  assumes K: "port_contract K keys"
  shows "keys_live keys w \<Longrightarrow> lp_completion_key ` set es \<subseteq> insert WAKE_KEY (dom (ctxs w)) \<Longrightarrow>
         \<exists>w'. requeue K port p es w = Inr w' \<and> stays keys w w'"
proof (induction es arbitrary: w)
  case Nil
  then show ?case by (simp add: stays_refl)
next
  case (Cons en es)
  let ?q = "lp_completion_key en"
  show ?case
  proof (cases "?q = WAKE_KEY")
    case True
    with Cons show ?thesis by simp
  next
    case False
    then have "?q \<in> dom (ctxs w)" using Cons.prems(2) by auto
    then obtain c where c: "ctxs w ?q = Some c" "ctx_at w ?q = Inr c" using ctx_at_dom by blast
    let ?w1 = "if ?q = p \<or> \<not> active c then put_ctx ?q (c\<lparr>pending := False\<rparr>) w else w\<lparr>kern := post_completion K (kern w) port en\<rparr>"
    have "keys (post_completion K (kern w) port en) \<subseteq> insert WAKE_KEY (dom (ctxs w))"
      using port_contractD(3) [OF K, of "kern w" port en] Cons.prems(1) c(1) unfolding keys_live_def by blast
    then have s1: "stays keys w ?w1" using stays_put [OF Cons.prems(1) c(1)] stays_kern [OF Cons.prems(1)] by simp
    then have "lp_completion_key ` set es \<subseteq> insert WAKE_KEY (dom (ctxs ?w1))" using Cons.prems(2) by (auto simp: stays_def)
    from Cons.IH [OF stays_live [OF s1] this] obtain w' where "requeue K port p es ?w1 = Inr w'" "stays keys ?w1 w'" by blast
    then show ?thesis using False c(2) stays_trans [OF s1] by (auto split: if_splits)
  qed
qed

lemma drain_context_stays_step:
  assumes "drain_context K port p w = Some x"
  shows "port_contract K keys \<longrightarrow> keys_live keys w \<longrightarrow> p \<in> dom (ctxs w) \<longrightarrow> (\<exists>w'. x = Inr w' \<and> stays keys w w')"
proof (rule drain_context.raw_induct [OF _ assms], intro impI)
  fix f :: "'a win_api \<Rightarrow> u64 \<Rightarrow> u64 \<Rightarrow> 'a win \<Rightarrow> 'a win outcome option" and K port p w x
  assume IH: "\<And>K port p w x. f K port p w = Some x \<Longrightarrow>
        port_contract K keys \<longrightarrow> keys_live keys w \<longrightarrow> p \<in> dom (ctxs w) \<longrightarrow> (\<exists>w'. x = Inr w' \<and> stays keys w w')"
    and eq: "(case ctx_at w p of Inl e \<Rightarrow> Some (Inl e)
      | Inr c \<Rightarrow> if \<not> pending c then Some (Inr w)
          else (case get_completions K (kern w) port MAX_EVENTS_PER_WAIT 1000 of (ok, es, k1) \<Rightarrow>
                 if \<not> ok then Some (Inr (w\<lparr>kern := k1\<rparr>))
                 else (case requeue K port p es (w\<lparr>kern := k1\<rparr>) of Inl e \<Rightarrow> Some (Inl e) | Inr w1 \<Rightarrow> f K port p w1))) = Some x"
    and K: "port_contract K keys" and w: "keys_live keys w" and p: "p \<in> dom (ctxs w)"
  obtain c where c: "ctx_at w p = Inr c" using ctx_at_dom [OF p] by blast
  obtain ok es k1 where g: "get_completions K (kern w) port MAX_EVENTS_PER_WAIT 1000 = (ok, es, k1)"
    by (cases "get_completions K (kern w) port MAX_EVENTS_PER_WAIT 1000")
  note gs = get_completions_stays [OF K w g]
  show "\<exists>w'. x = Inr w' \<and> stays keys w w'"
  proof (cases "pending c \<and> ok")
    case False
    then show ?thesis using eq c g gs(1) stays_refl [OF w] by (auto split: if_splits)
  next
    case True
    have "lp_completion_key ` set es \<subseteq> insert WAKE_KEY (dom (ctxs (w\<lparr>kern := k1\<rparr>)))" using gs(2) True by simp
    from requeue_stays [OF K stays_live [OF gs(1)] this] obtain w1 where
      w1: "requeue K port p es (w\<lparr>kern := k1\<rparr>) = Inr w1" "stays keys (w\<lparr>kern := k1\<rparr>) w1" by blast
    have s1: "stays keys w w1" by (rule stays_trans [OF gs(1) w1(2)])
    then have p1: "p \<in> dom (ctxs w1)" using p by (simp add: stays_def)
    have "f K port p w1 = Some x" using eq c g True w1(1) by simp
    from IH [OF this] K stays_live [OF s1] p1 obtain w' where "x = Inr w'" "stays keys w1 w'" by blast
    then show ?thesis using stays_trans [OF s1] by blast
  qed
qed

lemma drain_context_stays:
  assumes "port_contract K keys" "keys_live keys w" "p \<in> dom (ctxs w)" "drain_context K port p w = Some x"
  shows "\<exists>w'. x = Inr w' \<and> stays keys w w'"
  using drain_context_stays_step [OF assms(4)] assms(1-3) by blast

lemma completion_loop_stays:
  shows "keys_live keys w \<Longrightarrow> lp_completion_key ` set es \<subseteq> insert WAKE_KEY (dom (ctxs w)) \<Longrightarrow> length es \<le> n \<Longrightarrow>
         \<exists>ts w'. completion_loop K n es w = Inr (ts, w') \<and> stays keys w w'"
proof (induction es arbitrary: w n)
  case Nil
  then show ?case by (simp add: stays_refl)
next
  case (Cons en es)
  let ?p = "lp_completion_key en"
  have skip: "\<exists>ts w'. completion_loop K m es w1 = Inr (ts, w') \<and> stays keys w w'" if "stays keys w w1" "length es \<le> m" for w1 m
    using Cons.IH [OF stays_live [OF that(1)] _ that(2)] Cons.prems(2) that(1) stays_trans [OF that(1)] by (fastforce simp: stays_def)
  show ?case
  proof (cases "?p = WAKE_KEY \<or> ?p = 0")
    case True
    then show ?thesis using skip [OF stays_refl [OF Cons.prems(1)], of n] Cons.prems(3) by simp
  next
    case False
    then obtain c where c: "ctxs w ?p = Some c" "ctx_at w ?p = Inr c" using Cons.prems(2) ctx_at_dom [of ?p w] by auto
    let ?w1 = "put_ctx ?p (c\<lparr>pending := False\<rparr>) w"
    have s1: "stays keys w ?w1" by (rule stays_put [OF Cons.prems(1) c(1)])
    obtain m where m: "n = Suc m" "length es \<le> m" using Cons.prems(3) by (cases n) auto
    have mn: "length es \<le> n" using m by simp
    show ?thesis
      using False c(2) m(1) skip [OF stays_refl [OF Cons.prems(1)] mn] skip [OF s1 mn] skip [OF s1 m(2)]
      by (auto simp: Let_def)
  qed
qed

lemma iocp_wait_stays:
  assumes K: "port_contract K keys" and w: "keys_live keys w"
  shows "\<exists>res w'. iocp_wait K r room t w = Inr (res, w') \<and> stays keys w w'"
proof -
  let ?n = "if room < MAX_EVENTS_PER_WAIT then room else MAX_EVENTS_PER_WAIT"
  obtain ok es k1 where g: "get_completions K (kern w) (m_iocp r) ?n (iocp_timeout t) = (ok, es, k1)"
    by (cases "get_completions K (kern w) (m_iocp r) ?n (iocp_timeout t)")
  note gs = get_completions_stays [OF K w g]
  have le: "?n \<le> room" by simp
  have "\<exists>ts w'. completion_loop K room es (w\<lparr>kern := k1\<rparr>) = Inr (ts, w') \<and> stays keys (w\<lparr>kern := k1\<rparr>) w'" if ok
    by (rule completion_loop_stays [OF stays_live [OF gs(1)]]) (use gs(2,3) that le in \<open>auto intro: order_trans\<close>)
  then show ?thesis using g gs(1) stays_refl [OF w] stays_trans [OF gs(1)] by (auto simp: iocp_wait_def Let_def)
qed

lemma iocp_remove_stays:
  assumes K: "port_contract K keys" and w: "keys_live keys w" and d: "snd ` set (m_contexts r) \<subseteq> dom (ctxs w)"
  shows "\<exists>res w'. iocp_remove K r h w = Inr (res, w') \<and> stays keys w w'"
proof (cases "map_of (m_contexts r) h")
  case None
  then show ?thesis using stays_refl [OF w] by (simp add: iocp_remove_def)
next
  case (Some p)
  then have "p \<in> dom (ctxs w)" using d map_of_SomeD [OF Some] by force
  then obtain c where c: "ctxs w p = Some c" "ctx_at w p = Inr c" using ctx_at_dom by blast
  let ?w1 = "put_ctx p (c\<lparr>active := False\<rparr>) w"
  have s1: "stays keys w ?w1" by (rule stays_put [OF w c(1)])
  obtain w' where "cancel_poll K p ?w1 = Inr w'" "stays keys ?w1 w'"
    using cancel_poll_stays [OF K stays_live [OF s1], of p] by auto
  then show ?thesis using Some c(2) stays_trans [OF s1] by (auto simp: iocp_remove_def)
qed

lemma add_known_stays:
  assumes K: "port_contract K keys" and w: "keys_live keys w" and p: "p \<in> dom (ctxs w)" and f: "nt_device_io_control K \<noteq> None"
    and eq: "add_known K r h ev tok p w = Some x"
  shows "\<exists>res w'. x = Inr (res, w') \<and> stays keys w w'"
proof -
  obtain c0 where c0: "ctx_at w p = Inr c0" using ctx_at_dom [OF p] by blast
  show ?thesis
  proof (cases "active c0")
    case True
    then show ?thesis using eq c0 stays_refl [OF w] by (auto simp: add_known_def)
  next
    case False
    obtain y where y: "drain_context K (m_iocp r) p w = Some y" using eq c0 False by (auto simp: add_known_def bind_eq_Some_conv)
    obtain w1 where w1: "y = Inr w1" "stays keys w w1" using drain_context_stays [OF K w p y] by blast
    obtain b k2 where k2: "resolve_base_handle K (kern w1) h = Some (b, k2)"
      using eq c0 False y w1(1) by (auto simp: add_known_def bind_eq_Some_conv)
    let ?w2 = "w1\<lparr>kern := k2\<rparr>"
    have s2: "stays keys w ?w2" by (rule stays_trans [OF w1(2) resolve_base_handle_stays [OF K stays_live [OF w1(2)] k2]])
    then have "p \<in> dom (ctxs ?w2)" using p by (simp add: stays_def)
    then obtain c1 where c1: "ctxs ?w2 p = Some c1" "ctx_at ?w2 p = Inr c1" using ctx_at_dom by blast
    obtain ok k3 where k3: "associate K k2 b (m_iocp r) p = (ok, k3)" by fastforce
    have "keys k3 \<subseteq> insert WAKE_KEY (dom (ctxs ?w2))"
      using port_contractD(2) [OF K, of k2 b "m_iocp r" p] k3 stays_live [OF s2] c1(1)
      unfolding keys_live_def by (auto split: if_splits)
    from stays_trans [OF s2 stays_kern [OF stays_live [OF s2] this]] have s3: "stays keys w (?w2\<lparr>kern := k3\<rparr>)" .
    have s4: "stays keys w (put_ctx p d (?w2\<lparr>kern := k3\<rparr>))" for d
      by (rule stays_trans [OF s3 stays_put [OF stays_live [OF s3]]]) (use c1 in simp)
    have s5: "stays keys w (put_ctx p d' (put_ctx p d (?w2\<lparr>kern := k3\<rparr>)))" for d d'
      by (rule stays_trans [OF s4 stays_put [OF stays_live [OF s4]]]) simp
    have s6: "\<exists>res w'. submit_poll K p (put_ctx p d' (put_ctx p d (?w2\<lparr>kern := k3\<rparr>))) = Inr (res, w') \<and> stays keys w w'" for d d'
      using submit_poll_stays [OF K stays_live [OF s5] _ f, of p d' d] stays_trans [OF s5, of d' d] by fastforce
    show ?thesis using eq c0 False y w1(1) k2 c1(2) k3 s2 s4 s6
      by (auto simp: add_known_def Let_def split: if_splits)
  qed
qed

text \<open>The contexts of a reactor are exactly the live ones, each registered under one handle.\<close>

definition iocp_inv :: "('k \<Rightarrow> u64 set) \<Rightarrow> iocp_reactor \<times> 'k win \<Rightarrow> bool" where
  "iocp_inv keys = (\<lambda>(r, w). keys_live keys w \<and> dom (ctxs w) = snd ` set (m_contexts r) \<and> distinct (map snd (m_contexts r)) \<and> m_iocp r \<noteq> 0)"

lemma iocp_inv_stays: "iocp_inv keys (r, w) \<Longrightarrow> stays keys w w' \<Longrightarrow> iocp_inv keys (r, w')"
  by (simp add: iocp_inv_def stays_def)

lemma add_new_inv:
  assumes K: "port_contract K keys" and i: "iocp_inv keys (r, w)" and p: "ctxs w p = None" and f: "nt_device_io_control K \<noteq> None"
    and eq: "add_new K r h ev tok p w = Some x"
  shows "\<exists>res r' w'. x = Inr (res, r', w') \<and> iocp_inv keys (r', w')"
proof -
  have w: "keys_live keys w" using i by (simp add: iocp_inv_def)
  obtain b k1 where k1: "resolve_base_handle K (kern w) h = Some (b, k1)" using eq by (auto simp: add_new_def bind_eq_Some_conv)
  have s1: "stays keys w (w\<lparr>kern := k1\<rparr>)" by (rule resolve_base_handle_stays [OF K w k1])
  obtain ok k2 where k2: "associate K k1 b (m_iocp r) p = (ok, k2)" by fastforce
  have kk: "keys k2 \<subseteq> (if ok then insert p (keys k1) else keys k1)" using port_contractD(2) [OF K, of k1 b "m_iocp r" p] k2 by simp
  have k1l: "keys k1 \<subseteq> insert WAKE_KEY (dom (ctxs w))" using stays_live [OF s1] by (simp add: keys_live_def)
  consider "b = 0" | "b \<noteq> 0" "\<not> ok" | "b \<noteq> 0" ok by blast
  then show ?thesis
  proof cases
    case 1
    then show ?thesis using eq k1 iocp_inv_stays [OF i s1] by (auto simp: add_new_def)
  next
    case 2
    then have "stays keys w (w\<lparr>kern := k2\<rparr>)" using kk k1l by (intro stays_kern [OF w]) auto
    then show ?thesis using 2 eq k1 k2 iocp_inv_stays [OF i] by (auto simp: add_new_def)
  next
    case 3
    let ?c = "\<lparr>in_buf = \<lparr>api_timeout = 0, api_number_of_handles = 0, api_exclusive = 0, api_handle = 0, api_events = 0, api_status = 0\<rparr>,
      user_token = tok, socket_handle = h, base_handle = b, interest = ev, active = True, pending = False\<rparr>"
    let ?w2 = "put_ctx p ?c (w\<lparr>kern := k2\<rparr>)" let ?r = "r\<lparr>m_contexts := (h, p) # m_contexts r\<rparr>"
    have w2: "keys_live keys ?w2" using kk k1l 3(2) by (auto simp: keys_live_def)
    have i2: "iocp_inv keys (?r, ?w2)" using i w2 p by (auto simp: iocp_inv_def)
    obtain res w3 where w3: "submit_poll K p ?w2 = Inr (res, w3)" "stays keys ?w2 w3"
      using submit_poll_stays [OF K w2 _ f, of p] by auto
    then have "p \<in> dom (ctxs w3)" by (simp add: stays_def)
    then obtain c3 where c3: "ctxs w3 p = Some c3" "ctx_at w3 p = Inr c3" using ctx_at_dom by blast
    have s4: "stays keys ?w2 (put_ctx p d w3)" for d by (rule stays_trans [OF w3(2) stays_put [OF stays_live [OF w3(2)] c3(1)]])
    have "add_new K r h ev tok p w = Some (case res of Inl msg \<Rightarrow> Inr (Inl msg, ?r, put_ctx p (c3\<lparr>active := False\<rparr>) w3)
                                                     | Inr _ \<Rightarrow> Inr (Inr 0, ?r, w3))"
      using k1 k2 3 w3(1) c3(2) by (cases res) (simp_all add: add_new_def Let_def)
    then show ?thesis using eq iocp_inv_stays [OF i2 w3(2)] iocp_inv_stays [OF i2 s4] by (cases res) auto
  qed
qed

lemma iocp_add_inv:
  assumes K: "port_contract K keys" and i: "iocp_inv keys (r, w)" and p: "ctxs w p = None" and f: "nt_device_io_control K \<noteq> None"
    and eq: "iocp_add K r h ev tok p w = Some x"
  shows "\<exists>res r' w'. x = Inr (res, r', w') \<and> iocp_inv keys (r', w')"
proof (cases "map_of (m_contexts r) h")
  case None
  then show ?thesis using add_new_inv [OF K i p f] eq by (simp add: iocp_add_def)
next
  case (Some q)
  then have "q \<in> dom (ctxs w)" using i map_of_SomeD [OF Some] by (force simp: iocp_inv_def)
  moreover obtain y where y: "add_known K r h ev tok q w = Some y" "x = map_sum id (\<lambda>(res, w'). (res, r, w')) y"
    using eq Some by (auto simp: iocp_add_def)
  ultimately obtain res w' where "y = Inr (res, w')" "stays keys w w'"
    using add_known_stays [OF K _ _ f y(1)] i by (auto simp: iocp_inv_def)
  then show ?thesis using y(2) iocp_inv_stays [OF i] by auto
qed

lemma iocp_remove_inv:
  assumes K: "port_contract K keys" and i: "iocp_inv keys (r, w)"
  shows "\<exists>res w'. iocp_remove K r h w = Inr (res, w') \<and> iocp_inv keys (r, w') \<and> dom (ctxs w') = dom (ctxs w)"
proof -
  have "keys_live keys w" "snd ` set (m_contexts r) \<subseteq> dom (ctxs w)" using i by (simp_all add: iocp_inv_def)
  from iocp_remove_stays [OF K this] obtain res w' where "iocp_remove K r h w = Inr (res, w')" "stays keys w w'" by blast
  then show ?thesis using iocp_inv_stays [OF i] by (auto simp: stays_def)
qed

lemma iocp_modify_inv:
  assumes K: "port_contract K keys" and i: "iocp_inv keys (r, w)" and p: "ctxs w p = None" and f: "nt_device_io_control K \<noteq> None"
    and eq: "iocp_modify K r h ev tok p w = Some x"
  shows "\<exists>res r' w'. x = Inr (res, r', w') \<and> iocp_inv keys (r', w')"
proof -
  obtain res w1 where w1: "iocp_remove K r h w = Inr (res, w1)" "iocp_inv keys (r, w1)" "dom (ctxs w1) = dom (ctxs w)"
    using iocp_remove_inv [OF K i] by blast
  have "ctxs w1 p = None" using w1(3) p by (metis domIff)
  then show ?thesis using w1 eq iocp_add_inv [OF K w1(2) _ f] by (cases res) (auto simp: iocp_modify_def)
qed

section \<open>Teardown\<close>

lemma cancel_all_stays:
  assumes K: "port_contract K keys"
  shows "keys_live keys w \<Longrightarrow> snd ` set kvs \<subseteq> dom (ctxs w) \<Longrightarrow> \<exists>w'. cancel_all K kvs w = Inr w' \<and> stays keys w w'"
proof (induction kvs arbitrary: w)
  case Nil
  then show ?case by (simp add: stays_refl)
next
  case (Cons kv kvs)
  obtain c where c: "ctxs w (snd kv) = Some c" "ctx_at w (snd kv) = Inr c" using Cons.prems(2) ctx_at_dom [of "snd kv" w] by auto
  let ?w1 = "put_ctx (snd kv) (c\<lparr>active := False\<rparr>) w"
  have s1: "stays keys w ?w1" by (rule stays_put [OF Cons.prems(1) c(1)])
  obtain w2 where w2: "cancel_poll K (snd kv) ?w1 = Inr w2" "stays keys ?w1 w2"
    using cancel_poll_stays [OF K stays_live [OF s1], of "snd kv"] by auto
  have s2: "stays keys w w2" by (rule stays_trans [OF s1 w2(2)])
  obtain w' where "cancel_all K kvs w2 = Inr w'" "stays keys w2 w'"
    using Cons.IH [OF stays_live [OF s2]] Cons.prems(2) s2 by (auto simp: stays_def)
  then show ?case using c(2) w2(1) stays_trans [OF s2] by auto
qed

lemma clear_pending_stays:
  shows "keys_live keys w \<Longrightarrow> lp_completion_key ` set es \<subseteq> insert WAKE_KEY (dom (ctxs w)) \<Longrightarrow>
         \<exists>w'. clear_pending es w = Inr w' \<and> stays keys w w'"
proof (induction es arbitrary: w)
  case Nil
  then show ?case by (simp add: stays_refl)
next
  case (Cons en es)
  let ?q = "lp_completion_key en"
  show ?case
  proof (cases "?q = WAKE_KEY")
    case True
    with Cons show ?thesis by simp
  next
    case False
    then obtain c where c: "ctxs w ?q = Some c" "ctx_at w ?q = Inr c" using Cons.prems(2) ctx_at_dom [of ?q w] by auto
    let ?w1 = "put_ctx ?q (c\<lparr>pending := False\<rparr>) w"
    have s1: "stays keys w ?w1" by (rule stays_put [OF Cons.prems(1) c(1)])
    have "lp_completion_key ` set es \<subseteq> insert WAKE_KEY (dom (ctxs ?w1))" using Cons.prems(2) s1 by (auto simp: stays_def)
    from Cons.IH [OF stays_live [OF s1] this] obtain w' where "clear_pending es ?w1 = Inr w'" "stays keys ?w1 w'" by blast
    then show ?thesis using False c(2) stays_trans [OF s1] by auto
  qed
qed

lemma any_pending_ok: "snd ` set kvs \<subseteq> dom (ctxs w) \<Longrightarrow> \<exists>b. any_pending kvs w = Inr b"
  by (induction kvs) (auto simp: ctx_at_def)

lemma drain_all_stays_step:
  assumes "drain_all K r w = Some x"
  shows "port_contract K keys \<longrightarrow> keys_live keys w \<longrightarrow> snd ` set (m_contexts r) \<subseteq> dom (ctxs w) \<longrightarrow> (\<exists>w'. x = Inr w' \<and> stays keys w w')"
proof (rule drain_all.raw_induct [OF _ assms], intro impI)
  fix f :: "'a win_api \<Rightarrow> iocp_reactor \<Rightarrow> 'a win \<Rightarrow> 'a win outcome option" and K r w x
  assume IH: "\<And>K r w x. f K r w = Some x \<Longrightarrow>
        port_contract K keys \<longrightarrow> keys_live keys w \<longrightarrow> snd ` set (m_contexts r) \<subseteq> dom (ctxs w) \<longrightarrow> (\<exists>w'. x = Inr w' \<and> stays keys w w')"
    and eq: "(case any_pending (m_contexts r) w of Inl e \<Rightarrow> Some (Inl e)
      | Inr b \<Rightarrow> if \<not> b then Some (Inr w)
          else (case get_completions K (kern w) (m_iocp r) MAX_EVENTS_PER_WAIT 1000 of (ok, es, k1) \<Rightarrow>
                 if \<not> ok then Some (Inr (w\<lparr>kern := k1\<rparr>))
                 else (case clear_pending es (w\<lparr>kern := k1\<rparr>) of Inl e \<Rightarrow> Some (Inl e) | Inr w1 \<Rightarrow> f K r w1))) = Some x"
    and K: "port_contract K keys" and w: "keys_live keys w" and d: "snd ` set (m_contexts r) \<subseteq> dom (ctxs w)"
  obtain b where b: "any_pending (m_contexts r) w = Inr b" using any_pending_ok [OF d] by blast
  obtain ok es k1 where g: "get_completions K (kern w) (m_iocp r) MAX_EVENTS_PER_WAIT 1000 = (ok, es, k1)"
    by (cases "get_completions K (kern w) (m_iocp r) MAX_EVENTS_PER_WAIT 1000")
  note gs = get_completions_stays [OF K w g]
  show "\<exists>w'. x = Inr w' \<and> stays keys w w'"
  proof (cases "b \<and> ok")
    case False
    then show ?thesis using eq b g gs(1) stays_refl [OF w] by (auto split: if_splits)
  next
    case True
    have "lp_completion_key ` set es \<subseteq> insert WAKE_KEY (dom (ctxs (w\<lparr>kern := k1\<rparr>)))" using gs(2) True by simp
    from clear_pending_stays [OF stays_live [OF gs(1)] this] obtain w1 where
      w1: "clear_pending es (w\<lparr>kern := k1\<rparr>) = Inr w1" "stays keys (w\<lparr>kern := k1\<rparr>) w1" by blast
    have s1: "stays keys w w1" by (rule stays_trans [OF gs(1) w1(2)])
    have d1: "snd ` set (m_contexts r) \<subseteq> dom (ctxs w1)" using d s1 by (simp add: stays_def)
    have "f K r w1 = Some x" using eq b g True w1(1) by simp
    from IH [OF this] K stays_live [OF s1] d1 obtain w' where "x = Inr w'" "stays keys w1 w'" by blast
    then show ?thesis using stays_trans [OF s1] by blast
  qed
qed

lemma delete_all_spec:
  "distinct (map snd kvs) \<Longrightarrow> snd ` set kvs \<subseteq> dom (ctxs w) \<Longrightarrow> \<exists>w'. delete_all kvs w = Inr w' \<and> ctxs w' = ctxs w |` (- snd ` set kvs)"
proof (induction kvs arbitrary: w)
  case Nil
  then show ?case by simp
next
  case (Cons kv kvs)
  let ?w1 = "w\<lparr>ctxs := (ctxs w)(snd kv := None)\<rparr>"
  have "snd kv \<notin> snd ` set kvs" "snd ` set kvs \<subseteq> dom (ctxs w)" using Cons.prems by simp_all
  then have "snd ` set kvs \<subseteq> dom (ctxs ?w1)" by (simp add: subset_Diff_insert)
  moreover have "distinct (map snd kvs)" using Cons.prems(1) by simp
  ultimately obtain w' where "delete_all kvs ?w1 = Inr w'" "ctxs w' = ctxs ?w1 |` (- snd ` set kvs)" using Cons.IH by blast
  moreover have "ctxs ?w1 |` (- snd ` set kvs) = ctxs w |` (- snd ` set (kv # kvs))" by (auto simp: restrict_map_def)
  ultimately show ?case using Cons.prems(2) ctx_at_dom [of "snd kv" w] by auto
qed

lemma iocp_destroy_ok:
  assumes K: "port_contract K keys" and i: "iocp_inv keys (r, w)" and eq: "iocp_destroy K r w = Some x"
  shows "\<exists>w'. x = Inr w' \<and> ctxs w' = Map.empty"
proof -
  have d: "snd ` set (m_contexts r) = dom (ctxs w)" "distinct (map snd (m_contexts r))" "keys_live keys w" "m_iocp r \<noteq> 0"
    using i by (simp_all add: iocp_inv_def)
  obtain w1 where w1: "cancel_all K (m_contexts r) w = Inr w1" "stays keys w w1" using cancel_all_stays [OF K d(3)] d(1) by blast
  obtain y where y: "drain_all K r w1 = Some y" using eq w1(1) d(4) by (auto simp: iocp_destroy_def)
  have d1: "snd ` set (m_contexts r) = dom (ctxs w1)" using w1(2) d(1) by (simp add: stays_def)
  obtain w2 where w2: "y = Inr w2" "stays keys w1 w2" using drain_all_stays_step [OF y] K stays_live [OF w1(2)] d1 by blast
  let ?w3 = "w2\<lparr>kern := close_handle K (kern w2) (m_iocp r)\<rparr>"
  have d3: "snd ` set (m_contexts r) = dom (ctxs ?w3)" using w2(2) d1 by (simp add: stays_def)
  obtain w' where "delete_all (m_contexts r) ?w3 = Inr w'" "ctxs w' = ctxs ?w3 |` (- snd ` set (m_contexts r))"
    using delete_all_spec [OF d(2)] d3 by blast
  moreover have "ctxs ?w3 |` (- snd ` set (m_contexts r)) = Map.empty" unfolding d3 by (auto simp: restrict_map_def)
  moreover have "x = delete_all (m_contexts r) ?w3" using eq w1(1) y w2(1) d(4) by (simp add: iocp_destroy_def)
  ultimately show ?thesis by simp
qed

section \<open>Runs\<close>

text \<open>
  Any sequence of calls. A new context gets an address that no live one has; null and the wake-up key are
  no addresses.
\<close>

inductive iocp_step :: "'k win_api \<Rightarrow> iocp_reactor \<times> 'k win \<Rightarrow> iocp_reactor \<times> 'k win \<Rightarrow> bool" for K where
  add: "iocp_add K r h ev tok p w = Some (Inr (res, r', w')) \<Longrightarrow> ctxs w p = None \<Longrightarrow> p \<noteq> 0 \<Longrightarrow> p \<noteq> WAKE_KEY \<Longrightarrow> iocp_step K (r, w) (r', w')"
| modify: "iocp_modify K r h ev tok p w = Some (Inr (res, r', w')) \<Longrightarrow> ctxs w p = None \<Longrightarrow> p \<noteq> 0 \<Longrightarrow> p \<noteq> WAKE_KEY \<Longrightarrow> iocp_step K (r, w) (r', w')"
| remove: "iocp_remove K r h w = Inr (res, w') \<Longrightarrow> iocp_step K (r, w) (r, w')"
| wait: "iocp_wait K r room t w = Inr (res, w') \<Longrightarrow> iocp_step K (r, w) (r, w')"
| wake: "iocp_step K (r, w) (r, w\<lparr>kern := iocp_wake K r (kern w)\<rparr>)"

inductive iocp_reach :: "'k win_api \<Rightarrow> iocp_reactor \<times> 'k win \<Rightarrow> bool" for K where
  create: "iocp_create K k = (Inr r, k') \<Longrightarrow> iocp_reach K (r, \<lparr>ctxs = Map.empty, kern = k'\<rparr>)"
| step: "iocp_reach K s \<Longrightarrow> iocp_step K s s' \<Longrightarrow> iocp_reach K s'"

text \<open>A reactor is created exactly when \<^verbatim>\<open>ntdll\<close> exports the poll entry point and a port can be made; without \<^verbatim>\<open>NtCancelIoFileEx\<close> it falls back.\<close>

lemma iocp_create_nt_afd:
  "(\<exists>r. fst (iocp_create (nt_afd ntdll f g K) k) = Inr r) \<longleftrightarrow> (\<exists>md. ntdll = Some md \<and> f md \<noteq> None) \<and> fst (create_port K k) \<noteq> 0"
  by (auto simp: iocp_create_def nt_afd_def Let_def split: option.splits prod.splits)

lemma iocp_create_inv:
  assumes "port_contract K keys" "iocp_create K k = (Inr r, k')"
  shows "iocp_inv keys (r, \<lparr>ctxs = Map.empty, kern = k'\<rparr>) \<and> nt_device_io_control K \<noteq> None"
  using assms(2) port_contractD(1) [OF assms(1), of k]
  by (auto simp: iocp_create_def iocp_inv_def keys_live_def Let_def split: if_splits prod.splits)

lemma iocp_wait_inv:
  assumes K: "port_contract K keys" and i: "iocp_inv keys (r, w)"
  shows "\<exists>res w'. iocp_wait K r room t w = Inr (res, w') \<and> iocp_inv keys (r, w')"
  using iocp_wait_stays [OF K, of w r room t] iocp_inv_stays [OF i] i by (fastforce simp: iocp_inv_def)

lemma iocp_wake_inv:
  assumes K: "port_contract K keys" and i: "iocp_inv keys (r, w)"
  shows "iocp_inv keys (r, w\<lparr>kern := iocp_wake K r (kern w)\<rparr>)"
proof -
  have w: "keys_live keys w" using i by (simp add: iocp_inv_def)
  have "keys (iocp_wake K r (kern w)) \<subseteq> insert WAKE_KEY (keys (kern w))"
    using port_contractD(3) [OF K, of "kern w" "m_iocp r" "\<lparr>lp_completion_key = WAKE_KEY, lp_overlapped = 0, bytes_transferred = 0\<rparr>"]
    by (auto simp: iocp_wake_def)
  then have "stays keys w (w\<lparr>kern := iocp_wake K r (kern w)\<rparr>)" using w unfolding keys_live_def by (intro stays_kern [OF w]) blast
  then show ?thesis by (rule iocp_inv_stays [OF i])
qed

lemma iocp_step_inv:
  assumes K: "port_contract K keys" and f: "nt_device_io_control K \<noteq> None"
  shows "iocp_step K s s' \<Longrightarrow> iocp_inv keys s \<Longrightarrow> iocp_inv keys s'"
proof (induction rule: iocp_step.induct)
  case (add r h ev tok p w res r' w')
  then show ?case using iocp_add_inv [OF K add(5) add(2) f add(1)] by simp
next
  case (modify r h ev tok p w res r' w')
  then show ?case using iocp_modify_inv [OF K modify(5) modify(2) f modify(1)] by simp
next
  case (remove r h w res w')
  then show ?case using iocp_remove_inv [OF K remove(2), of h] by simp
next
  case (wait r room t w res w')
  then show ?case using iocp_wait_inv [OF K wait(2), of room t] by simp
next
  case (wake r w)
  then show ?case by (rule iocp_wake_inv [OF K])
qed

lemma iocp_reach_inv:
  assumes K: "port_contract K keys"
  shows "iocp_reach K s \<Longrightarrow> iocp_inv keys s \<and> nt_device_io_control K \<noteq> None"
proof (induction rule: iocp_reach.induct)
  case (create k r k')
  then show ?case by (rule iocp_create_inv [OF K])
next
  case (step s s')
  then show ?case using iocp_step_inv [OF K] by blast
qed

text \<open>
  C14: After any sequence of calls on a created reactor, no call touches a freed context or writes outside the
  caller's span: \<^verbatim>\<open>wait\<close>, \<^verbatim>\<open>remove\<close>, and \<^verbatim>\<open>add\<close>, \<^verbatim>\<open>modify\<close> and the destructor whenever they return, come back
  normally, and the destructor frees every context once.
\<close>

theorem iocp_never_dangles:
  assumes K: "port_contract K keys" and reach: "iocp_reach K (r, w)" and p: "ctxs w p = None"
  shows "(\<exists>x. iocp_wait K r room t w = Inr x) \<and> (\<exists>x. iocp_remove K r h w = Inr x) \<and>
         (iocp_add K r h ev tok p w \<in> insert None (range (Some \<circ> Inr))) \<and>
         (iocp_modify K r h ev tok p w \<in> insert None (range (Some \<circ> Inr))) \<and>
         (\<forall>x. iocp_destroy K r w = Some x \<longrightarrow> (\<exists>w'. x = Inr w' \<and> ctxs w' = Map.empty))"
proof -
  have i: "iocp_inv keys (r, w)" and f: "nt_device_io_control K \<noteq> None" using iocp_reach_inv [OF K reach] by auto
  have "iocp_add K r h ev tok p w \<in> insert None (range (Some \<circ> Inr))"
    using iocp_add_inv [OF K i p f, of h ev tok] by (cases "iocp_add K r h ev tok p w") auto
  moreover have "iocp_modify K r h ev tok p w \<in> insert None (range (Some \<circ> Inr))"
    using iocp_modify_inv [OF K i p f, of h ev tok] by (cases "iocp_modify K r h ev tok p w") auto
  ultimately show ?thesis
    using iocp_wait_inv [OF K i] iocp_remove_inv [OF K i] iocp_destroy_ok [OF K i] by blast
qed

section \<open>What a wait reports\<close>

definition reportable :: "'k win_api \<Rightarrow> 'k \<Rightarrow> afd_poll_context \<Rightarrow> u64 \<Rightarrow> bool" where
  "reportable K k c p \<longleftrightarrow> pending c \<and> active c \<and> overlapped_status K k p \<noteq> kStatusCancelled"

definition completion_trigger :: "'k win_api \<Rightarrow> 'k \<Rightarrow> afd_poll_context \<Rightarrow> u64 \<Rightarrow> trigger" where
  "completion_trigger K k c p =
     \<lparr>tr_events = (if overlapped_status K k p = 0
                   then from_afd (if out_number_of_handles K k p \<ge> 1 then out_events K k p else 0) else Event_Error),
      tr_user_token = user_token c\<rparr>"

text \<open>The context addresses among the dequeued completions.\<close>

definition ctx_keys :: "overlapped_entry list \<Rightarrow> u64 list" where
  "ctx_keys es = filter (\<lambda>p. p \<noteq> WAKE_KEY \<and> p \<noteq> 0) (map lp_completion_key es)"

definition unpend :: "u64 set \<Rightarrow> 'k win \<Rightarrow> 'k win" where
  "unpend P w = w\<lparr>ctxs := (\<lambda>p. if p \<in> P then map_option (pending_update (\<lambda>_. False)) (ctxs w p) else ctxs w p)\<rparr>"

lemma put_ctx_unpend: "ctxs w p = Some c \<Longrightarrow> put_ctx p (c\<lparr>pending := False\<rparr>) w = unpend {p} w"
  by (simp add: put_ctx_def unpend_def fun_eq_iff)

lemma unpend_unpend: "unpend Q (unpend P w) = unpend (P \<union> Q) w"
  by (auto simp: unpend_def fun_eq_iff map_option.compositionality comp_def)

lemma unpend_idle:
  assumes "ctxs w p = Some c" "\<not> pending c"
  shows "unpend {p} w = w"
proof -
  have "c\<lparr>pending := False\<rparr> = c" using assms(2) by (cases c) simp
  then show ?thesis using assms(1) by (cases w) (auto simp: unpend_def fun_eq_iff)
qed

lemma kern_unpend [simp]: "kern (unpend P w) = kern w"
  by (simp add: unpend_def)

lemma completion_loop_spec:
  assumes "set (ctx_keys es) \<subseteq> dom (ctxs w)" "distinct (ctx_keys es)" "length es \<le> n"
  shows "completion_loop K n es w =
           Inr (map (\<lambda>p. completion_trigger K (kern w) (the (ctxs w p)) p)
                  (filter (\<lambda>p. reportable K (kern w) (the (ctxs w p)) p) (ctx_keys es)), unpend (set (ctx_keys es)) w)"
  using assms
proof (induction es arbitrary: w n)
  case Nil
  then show ?case by (simp add: ctx_keys_def unpend_def)
next
  case (Cons en es)
  let ?p = "lp_completion_key en"
  show ?case
  proof (cases "?p = WAKE_KEY \<or> ?p = 0")
    case True
    then have k: "ctx_keys (en # es) = ctx_keys es" by (auto simp: ctx_keys_def)
    have "length es \<le> n" using Cons.prems(3) by simp
    with Cons.IH [of w n] Cons.prems(1,2) True show ?thesis unfolding k by simp
  next
    case False
    then have k: "ctx_keys (en # es) = ?p # ctx_keys es" by (simp add: ctx_keys_def)
    then obtain c where c: "ctxs w ?p = Some c" "ctx_at w ?p = Inr c" using Cons.prems(1) ctx_at_dom [of ?p w] by auto
    let ?w1 = "put_ctx ?p (c\<lparr>pending := False\<rparr>) w"
    have w1: "?w1 = unpend {?p} w" by (rule put_ctx_unpend [OF c(1)])
    have np: "?p \<notin> set (ctx_keys es)" "distinct (ctx_keys es)" using Cons.prems(2) k by simp_all
    have same: "ctxs ?w1 q = ctxs w q" if "q \<in> set (ctx_keys es)" for q using that np by auto
    have d1: "set (ctx_keys es) \<subseteq> dom (ctxs ?w1)" using Cons.prems(1) k by auto
    obtain m where m: "n = Suc m" "length es \<le> m" using Cons.prems(3) by (cases n) auto
    have IH: "completion_loop K l es ?w1 =
        Inr (map (\<lambda>p. completion_trigger K (kern w) (the (ctxs w p)) p)
               (filter (\<lambda>p. reportable K (kern w) (the (ctxs w p)) p) (ctx_keys es)), unpend (set (?p # ctx_keys es)) w)"
      if "length es \<le> l" for l
      using Cons.IH [OF d1 np(2) that] same unfolding w1 unpend_unpend by (simp cong: filter_cong map_cong)
    have idle: "\<not> pending c \<Longrightarrow> ?w1 = w" using unpend_idle [OF c(1)] w1 by simp
    show ?thesis unfolding k
      using False c m IH [of n] IH [of m] idle
      by (cases "pending c") (auto simp: reportable_def completion_trigger_def Let_def)
  qed
qed

text \<open>
  C26: A wait that dequeued completions reports, in their order, one trigger for each context that is
  registered, has a poll outstanding and was not cancelled, with its token and the translated flags (an
  error when the poll failed). Each context seen loses its outstanding poll, and nothing else happens:
  in particular no poll is submitted again, so a registration fires at most once.
\<close>

theorem iocp_wait_spec:
  assumes "0 < room" and g: "get_completions K (kern w) (m_iocp r) (min room 64) (iocp_timeout t) = (True, es, k1)"
    and "length es \<le> min room 64" and "set (ctx_keys es) \<subseteq> dom (ctxs w)" and "distinct (ctx_keys es)"
  shows "iocp_wait K r room t w =
           Inr (Inr (map (\<lambda>p. completion_trigger K k1 (the (ctxs w p)) p) (filter (\<lambda>p. reportable K k1 (the (ctxs w p)) p) (ctx_keys es))),
                unpend (set (ctx_keys es)) (w\<lparr>kern := k1\<rparr>))"
proof -
  have m: "(if room < MAX_EVENTS_PER_WAIT then room else MAX_EVENTS_PER_WAIT) = min room 64" by (simp add: MAX_EVENTS_PER_WAIT_def)
  have "set (ctx_keys es) \<subseteq> dom (ctxs (w\<lparr>kern := k1\<rparr>))" "length es \<le> room" using assms(3,4) by simp_all
  from completion_loop_spec [OF this(1) assms(5) this(2), of K] show ?thesis
    using assms(1) g by (simp add: iocp_wait_def m)
qed

section \<open>Error paths of a registration\<close>

text \<open>
  Draining the completion of a removed registration drops the wake-ups it dequeues: they are neither
  delivered nor queued again, and a thread that called \<^verbatim>\<open>wake\<close> does not get the next wait to return.
\<close>

theorem requeue_drops_wake:
  "requeue K port p es w = requeue K port p (filter (\<lambda>en. lp_completion_key en \<noteq> WAKE_KEY) es) w"
  by (induction es arbitrary: w) (auto simp: out_bind_def split: sum.split)

text \<open>
  When the poll of a handle registered anew cannot be submitted, \<^verbatim>\<open>add\<close> reports the failure but leaves the handle
  registered: the next \<^verbatim>\<open>add\<close> fails because of it, and no poll is outstanding that could ever fire.
\<close>

theorem iocp_failed_readd_stays_registered:
  assumes h: "map_of (m_contexts r) h = Some q" and c: "ctxs w q = Some c" "\<not> active c" "\<not> pending c"
    and b: "resolve_base_handle K (kern w) h = Some (b, k2)" "b \<noteq> 0" and a: "associate K k2 b (m_iocp r) q = (True, k3)"
    and f: "nt_device_io_control K = Some f" "\<And>buf. fst (f (clear_overlapped K k3 q) b q buf) = st" and st: "st \<noteq> 0" "st \<noteq> STATUS_PENDING"
  shows "\<exists>msg w'. iocp_add K r h ev tok p w = Some (Inr (Inl msg, r, w')) \<and>
           (\<exists>c'. ctxs w' q = Some c' \<and> active c' \<and> \<not> pending c') \<and>
           iocp_add K r h ev' tok' p' w' = Some (Inr (Inl ''Reactor::add: handle already registered'', r, w'))"
proof -
  have "drain_context K (m_iocp r) q w = Some (Inr w)" using c by (subst drain_context.simps) (simp add: ctx_at_def)
  then have "\<exists>msg w' c'. add_known K r h ev tok q w = Some (Inr (Inl msg, w')) \<and> ctxs w' q = Some c' \<and> active c' \<and> \<not> pending c'"
    using c b a f st by (simp add: add_known_def ctx_at_def submit_poll_def Let_def put_ctx_def split_beta)
  then obtain msg w' c' where 1: "add_known K r h ev tok q w = Some (Inr (Inl msg, w'))" "ctxs w' q = Some c'" "active c'" "\<not> pending c'"
    by blast
  then show ?thesis using h by (auto simp: iocp_add_def add_known_def ctx_at_def)
qed

section \<open>An operating system\<close>

text \<open>
  The associated keys and the queue of completions. Every poll is ready at once and succeeds, unless the
  socket is 13: polling that one fails.
\<close>

definition queue_api :: "(u64 set \<times> overlapped_entry list) win_api" where
  "queue_api =
     \<lparr>nt_device_io_control = Some (\<lambda>(a, q) h p buf.
        if h = 13 then (0xC0000001, a, q)
        else (0, a, if p \<in> a then q @ [\<lparr>lp_completion_key = p, lp_overlapped = p, bytes_transferred = 0\<rparr>] else q)),
      nt_cancel_io_file_ex = None, cancel_io_ex = (\<lambda>k h p. k), clear_overlapped = (\<lambda>k p. k), overlapped_status = (\<lambda>k p. 0),
      out_number_of_handles = (\<lambda>k p. 1), out_events = (\<lambda>k p. AFD_POLL_RECEIVE), create_port = (\<lambda>k. (7, {}, [])),
      associate = (\<lambda>(a, q) h port p. (True, insert p a, q)),
      get_completions = (\<lambda>(a, q) port n t. (q \<noteq> [], take n q, a, drop n q)),
      post_completion = (\<lambda>(a, q) port en. (a, q @ [en])), wsa_base_handle = (\<lambda>k s. (1, s, k)), close_handle = (\<lambda>k h. k),
      get_last_error = (\<lambda>k. WAIT_TIMEOUT), wsa_last_error = (\<lambda>k. 0)\<rparr>"

definition queue_keys :: "u64 set \<times> overlapped_entry list \<Rightarrow> u64 set" where
  "queue_keys = (\<lambda>(a, q). a \<union> lp_completion_key ` set q)"

lemma queue_api_contract: "port_contract queue_api queue_keys"
  unfolding port_contract_def queue_api_def queue_keys_def
  by (auto split: if_splits dest: in_set_takeD in_set_dropD)

definition one_socket :: "iocp_reactor" where
  "one_socket = \<lparr>m_iocp = 7, m_contexts = [(5, 100)]\<rparr>"

definition one_context :: "bool \<Rightarrow> bool \<Rightarrow> u64 \<Rightarrow> afd_poll_context" where
  "one_context act pend b =
     \<lparr>in_buf = \<lparr>api_timeout = - (2 ^ 63), api_number_of_handles = 1, api_exclusive = 0, api_handle = b,
                api_events = to_afd Event_Readable, api_status = 0\<rparr>,
      user_token = 42, socket_handle = b, base_handle = b, interest = Event_Readable, active = act, pending = pend\<rparr>"

abbreviation no_socket :: iocp_reactor where "no_socket \<equiv> \<lparr>m_iocp = 7, m_contexts = []\<rparr>"

abbreviation armed_win :: "(u64 set \<times> overlapped_entry list) win" where
  "armed_win \<equiv> \<lparr>ctxs = [100 \<mapsto> one_context True True 5], kern = ({100}, [\<lparr>lp_completion_key = 100, lp_overlapped = 100, bytes_transferred = 0\<rparr>])\<rparr>"

lemma queue_api_create: "iocp_create queue_api k = (Inr no_socket, ({}, []))"
  by (simp add: iocp_create_def queue_api_def)

lemma one_socket_add:
  "iocp_add queue_api no_socket 5 Event_Readable 42 100 \<lparr>ctxs = Map.empty, kern = ({}, [])\<rparr> = Some (Inr (Inr 0, one_socket, armed_win))"
proof -
  have "resolve_base_handle queue_api k s = Some (s, k)" for k s
    by (subst resolve_base_handle.simps) (simp add: queue_api_def)
  then show ?thesis
    by (simp add: iocp_add_def add_new_def queue_api_def submit_poll_def ctx_at_def put_ctx_def one_socket_def one_context_def Let_def)
qed

lemma one_socket_reach: "iocp_reach queue_api (one_socket, armed_win)"
proof (rule iocp_reach.step [OF iocp_reach.create [OF queue_api_create]])
  show "iocp_step queue_api (no_socket, \<lparr>ctxs = Map.empty, kern = ({}, [])\<rparr>) (one_socket, armed_win)"
    by (rule iocp_step.add [OF one_socket_add]) (simp_all add: WAKE_KEY_def)
qed

theorem iocp_never_dangles_witness:
  "\<exists>x. iocp_wait queue_api one_socket 1 0 \<lparr>ctxs = [100 \<mapsto> one_context True True 5],
     kern = ({100}, [\<lparr>lp_completion_key = 100, lp_overlapped = 100, bytes_transferred = 0\<rparr>])\<rparr> = Inr x"
  using iocp_never_dangles [OF queue_api_contract one_socket_reach, of 200 1 0] by simp

theorem iocp_wait_spec_witness:
  "iocp_wait queue_api one_socket 1 0 \<lparr>ctxs = [100 \<mapsto> one_context True True 5],
     kern = ({100}, [\<lparr>lp_completion_key = 100, lp_overlapped = 100, bytes_transferred = 0\<rparr>])\<rparr> =
   Inr (Inr [\<lparr>tr_events = Event_Readable, tr_user_token = 42\<rparr>], \<lparr>ctxs = [100 \<mapsto> one_context True False 5], kern = ({100}, [])\<rparr>)"
proof -
  let ?w = "\<lparr>ctxs = [100 \<mapsto> one_context True True 5], kern = ({100}, [\<lparr>lp_completion_key = 100, lp_overlapped = 100, bytes_transferred = 0\<rparr>])\<rparr>"
  let ?es = "[\<lparr>lp_completion_key = 100, lp_overlapped = 100, bytes_transferred = 0\<rparr>]"
  have k: "ctx_keys ?es = [100]" by (simp add: ctx_keys_def WAKE_KEY_def)
  have "from_afd AFD_POLL_RECEIVE = Event_Readable" by (simp add: from_afd_def afd_defs event_defs event_or_def event_or_assign_def)
  moreover have "unpend {100} (?w\<lparr>kern := ({100}, [])\<rparr>) = \<lparr>ctxs = [100 \<mapsto> one_context True False 5], kern = ({100}, [])\<rparr>"
    by (auto simp: unpend_def fun_eq_iff one_context_def)
  ultimately show ?thesis
    using iocp_wait_spec [of 1 queue_api ?w one_socket 0 ?es "({100}, [])"]
    unfolding k by (simp add: queue_api_def reportable_def completion_trigger_def kStatusCancelled_def one_context_def)
qed

theorem iocp_failed_readd_stays_registered_witness:
  "\<exists>msg w'. iocp_add queue_api \<lparr>m_iocp = 7, m_contexts = [(13, 100)]\<rparr> 13 Event_Readable 1 200
       \<lparr>ctxs = [100 \<mapsto> one_context False False 13], kern = ({100}, [])\<rparr> = Some (Inr (Inl msg, \<lparr>m_iocp = 7, m_contexts = [(13, 100)]\<rparr>, w')) \<and>
     iocp_add queue_api \<lparr>m_iocp = 7, m_contexts = [(13, 100)]\<rparr> 13 Event_Readable 1 200 w' =
       Some (Inr (Inl ''Reactor::add: handle already registered'', \<lparr>m_iocp = 7, m_contexts = [(13, 100)]\<rparr>, w'))"
proof -
  let ?r = "\<lparr>m_iocp = 7, m_contexts = [(13, 100)]\<rparr>" let ?w = "\<lparr>ctxs = [100 \<mapsto> one_context False False 13], kern = ({100}, [])\<rparr>"
  have "resolve_base_handle queue_api (kern ?w) 13 = Some (13, ({100}, []))" by (subst resolve_base_handle.simps) (simp add: queue_api_def)
  then show ?thesis
    using iocp_failed_readd_stays_registered [where r = ?r and h = 13 and q = 100 and w = ?w and c = "one_context False False 13" and
        K = queue_api and b = 13 and ?k2.0 = "({100}, [])" and ?k3.0 = "({100}, [])" and st = "0xC0000001" and
        ev = Event_Readable and tok = 1 and p = 200 and ev' = Event_Readable and tok' = 1 and p' = 200]
    by (simp add: queue_api_def STATUS_PENDING_def one_context_def) blast
qed

end
