(* ===== verification/Timer_Model.thy ===== *)
theory Timer_Model
  imports Sap_Prelude
begin

text \<open>
  \<^verbatim>\<open>Timer\<close>, \<^verbatim>\<open>include/sap_core/timer.h\<close> and \<^verbatim>\<open>src/timer.cpp\<close>: a thread that waits and calls back, and the owner's calls,
  which run beside it. The waiting time itself is not modelled: a wait may end by its timeout at any
  moment. The callback is the client's code and returns.
\<close>

section \<open>State\<close>

datatype Mode = OneShot | Periodic

text \<open>Where the thread is in \<^verbatim>\<open>run_loop\<close>: in \<^verbatim>\<open>wait_for\<close>, in the callback, or at its end.\<close>

datatype thread_pc = Waiting | Calling | Exited

record timer_thread =
  t_mode :: Mode
  t_delay :: int
  t_gen :: nat
  t_stop :: bool
  t_pc :: thread_pc

text \<open>The owner is outside the timer, or blocked in the \<^verbatim>\<open>join()\<close> of \<^verbatim>\<open>stop()\<close> or of \<^verbatim>\<open>reset(new_delay)\<close>.\<close>

datatype caller = Idle | Stopping | Resetting int

record timer =
  m_mode :: Mode
  m_delay_ns :: int
  m_thread :: "timer_thread option" \<comment> \<open>\<^verbatim>\<open>None\<close>: not joinable\<close>
  tm_caller :: caller
  fired :: "nat list" \<comment> \<open>the start that each callback belongs to\<close>
  gens :: nat \<comment> \<open>successful starts so far\<close>

definition timer_make :: "Mode \<Rightarrow> int \<Rightarrow> timer" where
  "timer_make mode delay = \<lparr>m_mode = mode, m_delay_ns = delay, m_thread = None, tm_caller = Idle, fired = [], gens = 0\<rparr>"

section \<open>Operations\<close>

definition timer_start :: "timer \<Rightarrow> (string + u32) \<times> timer" where
  "timer_start s =
     (if m_thread s \<noteq> None then (Inl ''Timer::start - timer is already running'', s)
      else (Inr 0, s\<lparr>m_thread := Some \<lparr>t_mode = m_mode s, t_delay = m_delay_ns s, t_gen = Suc (gens s), t_stop = False, t_pc = Waiting\<rparr>,
                     gens := Suc (gens s)\<rparr>))"

text \<open>The call of \<^verbatim>\<open>stop()\<close>, which the destructor makes too, up to \<^verbatim>\<open>join()\<close>; and its return, when the thread is at its end.\<close>

definition timer_stop :: "timer \<Rightarrow> timer" where
  "timer_stop s =
     (case m_thread s of
        None \<Rightarrow> s
      | Some t \<Rightarrow> s\<lparr>m_thread := Some (t\<lparr>t_stop := True\<rparr>), tm_caller := Stopping\<rparr>)"

definition timer_stop_return :: "timer \<Rightarrow> timer" where
  "timer_stop_return s = s\<lparr>m_thread := None, tm_caller := Idle\<rparr>"

definition timer_reset :: "int \<Rightarrow> timer \<Rightarrow> timer" where
  "timer_reset d s =
     (case m_thread s of
        None \<Rightarrow> snd (timer_start (s\<lparr>m_delay_ns := d\<rparr>))
      | Some t \<Rightarrow> s\<lparr>m_thread := Some (t\<lparr>t_stop := True\<rparr>), tm_caller := Resetting d\<rparr>)"

definition timer_reset_return :: "int \<Rightarrow> timer \<Rightarrow> timer" where
  "timer_reset_return d s = snd (timer_start ((timer_stop_return s)\<lparr>m_delay_ns := d\<rparr>))"

text \<open>One step of \<^verbatim>\<open>run_loop\<close>: \<^verbatim>\<open>wait_for\<close> returns its predicate, whether a stop was requested.\<close>

definition timer_run_loop :: "timer_thread \<Rightarrow> timer_thread" where
  "timer_run_loop t =
     (case t_pc t of
        Waiting \<Rightarrow> t\<lparr>t_pc := (if t_stop t then Exited else Calling)\<rparr>
      | Calling \<Rightarrow> t\<lparr>t_pc := (if t_mode t = Periodic then Waiting else Exited)\<rparr>
      | Exited \<Rightarrow> t)"

inductive timer_step :: "timer \<Rightarrow> timer \<Rightarrow> bool" where
  start: "tm_caller s = Idle \<Longrightarrow> timer_step s (snd (timer_start s))"
| stop: "tm_caller s = Idle \<Longrightarrow> timer_step s (timer_stop s)"
| stop_return: "tm_caller s = Stopping \<Longrightarrow> m_thread s = Some t \<Longrightarrow> t_pc t = Exited \<Longrightarrow> timer_step s (timer_stop_return s)"
| reset: "tm_caller s = Idle \<Longrightarrow> timer_step s (timer_reset d s)"
| reset_return: "tm_caller s = Resetting d \<Longrightarrow> m_thread s = Some t \<Longrightarrow> t_pc t = Exited \<Longrightarrow> timer_step s (timer_reset_return d s)"
| thread: "m_thread s = Some t \<Longrightarrow> t_pc t \<noteq> Exited \<Longrightarrow>
    timer_step s (s\<lparr>m_thread := Some (timer_run_loop t), fired := fired s @ (if t_pc (timer_run_loop t) = Calling then [t_gen t] else [])\<rparr>)"

inductive_cases timer_stepE: "timer_step s s'"

definition timer_reach :: "Mode \<Rightarrow> int \<Rightarrow> timer \<Rightarrow> bool" where
  "timer_reach mode delay s \<longleftrightarrow> timer_step\<^sup>*\<^sup>* (timer_make mode delay) s"

section \<open>Invariant\<close>

text \<open>
  The thread belongs to the last start and has its mode; an owner inside a join has asked for the stop;
  callbacks belong to starts that happened, and a one-shot start has at most one, none while it waits.
\<close>

definition timer_inv :: "timer \<Rightarrow> bool" where
  "timer_inv s \<longleftrightarrow>
     (\<forall>g\<in>set (fired s). g \<le> gens s) \<and>
     (m_mode s = OneShot \<longrightarrow> (\<forall>g. count_list (fired s) g \<le> 1)) \<and>
     (case m_thread s of
        None \<Rightarrow> tm_caller s = Idle
      | Some t \<Rightarrow> t_mode t = m_mode s \<and> t_gen t = gens s \<and> (tm_caller s \<noteq> Idle \<longrightarrow> t_stop t) \<and>
          (m_mode s = OneShot \<longrightarrow> t_pc t = Waiting \<longrightarrow> gens s \<notin> set (fired s)))"

lemmas timer_op_defs = timer_start_def timer_stop_def timer_stop_return_def timer_reset_def timer_reset_return_def

lemma timer_start_inv:
  assumes "\<forall>g\<in>set (fired s). g \<le> gens s" "m_mode s = OneShot \<longrightarrow> (\<forall>g. count_list (fired s) g \<le> 1)" "m_thread s = None" "tm_caller s = Idle"
  shows "timer_inv (snd (timer_start s))"
  using assms by (force simp: timer_inv_def timer_start_def)

lemma count_list_snoc: "count_list (xs @ [g]) h = count_list xs h + (if g = h then 1 else 0)"
  by (induction xs) auto

lemma timer_step_inv: "timer_step s s' \<Longrightarrow> timer_inv s \<Longrightarrow> timer_inv s'"
proof (induction rule: timer_step.induct)
  case (start s)
  then show ?case by (cases "m_thread s") (auto intro: timer_start_inv simp: timer_inv_def timer_start_def)
next
  case (stop s)
  then show ?case by (cases "m_thread s") (auto simp: timer_inv_def timer_stop_def)
next
  case (stop_return s t)
  then show ?case by (auto simp: timer_inv_def timer_stop_return_def)
next
  case (reset s d)
  then show ?case
    using timer_start_inv [of "s\<lparr>m_delay_ns := d\<rparr>"] by (cases "m_thread s") (auto simp: timer_inv_def timer_reset_def)
next
  case (reset_return s d t)
  then show ?case
    using timer_start_inv [of "(timer_stop_return s)\<lparr>m_delay_ns := d\<rparr>"]
    by (auto simp: timer_inv_def timer_reset_return_def timer_stop_return_def)
next
  case (thread s t)
  have c0: "count_list (fired s) (gens s) = 0" if "m_mode s = OneShot" "t_pc t = Waiting"
    using thread that by (auto simp: timer_inv_def count_list_0_iff)
  show ?case
  proof (cases "t_pc t")
    case Waiting
    with thread c0 show ?thesis by (auto simp: timer_inv_def timer_run_loop_def count_list_snoc)
  next
    case Calling
    with thread show ?thesis by (auto simp: timer_inv_def timer_run_loop_def)
  next
    case Exited
    with thread show ?thesis by simp
  qed
qed

lemma timer_step_mode: "timer_step s s' \<Longrightarrow> m_mode s' = m_mode s"
  by (induction rule: timer_step.induct) (auto simp: timer_op_defs split: option.splits)

lemma timer_reach_inv:
  assumes "timer_reach mode delay s"
  shows "timer_inv s \<and> m_mode s = mode"
proof -
  have "timer_step\<^sup>*\<^sup>* (timer_make mode delay) s" using assms by (simp add: timer_reach_def)
  then show ?thesis
  proof (induction rule: rtranclp_induct)
    case base
    then show ?case by (simp add: timer_inv_def timer_make_def)
  next
    case (step s s')
    then show ?case using timer_step_inv timer_step_mode by metis
  qed
qed

section \<open>Properties\<close>

text \<open>
  C29: A one-shot timer calls back at most once per successful start, in every interleaving of the owner's
  calls with the thread.
\<close>

theorem timer_one_shot_fires_once:
  assumes "timer_reach OneShot delay s"
  shows "count_list (fired s) g \<le> 1"
  using timer_reach_inv [OF assms] by (simp add: timer_inv_def)

text \<open>
  No callback begins once a stop was requested, whatever happens next, and none is running when \<^verbatim>\<open>stop()\<close> has
  returned: the thread is gone then.
\<close>

theorem timer_stop_quiesces:
  assumes "timer_reach mode delay s" and "timer_step s s'"
    and "m_thread s = None \<or> (\<exists>t. m_thread s = Some t \<and> t_stop t)"
  shows "fired s' = fired s \<and> (tm_caller s = Stopping \<longrightarrow> tm_caller s' = Idle \<longrightarrow> m_thread s' = None)"
  using assms(2,3)
proof (cases rule: timer_step.cases)
  case (thread t)
  with assms(3) show ?thesis by (cases "t_pc t") (auto simp: timer_run_loop_def)
qed (auto simp: timer_op_defs split: option.splits)

text \<open>How far the thread is from its end.\<close>

definition join_measure :: "timer \<Rightarrow> nat" where
  "join_measure s = (case m_thread s of None \<Rightarrow> 0 | Some t \<Rightarrow> (case t_pc t of Calling \<Rightarrow> 2 | Waiting \<Rightarrow> 1 | Exited \<Rightarrow> 0))"

text \<open>
  C28: \<^verbatim>\<open>stop()\<close> and \<^verbatim>\<open>reset()\<close> return: while the owner is blocked in the join something can always run, and every step
  either ends the call or brings the thread closer to its end, of which there are at most three.
\<close>

theorem timer_stop_returns:
  assumes "timer_reach mode delay s" and "tm_caller s \<noteq> Idle"
  shows "(\<exists>s'. timer_step s s') \<and> (\<forall>s'. timer_step s s' \<longrightarrow> tm_caller s' = Idle \<or> (tm_caller s' = tm_caller s \<and> join_measure s' < join_measure s))"
proof -
  obtain t where t: "m_thread s = Some t" "t_stop t" using timer_reach_inv [OF assms(1)] assms(2) by (auto simp: timer_inv_def split: option.splits)
  have "\<exists>s'. timer_step s s'"
  proof (cases "t_pc t = Exited")
    case False
    then show ?thesis using timer_step.thread [OF t(1)] by blast
  next
    case True
    then show ?thesis
      using assms(2) timer_step.stop_return [OF _ t(1)] timer_step.reset_return [OF _ t(1)] by (cases "tm_caller s") blast+
  qed
  moreover have "tm_caller s' = Idle \<or> (tm_caller s' = tm_caller s \<and> join_measure s' < join_measure s)" if "timer_step s s'" for s'
    using that
  proof (cases rule: timer_step.cases)
    case (thread t')
    then show ?thesis using t by (cases "t_pc t") (auto simp: timer_run_loop_def join_measure_def)
  qed (use assms(2) in \<open>auto simp: timer_op_defs\<close>)
  ultimately show ?thesis by blast
qed

text \<open>
  \<^verbatim>\<open>start()\<close> refuses while a thread has not been joined, also when that thread has long finished: a one-shot timer
  that has fired cannot be started again before a \<^verbatim>\<open>stop()\<close>, although nothing is running.
\<close>

theorem timer_start_after_fired_refused:
  assumes "m_thread s = Some t"
  shows "timer_start s = (Inl ''Timer::start - timer is already running'', s) \<and>
         (tm_caller s = Idle \<longrightarrow> t_pc t = Exited \<longrightarrow> fst (timer_start (timer_stop_return (timer_stop s))) = Inr 0)"
  using assms by (simp add: timer_op_defs)

section \<open>A run\<close>

text \<open>A one-shot timer that is started, fires and ends.\<close>

definition fired_timer :: timer where
  "fired_timer = \<lparr>m_mode = OneShot, m_delay_ns = 5,
     m_thread = Some \<lparr>t_mode = OneShot, t_delay = 5, t_gen = 1, t_stop = False, t_pc = Exited\<rparr>, tm_caller = Idle, fired = [1], gens = 1\<rparr>"

lemma fired_timer_reach: "timer_reach OneShot 5 fired_timer"
proof -
  let ?t = "\<lambda>pc. \<lparr>t_mode = OneShot, t_delay = 5, t_gen = 1, t_stop = False, t_pc = pc\<rparr>"
  let ?s = "\<lambda>pc fs. \<lparr>m_mode = OneShot, m_delay_ns = 5, m_thread = Some (?t pc), tm_caller = Idle, fired = fs, gens = 1\<rparr>"
  have 1: "timer_step (timer_make OneShot 5) (?s Waiting [])"
    using timer_step.start [of "timer_make OneShot 5"] by (simp add: timer_make_def timer_start_def)
  have 2: "timer_step (?s Waiting []) (?s Calling [1])"
    using timer_step.thread [of "?s Waiting []" "?t Waiting"] by (simp add: timer_run_loop_def)
  have 3: "timer_step (?s Calling [1]) fired_timer"
    using timer_step.thread [of "?s Calling [1]" "?t Calling"] by (simp add: timer_run_loop_def fired_timer_def)
  show ?thesis unfolding timer_reach_def
    using converse_rtranclp_into_rtranclp [of timer_step, OF 1 converse_rtranclp_into_rtranclp [of timer_step, OF 2 r_into_rtranclp [of timer_step, OF 3]]] .
qed

lemma stopped_timer_reach: "timer_step fired_timer (timer_stop fired_timer)" "timer_reach OneShot 5 (timer_stop fired_timer)"
proof -
  show "timer_step fired_timer (timer_stop fired_timer)" by (rule timer_step.stop) (simp add: fired_timer_def)
  then show "timer_reach OneShot 5 (timer_stop fired_timer)"
    using fired_timer_reach rtranclp.rtrancl_into_rtrancl unfolding timer_reach_def by metis
qed

theorem timer_one_shot_fires_once_witness: "count_list (fired fired_timer) 1 \<le> 1"
  by (rule timer_one_shot_fires_once [OF fired_timer_reach])

theorem timer_stop_quiesces_witness:
  "fired (timer_stop_return (timer_stop fired_timer)) = fired (timer_stop fired_timer)"
proof -
  have s: "timer_step (timer_stop fired_timer) (timer_stop_return (timer_stop fired_timer))"
    by (rule timer_step.stop_return [where t = "the (m_thread (timer_stop fired_timer))"]) (simp_all add: fired_timer_def timer_stop_def)
  have "m_thread (timer_stop fired_timer) = None \<or> (\<exists>t. m_thread (timer_stop fired_timer) = Some t \<and> t_stop t)"
    by (simp add: fired_timer_def timer_stop_def)
  from timer_stop_quiesces [OF stopped_timer_reach(2) s this] show ?thesis by simp
qed

theorem timer_stop_returns_witness: "\<exists>s'. timer_step (timer_stop fired_timer) s'"
  using timer_stop_returns [OF stopped_timer_reach(2)] by (simp add: fired_timer_def timer_stop_def)

theorem timer_start_after_fired_refused_witness:
  "timer_start fired_timer = (Inl ''Timer::start - timer is already running'', fired_timer)"
  using timer_start_after_fired_refused [of fired_timer "the (m_thread fired_timer)"] by (simp add: fired_timer_def)

end
