(* ===== verification/Clock.thy ===== *)
theory Clock
  imports Sap_Prelude "HOL-Library.Signed_Division"
begin

text \<open>
  Clocks, timestamps and byte units: \<^verbatim>\<open>include/sap_core/clock.h\<close>, \<^verbatim>\<open>src/posix_clock.cpp\<close>, \<^verbatim>\<open>src/windows_clock.cpp\<close>,
  \<^verbatim>\<open>include/sap_core/timestamp.h\<close> and the unit functions of \<^verbatim>\<open>include/sap_core/types.h\<close>. What the operating system
  answers is an argument. Signed 64-bit values are integers whose overflow is an error value; \<open>sdiv\<close> and \<open>smod\<close>
  are the division of C++, which truncates.
\<close>

section \<open>Byte units\<close>

definition gibibytes :: "u32 \<Rightarrow> u64" where "gibibytes amount = ucast amount * 1024 * 1024 * 1024"
definition mebibytes :: "u32 \<Rightarrow> u64" where "mebibytes amount = ucast amount * 1024 * 1024"
definition kibibytes :: "u32 \<Rightarrow> u64" where "kibibytes amount = ucast amount * 1024"
definition gigabytes :: "u32 \<Rightarrow> u64" where "gigabytes amount = ucast amount * 1000 * 1000 * 1000"
definition megabytes :: "u32 \<Rightarrow> u64" where "megabytes amount = ucast amount * 1000 * 1000"
definition kilobytes :: "u32 \<Rightarrow> u64" where "kilobytes amount = ucast amount * 1000"

lemma unat_scaled:
  assumes "c \<le> 2 ^ 32"
  shows "unat (ucast (a :: u32) * of_nat c :: u64) = unat a * c"
proof -
  have a: "unat a < 2 ^ 32" using unsigned_less [of a] by simp
  then have t: "take_bit 64 (unat a) = unat a" unfolding take_bit_nat_eq_self_iff by (rule less_trans) simp
  have "unat a * c < 2 ^ 32 * 2 ^ 32 \<or> c = 0" using a assms mult_less_le_imp_less [of "unat a" "2 ^ 32" c "2 ^ 32"] by (cases c) auto
  moreover have "c < 2 ^ 64" using assms by simp
  ultimately show ?thesis
    by (auto simp: unat_word_ariths unat_of_nat unsigned_ucast_eq t)
qed

text \<open>
  No unit function ever wraps: for every 32-bit amount the 64-bit result is the amount times the unit.
\<close>

theorem units_exact:
  "unat (gibibytes a) = unat a * 2 ^ 30 \<and> unat (mebibytes a) = unat a * 2 ^ 20 \<and> unat (kibibytes a) = unat a * 2 ^ 10 \<and>
   unat (gigabytes a) = unat a * 10 ^ 9 \<and> unat (megabytes a) = unat a * 10 ^ 6 \<and> unat (kilobytes a) = unat a * 10 ^ 3"
  using unat_scaled [of "2 ^ 30" a] unat_scaled [of "2 ^ 20" a] unat_scaled [of "2 ^ 10" a]
    unat_scaled [of "10 ^ 9" a] unat_scaled [of "10 ^ 6" a] unat_scaled [of "10 ^ 3" a]
  by (simp add: gibibytes_def mebibytes_def kibibytes_def gigabytes_def megabytes_def kilobytes_def mult.assoc)

section \<open>Clocks\<close>

record system_monotonic_clock =
  m_frequency_hz :: int
  m_start_ticks :: int

definition posix_clock_make :: system_monotonic_clock where
  "posix_clock_make = \<lparr>m_frequency_hz = 0, m_start_ticks = 0\<rparr>"

text \<open>\<open>gettime\<close> is what \<^verbatim>\<open>clock_gettime\<close> returned: its code, the seconds and the nanoseconds; \<open>err\<close> is the text of \<^verbatim>\<open>errno\<close>.\<close>

definition posix_now_ns :: "int \<times> int \<times> int \<Rightarrow> string \<Rightarrow> (string + int) outcome" where
  "posix_now_ns gettime err =
     (case gettime of
        (res, sec, nsec) \<Rightarrow>
          if res = - 1 then Inr (Inl (''SystemMonotonicClock::now_ns: '' @ err))
          else out_bind (checked_i64 (sec * 1000000000)) (\<lambda>s. out_bind (checked_i64 (s + nsec)) (\<lambda>t. Inr (Inr t))))"

definition windows_clock_make :: "int \<Rightarrow> system_monotonic_clock" where
  "windows_clock_make freq = \<lparr>m_frequency_hz = freq, m_start_ticks = 0\<rparr>"

text \<open>\<open>counter\<close> is what \<^verbatim>\<open>QueryPerformanceCounter\<close> stored, or nothing when it failed.\<close>

definition windows_now_ns :: "system_monotonic_clock \<Rightarrow> int option \<Rightarrow> (string + int) outcome" where
  "windows_now_ns c counter =
     (case counter of
        None \<Rightarrow> Inr (Inl ''system_monotonic_clock::now_ns: QueryPerformanceCounter failed'')
      | Some now \<Rightarrow>
          if m_frequency_hz c = 0 then Inl Division_By_Zero
          else (let secs = now sdiv m_frequency_hz c; rm = now smod m_frequency_hz c
                in out_bind (checked_i64 (secs * 1000000000)) (\<lambda>a.
                   out_bind (checked_i64 (rm * 1000000000)) (\<lambda>b.
                   out_bind (checked_i64 (a + b sdiv m_frequency_hz c)) (\<lambda>t. Inr (Inr t))))))"

text \<open>The clock that tests drive.\<close>

record fake_clock =
  fc_now :: int

definition fake_clock_make :: fake_clock where
  "fake_clock_make = \<lparr>fc_now = 0\<rparr>"

definition fake_now_ns :: "fake_clock \<Rightarrow> string + int" where
  "fake_now_ns c = Inr (fc_now c)"

definition advance_ns :: "int \<Rightarrow> fake_clock \<Rightarrow> fake_clock outcome" where
  "advance_ns delta c = out_bind (checked_i64 (fc_now c + delta)) (\<lambda>t. Inr (c\<lparr>fc_now := t\<rparr>))"

text \<open>\<open>now\<close> is \<^verbatim>\<open>system_clock::now().time_since_epoch()\<close> in nanoseconds.\<close>

definition now_ms :: "int \<Rightarrow> int" where
  "now_ms now = now sdiv 1000000"

section \<open>The Windows conversion\<close>

lemma sdiv_pos: "0 \<le> a \<Longrightarrow> 0 < b \<Longrightarrow> (a :: int) sdiv b = a div b" "0 \<le> a \<Longrightarrow> 0 < b \<Longrightarrow> (a :: int) smod b = a mod b"
  by (cases "a = 0"; simp add: signed_divide_int_def signed_modulo_int_def)+

lemma split_division:
  fixes n f k :: int
  assumes "0 < f"
  shows "n div f * k + n mod f * k div f = n * k div f"
proof -
  have "n * k = n mod f * k + (n div f * k) * f" by (metis div_mult_mod_eq mult.assoc mult.commute distrib_right add.commute)
  then show ?thesis using assms by simp
qed

text \<open>
  Splitting the counter into seconds and a rest computes the nanoseconds exactly: the result is the one of
  unbounded arithmetic, rounded down, for every counter whose nanoseconds fit in 64 bits and every
  frequency up to 9 GHz; so readings never decrease. Without the split the product would overflow
  already at a counter of \<open>2 ^ 63 / 10 ^ 9\<close>.
\<close>

theorem windows_now_ns_exact:
  assumes "0 \<le> now" and "0 < freq" and "freq \<le> 9000000000" and "now * 10 ^ 9 div freq < 2 ^ 63"
  shows "windows_now_ns (windows_clock_make freq) (Some now) = Inr (Inr (now * 10 ^ 9 div freq))"
proof -
  let ?s = "now div freq * 1000000000" and ?r = "now mod freq * 1000000000"
  have split: "?s + ?r div freq = now * 10 ^ 9 div freq" using split_division [OF assms(2), of now "1000000000"] by simp
  have r: "0 \<le> now mod freq" "now mod freq < freq" using assms(2) by simp_all
  then have r2: "0 \<le> ?r" "?r < 2 ^ 63" using assms(3) by simp_all
  have q: "0 \<le> ?r div freq" using r2(1) assms(2) by (simp add: pos_imp_zdiv_nonneg_iff)
  have s: "0 \<le> ?s" using assms(1,2) by (simp add: pos_imp_zdiv_nonneg_iff)
  have s2: "?s < 2 ^ 63" using q split assms(4) by linarith
  have c: "checked_i64 ?s = Inr ?s" "checked_i64 ?r = Inr ?r" "checked_i64 (?s + ?r div freq) = Inr (?s + ?r div freq)"
    using s s2 r2 q assms(4) add_nonneg_nonneg [OF s q] unfolding split checked_i64_def by simp_all
  show ?thesis
    using assms(2) split c
    by (simp add: windows_now_ns_def windows_clock_make_def sdiv_pos [OF assms(1,2)] sdiv_pos [OF r2(1) assms(2)] Let_def)
qed

theorem windows_now_ns_exact_witness:
  "windows_now_ns (windows_clock_make 10000000) (Some 10000000000000001) = Inr (Inr 1000000000000000100)"
  using windows_now_ns_exact [of 10000000000000001 10000000] by simp

end
