(* ===== verification/Sleep.thy ===== *)
theory Sleep
  imports Executor Clock
begin

text \<open>
  \<^verbatim>\<open>sleep_for\<close>: on Linux a timer descriptor awaited through the executor (\<^verbatim>\<open>src/async/sleep_linux.cpp\<close>), on Windows a
  loopback socket that a thread-pool timer writes to (\<^verbatim>\<open>src/async/sleep_windows.cpp\<close>). The coroutine is split at
  its suspension. The system calls are parameters; milliseconds are integers of 64 bits.
\<close>

section \<open>Linux\<close>


definition sleep_itimerspec :: "int \<Rightarrow> int \<times> int" where
  "sleep_itimerspec dt =
     (let sec = dt sdiv 1000; nsec = (dt smod 1000) * 1000000
      in if sec = 0 \<and> nsec = 0 then (sec, 1) else (sec, nsec))"





subsection \<open>The time asked for\<close>

text \<open>
  A delay becomes exactly its milliseconds, except that 0 becomes one nanosecond: the value is never
  zero, which would disarm the timer and sleep for ever. It is a valid \<^verbatim>\<open>itimerspec\<close> for every delay that is
  not negative, and for a negative one it has a negative field, which the kernel rejects.
\<close>

theorem sleep_itimerspec_exact:
  "(case sleep_itimerspec dt of (sec, nsec) \<Rightarrow>
      if 0 \<le> dt then 0 \<le> sec \<and> 0 \<le> nsec \<and> nsec < 10 ^ 9 \<and> sec * 10 ^ 9 + nsec = (if dt = 0 then 1 else dt * 10 ^ 6)
      else sec < 0 \<or> nsec < 0)"
proof (cases "0 \<le> dt")
  case True
  have d: "dt sdiv 1000 = dt div 1000" "dt smod 1000 = dt mod 1000" using sdiv_pos [OF True] by simp_all
  have m: "0 \<le> dt div 1000" "0 \<le> dt mod 1000" "dt mod 1000 < 1000" using True by simp_all
  have s: "dt div 1000 * 1000000000 + dt mod 1000 * 1000000 = dt * 1000000" using div_mult_mod_eq [of dt 1000] by linarith
  show ?thesis
    using True m s by (auto simp: sleep_itimerspec_def d Let_def)
next
  case False
  then have p: "0 \<le> - dt" by simp
  have d: "dt sdiv 1000 = - ((- dt) div 1000)" "dt smod 1000 = - ((- dt) mod 1000)"
    using False by (simp_all add: signed_divide_int_def signed_modulo_int_def)
  have m: "0 \<le> (- dt) div 1000" "0 \<le> (- dt) mod 1000" using p by simp_all
  have z: "(- dt) div 1000 \<noteq> 0 \<or> (- dt) mod 1000 \<noteq> 0" using False div_mult_mod_eq [of "- dt" 1000] by auto
  then have "0 < (- dt) div 1000 \<or> 0 < (- dt) mod 1000" using m by linarith
  then show ?thesis using False m by (auto simp: sleep_itimerspec_def d Let_def)
qed

subsection \<open>The descriptor\<close>













section \<open>Windows\<close>

type_synonym inet_addr = "u32 \<times> u16"

record 'k sleep_api =
  ws_socket :: "'k \<Rightarrow> u64 \<times> 'k"
  ws_bind :: "'k \<Rightarrow> u64 \<Rightarrow> inet_addr \<Rightarrow> int \<times> 'k"
  ws_getsockname :: "'k \<Rightarrow> u64 \<Rightarrow> int \<times> inet_addr \<times> 'k"
  ws_connect :: "'k \<Rightarrow> u64 \<Rightarrow> inet_addr \<Rightarrow> int \<times> 'k"
  ws_send1 :: "'k \<Rightarrow> u64 \<Rightarrow> 'k"
  ws_recv1 :: "'k \<Rightarrow> u64 \<Rightarrow> 'k"
  ws_close :: "'k \<Rightarrow> u64 \<Rightarrow> 'k"
  ws_error :: "'k \<Rightarrow> int"
  tp_create :: "'k \<Rightarrow> u64 \<Rightarrow> u64 \<times> 'k" \<comment> \<open>the socket its callback writes to; 0 is null\<close>
  tp_set :: "'k \<Rightarrow> u64 \<Rightarrow> (u32 \<times> u32) option \<Rightarrow> 'k" \<comment> \<open>low and high word of the due time\<close>
  tp_wait_callbacks :: "'k \<Rightarrow> u64 \<Rightarrow> 'k"
  tp_close :: "'k \<Rightarrow> u64 \<Rightarrow> 'k"
  last_error :: "'k \<Rightarrow> int"

definition INVALID_SOCK :: u64 where "INVALID_SOCK = - 1"
definition INADDR_LOOPBACK :: u32 where "INADDR_LOOPBACK = 0x7F000001"

definition socket_guard_destroy :: "'k sleep_api \<Rightarrow> u64 \<Rightarrow> 'k \<Rightarrow> 'k" where
  "socket_guard_destroy W sk k = (if sk \<noteq> INVALID_SOCK then ws_close W k sk else k)"

definition timer_guard_destroy :: "'k sleep_api \<Rightarrow> u64 \<Rightarrow> 'k \<Rightarrow> 'k" where
  "timer_guard_destroy W t k =
     (if t \<noteq> 0 then tp_close W (tp_wait_callbacks W (tp_set W k t None) t) t else k)"

definition on_timer :: "'k sleep_api \<Rightarrow> u64 \<Rightarrow> 'k \<Rightarrow> 'k" where
  "on_timer W sk k = ws_send1 W k sk"

definition make_self_socket :: "'k sleep_api \<Rightarrow> 'k \<Rightarrow> u64 reactor_result \<times> 'k" where
  "make_self_socket W k0 =
     (let (sk, k1) = ws_socket W k0
      in if sk = INVALID_SOCK then (Inl (''sleep_for: socket() failed: '' @ fmt_int (ws_error W k1)), k1)
         else (let (rb, k2) = ws_bind W k1 sk (INADDR_LOOPBACK, 0)
               in if rb \<noteq> 0 then (Inl (''sleep_for: bind() failed: '' @ fmt_int (ws_error W k2)), socket_guard_destroy W sk k2)
                  else (let (rn, addr, k3) = ws_getsockname W k2 sk
                        in if rn \<noteq> 0 then (Inl (''sleep_for: getsockname() failed: '' @ fmt_int (ws_error W k3)), socket_guard_destroy W sk k3)
                           else (let (rc, k4) = ws_connect W k3 sk addr
                                 in if rc \<noteq> 0 then (Inl (''sleep_for: connect() failed: '' @ fmt_int (ws_error W k4)), socket_guard_destroy W sk k4)
                                    else (Inr sk, k4)))))"

definition sleep_due :: "int \<Rightarrow> (u32 \<times> u32) outcome" where
  "sleep_due dt =
     out_bind (checked_i64 (dt * 10000)) (\<lambda>x.
     out_bind (checked_i64 (- x)) (\<lambda>y.
     let ticks = (if y = 0 then - 1 else y); u = word_of_int ticks :: u64
     in Inr (ucast (u AND 0xFFFFFFFF), ucast (drop_bit 32 u))))"

datatype win_sleep = Win_Done "u32 reactor_result" | Win_Waiting u64 u64

definition win_sleep_start :: "'k sleep_api \<Rightarrow> int \<Rightarrow> 'k \<Rightarrow> (win_sleep \<times> 'k) outcome" where
  "win_sleep_start W dt k0 =
     (let (sock, k1) = make_self_socket W k0
      in case sock of
           Inl e \<Rightarrow> Inr (Win_Done (Inl e), k1)
         | Inr sk \<Rightarrow>
             (let (t, k2) = tp_create W k1 sk
              in if t = 0
                 then Inr (Win_Done (Inl (''sleep_for: CreateThreadpoolTimer failed: '' @ fmt_int (last_error W k2))), socket_guard_destroy W sk k2)
                 else out_bind (sleep_due dt) (\<lambda>due. Inr (Win_Waiting sk t, tp_set W k2 t (Some due)))))"

text \<open>From the resumption on, with the result of the awaiter: the timer goes before the socket its callback uses.\<close>

definition win_sleep_resume :: "'k sleep_api \<Rightarrow> u64 \<Rightarrow> u64 \<Rightarrow> u32 reactor_result \<Rightarrow> 'k \<Rightarrow> win_sleep \<times> 'k" where
  "win_sleep_resume W sk t r k =
     (case r of
        Inl e \<Rightarrow> (Win_Done (Inl e), socket_guard_destroy W sk (timer_guard_destroy W t k))
      | Inr _ \<Rightarrow> (Win_Done (Inr 0), socket_guard_destroy W sk (timer_guard_destroy W t (ws_recv1 W k sk))))"

subsection \<open>Sockets and timers\<close>

text \<open>
  What the code relies on, over the open sockets, the live timers with the socket of their callback, the timers that are set and may
  start a callback at any moment, the callbacks that may be queued or running with the socket they write to, and whether a
  socket was closed that was not open or that a callback may still write to.
\<close>

record sleep_view =
  v_socks :: "u64 set"
  v_timers :: "u64 \<rightharpoonup> u64"
  v_armed :: "u64 set"
  v_calls :: "(u64 \<times> u64) set"
  v_bad :: bool

definition may_call :: "u64 \<Rightarrow> sleep_view \<Rightarrow> (u64 \<times> u64) set" where
  "may_call t v = (if t \<in> v_armed v then (case v_timers v t of Some sk \<Rightarrow> {(t, sk)} | None \<Rightarrow> {}) else {})"

lemma may_call_unarmed: "t \<notin> v_armed v \<Longrightarrow> may_call t v = {}"
  by (simp add: may_call_def)

text \<open>
  Cancelling a timer starts no new callback and leaves the ones that have started; waiting, for a timer that is not set, ends them;
  closing a timer neither stops nor awaits its callbacks.
\<close>

definition view_arm :: "u64 \<Rightarrow> sleep_view \<Rightarrow> sleep_view" where
  "view_arm t v = v\<lparr>v_armed := insert t (v_armed v)\<rparr>"

definition view_cancel :: "u64 \<Rightarrow> sleep_view \<Rightarrow> sleep_view" where
  "view_cancel t v = v\<lparr>v_armed := v_armed v - {t}, v_calls := v_calls v \<union> may_call t v\<rparr>"

definition view_wait :: "u64 \<Rightarrow> sleep_view \<Rightarrow> sleep_view" where
  "view_wait t v = v\<lparr>v_calls := {c \<in> v_calls v. fst c \<noteq> t}\<rparr>"

definition view_close_timer :: "u64 \<Rightarrow> sleep_view \<Rightarrow> sleep_view" where
  "view_close_timer t v = (view_cancel t v)\<lparr>v_timers := (v_timers v)(t := None)\<rparr>"

definition view_close_sock :: "u64 \<Rightarrow> sleep_view \<Rightarrow> sleep_view" where
  "view_close_sock sk v = v\<lparr>v_socks := v_socks v - {sk},
     v_bad := (v_bad v \<or> sk \<notin> v_socks v \<or> sk \<in> snd ` v_calls v \<or> sk \<in> ran (v_timers v |` v_armed v))\<rparr>"

definition sleep_api_contract :: "'k sleep_api \<Rightarrow> ('k \<Rightarrow> sleep_view) \<Rightarrow> bool" where
  "sleep_api_contract W vw \<longleftrightarrow>
     (\<forall>k sk k'. ws_socket W k = (sk, k') \<longrightarrow>
        (if sk = INVALID_SOCK then vw k' = vw k
         else sk \<notin> v_socks (vw k) \<and> vw k' = (vw k)\<lparr>v_socks := insert sk (v_socks (vw k))\<rparr>)) \<and>
     (\<forall>k sk a. vw (snd (ws_bind W k sk a)) = vw k) \<and>
     (\<forall>k sk. vw (snd (snd (ws_getsockname W k sk))) = vw k) \<and>
     (\<forall>k sk a. vw (snd (ws_connect W k sk a)) = vw k) \<and>
     (\<forall>k sk. vw (ws_recv1 W k sk) = vw k) \<and>
     (\<forall>k sk. vw (ws_close W k sk) = view_close_sock sk (vw k)) \<and>
     (\<forall>k sk t k'. tp_create W k sk = (t, k') \<longrightarrow>
        (if t = 0 then vw k' = vw k
         else v_timers (vw k) t = None \<and> t \<notin> v_armed (vw k) \<and> t \<notin> fst ` v_calls (vw k) \<and>
              vw k' = (vw k)\<lparr>v_timers := (v_timers (vw k))(t \<mapsto> sk)\<rparr>)) \<and>
     (\<forall>k t d. vw (tp_set W k t (Some d)) = view_arm t (vw k)) \<and>
     (\<forall>k t. vw (tp_set W k t None) = view_cancel t (vw k)) \<and>
     (\<forall>k t. t \<notin> v_armed (vw k) \<longrightarrow> vw (tp_wait_callbacks W k t) = view_wait t (vw k)) \<and>
     (\<forall>k t. vw (tp_close W k t) = view_close_timer t (vw k))"

lemma sleep_apiD:
  assumes "sleep_api_contract W vw"
  shows "ws_socket W k = (sk, k') \<Longrightarrow>
        (if sk = INVALID_SOCK then vw k' = vw k
         else sk \<notin> v_socks (vw k) \<and> vw k' = (vw k)\<lparr>v_socks := insert sk (v_socks (vw k))\<rparr>)"
    and "ws_bind W k sk a = (n, k') \<Longrightarrow> vw k' = vw k" and "ws_getsockname W k sk = (n, b, k') \<Longrightarrow> vw k' = vw k"
    and "ws_connect W k sk a = (n, k') \<Longrightarrow> vw k' = vw k" and "vw (ws_recv1 W k sk) = vw k"
    and "vw (ws_close W k sk) = view_close_sock sk (vw k)"
    and "tp_create W k sk = (t, k') \<Longrightarrow>
        (if t = 0 then vw k' = vw k
         else v_timers (vw k) t = None \<and> t \<notin> v_armed (vw k) \<and> t \<notin> fst ` v_calls (vw k) \<and>
              vw k' = (vw k)\<lparr>v_timers := (v_timers (vw k))(t \<mapsto> sk)\<rparr>)"
    and "vw (tp_set W k t (Some d)) = view_arm t (vw k)" and "vw (tp_set W k t None) = view_cancel t (vw k)"
    and "t \<notin> v_armed (vw k) \<Longrightarrow> vw (tp_wait_callbacks W k t) = view_wait t (vw k)"
    and "vw (tp_close W k t) = view_close_timer t (vw k)"
proof -
  note c = assms [unfolded sleep_api_contract_def]
  note d1 = c [THEN conjunct2] note d2 = d1 [THEN conjunct2] note d3 = d2 [THEN conjunct2] note d4 = d3 [THEN conjunct2]
  note d5 = d4 [THEN conjunct2] note d6 = d5 [THEN conjunct2] note d7 = d6 [THEN conjunct2] note d8 = d7 [THEN conjunct2]
  note d9 = d8 [THEN conjunct2]
  show "ws_socket W k = (sk, k') \<Longrightarrow> (if sk = INVALID_SOCK then vw k' = vw k
         else sk \<notin> v_socks (vw k) \<and> vw k' = (vw k)\<lparr>v_socks := insert sk (v_socks (vw k))\<rparr>)"
    by (rule c [THEN conjunct1, rule_format])
  show "ws_bind W k sk a = (n, k') \<Longrightarrow> vw k' = vw k" using d1 [THEN conjunct1, rule_format, of k sk a] by simp
  show "ws_getsockname W k sk = (n, b, k') \<Longrightarrow> vw k' = vw k" using d2 [THEN conjunct1, rule_format, of k sk] by simp
  show "ws_connect W k sk a = (n, k') \<Longrightarrow> vw k' = vw k" using d3 [THEN conjunct1, rule_format, of k sk a] by simp
  show "vw (ws_recv1 W k sk) = vw k" by (rule d4 [THEN conjunct1, rule_format])
  show "vw (ws_close W k sk) = view_close_sock sk (vw k)" by (rule d5 [THEN conjunct1, rule_format])
  show "tp_create W k sk = (t, k') \<Longrightarrow>
        (if t = 0 then vw k' = vw k
         else v_timers (vw k) t = None \<and> t \<notin> v_armed (vw k) \<and> t \<notin> fst ` v_calls (vw k) \<and>
              vw k' = (vw k)\<lparr>v_timers := (v_timers (vw k))(t \<mapsto> sk)\<rparr>)"
    by (rule d6 [THEN conjunct1, rule_format])
  show "vw (tp_set W k t (Some d)) = view_arm t (vw k)" by (rule d7 [THEN conjunct1, rule_format])
  show "vw (tp_set W k t None) = view_cancel t (vw k)" by (rule d8 [THEN conjunct1, rule_format])
  show "t \<notin> v_armed (vw k) \<Longrightarrow> vw (tp_wait_callbacks W k t) = view_wait t (vw k)" by (rule d9 [THEN conjunct1, rule_format])
  show "vw (tp_close W k t) = view_close_timer t (vw k)" by (rule d9 [THEN conjunct2, rule_format])
qed

text \<open>Callbacks, running or to come, write to open sockets.\<close>

definition view_ok :: "sleep_view \<Rightarrow> bool" where
  "view_ok v \<longleftrightarrow> snd ` v_calls v \<subseteq> v_socks v \<and> ran (v_timers v) \<subseteq> v_socks v"

text \<open>The socket is open, and the timer is the only one whose callbacks write to it.\<close>

definition owns :: "u64 \<Rightarrow> u64 \<Rightarrow> sleep_view \<Rightarrow> bool" where
  "owns sk t v \<longleftrightarrow> sk \<in> v_socks v \<and> v_timers v t = Some sk \<and> (\<forall>t'. t' \<noteq> t \<longrightarrow> v_timers v t' \<noteq> Some sk) \<and>
     (\<forall>c \<in> v_calls v. snd c = sk \<longrightarrow> fst c = t)"

text \<open>Without the socket, the timer and its callbacks; the rest, and whether something went wrong before, as it was.\<close>

definition released :: "u64 \<Rightarrow> u64 \<Rightarrow> sleep_view \<Rightarrow> sleep_view" where
  "released sk t v = v\<lparr>v_socks := v_socks v - {sk}, v_timers := (v_timers v)(t := None), v_armed := v_armed v - {t},
     v_calls := {c \<in> v_calls v. fst c \<noteq> t}\<rparr>"

lemma sock_undo: "sk \<notin> S \<Longrightarrow> insert sk S - {sk} = S"
  by blast

lemma fresh_sock_close:
  assumes "view_ok v" and "sk \<notin> v_socks v"
  shows "view_close_sock sk (v\<lparr>v_socks := insert sk (v_socks v)\<rparr>) = v"
proof -
  have "sk \<notin> snd ` v_calls v" "sk \<notin> ran (v_timers v |` v_armed v)"
    using assms by (auto simp: view_ok_def ran_def restrict_map_def)
  then show ?thesis using assms(2) by (simp add: view_close_sock_def sock_undo)
qed

lemma make_self_socket_view:
  assumes W: "sleep_api_contract W vw" and ok: "view_ok (vw k)" and r: "make_self_socket W k = (res, k')"
  shows "case res of Inl _ \<Rightarrow> vw k' = vw k
       | Inr sk \<Rightarrow> sk \<noteq> INVALID_SOCK \<and> sk \<notin> v_socks (vw k) \<and> vw k' = (vw k)\<lparr>v_socks := insert sk (v_socks (vw k))\<rparr>"
proof -
  obtain sk k1 where 1: "ws_socket W k = (sk, k1)" by fastforce
  obtain rb k2 where 2: "ws_bind W k1 sk (INADDR_LOOPBACK, 0) = (rb, k2)" by fastforce
  obtain rn b k3 where 3: "ws_getsockname W k2 sk = (rn, b, k3)" by (cases "ws_getsockname W k2 sk")
  obtain rc k4 where 4: "ws_connect W k3 sk b = (rc, k4)" by fastforce
  show ?thesis
  proof (cases "sk = INVALID_SOCK")
    case True
    then show ?thesis using r 1 sleep_apiD(1) [OF W 1] by (auto simp: make_self_socket_def)
  next
    case False
    then have v: "sk \<notin> v_socks (vw k)" "vw k1 = (vw k)\<lparr>v_socks := insert sk (v_socks (vw k))\<rparr>"
      using sleep_apiD(1) [OF W 1] by simp_all
    have e: "vw k2 = vw k1" "vw k3 = vw k1" "vw k4 = vw k1"
      using sleep_apiD(2) [OF W 2] sleep_apiD(3) [OF W 3] sleep_apiD(4) [OF W 4] by simp_all
    have cl: "vw (socket_guard_destroy W sk j) = vw k" if "vw j = vw k1" for j
      using that v False fresh_sock_close [OF ok v(1)] by (simp add: socket_guard_destroy_def sleep_apiD(6) [OF W])
    show ?thesis using r 1 2 3 4 False e cl v by (auto simp: make_self_socket_def split: if_splits)
  qed
qed

text \<open>Cancelling, waiting and closing, in this order, leave nothing behind that writes to the socket.\<close>

lemma timer_guard_view:
  assumes W: "sleep_api_contract W vw" and "t \<noteq> 0"
  shows "vw (timer_guard_destroy W t k) = (vw k)\<lparr>v_timers := (v_timers (vw k))(t := None), v_armed := v_armed (vw k) - {t},
     v_calls := {c \<in> v_calls (vw k). fst c \<noteq> t}\<rparr>"
proof -
  have c: "t \<notin> v_armed (vw (tp_set W k t None))" by (simp add: sleep_apiD(9) [OF W] view_cancel_def)
  let ?v = "vw k"
  have e: "{c \<in> v_calls ?v \<union> may_call t ?v. fst c \<noteq> t} = {c \<in> v_calls ?v. fst c \<noteq> t}"
    by (auto simp: may_call_def split: option.splits if_splits)
  have "vw (timer_guard_destroy W t k) = view_close_timer t (view_wait t (view_cancel t ?v))"
    using \<open>t \<noteq> 0\<close> by (simp add: timer_guard_destroy_def sleep_apiD(11) [OF W] sleep_apiD(10) [OF W c] sleep_apiD(9) [OF W])
  also have "\<dots> = ?v\<lparr>v_timers := (v_timers ?v)(t := None), v_armed := v_armed ?v - {t}, v_calls := {c \<in> v_calls ?v \<union> may_call t ?v. fst c \<noteq> t}\<rparr>"
    by (simp add: view_close_timer_def view_wait_def view_cancel_def may_call_unarmed)
  finally show ?thesis unfolding e .
qed

lemma win_resume_releases:
  assumes W: "sleep_api_contract W vw" and o: "owns sk t (vw k)" and n: "sk \<noteq> INVALID_SOCK" "t \<noteq> 0"
  shows "vw (snd (win_sleep_resume W sk t res k)) = released sk t (vw k)"
proof -
  have "view_close_sock sk (vw (timer_guard_destroy W t j)) = released sk t (vw k)" if "vw j = vw k" for j
  proof -
    have "sk \<notin> snd ` {c \<in> v_calls (vw k). fst c \<noteq> t}" using o by (auto simp: owns_def)
    moreover have "sk \<notin> ran ((v_timers (vw k))(t := None) |` (v_armed (vw k) - {t}))"
      using o by (auto simp: owns_def ran_def restrict_map_def split: if_splits)
    ultimately show ?thesis using o that
      by (simp add: timer_guard_view [OF W n(2)] view_close_sock_def released_def owns_def)
  qed
  then show ?thesis using n(1)
    by (cases res) (simp_all add: win_sleep_resume_def socket_guard_destroy_def sleep_apiD(6) [OF W] sleep_apiD(5) [OF W])
qed

text \<open>
  C35: A sleep on Windows that ends before it waits leaves the sockets and timers as they were. One that waits has a socket of
  its own and a timer that is set and is the only one to write to that socket. Whatever other sockets and timers do meanwhile and
  whether the timer is still set, has a callback queued or running or is done, the resumption, with any result of the
  awaiter, releases exactly this socket, this timer and its callbacks: the socket is closed once, when it is open and no callback, running or to
  come, writes to it, since the timer is cancelled and its callbacks awaited first.
\<close>

theorem win_sleep_releases:
  assumes W: "sleep_api_contract W vw" and ok: "view_ok (vw k)" and r: "win_sleep_start W dt k = Inr (st, k1)"
  shows "case st of
           Win_Done _ \<Rightarrow> vw k1 = vw k
         | Win_Waiting sk t \<Rightarrow> owns sk t (vw k1) \<and> t \<in> v_armed (vw k1) \<and> released sk t (vw k1) = vw k \<and>
             (\<forall>k2 res. owns sk t (vw k2) \<longrightarrow> vw (snd (win_sleep_resume W sk t res k2)) = released sk t (vw k2))"
proof -
  obtain sock j where 1: "make_self_socket W k = (sock, j)" by fastforce
  note m = make_self_socket_view [OF W ok 1]
  show ?thesis
  proof (cases sock)
    case (Inl e)
    then show ?thesis using r 1 m by (auto simp: win_sleep_start_def)
  next
    case (Inr sk)
    then have v: "sk \<noteq> INVALID_SOCK" "sk \<notin> v_socks (vw k)" "vw j = (vw k)\<lparr>v_socks := insert sk (v_socks (vw k))\<rparr>"
      using m by simp_all
    obtain t j2 where 2: "tp_create W j sk = (t, j2)" by fastforce
    show ?thesis
    proof (cases "t = 0")
      case True
      then have "vw j2 = vw j" using sleep_apiD(7) [OF W 2] by simp
      then show ?thesis using r 1 2 Inr True v fresh_sock_close [OF ok v(2)]
        by (auto simp: win_sleep_start_def socket_guard_destroy_def sleep_apiD(6) [OF W])
    next
      case False
      then have t: "v_timers (vw k) t = None" "t \<notin> v_armed (vw k)" "t \<notin> fst ` v_calls (vw k)"
          "vw j2 = (vw j)\<lparr>v_timers := (v_timers (vw j))(t \<mapsto> sk)\<rparr>"
        using sleep_apiD(7) [OF W 2] v(3) by simp_all
      have st: "st = Win_Waiting sk t" "vw k1 = view_arm t (vw j2)"
        using r 1 2 Inr False sleep_apiD(8) [OF W] by (auto simp: win_sleep_start_def out_bind_Inr_iff)
      have "owns sk t (vw k1)"
        using ok v(2) by (auto simp: st(2) t(4) v(3) owns_def view_arm_def view_ok_def ran_def)
      moreover have "{c \<in> v_calls (vw k). fst c \<noteq> t} = v_calls (vw k)" using t(3) by auto
      then have "released sk t (vw k1) = vw k" using t(1,2) v(2)
        by (simp add: st(2) t(4) v(3) released_def view_arm_def sock_undo fun_upd_idem)
      ultimately show ?thesis using st win_resume_releases [OF W _ v(1) False] by (simp add: view_arm_def)
    qed
  qed
qed

lemma join_halves: "(push_bit 32 (ucast (ucast (drop_bit 32 u) :: u32)) OR ucast (ucast (u AND 0xFFFFFFFF) :: u32) :: u64) = u"
proof (rule bit_word_eqI)
  fix n assume n: "n < LENGTH(64)"
  have m: "(0xFFFFFFFF :: u64) = mask 32" by (simp add: mask_eq_exp_minus_1)
  show "bit (push_bit 32 (ucast (ucast (drop_bit 32 u) :: u32)) OR ucast (ucast (u AND 0xFFFFFFFF) :: u32) :: u64) n = bit u n"
    using n unfolding m by (auto simp: bit_simps not_less)
qed

lemma sint_word_of_int_small: "- (2 ^ 63) \<le> t \<Longrightarrow> t < 2 ^ 63 \<Longrightarrow> sint (word_of_int t :: i64) = t"
  by (simp add: signed_of_int signed_take_bit_int_eq_self)

text \<open>
  The two words of the due time are the relative time of the delay in units of 100 nanoseconds, never zero,
  for every delay whose ticks fit in 64 bits.
\<close>

theorem sleep_due_exact:
  assumes "0 \<le> dt" and "dt * 10000 < 2 ^ 63"
  shows "\<exists>lo hi. sleep_due dt = Inr (lo, hi) \<and> sint (push_bit 32 (ucast hi) OR ucast lo :: u64) = - max 1 (dt * 10000)"
proof -
  define t where "t = (if - (dt * 10000) = 0 then - 1 else - (dt * 10000))"
  have c: "checked_i64 (dt * 10000) = Inr (dt * 10000)" "checked_i64 (- (dt * 10000)) = Inr (- (dt * 10000))"
    using assms by (simp_all add: checked_i64_def)
  have "sleep_due dt = Inr (ucast (word_of_int t AND 0xFFFFFFFF :: u64), ucast (drop_bit 32 (word_of_int t :: u64)))"
    unfolding sleep_due_def c out_bind_simps Let_def t_def ..
  moreover have "sint (word_of_int t :: u64) = t" using assms by (intro sint_word_of_int_small) (auto simp: t_def)
  moreover have "t = - max 1 (dt * 10000)" using assms(1) by (auto simp: t_def max_def)
  ultimately show ?thesis by (intro exI conjI) (assumption, simp only: join_halves)
qed

theorem sleep_due_exact_witness:
  "\<exists>lo hi. sleep_due 250 = Inr (lo, hi) \<and> sint (push_bit 32 (ucast hi) OR ucast lo :: u64) = - 2500000"
  using sleep_due_exact [of 250] by simp

text \<open>A system without sockets: a call does to the view what the contract says of it.\<close>

definition no_sockets :: "sleep_view sleep_api" where
  "no_sockets = \<lparr>ws_socket = (\<lambda>k. (INVALID_SOCK, k)), ws_bind = (\<lambda>k sk a. (0, k)), ws_getsockname = (\<lambda>k sk. (0, (0, 0), k)),
     ws_connect = (\<lambda>k sk a. (0, k)), ws_send1 = (\<lambda>k sk. k), ws_recv1 = (\<lambda>k sk. k),
     ws_close = (\<lambda>k sk. view_close_sock sk k), ws_error = (\<lambda>k. 0),
     tp_create = (\<lambda>k sk. if v_timers k 9 = None \<and> 9 \<notin> v_armed k \<and> 9 \<notin> fst ` v_calls k
                          then (9, k\<lparr>v_timers := (v_timers k)(9 \<mapsto> sk)\<rparr>) else (0, k)),
     tp_set = (\<lambda>k t d. case d of Some _ \<Rightarrow> view_arm t k | None \<Rightarrow> view_cancel t k),
     tp_wait_callbacks = (\<lambda>k t. if t \<in> v_armed k then k else view_wait t k), tp_close = (\<lambda>k t. view_close_timer t k), last_error = (\<lambda>k. 0)\<rparr>"

text \<open>One socket, number 5, can be opened at a time.\<close>

definition one_sock :: "sleep_view sleep_api" where
  "one_sock = no_sockets\<lparr>ws_socket := (\<lambda>k. if 5 \<in> v_socks k then (INVALID_SOCK, k) else (5, k\<lparr>v_socks := insert 5 (v_socks k)\<rparr>))\<rparr>"

lemma one_sock_contract: "sleep_api_contract one_sock id"
  by (auto simp: sleep_api_contract_def one_sock_def no_sockets_def INVALID_SOCK_def)

definition quiet_view :: sleep_view where
  "quiet_view = \<lparr>v_socks = {}, v_timers = Map.empty, v_armed = {}, v_calls = {}, v_bad = False\<rparr>"

text \<open>The sleep waits; then its timer is no longer set and its callback is running when the coroutine is resumed.\<close>

theorem win_sleep_releases_witness:
  "\<exists>k1. win_sleep_start one_sock 250 quiet_view = Inr (Win_Waiting 5 9, k1) \<and> v_armed k1 = {9} \<and> v_socks k1 = {5} \<and>
     snd (win_sleep_resume one_sock 5 9 (Inr 0) (k1\<lparr>v_armed := {}, v_calls := {(9, 5)}\<rparr>)) = quiet_view"
proof -
  obtain lo hi where d: "sleep_due 250 = Inr (lo, hi)" by (simp add: sleep_due_def checked_i64_def Let_def)
  let ?k1 = "\<lparr>v_socks = {5}, v_timers = [9 \<mapsto> 5], v_armed = {9}, v_calls = {}, v_bad = False\<rparr>"
  let ?k2 = "?k1\<lparr>v_armed := {}, v_calls := {(9, 5)}\<rparr>"
  have st: "win_sleep_start one_sock 250 quiet_view = Inr (Win_Waiting 5 9, ?k1)"
    by (simp add: win_sleep_start_def make_self_socket_def one_sock_def no_sockets_def INVALID_SOCK_def d quiet_view_def view_arm_def)
  have "view_ok (id quiet_view)" by (simp add: view_ok_def quiet_view_def)
  from win_sleep_releases [OF one_sock_contract this st]
  have "owns 5 9 (id ?k2) \<longrightarrow> id (snd (win_sleep_resume one_sock 5 9 (Inr 0) ?k2)) = released 5 9 (id ?k2)"
    unfolding win_sleep.case by blast
  moreover have "owns 5 9 (id ?k2)" by (simp add: owns_def)
  moreover have "released 5 9 ?k2 = quiet_view" by (simp add: released_def quiet_view_def)
  ultimately show ?thesis using st by simp
qed

end
