(* ===== verification/Log_Model.thy ===== *)
theory Log_Model
  imports Sap_Prelude
begin

text \<open>
  Logging, \<^verbatim>\<open>include/sap_core/log.h\<close>. An argument is the text the stream operator writes for it; the wall clock and
  the calendar text of \<^verbatim>\<open>put_time\<close> are arguments. The state is the current level and what was written to \<^verbatim>\<open>stderr\<close>.
\<close>

section \<open>Levels\<close>

datatype ELevel = Debug | Info | Warn | Error | None_Level

primrec level_number :: "ELevel \<Rightarrow> int" where
  "level_number Debug = 0"
| "level_number Info = 1"
| "level_number Warn = 2"
| "level_number Error = 3"
| "level_number None_Level = 4"

record log_state =
  current_level :: ELevel
  err_out :: string

definition log_init :: log_state where
  "log_init = \<lparr>current_level = Info, err_out = []\<rparr>"

definition set_level :: "ELevel \<Rightarrow> log_state \<Rightarrow> log_state" where
  "set_level level st = st\<lparr>current_level := level\<rparr>"

definition get_level :: "log_state \<Rightarrow> ELevel" where
  "get_level st = current_level st"

fun level_string :: "ELevel \<Rightarrow> string" where
  "level_string Debug = ''DEBUG''"
| "level_string Info = ''INFO ''"
| "level_string Warn = ''WARN ''"
| "level_string Error = ''ERROR''"
| "level_string _ = ''?????''"

fun level_color :: "ELevel \<Rightarrow> string" where
  "level_color Debug = CHR 0x1B # ''[36m''"
| "level_color Info = CHR 0x1B # ''[32m''"
| "level_color Warn = CHR 0x1B # ''[33m''"
| "level_color Error = CHR 0x1B # ''[31m''"
| "level_color _ = CHR 0x1B # ''[0m''"

section \<open>Formatting\<close>

text \<open>\<^verbatim>\<open>fmt.find("{}")\<close>.\<close>

fun find_braces :: "string \<Rightarrow> nat option" where
  "find_braces (c # d # s) = (if c = CHR ''{'' \<and> d = CHR ''}'' then Some 0 else map_option Suc (find_braces (d # s)))"
| "find_braces _ = None"

fun format_impl :: "string \<Rightarrow> string list \<Rightarrow> string" where
  "format_impl fmt [] = fmt"
| "format_impl fmt (arg # args) =
     (case find_braces fmt of
        None \<Rightarrow> fmt
      | Some pos \<Rightarrow> take pos fmt @ arg @ format_impl (drop (pos + 2) fmt) args)"

text \<open>\<open>ms\<close> are the milliseconds since the epoch, \<open>put_time\<close> the calendar text of the seconds.\<close>

definition digit :: "nat \<Rightarrow> char" where
  "digit n = ''0123456789'' ! (n mod 10)"

definition timestamp :: "(nat \<Rightarrow> string) \<Rightarrow> nat \<Rightarrow> string" where
  "timestamp put_time ms =
     put_time (ms div 1000) @ ''.'' @ [digit (ms mod 1000 div 100), digit (ms mod 1000 div 10), digit (ms mod 1000)]"

definition log_impl :: "(nat \<Rightarrow> string) \<Rightarrow> nat \<Rightarrow> ELevel \<Rightarrow> string \<Rightarrow> string list \<Rightarrow> log_state \<Rightarrow> log_state" where
  "log_impl put_time ms level fmt args st =
     (if level_number level < level_number (current_level st) then st
      else (let oss = format_impl fmt args
            in st\<lparr>err_out := err_out st @ level_color level @ ''['' @ timestamp put_time ms @ ''] '' @ level_string level @ '' '' @
                              (CHR 0x1B # ''[0m'') @ oss @ [CHR 0x0A]\<rparr>))"

definition log_debug :: "(nat \<Rightarrow> string) \<Rightarrow> nat \<Rightarrow> string \<Rightarrow> string list \<Rightarrow> log_state \<Rightarrow> log_state" where
  "log_debug put_time ms fmt args st = log_impl put_time ms Debug fmt args st"

definition log_info :: "(nat \<Rightarrow> string) \<Rightarrow> nat \<Rightarrow> string \<Rightarrow> string list \<Rightarrow> log_state \<Rightarrow> log_state" where
  "log_info put_time ms fmt args st = log_impl put_time ms Info fmt args st"

definition log_warn :: "(nat \<Rightarrow> string) \<Rightarrow> nat \<Rightarrow> string \<Rightarrow> string list \<Rightarrow> log_state \<Rightarrow> log_state" where
  "log_warn put_time ms fmt args st = log_impl put_time ms Warn fmt args st"

definition log_error :: "(nat \<Rightarrow> string) \<Rightarrow> nat \<Rightarrow> string \<Rightarrow> string list \<Rightarrow> log_state \<Rightarrow> log_state" where
  "log_error put_time ms fmt args st = log_impl put_time ms Error fmt args st"

section \<open>What is written\<close>

text \<open>The pieces of a format between its placeholders, and the pieces with the arguments in between.\<close>

fun pieces :: "string \<Rightarrow> string list" where
  "pieces (c # d # s) = (if c = CHR ''{'' \<and> d = CHR ''}'' then [] # pieces s else (c # hd (pieces (d # s))) # tl (pieces (d # s)))"
| "pieces s = [s]"

fun fill :: "string list \<Rightarrow> string list \<Rightarrow> string" where
  "fill [] args = []"
| "fill [p] args = p"
| "fill (p # q # ps) [] = p @ ''{}'' @ fill (q # ps) []"
| "fill (p # q # ps) (a # args) = p @ a @ fill (q # ps) args"

lemma pieces_Cons: "\<exists>p ps. pieces s = p # ps"
  by (induction s rule: pieces.induct) auto

lemma fill_push: "fill ((c # p) # ps) args = c # fill (p # ps) args"
  by (cases ps; cases args) simp_all

lemma fill_none: "fill (pieces s) [] = s"
proof (induction s rule: pieces.induct)
  case (1 c d s)
  obtain p ps where p: "pieces (d # s) = p # ps" using pieces_Cons by blast
  obtain q qs where q: "pieces s = q # qs" using pieces_Cons by blast
  show ?case using 1 p q fill_push [of c p ps] by (cases "c = CHR ''{'' \<and> d = CHR ''}''") auto
qed simp_all

lemma pieces_find:
  "case find_braces s of None \<Rightarrow> pieces s = [s] | Some n \<Rightarrow> pieces s = take n s # pieces (drop (n + 2) s)"
proof (induction s rule: find_braces.induct)
  case (1 c d s)
  then show ?case
    by (cases "c = CHR ''{'' \<and> d = CHR ''}''"; cases "find_braces (d # s)") auto
qed simp_all

lemma format_impl_fill: "format_impl fmt args = fill (pieces fmt) args"
proof (induction fmt args rule: format_impl.induct)
  case (1 fmt)
  then show ?case by (simp add: fill_none)
next
  case (2 fmt arg args)
  show ?case
  proof (cases "find_braces fmt")
    case None
    then show ?thesis using pieces_find [of fmt] by simp
  next
    case (Some pos)
    obtain q qs where q: "pieces (drop (pos + 2) fmt) = q # qs" using pieces_Cons by blast
    then show ?thesis using 2 [OF Some] Some pieces_find [of fmt] by simp
  qed
qed

text \<open>
  Formatting puts the arguments for the placeholders from left to right. Placeholders left over stay as
  they are, arguments left over are dropped, and a placeholder inside an argument is not expanded.
\<close>

theorem format_impl_spec: "format_impl fmt args = fill (pieces fmt) args"
  by (rule format_impl_fill)

text \<open>
  A message is written, as one line, exactly when its level is at least the current one; \<^verbatim>\<open>None\<close> silences
  all four levels, and the level in force is the one last set.
\<close>

theorem log_level_filter:
  "err_out (log_impl put_time ms level fmt args (set_level cur st)) =
     err_out st @ (if level_number cur \<le> level_number level
                   then level_color level @ ''['' @ timestamp put_time ms @ ''] '' @ level_string level @ '' '' @ (CHR 0x1B # ''[0m'') @
                        fill (pieces fmt) args @ [CHR 0x0A] else [])
   \<and> get_level (log_impl put_time ms level fmt args (set_level cur st)) = cur
   \<and> (level \<noteq> None_Level \<longrightarrow> log_impl put_time ms level fmt args (set_level None_Level st) = set_level None_Level st)"
  using format_impl_fill [of fmt args] by (cases level) (simp_all add: log_impl_def set_level_def get_level_def Let_def)

theorem log_level_filter_witness:
  "log_impl (\<lambda>_. []) 0 Error ''x'' [] (set_level None_Level log_init) = set_level None_Level log_init"
  using log_level_filter [of "\<lambda>_. []" 0 Error "''x''" "[]" Debug log_init] by simp

end
