(* ===== verification/Basic_String.thy ===== *)
theory Basic_String
  imports Sap_Prelude
begin

text \<open>
  \<^verbatim>\<open>stl::basic_string\<close>, \<^verbatim>\<open>include/sap_core/stl/string.h\<close>: constructors and assignments on top of \<^verbatim>\<open>std::basic_string\<close>. A
  string is its characters and its allocator; \<open>traits\<close> says which assignments take over the allocator of the
  source. A C string is the characters up to the first null.
\<close>

definition c_str :: "string \<Rightarrow> string" where
  "c_str xs = takeWhile (\<lambda>c. c \<noteq> CHR 0x00) xs"

record 'a basic_string =
  bs_chars :: string
  bs_alloc :: 'a

record alloc_traits =
  on_copy_assignment :: bool
  on_move_assignment :: bool

section \<open>Construction\<close>

definition bs_default :: "'a \<Rightarrow> 'a basic_string" where
  "bs_default dflt = \<lparr>bs_chars = [], bs_alloc = dflt\<rparr>"

text \<open>From a tag the allocator can be constructed from, by \<open>from_tag\<close>.\<close>

definition bs_with_tag :: "('t \<Rightarrow> 'a) \<Rightarrow> 't \<Rightarrow> 'a basic_string" where
  "bs_with_tag from_tag tag = \<lparr>bs_chars = [], bs_alloc = from_tag tag\<rparr>"

definition bs_with_alloc :: "'a \<Rightarrow> 'a basic_string" where
  "bs_with_alloc al = \<lparr>bs_chars = [], bs_alloc = al\<rparr>"

definition bs_from_cstr :: "string \<Rightarrow> 'a \<Rightarrow> 'a basic_string" where
  "bs_from_cstr str al = \<lparr>bs_chars = c_str str, bs_alloc = al\<rparr>"

text \<open>From a \<^verbatim>\<open>std::string\<close>, through its \<^verbatim>\<open>c_str()\<close>.\<close>

definition bs_from_std_string :: "string \<Rightarrow> 'a \<Rightarrow> 'a basic_string" where
  "bs_from_std_string str al = \<lparr>bs_chars = c_str str, bs_alloc = al\<rparr>"

definition bs_from_view :: "string \<Rightarrow> 'a \<Rightarrow> 'a basic_string" where
  "bs_from_view sv al = \<lparr>bs_chars = sv, bs_alloc = al\<rparr>"

text \<open>The same with a default allocator, and from a list of characters.\<close>

definition bs_from_cstr_default :: "'a \<Rightarrow> string \<Rightarrow> 'a basic_string" where
  "bs_from_cstr_default dflt str = \<lparr>bs_chars = c_str str, bs_alloc = dflt\<rparr>"

definition bs_from_view_default :: "'a \<Rightarrow> string \<Rightarrow> 'a basic_string" where
  "bs_from_view_default dflt sv = \<lparr>bs_chars = sv, bs_alloc = dflt\<rparr>"

definition bs_from_list :: "string \<Rightarrow> 'a \<Rightarrow> 'a basic_string" where
  "bs_from_list cs al = \<lparr>bs_chars = cs, bs_alloc = al\<rparr>"

definition bs_from_list_default :: "'a \<Rightarrow> string \<Rightarrow> 'a basic_string" where
  "bs_from_list_default dflt cs = \<lparr>bs_chars = cs, bs_alloc = dflt\<rparr>"

definition bs_copy :: "('a \<Rightarrow> 'a) \<Rightarrow> 'a basic_string \<Rightarrow> 'a basic_string" where
  "bs_copy select other = \<lparr>bs_chars = bs_chars other, bs_alloc = select (bs_alloc other)\<rparr>"

text \<open>The new string; the moved-from one is left valid but unspecified.\<close>

definition bs_move :: "'a basic_string \<Rightarrow> 'a basic_string" where
  "bs_move other = \<lparr>bs_chars = bs_chars other, bs_alloc = bs_alloc other\<rparr>"

definition make_string :: "'a \<Rightarrow> 'a basic_string" where
  "make_string al = bs_with_alloc al"

definition make_string_cstr :: "string \<Rightarrow> 'a \<Rightarrow> 'a basic_string" where
  "make_string_cstr str al = bs_from_cstr str al"

definition make_string_view :: "string \<Rightarrow> 'a \<Rightarrow> 'a basic_string" where
  "make_string_view sv al = bs_from_view sv al"

section \<open>Assignment\<close>

definition bs_assign :: "alloc_traits \<Rightarrow> 'a basic_string \<Rightarrow> 'a basic_string \<Rightarrow> 'a basic_string" where
  "bs_assign tr s other = \<lparr>bs_chars = bs_chars other, bs_alloc = (if on_copy_assignment tr then bs_alloc other else bs_alloc s)\<rparr>"

definition bs_assign_move :: "alloc_traits \<Rightarrow> 'a basic_string \<Rightarrow> 'a basic_string \<Rightarrow> 'a basic_string" where
  "bs_assign_move tr s other = \<lparr>bs_chars = bs_chars other, bs_alloc = (if on_move_assignment tr then bs_alloc other else bs_alloc s)\<rparr>"

definition bs_assign_cstr :: "'a basic_string \<Rightarrow> string \<Rightarrow> 'a basic_string" where
  "bs_assign_cstr s str = s\<lparr>bs_chars := c_str str\<rparr>"

definition bs_assign_view :: "'a basic_string \<Rightarrow> string \<Rightarrow> 'a basic_string" where
  "bs_assign_view s sv = s\<lparr>bs_chars := sv\<rparr>"

definition bs_assign_std_string :: "'a basic_string \<Rightarrow> string \<Rightarrow> 'a basic_string" where
  "bs_assign_std_string s str = s\<lparr>bs_chars := c_str str\<rparr>"

text \<open>The hash and the formatter are those of the view of the characters.\<close>

definition bs_hash :: "(string \<Rightarrow> size_t) \<Rightarrow> 'a basic_string \<Rightarrow> size_t" where
  "bs_hash view_hash s = view_hash (bs_chars s)"

definition bs_format :: "(string \<Rightarrow> string) \<Rightarrow> 'a basic_string \<Rightarrow> string" where
  "bs_format view_format s = view_format (bs_chars s)"

section \<open>What a string holds\<close>

lemma c_str_id: "c_str xs = xs \<longleftrightarrow> CHR 0x00 \<notin> set xs"
  by (auto simp: c_str_def takeWhile_eq_all_conv)

text \<open>
  From a view a string gets all characters. From a \<^verbatim>\<open>std::string\<close>, by construction or assignment, it gets
  them all exactly when there is no null among them, and otherwise only those before the first one,
  although a \<^verbatim>\<open>std::string\<close> may hold nulls.
\<close>

theorem std_string_truncated_at_null:
  "bs_chars (bs_from_view xs al) = xs \<and> bs_chars (bs_assign_view s xs) = xs \<and>
   (bs_chars (bs_from_std_string xs al) = xs \<longleftrightarrow> CHR 0x00 \<notin> set xs) \<and>
   (bs_chars (bs_assign_std_string s xs) = xs \<longleftrightarrow> CHR 0x00 \<notin> set xs) \<and>
   bs_chars (bs_from_std_string (ys @ CHR 0x00 # zs) al) = c_str ys"
  by (simp add: bs_from_view_def bs_assign_view_def bs_from_std_string_def bs_assign_std_string_def c_str_id)
    (induction ys; simp add: c_str_def)

end
