(* ===== verification/Containers.thy ===== *)
theory Containers
  imports Allocators Basic_String
begin

text \<open>
  \<^verbatim>\<open>stl::vector\<close>, \<^verbatim>\<open>include/sap_core/stl/vector.h\<close>, over the allocators of \<^verbatim>\<open>allocator.h\<close> and \<^verbatim>\<open>stack_allocator.h\<close>. The
  members of the class hand their arguments to \<^verbatim>\<open>std::vector\<close>; what that does with storage, elements and
  allocator is written out, so that vectors sharing an arena can be studied together. A vector is a block of the
  arena its allocator points to; the elements are objects at addresses, so overlapping blocks would show.

  What a container needs of an allocator is the locale \<open>container_allocator\<close>; it is interpreted for
  \<^verbatim>\<open>linear_allocator\<close> and \<^verbatim>\<open>stack_allocator\<close>.
\<close>

section \<open>Allocators as containers use them\<close>

text \<open>
  The heap \<open>'h\<close> holds the arenas the allocators point to. Both adapters leave it as it was when they fail.
\<close>

record ('al, 'h) allocator_ops =
  ao_allocate :: "'al \<Rightarrow> 'h \<Rightarrow> size_t \<Rightarrow> (ptr \<times> 'h) outcome"
  ao_deallocate :: "'al \<Rightarrow> 'h \<Rightarrow> ptr \<Rightarrow> size_t \<Rightarrow> 'h"
  ao_equal :: "'al \<Rightarrow> 'al \<Rightarrow> bool"
  ao_traits :: alloc_traits

definition linear_ops :: "cpp_type \<Rightarrow> (linear_allocator, ptr \<Rightarrow> linear_arena) allocator_ops" where
  "linear_ops T =
     \<lparr>ao_allocate = (\<lambda>al h n. out_bind (linear_allocator_allocate T al (h (lal_arena al)) n) (\<lambda>(p, ar). Inr (p, h(lal_arena al := ar)))),
      ao_deallocate = (\<lambda>al h p n. h(lal_arena al := linear_allocator_deallocate (h (lal_arena al)) p n)),
      ao_equal = linear_allocator_eq,
      ao_traits = \<lparr>on_copy_assignment = True, on_move_assignment = True\<rparr>\<rparr>"

definition stack_ops :: "cpp_type \<Rightarrow> (stack_allocator, ptr \<Rightarrow> stack_arena) allocator_ops" where
  "stack_ops T =
     \<lparr>ao_allocate = (\<lambda>al h n. out_bind (stack_allocator_allocate T al (h (sal_arena al)) n) (\<lambda>(p, sa). Inr (p, h(sal_arena al := sa)))),
      ao_deallocate = (\<lambda>al h p n. h(sal_arena al := stack_allocator_deallocate (h (sal_arena al)) p n)),
      ao_equal = stack_allocator_eq,
      ao_traits = \<lparr>on_copy_assignment = False, on_move_assignment = False\<rparr>\<rparr>"

section \<open>Elements in memory\<close>

text \<open>The living element objects by address; consecutive elements are \<open>sz\<close> bytes apart.\<close>

type_synonym 'e cells = "nat \<Rightarrow> 'e option"

fun put_elems :: "nat \<Rightarrow> nat \<Rightarrow> 'e list \<Rightarrow> 'e cells \<Rightarrow> 'e cells" where
  "put_elems sz a [] m = m"
| "put_elems sz a (x # xs) m = put_elems sz (a + sz) xs (m(a \<mapsto> x))"

fun clear_elems :: "nat \<Rightarrow> nat \<Rightarrow> nat \<Rightarrow> 'e cells \<Rightarrow> 'e cells" where
  "clear_elems sz a 0 m = m"
| "clear_elems sz a (Suc n) m = clear_elems sz (a + sz) n (m(a := None))"

fun read_elems :: "nat \<Rightarrow> nat \<Rightarrow> nat \<Rightarrow> 'e cells \<Rightarrow> 'e list outcome" where
  "read_elems sz a 0 m = Inr []"
| "read_elems sz a (Suc n) m =
     (case m a of
        None \<Rightarrow> Inl Dead_Object
      | Some x \<Rightarrow> out_bind (read_elems sz (a + sz) n m) (\<lambda>xs. Inr (x # xs)))"

record ('h, 'e) store =
  heap :: 'h
  cells :: "'e cells"

section \<open>vector\<close>

record 'al vec =
  v_data :: ptr
  v_size :: nat
  v_cap :: nat
  v_alloc :: 'al

abbreviation esize :: "cpp_type \<Rightarrow> nat" where
  "esize T \<equiv> unat (sizeof_T T)"

text \<open>\<^verbatim>\<open>max_size()\<close>: a vector of more elements than fit in \<^verbatim>\<open>ptrdiff_t\<close> bytes is refused with \<^verbatim>\<open>std::length_error\<close>.\<close>

definition vec_max_size :: "cpp_type \<Rightarrow> nat" where
  "vec_max_size T = (2 ^ 63 - 1) div esize T"

definition vec_elems :: "cpp_type \<Rightarrow> 'al vec \<Rightarrow> ('h, 'e) store \<Rightarrow> 'e list outcome" where
  "vec_elems T v st = read_elems (esize T) (unat (v_data v)) (v_size v) (cells st)"

text \<open>Construction and destruction of the elements of a vector that has \<open>n\<close> elements constructed.\<close>

definition vec_create ::
  "('al, 'h) allocator_ops \<Rightarrow> cpp_type \<Rightarrow> 'al \<Rightarrow> ('h, 'e) store \<Rightarrow> 'e list \<Rightarrow> ('al vec \<times> ('h, 'e) store) outcome" where
  "vec_create A T al st xs =
     (let n = length xs
      in if vec_max_size T < n then Inl Length_Error
         else if n = 0 then Inr (\<lparr>v_data = nullptr, v_size = 0, v_cap = 0, v_alloc = al\<rparr>, st)
         else out_bind (ao_allocate A al (heap st) (of_nat n)) (\<lambda>(p, h).
                Inr (\<lparr>v_data = p, v_size = n, v_cap = n, v_alloc = al\<rparr>,
                     \<lparr>heap = h, cells = put_elems (esize T) (unat p) xs (cells st)\<rparr>)))"

definition vec_release :: "('al, 'h) allocator_ops \<Rightarrow> cpp_type \<Rightarrow> 'al vec \<Rightarrow> ('h, 'e) store \<Rightarrow> ('h, 'e) store" where
  "vec_release A T v st =
     (if v_cap v = 0 then st
      else \<lparr>heap = ao_deallocate A (v_alloc v) (heap st) (v_data v) (of_nat (v_cap v)),
            cells = clear_elems (esize T) (unat (v_data v)) (v_size v) (cells st)\<rparr>)"

subsection \<open>Constructors\<close>

definition vector_with_alloc :: "'al \<Rightarrow> 'al vec" where
  "vector_with_alloc al = \<lparr>v_data = nullptr, v_size = 0, v_cap = 0, v_alloc = al\<rparr>"

definition vector_default :: "'al \<Rightarrow> 'al vec" where
  "vector_default dflt = vector_with_alloc dflt"

definition vector_tagged :: "('tag \<Rightarrow> 'al) \<Rightarrow> 'tag \<Rightarrow> 'al vec" where
  "vector_tagged mk tag = vector_with_alloc (mk tag)"

definition vector_count_value ::
  "('al, 'h) allocator_ops \<Rightarrow> cpp_type \<Rightarrow> size_t \<Rightarrow> 'e \<Rightarrow> 'al \<Rightarrow> ('h, 'e) store \<Rightarrow> ('al vec \<times> ('h, 'e) store) outcome" where
  "vector_count_value A T count value al st = vec_create A T al st (replicate (unat count) value)"

text \<open>\<open>dv\<close> is the default-inserted element.\<close>

definition vector_count ::
  "('al, 'h) allocator_ops \<Rightarrow> cpp_type \<Rightarrow> 'e \<Rightarrow> size_t \<Rightarrow> 'al \<Rightarrow> ('h, 'e) store \<Rightarrow> ('al vec \<times> ('h, 'e) store) outcome" where
  "vector_count A T dv count al st = vec_create A T al st (replicate (unat count) dv)"

text \<open>From a range of which the length is known, and from an initializer list.\<close>

definition vector_range ::
  "('al, 'h) allocator_ops \<Rightarrow> cpp_type \<Rightarrow> 'e list \<Rightarrow> 'al \<Rightarrow> ('h, 'e) store \<Rightarrow> ('al vec \<times> ('h, 'e) store) outcome" where
  "vector_range A T xs al st = vec_create A T al st xs"

definition vector_init ::
  "('al, 'h) allocator_ops \<Rightarrow> cpp_type \<Rightarrow> 'e list \<Rightarrow> 'al \<Rightarrow> ('h, 'e) store \<Rightarrow> ('al vec \<times> ('h, 'e) store) outcome" where
  "vector_init A T init al st = vec_create A T al st init"

text \<open>None of the allocators customises the allocator a copy is constructed with: it is a copy of the source's.\<close>

definition vector_copy ::
  "('al, 'h) allocator_ops \<Rightarrow> cpp_type \<Rightarrow> 'al vec \<Rightarrow> ('h, 'e) store \<Rightarrow> ('al vec \<times> ('h, 'e) store) outcome" where
  "vector_copy A T other st = out_bind (vec_elems T other st) (\<lambda>xs. vec_create A T (v_alloc other) st xs)"

text \<open>The new vector takes the block over; the source is left empty.\<close>

definition vector_move :: "'al vec \<Rightarrow> 'al vec \<times> 'al vec" where
  "vector_move other = (other, vector_with_alloc (v_alloc other))"

definition make_vector :: "'al \<Rightarrow> 'al vec" where
  "make_vector al = vector_with_alloc al"

subsection \<open>Assignment\<close>

text \<open>What \<^verbatim>\<open>operator=\<close> leaves behind: the exception it threw, if any, the target and the store.\<close>

definition thrown :: "cpp_error \<Rightarrow> bool" where
  "thrown e \<longleftrightarrow> e = Bad_Alloc \<or> e = Length_Error"

text \<open>
  \<open>vec_assign\<close> gives \<open>v\<close> the elements \<open>xs\<close>: in place if they fit, otherwise in a new block, the old one being
  released only when the new one is filled.
\<close>

definition vec_assign ::
  "('al, 'h) allocator_ops \<Rightarrow> cpp_type \<Rightarrow> 'al vec \<Rightarrow> 'e list \<Rightarrow> ('h, 'e) store \<Rightarrow> (cpp_error option \<times> 'al vec \<times> ('h, 'e) store) outcome" where
  "vec_assign A T v xs st =
     (if v_cap v < length xs
      then (case vec_create A T (v_alloc v) st xs of
              Inl e \<Rightarrow> if thrown e then Inr (Some e, v, st) else Inl e
            | Inr (v', st') \<Rightarrow> Inr (None, v', vec_release A T v st'))
      else Inr (None, v\<lparr>v_size := length xs\<rparr>,
                st\<lparr>cells := put_elems (esize T) (unat (v_data v)) xs
                              (clear_elems (esize T) (unat (v_data v)) (v_size v) (cells st))\<rparr>))"

definition vector_assign_copy ::
  "('al, 'h) allocator_ops \<Rightarrow> cpp_type \<Rightarrow> 'al vec \<Rightarrow> 'al vec \<Rightarrow> ('h, 'e) store \<Rightarrow> (cpp_error option \<times> 'al vec \<times> ('h, 'e) store) outcome" where
  "vector_assign_copy A T v other st =
     out_bind (vec_elems T other st) (\<lambda>xs.
       if on_copy_assignment (ao_traits A) \<and> \<not> ao_equal A (v_alloc v) (v_alloc other)
       then vec_assign A T (vector_with_alloc (v_alloc other)) xs (vec_release A T v st)
       else vec_assign A T (if on_copy_assignment (ao_traits A) then v\<lparr>v_alloc := v_alloc other\<rparr> else v) xs st)"

text \<open>
  Move assignment takes the block over when the allocator comes along or is equal, and otherwise moves the elements
  one by one, for which it may have to allocate; the operator is \<^verbatim>\<open>noexcept\<close>.
\<close>

definition vector_assign_move ::
  "('al, 'h) allocator_ops \<Rightarrow> cpp_type \<Rightarrow> 'al vec \<Rightarrow> 'al vec \<Rightarrow> ('h, 'e) store \<Rightarrow> ('al vec \<times> 'al vec \<times> ('h, 'e) store) outcome" where
  "vector_assign_move A T v other st =
     (if on_move_assignment (ao_traits A) \<or> ao_equal A (v_alloc v) (v_alloc other)
      then Inr (other\<lparr>v_alloc := if on_move_assignment (ao_traits A) then v_alloc other else v_alloc v\<rparr>,
                vector_with_alloc (v_alloc other), vec_release A T v st)
      else out_bind (vec_elems T other st) (\<lambda>xs.
             out_bind (vec_assign A T v xs st) (\<lambda>(ex, v', st').
               if ex \<noteq> None then Inl Terminated
               else Inr (v', other\<lparr>v_size := 0\<rparr>,
                         st'\<lparr>cells := clear_elems (esize T) (unat (v_data other)) (v_size other) (cells st')\<rparr>))))"

section \<open>Programs with several vectors\<close>

text \<open>
  The vectors in scope, by name, and the store they share. A constructor that throws leaves its variable out of
  scope. Move assignment of a vector to itself, which the language leaves unspecified, is not an operation.
\<close>

record ('al, 'h, 'e) vprog =
  vars :: "nat \<Rightarrow> 'al vec option"
  vstore :: "('h, 'e) store"

datatype ('al, 'e) vop =
    V_Empty nat 'al
  | V_Make nat 'al "'e list"
  | V_Copy nat nat
  | V_Move nat nat
  | V_Assign nat nat
  | V_Assign_Move nat nat
  | V_Destroy nat

fun vop_ok :: "('al \<Rightarrow> bool) \<Rightarrow> ('al, 'h, 'e) vprog \<Rightarrow> ('al, 'e) vop \<Rightarrow> bool" where
  "vop_ok usable s (V_Empty i al) \<longleftrightarrow> vars s i = None \<and> usable al"
| "vop_ok usable s (V_Make i al xs) \<longleftrightarrow> vars s i = None \<and> usable al"
| "vop_ok usable s (V_Copy i j) \<longleftrightarrow> vars s i = None \<and> vars s j \<noteq> None"
| "vop_ok usable s (V_Move i j) \<longleftrightarrow> vars s i = None \<and> vars s j \<noteq> None"
| "vop_ok usable s (V_Assign i j) \<longleftrightarrow> vars s i \<noteq> None \<and> vars s j \<noteq> None"
| "vop_ok usable s (V_Assign_Move i j) \<longleftrightarrow> i \<noteq> j \<and> vars s i \<noteq> None \<and> vars s j \<noteq> None"
| "vop_ok usable s (V_Destroy i) \<longleftrightarrow> vars s i \<noteq> None"

definition var_at :: "('al, 'h, 'e) vprog \<Rightarrow> nat \<Rightarrow> 'al vec outcome" where
  "var_at s i = (case vars s i of None \<Rightarrow> Inl Dead_Object | Some v \<Rightarrow> Inr v)"

definition construct :: "('al, 'h, 'e) vprog \<Rightarrow> nat \<Rightarrow> ('al vec \<times> ('h, 'e) store) outcome \<Rightarrow> (cpp_error option \<times> ('al, 'h, 'e) vprog) outcome" where
  "construct s i r =
     (case r of
        Inl e \<Rightarrow> if thrown e then Inr (Some e, s) else Inl e
      | Inr (v, st) \<Rightarrow> Inr (None, \<lparr>vars = (vars s)(i \<mapsto> v), vstore = st\<rparr>))"

fun vec_step :: "('al, 'h) allocator_ops \<Rightarrow> cpp_type \<Rightarrow> ('al, 'h, 'e) vprog \<Rightarrow> ('al, 'e) vop \<Rightarrow> (cpp_error option \<times> ('al, 'h, 'e) vprog) outcome" where
  "vec_step A T s (V_Empty i al) = Inr (None, s\<lparr>vars := (vars s)(i \<mapsto> vector_with_alloc al)\<rparr>)"
| "vec_step A T s (V_Make i al xs) = construct s i (vector_range A T xs al (vstore s))"
| "vec_step A T s (V_Copy i j) = out_bind (var_at s j) (\<lambda>w. construct s i (vector_copy A T w (vstore s)))"
| "vec_step A T s (V_Move i j) = out_bind (var_at s j) (\<lambda>w.
     let (v, w') = vector_move w in Inr (None, s\<lparr>vars := (vars s)(i \<mapsto> v, j \<mapsto> w')\<rparr>))"
| "vec_step A T s (V_Assign i j) = out_bind (var_at s i) (\<lambda>v. out_bind (var_at s j) (\<lambda>w.
     if i = j then Inr (None, s)
     else out_bind (vector_assign_copy A T v w (vstore s)) (\<lambda>(ex, v', st).
            Inr (ex, \<lparr>vars = (vars s)(i \<mapsto> v'), vstore = st\<rparr>))))"
| "vec_step A T s (V_Assign_Move i j) = out_bind (var_at s i) (\<lambda>v. out_bind (var_at s j) (\<lambda>w.
     out_bind (vector_assign_move A T v w (vstore s)) (\<lambda>(v', w', st).
       Inr (None, \<lparr>vars = (vars s)(i \<mapsto> v', j \<mapsto> w'), vstore = st\<rparr>))))"
| "vec_step A T s (V_Destroy i) = out_bind (var_at s i) (\<lambda>v.
     Inr (None, \<lparr>vars = (vars s)(i := None), vstore = vec_release A T v (vstore s)\<rparr>))"

definition prog_start :: "'h \<Rightarrow> ('al, 'h, 'e) vprog" where
  "prog_start h = \<lparr>vars = (\<lambda>_. None), vstore = \<lparr>heap = h, cells = (\<lambda>_. None)\<rparr>\<rparr>"

inductive vec_reach :: "('al, 'h) allocator_ops \<Rightarrow> cpp_type \<Rightarrow> ('al \<Rightarrow> bool) \<Rightarrow> 'h \<Rightarrow> ('al, 'h, 'e) vprog \<Rightarrow> bool"
  for A T usable h where
  start: "vec_reach A T usable h (prog_start h)"
| step: "vec_reach A T usable h s \<Longrightarrow> vop_ok usable s op \<Longrightarrow> vec_step A T s op = Inr (ex, s') \<Longrightarrow> vec_reach A T usable h s'"

text \<open>The lists the vectors stand for, and what each operation does to them.\<close>

definition contents :: "cpp_type \<Rightarrow> ('al, 'h, 'e) vprog \<Rightarrow> nat \<Rightarrow> 'e list option" where
  "contents T s i = (case vars s i of None \<Rightarrow> None | Some v \<Rightarrow> (case vec_elems T v (vstore s) of Inl e \<Rightarrow> None | Inr xs \<Rightarrow> Some xs))"

fun vop_spec :: "('al, 'e) vop \<Rightarrow> (nat \<Rightarrow> 'e list option) \<Rightarrow> (nat \<Rightarrow> 'e list option)" where
  "vop_spec (V_Empty i al) c = c(i \<mapsto> [])"
| "vop_spec (V_Make i al xs) c = c(i \<mapsto> xs)"
| "vop_spec (V_Copy i j) c = c(i := c j)"
| "vop_spec (V_Move i j) c = c(i := c j, j \<mapsto> [])"
| "vop_spec (V_Assign i j) c = c(i := c j)"
| "vop_spec (V_Assign_Move i j) c = c(i := c j, j \<mapsto> [])"
| "vop_spec (V_Destroy i) c = c(i := None)"

section \<open>Memory\<close>

lemma put_elems_outside: "x < a \<or> a + length xs * sz \<le> x \<Longrightarrow> 0 < sz \<Longrightarrow> put_elems sz a xs m x = m x"
  by (induction sz a xs m rule: put_elems.induct) auto

lemma clear_elems_outside: "x < a \<or> a + n * sz \<le> x \<Longrightarrow> 0 < sz \<Longrightarrow> clear_elems sz a n m x = m x"
  by (induction sz a n m rule: clear_elems.induct) auto

lemma read_elems_cong:
  "(\<And>x. a \<le> x \<Longrightarrow> x < a + n * sz \<Longrightarrow> m x = m' x) \<Longrightarrow> 0 < sz \<Longrightarrow> read_elems sz a n m = read_elems sz a n m'"
proof (induction sz a n m rule: read_elems.induct)
  case (2 sz a n m)
  have "m a = m' a"
    using 2 by simp
  moreover have "read_elems sz (a + sz) n m = read_elems sz (a + sz) n m'" if "m a = Some y" for y
    using that 2 by simp
  ultimately show ?case
    by (simp split: option.split)
qed simp

lemma read_put_elems: "0 < sz \<Longrightarrow> read_elems sz a (length xs) (put_elems sz a xs m) = Inr xs"
  by (induction sz a xs m rule: put_elems.induct) (simp_all add: put_elems_outside)

lemma read_elems_length: "read_elems sz a n m = Inr xs \<Longrightarrow> length xs = n"
  by (induction sz a n m arbitrary: xs rule: read_elems.induct) (auto simp: out_bind_Inr_iff split: option.splits)

section \<open>What a container needs of its allocator\<close>

text \<open>
  A block is its first address and its length in bytes. \<open>good h B\<close> says that the heap is well formed and that the
  blocks \<open>B\<close> are in use; \<open>usable al\<close> that the allocator points to one of its arenas. A request that a container may make
  either fails with \<^verbatim>\<open>std::bad_alloc\<close> or yields a block apart from all in use.
\<close>

definition range_of :: "nat \<times> nat \<Rightarrow> nat set" where
  "range_of b = {fst b ..< fst b + snd b}"

locale container_allocator =
  fixes A :: "('al, 'h) allocator_ops"
    and T :: cpp_type
    and usable :: "'al \<Rightarrow> bool"
    and good :: "'h \<Rightarrow> (nat \<times> nat) set \<Rightarrow> bool"
  assumes good_size: "good h B \<Longrightarrow> 0 < esize T"
    and good_subset: "good h B \<Longrightarrow> C \<subseteq> B \<Longrightarrow> good h C"
    and allocate_law: "good h B \<Longrightarrow> usable al \<Longrightarrow> 0 < n \<Longrightarrow> n \<le> vec_max_size T \<Longrightarrow>
      (case ao_allocate A al h (of_nat n) of
         Inl e \<Rightarrow> e = Bad_Alloc
       | Inr (p, h') \<Rightarrow> p \<noteq> nullptr \<and> good h' (insert (unat p, n * esize T) B) \<and>
           (\<forall>b \<in> B. range_of (unat p, n * esize T) \<inter> range_of b = {}))"
    and deallocate_law: "good h B \<Longrightarrow> usable al \<Longrightarrow> (unat p, n * esize T) \<in> B \<Longrightarrow>
      good (ao_deallocate A al h p (of_nat n)) (B - {(unat p, n * esize T)})"

definition vec_block :: "cpp_type \<Rightarrow> 'al vec \<Rightarrow> (nat \<times> nat) set" where
  "vec_block T v = (if v_cap v = 0 then {} else {(unat (v_data v), v_cap v * esize T)})"

definition vec_range :: "cpp_type \<Rightarrow> 'al vec \<Rightarrow> nat set" where
  "vec_range T v = {unat (v_data v) ..< unat (v_data v) + v_cap v * esize T}"

definition blocks_range :: "(nat \<times> nat) set \<Rightarrow> nat set" where
  "blocks_range B = (\<Union>b \<in> B. range_of b)"

text \<open>\<open>v\<close> is a vector of the store whose block is apart from the blocks \<open>B\<close>.\<close>

definition vec_owns ::
  "('al \<Rightarrow> bool) \<Rightarrow> ('h \<Rightarrow> (nat \<times> nat) set \<Rightarrow> bool) \<Rightarrow> cpp_type \<Rightarrow> ('h, 'e) store \<Rightarrow> 'al vec \<Rightarrow> (nat \<times> nat) set \<Rightarrow> bool" where
  "vec_owns usable good T st v B \<longleftrightarrow>
     good (heap st) (vec_block T v \<union> B) \<and> usable (v_alloc v) \<and>
     v_size v \<le> v_cap v \<and> v_cap v \<le> vec_max_size T \<and> (0 < v_cap v \<longrightarrow> v_data v \<noteq> nullptr) \<and>
     (\<exists>xs. vec_elems T v st = Inr xs) \<and> vec_range T v \<inter> blocks_range B = {}"

lemma elems_within: "n \<le> c \<Longrightarrow> x < a + n * sz \<Longrightarrow> x < a + c * (sz :: nat)"
  by (meson add_left_mono mult_le_mono1 order_less_le_trans)

lemma vec_elems_cong:
  assumes "0 < esize T" "v_size v \<le> v_cap v" "\<And>x. x \<in> vec_range T v \<Longrightarrow> cells st x = cells st' x"
  shows "vec_elems T v st = vec_elems T v st'"
  unfolding vec_elems_def using assms
  by (intro read_elems_cong) (auto simp: vec_range_def intro: elems_within [OF assms(2)])

lemma clear_vec_outside:
  assumes "n \<le> v_cap v" "x \<notin> vec_range T v" "0 < esize T"
  shows "clear_elems (esize T) (unat (v_data v)) n m x = m x"
  using assms elems_within [OF assms(1), of x "unat (v_data v)" "esize T"] by (intro clear_elems_outside) (auto simp: vec_range_def not_less not_le)

lemma put_vec_outside:
  assumes "length xs \<le> v_cap v" "x \<notin> vec_range T v" "0 < esize T"
  shows "put_elems (esize T) (unat (v_data v)) xs m x = m x"
  using assms elems_within [OF assms(1), of x "unat (v_data v)" "esize T"] by (intro put_elems_outside) (auto simp: vec_range_def not_less not_le)

lemma vec_block_range: "blocks_range (vec_block T v) = vec_range T v"
  by (auto simp: vec_block_def blocks_range_def range_of_def vec_range_def)

lemma blocks_range_Un [simp]: "blocks_range (B \<union> C) = blocks_range B \<union> blocks_range C"
  by (auto simp: blocks_range_def)

lemma vec_empty_simps [simp]:
  "vec_block T (vector_with_alloc al) = {}"
  "vec_range T (vector_with_alloc al) = {}"
  "vec_elems T (vector_with_alloc al) st = Inr []"
  "vec_release A T (vector_with_alloc al) st = st"
  by (simp_all add: vec_block_def vec_range_def vec_elems_def vec_release_def vector_with_alloc_def)

context container_allocator
begin

abbreviation owns :: "('h, 'e) store \<Rightarrow> 'al vec \<Rightarrow> (nat \<times> nat) set \<Rightarrow> bool" where
  "owns \<equiv> vec_owns usable good T"

lemma ownsD:
  assumes "owns st v B"
  shows "good (heap st) (vec_block T v \<union> B)" "usable (v_alloc v)" "v_size v \<le> v_cap v" "v_cap v \<le> vec_max_size T"
    "vec_range T v \<inter> blocks_range B = {}" "0 < esize T" "good (heap st) B"
proof -
  show "good (heap st) (vec_block T v \<union> B)"
    using assms by (simp add: vec_owns_def)
  then show "0 < esize T" "good (heap st) B"
    by (rule good_size, rule good_subset) simp
qed (use assms in \<open>simp_all add: vec_owns_def\<close>)

lemma empty_owns: "good (heap st) B \<Longrightarrow> usable al \<Longrightarrow> owns st (vector_with_alloc al) B"
  by (simp add: vec_owns_def) (simp add: vector_with_alloc_def)

text \<open>Releasing a vector touches nobody else's memory.\<close>

lemma release_law:
  assumes o: "owns st v B"
  shows "good (heap (vec_release A T v st)) B \<and>
         (\<forall>x. x \<notin> vec_range T v \<longrightarrow> cells (vec_release A T v st) x = cells st x)"
proof (cases "v_cap v = 0")
  case True
  then show ?thesis
    using ownsD [OF o] by (simp add: vec_release_def)
next
  case False
  let ?b = "(unat (v_data v), v_cap v * esize T)"
  have b: "vec_block T v = {?b}"
    using False by (simp add: vec_block_def)
  have "?b \<notin> B"
  proof
    assume "?b \<in> B"
    then have "vec_range T v \<subseteq> blocks_range B"
      by (force simp: blocks_range_def range_of_def vec_range_def)
    moreover have "unat (v_data v) \<in> vec_range T v"
      using False ownsD(6) [OF o] by (simp add: vec_range_def)
    ultimately show False
      using ownsD(5) [OF o] by blast
  qed
  then have "good (ao_deallocate A (v_alloc v) (heap st) (v_data v) (of_nat (v_cap v))) B"
    using deallocate_law [OF ownsD(1,2) [OF o], of "v_data v" "v_cap v"] b by simp
  moreover have "cells (vec_release A T v st) x = cells st x" if "x \<notin> vec_range T v" for x
    using False clear_vec_outside [OF ownsD(3) [OF o] that ownsD(6) [OF o]] by (simp add: vec_release_def)
  ultimately show ?thesis
    using False by (simp add: vec_release_def)
qed

lemma create_law:
  assumes g: "good (heap st) B" and u: "usable al"
  shows "case vec_create A T al st xs of
           Inl e \<Rightarrow> e = Bad_Alloc \<or> e = Length_Error \<and> vec_max_size T < length xs
         | Inr (v, st') \<Rightarrow> owns st' v B \<and> vec_elems T v st' = Inr xs \<and> v_alloc v = al \<and>
             (\<forall>x \<in> blocks_range B. cells st' x = cells st x)"
proof (cases "vec_max_size T < length xs \<or> xs = []")
  case True
  then show ?thesis
    using empty_owns [OF g u] by (auto simp: vec_create_def vector_with_alloc_def vec_elems_def Let_def)
next
  case False
  let ?n = "length xs"
  have n: "0 < ?n" "?n \<le> vec_max_size T" "\<not> vec_max_size T < ?n" "xs \<noteq> []"
    using False by auto
  note law = allocate_law [OF g u n(1,2)]
  show ?thesis
  proof (cases "ao_allocate A al (heap st) (of_nat ?n)")
    case (Inl e)
    then show ?thesis
      using law n by (simp add: vec_create_def Let_def)
  next
    case (Inr ph)
    obtain p h where ph: "ph = (p, h)" by (cases ph)
    let ?v = "\<lparr>v_data = p, v_size = ?n, v_cap = ?n, v_alloc = al\<rparr>"
    let ?st = "\<lparr>heap = h, cells = put_elems (esize T) (unat p) xs (cells st)\<rparr>"
    have l: "p \<noteq> nullptr" "good h (insert (unat p, ?n * esize T) B)" "\<forall>b \<in> B. range_of (unat p, ?n * esize T) \<inter> range_of b = {}"
      using law Inr ph by simp_all
    have apart: "vec_range T ?v \<inter> blocks_range B = {}"
      using l(3) by (auto simp: vec_range_def blocks_range_def range_of_def)
    have el: "vec_elems T ?v ?st = Inr xs"
      using read_put_elems [OF good_size [OF g]] by (simp add: vec_elems_def)
    have "owns ?st ?v B"
      using l(1,2) u n(2,4) apart el by (auto simp: vec_owns_def vec_block_def)
    moreover have "cells ?st x = cells st x" if "x \<in> blocks_range B" for x
      using that apart good_size [OF g] put_vec_outside [of xs ?v x T "cells st"] by auto
    ultimately show ?thesis
      using Inr ph n el by (simp add: vec_create_def Let_def)
  qed
qed

text \<open>What is left alone keeps its owner.\<close>

lemma owns_frame:
  assumes o: "owns st v B" and g: "good (heap st') (vec_block T v \<union> C)"
    and c: "\<And>x. x \<in> vec_range T v \<Longrightarrow> cells st' x = cells st x" and d: "vec_range T v \<inter> blocks_range C = {}"
  shows "owns st' v C \<and> vec_elems T v st' = vec_elems T v st"
proof -
  have "vec_elems T v st' = vec_elems T v st"
    using ownsD [OF o] c by (intro vec_elems_cong) auto
  then show ?thesis
    using o g d by (simp add: vec_owns_def)
qed

lemma owns_size: "owns st v B \<Longrightarrow> vec_elems T v st = Inr xs \<Longrightarrow> length xs = v_size v \<and> length xs \<le> vec_max_size T"
  using ownsD(3,4) read_elems_length unfolding vec_elems_def by fastforce

lemma assign_law:
  assumes o: "owns st v B" and len: "length xs \<le> vec_max_size T"
  shows "\<exists>ex v' st'. vec_assign A T v xs st = Inr (ex, v', st') \<and> owns st' v' B \<and> v_alloc v' = v_alloc v \<and>
           (\<forall>x \<in> blocks_range B. cells st' x = cells st x) \<and>
           (case ex of None \<Rightarrow> vec_elems T v' st' = Inr xs
            | Some e \<Rightarrow> e = Bad_Alloc \<and> v_cap v < length xs \<and> v' = v \<and> st' = st)"
proof (cases "v_cap v < length xs")
  case True
  note law = create_law [OF ownsD(1,2) [OF o], of xs]
  show ?thesis
  proof (cases "vec_create A T (v_alloc v) st xs")
    case (Inl e)
    then have "e = Bad_Alloc"
      using law len by auto
    then show ?thesis
      using True Inl o by (simp add: vec_assign_def thrown_def)
  next
    case (Inr vs)
    obtain v' st1 where vs: "vs = (v', st1)" by (cases vs)
    let ?st = "vec_release A T v st1"
    have l: "owns st1 v' (vec_block T v \<union> B)" "vec_elems T v' st1 = Inr xs" "v_alloc v' = v_alloc v"
      "\<And>x. x \<in> vec_range T v \<union> blocks_range B \<Longrightarrow> cells st1 x = cells st x"
      using law Inr vs by (auto simp: vec_block_range)
    have d: "vec_range T v' \<inter> vec_range T v = {}" "vec_range T v' \<inter> blocks_range B = {}"
      using ownsD(5) [OF l(1)] by (auto simp: vec_block_range)
    have "owns st1 v (vec_block T v' \<union> B)"
      using l(1,4) d ownsD(1) [OF l(1)] ownsD(5) [OF o]
      by (intro owns_frame [OF o, THEN conjunct1]) (auto simp: vec_block_range Un_left_commute)
    from release_law [OF this] have r: "good (heap ?st) (vec_block T v' \<union> B)"
      "\<And>x. x \<notin> vec_range T v \<Longrightarrow> cells ?st x = cells st1 x"
      by auto
    have "owns ?st v' B \<and> vec_elems T v' ?st = vec_elems T v' st1"
      using r d by (intro owns_frame [OF l(1)]) auto
    moreover have "cells ?st x = cells st x" if "x \<in> blocks_range B" for x
      using that r(2) l(4) ownsD(5) [OF o] by fastforce
    ultimately show ?thesis
      using True Inr vs l(2,3) by (simp add: vec_assign_def)
  qed
next
  case False
  let ?v = "v\<lparr>v_size := length xs\<rparr>"
  let ?m = "clear_elems (esize T) (unat (v_data v)) (v_size v) (cells st)"
  let ?st = "st\<lparr>cells := put_elems (esize T) (unat (v_data v)) xs ?m\<rparr>"
  have "vec_block T ?v = vec_block T v" "vec_range T ?v = vec_range T v"
    by (simp_all add: vec_block_def vec_range_def)
  moreover have "vec_elems T ?v ?st = Inr xs"
    using read_put_elems [OF ownsD(6) [OF o]] by (simp add: vec_elems_def)
  moreover have "cells ?st x = cells st x" if "x \<in> blocks_range B" for x
  proof -
    have "x \<notin> vec_range T v"
      using that ownsD(5) [OF o] by blast
    then show ?thesis
      using False put_vec_outside [of xs v x T ?m] clear_vec_outside [OF ownsD(3) [OF o], of x T] ownsD(6) [OF o] by simp
  qed
  ultimately show ?thesis
    using False o by (simp add: vec_assign_def vec_owns_def)
qed

lemma assign_copy_law:
  assumes o: "owns st v B" and w: "usable (v_alloc w)" "vec_elems T w st = Inr xs" "length xs \<le> vec_max_size T"
  shows "\<exists>ex v' st'. vector_assign_copy A T v w st = Inr (ex, v', st') \<and> owns st' v' B \<and>
           (\<forall>x \<in> blocks_range B. cells st' x = cells st x) \<and>
           (case ex of None \<Rightarrow> vec_elems T v' st' = Inr xs
            | Some e \<Rightarrow> e = Bad_Alloc \<and>
                vec_elems T v' st' = (if on_copy_assignment (ao_traits A) \<and> \<not> ao_equal A (v_alloc v) (v_alloc w)
                                      then Inr [] else vec_elems T v st))"
proof (cases "on_copy_assignment (ao_traits A) \<and> \<not> ao_equal A (v_alloc v) (v_alloc w)")
  case True
  let ?st = "vec_release A T v st"
  note r = release_law [OF o]
  have "owns ?st (vector_with_alloc (v_alloc w)) B"
    using r w(1) by (intro empty_owns) auto
  from assign_law [OF this w(3)] obtain ex v' st' where
    a: "vec_assign A T (vector_with_alloc (v_alloc w)) xs ?st = Inr (ex, v', st')" "owns st' v' B"
       "\<forall>x \<in> blocks_range B. cells st' x = cells ?st x"
       "case ex of None \<Rightarrow> vec_elems T v' st' = Inr xs
        | Some e \<Rightarrow> e = Bad_Alloc \<and> v_cap (vector_with_alloc (v_alloc w)) < length xs \<and>
            v' = vector_with_alloc (v_alloc w) \<and> st' = ?st"
    by blast
  have "cells st' x = cells st x" if "x \<in> blocks_range B" for x
    using that a(3) r ownsD(5) [OF o] by (metis disjoint_iff)
  with True a w(2) show ?thesis
    by (auto simp: vector_assign_copy_def split: option.split)
next
  case False
  define v1 where "v1 = (if on_copy_assignment (ao_traits A) then v\<lparr>v_alloc := v_alloc w\<rparr> else v)"
  have same: "vec_block T v1 = vec_block T v" "vec_range T v1 = vec_range T v" "vec_elems T v1 st = vec_elems T v st"
    by (simp_all add: v1_def vec_block_def vec_range_def vec_elems_def)
  then have "owns st v1 B"
    using o w(1) by (auto simp: vec_owns_def v1_def)
  from assign_law [OF this w(3)] obtain ex v' st' where
    a: "vec_assign A T v1 xs st = Inr (ex, v', st')" "owns st' v' B" "\<forall>x \<in> blocks_range B. cells st' x = cells st x"
       "case ex of None \<Rightarrow> vec_elems T v' st' = Inr xs | Some e \<Rightarrow> e = Bad_Alloc \<and> v_cap v1 < length xs \<and> v' = v1 \<and> st' = st"
    by blast
  have "vector_assign_copy A T v w st = vec_assign A T v1 xs st"
    using False w(2) by (auto simp: vector_assign_copy_def v1_def)
  with a False same(3) show ?thesis
    by (auto split: option.splits)
qed

lemma assign_move_law:
  assumes v: "owns st v (vec_block T w \<union> B)" and w: "owns st w (vec_block T v \<union> B)"
  shows "case vector_assign_move A T v w st of
           Inl e \<Rightarrow> e = Terminated \<and> \<not> on_move_assignment (ao_traits A) \<and> \<not> ao_equal A (v_alloc v) (v_alloc w) \<and> v_cap v < v_size w
         | Inr (v', w', st') \<Rightarrow> owns st' v' B \<and> owns st' w' (vec_block T v' \<union> B) \<and>
             (\<forall>x \<in> blocks_range B. cells st' x = cells st x) \<and>
             vec_elems T v' st' = vec_elems T w st \<and> vec_elems T w' st' = Inr []"
proof (cases "on_move_assignment (ao_traits A) \<or> ao_equal A (v_alloc v) (v_alloc w)")
  case True
  let ?st = "vec_release A T v st"
  define v' where "v' = w\<lparr>v_alloc := if on_move_assignment (ao_traits A) then v_alloc w else v_alloc v\<rparr>"
  from release_law [OF v] have r: "good (heap ?st) (vec_block T w \<union> B)"
    "\<And>x. x \<notin> vec_range T v \<Longrightarrow> cells ?st x = cells st x" by auto
  have d: "vec_range T w \<inter> vec_range T v = {}" "vec_range T w \<inter> blocks_range B = {}" "vec_range T v \<inter> blocks_range B = {}"
    using ownsD(5) [OF w] ownsD(5) [OF v] by (auto simp: vec_block_range)
  have "owns ?st w B \<and> vec_elems T w ?st = vec_elems T w st"
    using r d by (intro owns_frame [OF w]) auto
  moreover have same: "vec_block T v' = vec_block T w" "vec_range T v' = vec_range T w" "vec_elems T v' ?st = vec_elems T w ?st"
    by (simp_all add: v'_def vec_block_def vec_range_def vec_elems_def)
  ultimately have "owns ?st v' B" "vec_elems T v' ?st = vec_elems T w st"
    using ownsD(2) [OF v] by (auto simp: vec_owns_def v'_def)
  moreover have "owns ?st (vector_with_alloc (v_alloc w)) (vec_block T v' \<union> B)"
    using r(1) same ownsD(2) [OF w] by (intro empty_owns) auto
  moreover have "cells ?st x = cells st x" if "x \<in> blocks_range B" for x
    using that r(2) d(3) by blast
  ultimately show ?thesis
    using True by (simp add: vector_assign_move_def v'_def [symmetric])
next
  case False
  obtain xs where xs: "vec_elems T w st = Inr xs"
    using w by (auto simp: vec_owns_def)
  have len: "length xs = v_size w" "length xs \<le> vec_max_size T"
    using owns_size [OF w xs] by auto
  from assign_law [OF v len(2)] obtain ex v' st1 where
    a: "vec_assign A T v xs st = Inr (ex, v', st1)" "owns st1 v' (vec_block T w \<union> B)"
       "\<And>x. x \<in> vec_range T w \<union> blocks_range B \<Longrightarrow> cells st1 x = cells st x"
       "case ex of None \<Rightarrow> vec_elems T v' st1 = Inr xs | Some e \<Rightarrow> e = Bad_Alloc \<and> v_cap v < length xs \<and> v' = v \<and> st1 = st"
    by (auto simp: vec_block_range)
  show ?thesis
  proof (cases ex)
    case (Some e)
    then show ?thesis
      using False xs a(1,4) len(1) by (simp add: vector_assign_move_def)
  next
    case None
    let ?w = "w\<lparr>v_size := 0\<rparr>"
    let ?st = "st1\<lparr>cells := clear_elems (esize T) (unat (v_data w)) (v_size w) (cells st1)\<rparr>"
    have d: "vec_range T v' \<inter> vec_range T w = {}" "vec_range T v' \<inter> blocks_range B = {}" "vec_range T w \<inter> blocks_range B = {}"
      using ownsD(5) [OF a(2)] ownsD(5) [OF w] by (auto simp: vec_block_range)
    have c: "cells ?st x = cells st1 x" if "x \<notin> vec_range T w" for x
      using clear_vec_outside [OF ownsD(3) [OF w] that ownsD(6) [OF w]] by simp
    have g: "good (heap ?st) (vec_block T w \<union> (vec_block T v' \<union> B))"
      using ownsD(1) [OF a(2)] by (simp add: Un_left_commute)
    then have "good (heap ?st) (vec_block T v' \<union> B)"
      by (rule good_subset) auto
    then have "owns ?st v' B \<and> vec_elems T v' ?st = vec_elems T v' st1"
      using c d by (intro owns_frame [OF a(2)]) auto
    moreover have same: "vec_block T ?w = vec_block T w" "vec_range T ?w = vec_range T w" "vec_elems T ?w ?st = Inr []"
      by (simp_all add: vec_block_def vec_range_def vec_elems_def)
    moreover have "vec_range T w \<inter> blocks_range (vec_block T v' \<union> B) = {}"
      using d by (auto simp: vec_block_range)
    then have "owns ?st ?w (vec_block T v' \<union> B)"
      using g same w by (simp add: vec_owns_def)
    moreover have "cells ?st x = cells st x" if "x \<in> blocks_range B" for x
    proof -
      have "x \<notin> vec_range T w"
        using that d(3) by blast
      then show ?thesis
        using c a(3) [of x] that by simp
    qed
    ultimately show ?thesis
      using False xs a(1,4) None by (simp add: vector_assign_move_def)
  qed
qed

end

section \<open>Programs of vectors\<close>

definition blocks_of :: "cpp_type \<Rightarrow> (nat \<Rightarrow> 'al vec option) \<Rightarrow> (nat \<times> nat) set" where
  "blocks_of T vs = (\<Union>i. case vs i of None \<Rightarrow> {} | Some v \<Rightarrow> vec_block T v)"

lemma blocks_of_upd: "vs i = None \<Longrightarrow> blocks_of T (vs(i \<mapsto> v)) = vec_block T v \<union> blocks_of T vs"
  unfolding blocks_of_def by (fastforce split: if_splits option.splits)

lemma blocks_of_del: "vs i = Some v \<Longrightarrow> blocks_of T vs = vec_block T v \<union> blocks_of T (vs(i := None))"
  using blocks_of_upd [of "vs(i := None)" i T v] by (simp add: fun_upd_idem)

lemma blocks_of_mem: "vs i = Some v \<Longrightarrow> vec_range T v \<subseteq> blocks_range (blocks_of T vs)"
  using blocks_of_del [of vs i v T] by (auto simp: vec_block_range)

definition prog_inv ::
  "('al \<Rightarrow> bool) \<Rightarrow> ('h \<Rightarrow> (nat \<times> nat) set \<Rightarrow> bool) \<Rightarrow> cpp_type \<Rightarrow> (nat \<Rightarrow> 'al vec option) \<Rightarrow> ('h, 'e) store \<Rightarrow> bool" where
  "prog_inv usable good T vs st \<longleftrightarrow>
     good (heap st) (blocks_of T vs) \<and> (\<forall>i v. vs i = Some v \<longrightarrow> vec_owns usable good T st v (blocks_of T (vs(i := None))))"

abbreviation lists :: "cpp_type \<Rightarrow> (nat \<Rightarrow> 'al vec option) \<Rightarrow> ('h, 'e) store \<Rightarrow> nat \<Rightarrow> 'e list option" where
  "lists T vs st \<equiv> contents T \<lparr>vars = vs, vstore = st\<rparr>"

lemma contents_eq: "contents T s = lists T (vars s) (vstore s)"
  by (simp add: contents_def fun_eq_iff split: option.split)

lemma contents_upd:
  "vec_elems T v st = Inr xs \<Longrightarrow> lists T (vs(i \<mapsto> v)) st = (lists T vs st)(i \<mapsto> xs)"
  by (simp add: contents_def fun_eq_iff split: option.split)

lemma contents_del: "lists T (vs(i := None)) st = (lists T vs st)(i := None)"
  by (simp add: contents_def fun_eq_iff split: option.split)

context container_allocator
begin

abbreviation inv :: "(nat \<Rightarrow> 'al vec option) \<Rightarrow> ('h, 'e) store \<Rightarrow> bool" where
  "inv \<equiv> prog_inv usable good T"

lemma inv_elems:
  assumes "inv vs st" "vs i = Some v"
  obtains xs where "vec_elems T v st = Inr xs" "lists T vs st i = Some xs"
proof -
  have "owns st v (blocks_of T (vs(i := None)))"
    using assms by (simp add: prog_inv_def)
  then obtain xs where "vec_elems T v st = Inr xs"
    by (auto simp: vec_owns_def)
  with assms(2) that show thesis
    by (simp add: contents_def)
qed

text \<open>A store that agrees on the memory of the vectors serves as well.\<close>

lemma inv_frame:
  assumes i: "inv vs st" and g: "good (heap st') (blocks_of T vs)"
    and c: "\<And>x. x \<in> blocks_range (blocks_of T vs) \<Longrightarrow> cells st' x = cells st x"
  shows "inv vs st' \<and> lists T vs st' = lists T vs st"
proof -
  have o: "owns st' v (blocks_of T (vs(k := None))) \<and> vec_elems T v st' = vec_elems T v st" if "vs k = Some v" for k v
  proof -
    have own: "owns st v (blocks_of T (vs(k := None)))"
      using i that by (simp add: prog_inv_def)
    have g': "good (heap st') (vec_block T v \<union> blocks_of T (vs(k := None)))"
      using g blocks_of_del [of vs k v T, OF that] by simp
    show ?thesis
      using c blocks_of_mem [of vs k v T, OF that] by (intro owns_frame [OF own g' _ ownsD(5) [OF own]]) blast
  qed
  then have "lists T vs st' k = lists T vs st k" for k
    by (simp add: contents_def split: option.split)
  with o g show ?thesis
    by (auto simp: prog_inv_def)
qed

lemma inv_remove:
  assumes i: "inv vs st" and v: "vs k = Some v"
  shows "inv (vs(k := None)) st \<and> owns st v (blocks_of T (vs(k := None)))"
proof -
  have o: "owns st w (blocks_of T (vs(j := None)))" if "vs j = Some w" for j w
    using i that by (simp add: prog_inv_def)
  have "owns st w (blocks_of T ((vs(k := None))(j := None)))" if "(vs(k := None)) j = Some w" for j w
  proof -
    have j: "vs j = Some w" "j \<noteq> k"
      using that by (auto split: if_splits)
    have sub: "blocks_of T ((vs(k := None))(j := None)) \<subseteq> blocks_of T (vs(j := None))"
      by (auto simp: blocks_of_def split: if_splits option.splits)
    have "good (heap st) (vec_block T w \<union> blocks_of T ((vs(k := None))(j := None)))"
      using sub by (intro good_subset [OF ownsD(1) [OF o [OF j(1)]]]) auto
    moreover have "vec_range T w \<inter> blocks_range (blocks_of T ((vs(k := None))(j := None))) = {}"
      using sub ownsD(5) [OF o [OF j(1)]] unfolding blocks_range_def by blast
    ultimately show ?thesis
      using owns_frame [OF o [OF j(1)], of st] by simp
  qed
  moreover have "good (heap st) (blocks_of T (vs(k := None)))"
    using ownsD(7) [OF o [OF v]] .
  ultimately show ?thesis
    using o [OF v] by (simp add: prog_inv_def)
qed

lemma inv_add:
  assumes i: "inv vs st" and k: "vs k = None" and v: "owns st' v (blocks_of T vs)" "vec_elems T v st' = Inr xs"
    and c: "\<And>x. x \<in> blocks_range (blocks_of T vs) \<Longrightarrow> cells st' x = cells st x"
  shows "inv (vs(k \<mapsto> v)) st' \<and> lists T (vs(k \<mapsto> v)) st' = (lists T vs st)(k \<mapsto> xs)"
proof -
  have f: "inv vs st'" "lists T vs st' = lists T vs st"
    using inv_frame [OF i ownsD(7) [OF v(1)] c] by auto
  have all: "good (heap st') (vec_block T v \<union> blocks_of T vs)"
    by (rule ownsD(1) [OF v(1)])
  have "owns st' w (blocks_of T ((vs(k \<mapsto> v))(j := None)))" if "(vs(k \<mapsto> v)) j = Some w" for j w
  proof (cases "j = k")
    case True
    then show ?thesis
      using that v(1) k by (simp add: fun_upd_idem)
  next
    case False
    then have j: "vs j = Some w"
      using that by simp
    then have o: "owns st' w (blocks_of T (vs(j := None)))"
      using f(1) by (simp add: prog_inv_def)
    have eq: "blocks_of T ((vs(k \<mapsto> v))(j := None)) = vec_block T v \<union> blocks_of T (vs(j := None))"
      using False k by (simp add: fun_upd_twist [of k j] blocks_of_upd)
    have "vec_range T w \<inter> vec_range T v = {}"
      using ownsD(5) [OF v(1)] blocks_of_mem [of vs j w T, OF j] by blast
    then show ?thesis
      using owns_frame [OF o, of st' "blocks_of T ((vs(k \<mapsto> v))(j := None))"] all blocks_of_del [of vs j w T, OF j] ownsD(5) [OF o]
      by (simp add: eq vec_block_range Un_left_commute Int_Un_distrib)
  qed
  then show ?thesis
    using all f(2) v(2) k by (auto simp: prog_inv_def blocks_of_upd contents_upd)
qed

lemma construct_law:
  assumes i: "inv (vars s) (vstore s)" and k: "vars s k = None" and u: "usable al"
  shows "\<exists>ex s'. construct s k (vec_create A T al (vstore s) xs) = Inr (ex, s') \<and> inv (vars s') (vstore s') \<and>
           (case ex of None \<Rightarrow> contents T s' = (contents T s)(k \<mapsto> xs) | Some e \<Rightarrow> thrown e \<and> s' = s)"
proof -
  have g: "good (heap (vstore s)) (blocks_of T (vars s))"
    using i by (simp add: prog_inv_def)
  note law = create_law [OF g u, of xs]
  show ?thesis
  proof (cases "vec_create A T al (vstore s) xs")
    case (Inl e)
    then show ?thesis
      using law i by (auto simp: construct_def thrown_def)
  next
    case (Inr vs)
    obtain v st where vs: "vs = (v, st)" by (cases vs)
    then have "inv ((vars s)(k \<mapsto> v)) st \<and> lists T ((vars s)(k \<mapsto> v)) st = (lists T (vars s) (vstore s))(k \<mapsto> xs)"
      using law Inr by (intro inv_add [OF i k]) auto
    then show ?thesis
      using Inr vs by (simp add: construct_def contents_eq [of T s])
  qed
qed

lemma copy_law:
  assumes i: "inv (vars s) (vstore s)" and k: "vars s k = None" and j: "vars s j = Some w"
  shows "\<exists>ex s'. construct s k (vector_copy A T w (vstore s)) = Inr (ex, s') \<and> inv (vars s') (vstore s') \<and>
           (case ex of None \<Rightarrow> contents T s' = (contents T s)(k := contents T s j) | Some e \<Rightarrow> thrown e \<and> s' = s)"
proof -
  obtain xs where xs: "vec_elems T w (vstore s) = Inr xs" "contents T s j = Some xs"
    using inv_elems [OF i j] by (metis contents_eq)
  have u: "usable (v_alloc w)"
    by (rule ownsD(2) [OF inv_remove [OF i j, THEN conjunct2]])
  from construct_law [OF i k u, of xs] show ?thesis
    unfolding vector_copy_def xs out_bind_simps .
qed

lemma move_law:
  assumes i: "inv (vars s) (vstore s)" and k: "vars s k = None" and j: "vars s j = Some w"
  shows "inv ((vars s)(k \<mapsto> w, j \<mapsto> vector_with_alloc (v_alloc w))) (vstore s) \<and>
         lists T ((vars s)(k \<mapsto> w, j \<mapsto> vector_with_alloc (v_alloc w))) (vstore s) = (contents T s)(k := contents T s j, j \<mapsto> [])"
proof -
  let ?st = "vstore s" and ?vs = "(vars s)(j := None)"
  have ne: "k \<noteq> j"
    using k j by auto
  obtain xs where xs: "vec_elems T w ?st = Inr xs" "contents T s j = Some xs"
    using inv_elems [OF i j] by (metis contents_eq)
  note r = inv_remove [OF i j]
  have "inv (?vs(k \<mapsto> w)) ?st \<and> lists T (?vs(k \<mapsto> w)) ?st = (lists T ?vs ?st)(k \<mapsto> xs)"
    using r k xs ne by (intro inv_add) auto
  then have a: "inv (?vs(k \<mapsto> w)) ?st" "lists T (?vs(k \<mapsto> w)) ?st = (lists T ?vs ?st)(k \<mapsto> xs)"
    by auto
  have u: "usable (v_alloc w)"
    using r ownsD(2) by blast
  have g: "good (heap ?st) (blocks_of T (?vs(k \<mapsto> w)))"
    using a(1) by (simp add: prog_inv_def)
  have "inv (?vs(k \<mapsto> w, j \<mapsto> vector_with_alloc (v_alloc w))) ?st \<and>
        lists T (?vs(k \<mapsto> w, j \<mapsto> vector_with_alloc (v_alloc w))) ?st = (lists T (?vs(k \<mapsto> w)) ?st)(j \<mapsto> [])"
    using ne by (intro inv_add [OF a(1) _ empty_owns [OF g u]]) auto
  moreover have "?vs(k \<mapsto> w, j \<mapsto> v) = (vars s)(k \<mapsto> w, j \<mapsto> v)" for v
    using ne by (auto simp: fun_eq_iff)
  ultimately show ?thesis
    using a(2) xs(2) by (auto simp: contents_del contents_eq [of T s] fun_eq_iff)
qed

lemma assign_step_law:
  assumes i: "inv (vars s) (vstore s)" and k: "vars s k = Some v" and j: "vars s j = Some w" and ne: "k \<noteq> j"
  shows "\<exists>ex v' st. vector_assign_copy A T v w (vstore s) = Inr (ex, v', st) \<and> inv ((vars s)(k \<mapsto> v')) st \<and>
           (case ex of None \<Rightarrow> lists T ((vars s)(k \<mapsto> v')) st = (contents T s)(k := contents T s j)
            | Some e \<Rightarrow> thrown e \<and> (lists T ((vars s)(k \<mapsto> v')) st = contents T s \<or>
                on_copy_assignment (ao_traits A) \<and> \<not> ao_equal A (v_alloc v) (v_alloc w) \<and>
                lists T ((vars s)(k \<mapsto> v')) st = (contents T s)(k \<mapsto> [])))"
proof -
  let ?st = "vstore s" and ?vs = "(vars s)(k := None)"
  obtain xs where xs: "vec_elems T w ?st = Inr xs" "contents T s j = Some xs"
    using inv_elems [OF i j] by (metis contents_eq)
  obtain ys where ys: "vec_elems T v ?st = Inr ys" "contents T s k = Some ys"
    using inv_elems [OF i k] by (metis contents_eq)
  note rk = inv_remove [OF i k] and rj = inv_remove [OF i j]
  have u: "usable (v_alloc w)" and len: "length xs \<le> vec_max_size T"
    using rj ownsD(2) owns_size [OF _ xs(1)] by blast+
  from assign_copy_law [OF rk [THEN conjunct2] u xs(1) len] obtain ex v' st where
    a: "vector_assign_copy A T v w ?st = Inr (ex, v', st)" "owns st v' (blocks_of T ?vs)"
       "\<forall>x \<in> blocks_range (blocks_of T ?vs). cells st x = cells ?st x"
       "case ex of None \<Rightarrow> vec_elems T v' st = Inr xs
        | Some e \<Rightarrow> e = Bad_Alloc \<and> vec_elems T v' st = (if on_copy_assignment (ao_traits A) \<and> \<not> ao_equal A (v_alloc v) (v_alloc w)
                                      then Inr [] else vec_elems T v ?st)"
    by blast
  obtain zs where zs: "vec_elems T v' st = Inr zs"
    using a(2) by (auto simp: vec_owns_def)
  have upd: "?vs(k \<mapsto> v') = (vars s)(k \<mapsto> v')"
    by simp
  have "inv (?vs(k \<mapsto> v')) st \<and> lists T (?vs(k \<mapsto> v')) st = (lists T ?vs ?st)(k \<mapsto> zs)"
    using a(3) by (intro inv_add [OF rk [THEN conjunct1] _ a(2) zs]) auto
  then have b: "inv ((vars s)(k \<mapsto> v')) st" "lists T ((vars s)(k \<mapsto> v')) st = (contents T s)(k \<mapsto> zs)"
    unfolding upd by (simp_all add: contents_del contents_eq [of T s])
  show ?thesis
  proof (cases ex)
    case None
    then show ?thesis
      using a(1,4) b zs xs by simp
  next
    case (Some e)
    have "(contents T s)(k \<mapsto> ys) = contents T s"
      using ys(2) by (simp add: fun_upd_idem)
    then show ?thesis
      using a(1,4) b zs ys Some by (auto simp: thrown_def split: if_splits)
  qed
qed

lemma assign_move_step_law:
  assumes i: "inv (vars s) (vstore s)" and k: "vars s k = Some v" and j: "vars s j = Some w" and ne: "k \<noteq> j"
  shows "case vector_assign_move A T v w (vstore s) of
           Inl e \<Rightarrow> e = Terminated \<and> \<not> on_move_assignment (ao_traits A) \<and> \<not> ao_equal A (v_alloc v) (v_alloc w) \<and> v_cap v < v_size w
         | Inr (v', w', st) \<Rightarrow> inv ((vars s)(k \<mapsto> v', j \<mapsto> w')) st \<and>
             lists T ((vars s)(k \<mapsto> v', j \<mapsto> w')) st = (contents T s)(k := contents T s j, j \<mapsto> [])"
proof -
  let ?st = "vstore s" and ?vs = "(vars s)(k := None, j := None)"
  obtain xs where xs: "vec_elems T w ?st = Inr xs" "contents T s j = Some xs"
    using inv_elems [OF i j] by (metis contents_eq)
  note rk = inv_remove [OF i k] and rj = inv_remove [OF i j]
  have i0: "inv ?vs ?st"
    using inv_remove [OF rk [THEN conjunct1], of j w] j ne by simp
  have bk: "blocks_of T ((vars s)(k := None)) = vec_block T w \<union> blocks_of T ?vs"
    using j ne by (intro blocks_of_del) simp
  have "blocks_of T ((vars s)(j := None)) = vec_block T v \<union> blocks_of T ((vars s)(j := None, k := None))"
    using k ne by (intro blocks_of_del) simp
  then have bj: "blocks_of T ((vars s)(j := None)) = vec_block T v \<union> blocks_of T ?vs"
    by (simp only: fun_upd_twist [OF ne])
  have law: "case vector_assign_move A T v w ?st of
           Inl e \<Rightarrow> e = Terminated \<and> \<not> on_move_assignment (ao_traits A) \<and> \<not> ao_equal A (v_alloc v) (v_alloc w) \<and> v_cap v < v_size w
         | Inr (v', w', st') \<Rightarrow> owns st' v' (blocks_of T ?vs) \<and> owns st' w' (vec_block T v' \<union> blocks_of T ?vs) \<and>
             (\<forall>x \<in> blocks_range (blocks_of T ?vs). cells st' x = cells ?st x) \<and>
             vec_elems T v' st' = vec_elems T w ?st \<and> vec_elems T w' st' = Inr []"
    using rk rj unfolding bk bj by (intro assign_move_law) auto
  show ?thesis
  proof (cases "vector_assign_move A T v w ?st")
    case (Inl e)
    then show ?thesis
      using law by simp
  next
    case (Inr r)
    obtain v' w' st where r: "r = (v', w', st)" by (cases r)
    have l: "owns st v' (blocks_of T ?vs)" "owns st w' (vec_block T v' \<union> blocks_of T ?vs)"
      "\<And>x. x \<in> blocks_range (blocks_of T ?vs) \<Longrightarrow> cells st x = cells ?st x" "vec_elems T v' st = Inr xs" "vec_elems T w' st = Inr []"
      using law Inr r xs by auto
    have n: "?vs k = None" "(?vs(k \<mapsto> v')) j = None"
      using ne by auto
    note a = inv_add [OF i0 n(1) l(1,4,3)]
    have "blocks_of T (?vs(k \<mapsto> v')) = vec_block T v' \<union> blocks_of T ?vs"
      using n(1) by (rule blocks_of_upd)
    then have "owns st w' (blocks_of T (?vs(k \<mapsto> v')))"
      using l(2) by simp
    from inv_add [OF a [THEN conjunct1] n(2) this l(5) refl]
    have "inv (?vs(k \<mapsto> v', j \<mapsto> w')) st \<and> lists T (?vs(k \<mapsto> v', j \<mapsto> w')) st = (lists T ?vs ?st)(k \<mapsto> xs, j \<mapsto> [])"
      using a by simp
    moreover have "?vs(k \<mapsto> v', j \<mapsto> w') = (vars s)(k \<mapsto> v', j \<mapsto> w')"
      using ne by (auto simp: fun_eq_iff)
    ultimately show ?thesis
      using Inr r xs(2) by (auto simp: contents_del contents_eq [of T s] fun_eq_iff)
  qed
qed

lemma destroy_law:
  assumes i: "inv (vars s) (vstore s)" and k: "vars s k = Some v"
  shows "inv ((vars s)(k := None)) (vec_release A T v (vstore s)) \<and>
         lists T ((vars s)(k := None)) (vec_release A T v (vstore s)) = (contents T s)(k := None)"
proof -
  note rk = inv_remove [OF i k]
  note r = release_law [OF rk [THEN conjunct2]]
  have "cells (vec_release A T v (vstore s)) x = cells (vstore s) x" if "x \<in> blocks_range (blocks_of T ((vars s)(k := None)))" for x
    using r that ownsD(5) [OF rk [THEN conjunct2]] by blast
  from inv_frame [OF rk [THEN conjunct1] r [THEN conjunct1] this] show ?thesis
    by (simp add: contents_del contents_eq [of T s])
qed

text \<open>Every operation on vectors does to their contents what it does to lists, or throws.\<close>

lemma step_law:
  assumes i: "inv (vars s) (vstore s)" and ok: "vop_ok usable s op"
  shows "case vec_step A T s op of
           Inl e \<Rightarrow> e = Terminated \<and> (\<exists>i j v w. op = V_Assign_Move i j \<and> vars s i = Some v \<and> vars s j = Some w \<and>
               \<not> on_move_assignment (ao_traits A) \<and> \<not> ao_equal A (v_alloc v) (v_alloc w) \<and> v_cap v < v_size w)
         | Inr (ex, s') \<Rightarrow> inv (vars s') (vstore s') \<and>
             (case ex of None \<Rightarrow> contents T s' = vop_spec op (contents T s)
              | Some e \<Rightarrow> thrown e \<and> (contents T s' = contents T s \<or>
                  (\<exists>i j. op = V_Assign i j \<and> on_copy_assignment (ao_traits A) \<and> contents T s' = (contents T s)(i \<mapsto> []))))"
proof (cases op)
  case (V_Empty k al)
  have g: "good (heap (vstore s)) (blocks_of T (vars s))"
    using i by (simp add: prog_inv_def)
  have "inv ((vars s)(k \<mapsto> vector_with_alloc al)) (vstore s) \<and>
      lists T ((vars s)(k \<mapsto> vector_with_alloc al)) (vstore s) = (lists T (vars s) (vstore s))(k \<mapsto> [])"
    using ok V_Empty by (intro inv_add [OF i _ empty_owns [OF g]]) auto
  then show ?thesis
    using V_Empty by (simp add: contents_eq [of T s] contents_eq [of T "s\<lparr>vars := vs\<rparr>" for vs])
next
  case (V_Make k al xs)
  with construct_law [OF i, of k al xs] ok show ?thesis
    by (auto simp: vector_range_def split: option.splits)
next
  case (V_Copy k j)
  then obtain w where "vars s j = Some w" "vars s k = None"
    using ok by auto
  with copy_law [OF i, of k j w] V_Copy show ?thesis
    by (auto simp: var_at_def split: option.splits)
next
  case (V_Move k j)
  then obtain w where "vars s j = Some w" "vars s k = None"
    using ok by auto
  with move_law [OF i, of k j w] V_Move show ?thesis
    by (simp add: var_at_def vector_move_def contents_eq [of T "s\<lparr>vars := vs\<rparr>" for vs])
next
  case (V_Assign k j)
  then obtain v w where vw: "vars s k = Some v" "vars s j = Some w"
    using ok by auto
  show ?thesis
  proof (cases "k = j")
    case True
    then show ?thesis
      using V_Assign vw i by (simp add: var_at_def fun_upd_idem)
  next
    case False
    from assign_step_law [OF i vw False] V_Assign vw False show ?thesis
      by (auto simp: var_at_def split: option.splits)
  qed
next
  case (V_Assign_Move k j)
  then obtain v w where vw: "vars s k = Some v" "vars s j = Some w" "k \<noteq> j"
    using ok by auto
  from assign_move_step_law [OF i vw] V_Assign_Move vw show ?thesis
    by (cases "vector_assign_move A T v w (vstore s)") (auto simp: var_at_def)
next
  case (V_Destroy k)
  then obtain v where "vars s k = Some v"
    using ok by auto
  with destroy_law [OF i, of k v] V_Destroy show ?thesis
    by (simp add: var_at_def)
qed

lemma reach_inv:
  assumes "vec_reach A T usable h s" and "good h {}"
  shows "inv (vars s) (vstore s)"
  using assms
proof (induction rule: vec_reach.induct)
  case start
  then show ?case
    by (simp add: prog_start_def prog_inv_def blocks_of_def)
next
  case (step s op ex s')
  from step_law [OF step.IH [OF step.prems] step.hyps(2)] step.hyps(3) show ?case
    by simp
qed

lemma reach_apart:
  assumes r: "vec_reach A T usable h s" and g: "good h {}" and ij: "i \<noteq> j" "vars s i = Some v" "vars s j = Some w"
  shows "vec_range T v \<inter> vec_range T w = {}"
proof -
  have "vec_range T v \<inter> blocks_range (blocks_of T ((vars s)(i := None))) = {}"
    by (rule ownsD(5) [OF inv_remove [OF reach_inv [OF r g] ij(2), THEN conjunct2]])
  moreover have "vec_range T w \<subseteq> blocks_range (blocks_of T ((vars s)(i := None)))"
    using ij by (intro blocks_of_mem [where i = j]) simp
  ultimately show ?thesis
    by blast
qed

end

section \<open>Arenas serve containers\<close>

text \<open>
  Arenas \<open>h a\<close>, for \<open>a\<close> in \<open>Ar\<close>, in disjoint memory of the lower half of the address space, and blocks handed out
  by them. Through a vector no request exceeds \<open>2 ^ 63\<close> bytes, so the wrapping bounds tests of the arenas and the
  unguarded products of the adapters are exact.
\<close>

definition arenas_good ::
  "('s \<Rightarrow> nat) \<Rightarrow> ('s \<Rightarrow> nat) \<Rightarrow> ('s \<Rightarrow> nat) \<Rightarrow> ('s \<Rightarrow> bool) \<Rightarrow> cpp_type \<Rightarrow> ptr set \<Rightarrow> (ptr \<Rightarrow> 's) \<Rightarrow> (nat \<times> nat) set \<Rightarrow> bool" where
  "arenas_good lo cur hi ok T Ar h B \<longleftrightarrow>
     cpp_type_ok T \<and>
     (\<forall>a \<in> Ar. ok (h a) \<and> hi (h a) + unat (alignof_T T) \<le> 2 ^ 63) \<and>
     (\<forall>a \<in> Ar. \<forall>b \<in> Ar. a \<noteq> b \<longrightarrow> hi (h a) \<le> lo (h b) \<or> hi (h b) \<le> lo (h a)) \<and>
     (\<forall>b \<in> B. \<exists>a \<in> Ar. lo (h a) \<le> fst b \<and> fst b + snd b \<le> cur (h a))"

lemma vec_request:
  assumes "cpp_type_ok T" and "0 < n" and "n \<le> vec_max_size T"
  shows "unat (of_nat n * sizeof_T T) = n * esize T" "n * esize T < 2 ^ 63" "\<not> of_nat n > (- 1) div sizeof_T T"
proof -
  have sz: "0 < esize T" "0 < sizeof_T T"
    using assms(1) by (simp_all add: cpp_type_ok_def word_less_nat_alt)
  have "n * esize T \<le> 2 ^ 63 - 1"
    using assms(3) sz by (simp add: vec_max_size_def less_eq_div_iff_mult_less_eq)
  then show lt: "n * esize T < 2 ^ 63"
    by simp
  moreover have "n \<le> n * esize T"
    using sz by simp
  ultimately have "n < 2 ^ 63"
    by (rule le_less_trans [rotated])
  then have n: "unat (of_nat n :: size_t) = n"
    by (simp add: unsigned_of_nat take_bit_nat_eq_self)
  then show "unat (of_nat n * sizeof_T T) = n * esize T"
    using lt by (subst unat_mult_no_wrap) simp_all
  show "\<not> of_nat n > (- 1) div sizeof_T T"
    using lt n word_div_max_iff [OF sz(2), of "of_nat n"] by simp
qed

context bump_arena
begin

lemma arena_allocate_law:
  assumes g: "arenas_good lo cur hi ok T Ar h B" and a: "a \<in> Ar" and n: "0 < n" "n \<le> vec_max_size T"
  shows "\<exists>p s'. alloc (h a) (of_nat n * sizeof_T T) (alignof_T T) = Inr (p, s') \<and>
           (p \<noteq> nullptr \<longrightarrow> arenas_good lo cur hi ok T Ar (h(a := s')) (insert (unat p, n * esize T) B) \<and>
              (\<forall>b \<in> B. range_of (unat p, n * esize T) \<inter> range_of b = {}))"
proof -
  have ty: "cpp_type_ok T"
    and oks: "\<And>c. c \<in> Ar \<Longrightarrow> ok (h c) \<and> hi (h c) + unat (alignof_T T) \<le> 2 ^ 63"
    and dis: "\<And>c d. c \<in> Ar \<Longrightarrow> d \<in> Ar \<Longrightarrow> c \<noteq> d \<Longrightarrow> hi (h c) \<le> lo (h d) \<or> hi (h d) \<le> lo (h c)"
    and blk: "\<And>b. b \<in> B \<Longrightarrow> \<exists>c \<in> Ar. lo (h c) \<le> fst b \<and> fst b + snd b \<le> cur (h c)"
    using g by (simp_all add: arenas_good_def)
  note rq = vec_request [OF ty n]
  have "request_ok (hi (h a)) (of_nat n * sizeof_T T, alignof_T T)"
    using ty rq oks [OF a] by (simp add: request_ok_def cpp_type_ok_def)
  from alloc_total [OF _ this] oks [OF a] obtain p s' where
    p: "alloc (h a) (of_nat n * sizeof_T T) (alignof_T T) = Inr (p, s')" "ok s'" "lo s' = lo (h a)" "hi s' = hi (h a)"
       "p \<noteq> nullptr \<Longrightarrow> cur (h a) \<le> unat p \<and> cur s' = unat p + n * esize T"
    using rq(1) by (metis (no_types, lifting))
  have bounds: "lo (h c) \<le> cur (h c)" "cur (h c) \<le> hi (h c)" if "c \<in> Ar" for c
    using ok_bounds oks [OF that] by blast+
  have up: "unat p + n * esize T \<le> hi (h a)" "cur (h a) \<le> unat p" if "p \<noteq> nullptr"
    using p(4) p(5) [OF that] ok_bounds [OF p(2)] by auto
  have "range_of (unat p, n * esize T) \<inter> range_of b = {}" if "p \<noteq> nullptr" "b \<in> B" for b
  proof -
    from blk [OF that(2)] obtain c where c: "c \<in> Ar" "lo (h c) \<le> fst b" "fst b + snd b \<le> cur (h c)" by blast
    show ?thesis
    proof (cases "c = a")
      case True
      then show ?thesis using c up(2) [OF that(1)] by (auto simp: range_of_def)
    next
      case False
      then show ?thesis using c up [OF that(1)] dis [OF c(1) a] bounds [OF c(1)] bounds [OF a] by (auto simp: range_of_def)
    qed
  qed
  moreover have "arenas_good lo cur hi ok T Ar (h(a := s')) (insert (unat p, n * esize T) B)" if nz: "p \<noteq> nullptr"
  proof -
    have cur': "cur (h c) \<le> cur ((h(a := s')) c)" "lo ((h(a := s')) c) = lo (h c)" "hi ((h(a := s')) c) = hi (h c)" for c
      using p(3,4) p(5) [OF nz] by auto
    have "\<exists>c \<in> Ar. lo ((h(a := s')) c) \<le> fst b \<and> fst b + snd b \<le> cur ((h(a := s')) c)" if "b \<in> insert (unat p, n * esize T) B" for b
    proof (cases "b \<in> B")
      case True
      then show ?thesis using blk cur' by (metis le_trans)
    next
      case False
      with that a p(3) p(5) [OF nz] bounds(1) [OF a] show ?thesis by (intro bexI [of _ a]) auto
    qed
    moreover have "\<forall>c \<in> Ar. ok ((h(a := s')) c) \<and> hi ((h(a := s')) c) + unat (alignof_T T) \<le> 2 ^ 63"
      using oks p(2,4) a by simp
    ultimately show ?thesis
      using ty dis unfolding arenas_good_def cur'(2,3) by blast
  qed
  ultimately show ?thesis
    using p(1) by blast
qed

end

definition linear_usable :: "ptr set \<Rightarrow> linear_allocator \<Rightarrow> bool" where
  "linear_usable Ar al \<longleftrightarrow> lal_arena al \<in> Ar \<and> lal_arena al \<noteq> nullptr"

definition stack_usable :: "ptr set \<Rightarrow> stack_allocator \<Rightarrow> bool" where
  "stack_usable Ar al \<longleftrightarrow> sal_arena al \<in> Ar \<and> sal_arena al \<noteq> nullptr"

definition linear_arenas :: "cpp_type \<Rightarrow> ptr set \<Rightarrow> (ptr \<Rightarrow> linear_arena) \<Rightarrow> (nat \<times> nat) set \<Rightarrow> bool" where
  "linear_arenas = arenas_good (\<lambda>ar. unat (begin_ptr ar)) (\<lambda>ar. unat (cur_ptr ar)) (\<lambda>ar. unat (end_ptr ar)) linear_arena_ok"

definition stack_arenas :: "cpp_type \<Rightarrow> ptr set \<Rightarrow> (ptr \<Rightarrow> stack_arena) \<Rightarrow> (nat \<times> nat) set \<Rightarrow> bool" where
  "stack_arenas = arenas_good (\<lambda>sa. unat (sa_buf sa)) (\<lambda>sa. unat (sa_cur sa)) (\<lambda>sa. unat (sa_buf sa + sa_N sa)) stack_arena_ok"

lemma arenas_good_size: "arenas_good lo cur hi ok T Ar h B \<Longrightarrow> 0 < esize T"
  by (simp add: arenas_good_def cpp_type_ok_def word_less_nat_alt)

lemma arenas_good_subset: "arenas_good lo cur hi ok T Ar h B \<Longrightarrow> C \<subseteq> B \<Longrightarrow> arenas_good lo cur hi ok T Ar h C"
  by (auto simp: arenas_good_def)

interpretation linear_vec: container_allocator "linear_ops T" T "linear_usable Ar" "linear_arenas T Ar" for T Ar
proof unfold_locales
  fix h :: "ptr \<Rightarrow> linear_arena" and B al n
  assume a: "linear_arenas T Ar h B" "linear_usable Ar al" "0 < n" "n \<le> vec_max_size T"
  have ty: "cpp_type_ok T"
    using a(1) by (simp add: linear_arenas_def arenas_good_def)
  obtain p s' where "linear_arena_allocate (h (lal_arena al)) (of_nat n * sizeof_T T) (alignof_T T) = Inr (p, s')"
    "p \<noteq> nullptr \<longrightarrow> linear_arenas T Ar (h(lal_arena al := s')) (insert (unat p, n * esize T) B) \<and>
       (\<forall>b \<in> B. range_of (unat p, n * esize T) \<inter> range_of b = {})"
    using la.arena_allocate_law [OF a(1) [unfolded linear_arenas_def] _ a(3,4), of "lal_arena al"] a(2)
    unfolding linear_arenas_def linear_usable_def by blast
  then show "case ao_allocate (linear_ops T) al h (of_nat n) of
        Inl e \<Rightarrow> e = Bad_Alloc
      | Inr (p, h') \<Rightarrow> p \<noteq> nullptr \<and> linear_arenas T Ar h' (insert (unat p, n * esize T) B) \<and>
          (\<forall>b \<in> B. range_of (unat p, n * esize T) \<inter> range_of b = {})"
    using a(2) vec_request(3) [OF ty a(3,4)] by (simp add: linear_ops_def linear_allocator_allocate_def linear_usable_def)
next
  fix h B al p n
  assume "linear_arenas T Ar h B"
  then show "linear_arenas T Ar (ao_deallocate (linear_ops T) al h p (of_nat n)) (B - {(unat p, n * esize T)})"
    by (auto simp: linear_ops_def linear_allocator_deallocate_def linear_arenas_def intro: arenas_good_subset)
qed (auto simp: linear_arenas_def dest: arenas_good_size intro: arenas_good_subset)

interpretation stack_vec: container_allocator "stack_ops T" T "stack_usable Ar" "stack_arenas T Ar" for T Ar
proof unfold_locales
  fix h :: "ptr \<Rightarrow> stack_arena" and B al n
  assume a: "stack_arenas T Ar h B" "stack_usable Ar al" "0 < n" "n \<le> vec_max_size T"
  obtain p s' where "stack_arena_allocate (h (sal_arena al)) (of_nat n * sizeof_T T) (alignof_T T) = Inr (p, s')"
    "p \<noteq> nullptr \<longrightarrow> stack_arenas T Ar (h(sal_arena al := s')) (insert (unat p, n * esize T) B) \<and>
       (\<forall>b \<in> B. range_of (unat p, n * esize T) \<inter> range_of b = {})"
    using sa.arena_allocate_law [OF a(1) [unfolded stack_arenas_def] _ a(3,4), of "sal_arena al"] a(2)
    unfolding stack_arenas_def stack_usable_def by blast
  then show "case ao_allocate (stack_ops T) al h (of_nat n) of
        Inl e \<Rightarrow> e = Bad_Alloc
      | Inr (p, h') \<Rightarrow> p \<noteq> nullptr \<and> stack_arenas T Ar h' (insert (unat p, n * esize T) B) \<and>
          (\<forall>b \<in> B. range_of (unat p, n * esize T) \<inter> range_of b = {})"
    using a(2) by (simp add: stack_ops_def stack_allocator_allocate_def stack_usable_def)
next
  fix h B al p n
  assume "stack_arenas T Ar h B"
  then show "stack_arenas T Ar (ao_deallocate (stack_ops T) al h p (of_nat n)) (B - {(unat p, n * esize T)})"
    by (auto simp: stack_ops_def stack_allocator_deallocate_def stack_arenas_def intro: arenas_good_subset)
qed (auto simp: stack_arenas_def dest: arenas_good_size intro: arenas_good_subset)

section \<open>Properties\<close>

text \<open>
  C17: vectors that share linear arenas behave as independent lists: in every state a program reaches, each operation
  changes the contents as it would change lists and touches no other vector, or throws and leaves all contents as they
  were, except that a failed copy assignment from another arena leaves its target empty. It never does anything
  undefined, and no two vectors overlap in memory.
\<close>

theorem linear_vectors_refine_lists:
  assumes g: "linear_arenas T Ar h {}" and r: "vec_reach (linear_ops T) T (linear_usable Ar) h s"
    and ok: "vop_ok (linear_usable Ar) s op"
  shows "\<exists>ex s'. vec_step (linear_ops T) T s op = Inr (ex, s') \<and>
           (case ex of None \<Rightarrow> contents T s' = vop_spec op (contents T s)
            | Some e \<Rightarrow> thrown e \<and> (contents T s' = contents T s \<or>
                (\<exists>i j. op = V_Assign i j \<and> contents T s' = (contents T s)(i \<mapsto> [])))) \<and>
           (\<forall>i j v w. i \<noteq> j \<and> vars s' i = Some v \<and> vars s' j = Some w \<longrightarrow> vec_range T v \<inter> vec_range T w = {})"
proof -
  have move: "on_move_assignment (ao_traits (linear_ops T))"
    by (simp add: linear_ops_def)
  from linear_vec.step_law [OF linear_vec.reach_inv [OF r g] ok] move obtain ex s' where
    st: "vec_step (linear_ops T) T s op = Inr (ex, s')"
    "case ex of None \<Rightarrow> contents T s' = vop_spec op (contents T s)
     | Some e \<Rightarrow> thrown e \<and> (contents T s' = contents T s \<or>
         (\<exists>i j. op = V_Assign i j \<and> on_copy_assignment (ao_traits (linear_ops T)) \<and> contents T s' = (contents T s)(i \<mapsto> [])))"
    by (auto split: sum.splits)
  from vec_reach.step [OF r ok st(1)] have "vec_reach (linear_ops T) T (linear_usable Ar) h s'" .
  from linear_vec.reach_apart [OF this g] st show ?thesis
    by (fastforce split: option.splits)
qed

theorem linear_vectors_refine_lists_witness:
  "\<exists>s'. vec_step (linear_ops \<lparr>sizeof_T = 4, alignof_T = 4\<rparr>) \<lparr>sizeof_T = 4, alignof_T = 4\<rparr> (prog_start (\<lambda>_. linear_arena_make 4096 64))
     (V_Make 0 \<lparr>lal_arena = 1\<rparr> [7, 8, 9 :: int]) = Inr (None, s') \<and> contents \<lparr>sizeof_T = 4, alignof_T = 4\<rparr> s' = [0 \<mapsto> [7, 8, 9]]"
proof -
  let ?T = "\<lparr>sizeof_T = 4, alignof_T = 4\<rparr>" and ?h = "\<lambda>_ :: ptr. linear_arena_make 4096 64"
  have g: "linear_arenas ?T {1} ?h {}"
    by (simp add: linear_arenas_def arenas_good_def cpp_type_ok_def power_of_two_def linear_arena_make_def
        linear_arena_ok_def linear_arena_used_def linear_arena_capacity_def)
  have ok: "vop_ok (linear_usable {1}) (prog_start ?h) (V_Make 0 \<lparr>lal_arena = 1\<rparr> [7, 8, 9 :: int])"
    by (simp add: prog_start_def linear_usable_def)
  have "contents ?T (prog_start ?h :: (linear_allocator, _, int) vprog) = Map.empty"
    by (simp add: contents_def prog_start_def fun_eq_iff)
  moreover obtain s' where st: "vec_step (linear_ops ?T) ?T (prog_start ?h) (V_Make 0 \<lparr>lal_arena = 1\<rparr> [7, 8, 9 :: int]) = Inr (None, s')"
    by (simp add: prog_start_def vector_range_def vec_create_def vec_max_size_def linear_ops_def linear_allocator_allocate_def linear_arena_allocate_def
        linear_arena_make_def linear_arena_used_def align_up_def construct_def)
  from linear_vectors_refine_lists [OF g vec_reach.start ok]
  have "contents ?T s' = vop_spec (V_Make 0 \<lparr>lal_arena = 1\<rparr> [7, 8, 9]) (contents ?T (prog_start ?h :: (linear_allocator, _, int) vprog))"
    unfolding st by simp
  ultimately show ?thesis
    using st by simp
qed

text \<open>
  stack allocators are not taken over by an assignment, and the move assignment of \<^verbatim>\<open>vector\<close> is declared \<^verbatim>\<open>noexcept\<close>:
  moving a vector into one of another arena that has no room for its elements ends the program, although \<^verbatim>\<open>std::vector\<close>
  would let the \<^verbatim>\<open>std::bad_alloc\<close> reach the caller.
\<close>

theorem stack_vector_move_assign_terminates:
  assumes g: "stack_arenas T Ar h {}" and r: "vec_reach (stack_ops T) T (stack_usable Ar) h s"
    and ij: "i \<noteq> j" "vars s i = Some v" "vars s j = Some w"
    and ar: "sal_arena (v_alloc v) \<noteq> sal_arena (v_alloc w)" "sa = heap (vstore s) (sal_arena (v_alloc v))"
    and room: "v_cap v < v_size w"
      "unat (sa_buf sa + sa_N sa) < align_nat (unat (sa_cur sa)) (unat (alignof_T T)) + v_size w * esize T"
  shows "vec_step (stack_ops T) T s (V_Assign_Move i j) = Inl Terminated"
proof -
  note inv = stack_vec.reach_inv [OF r g]
  note o = stack_vec.inv_remove [OF inv ij(3), THEN conjunct2] and ov = stack_vec.inv_remove [OF inv ij(2), THEN conjunct2]
  obtain xs where xs: "vec_elems T w (vstore s) = Inr xs"
    using stack_vec.inv_elems [OF inv ij(3)] by blast
  have len: "length xs = v_size w" "length xs \<le> vec_max_size T" "0 < length xs"
    using stack_vec.owns_size [OF o xs] room(1) by auto
  have gd: "stack_arenas T Ar (heap (vstore s)) (blocks_of T (vars s))"
    using inv by (simp add: prog_inv_def)
  have u: "sal_arena (v_alloc v) \<in> Ar" "sal_arena (v_alloc v) \<noteq> nullptr"
    using stack_vec.ownsD(2) [OF ov] by (simp_all add: stack_usable_def)
  have ty: "cpp_type_ok T" and sok: "stack_arena_ok sa" "unat (sa_buf sa + sa_N sa) + unat (alignof_T T) \<le> 2 ^ 63"
    using gd u ar(2) by (simp_all add: stack_arenas_def arenas_good_def)
  note rq = vec_request [OF ty len(3,2)]
  have "request_ok (unat (sa_buf sa + sa_N sa)) (of_nat (length xs) * sizeof_T T, alignof_T T)"
    using ty rq sok(2) by (simp add: request_ok_def cpp_type_ok_def)
  then have "stack_arena_allocate sa (of_nat (length xs) * sizeof_T T) (alignof_T T) = Inr (nullptr, sa)"
    using sok(1) room(2) rq(1) len(1) by (intro sa.alloc_full) simp_all
  then have "ao_allocate (stack_ops T) (v_alloc v) (heap (vstore s)) (of_nat (length xs)) = Inl Bad_Alloc"
    using u ar(2) by (simp add: stack_ops_def stack_allocator_allocate_def)
  then have "vec_assign (stack_ops T) T v xs (vstore s) = Inr (Some Bad_Alloc, v, vstore s)"
    using room(1) len by (simp add: vec_assign_def vec_create_def thrown_def)
  then show ?thesis
    using ij xs ar(1) by (simp add: var_at_def vector_assign_move_def) (simp add: stack_ops_def stack_allocator_eq_def)
qed

theorem stack_vector_move_assign_terminates_witness:
  "\<exists>s. vec_reach (stack_ops \<lparr>sizeof_T = 4, alignof_T = 4\<rparr>) \<lparr>sizeof_T = 4, alignof_T = 4\<rparr> (stack_usable {1, 2})
         (\<lambda>a. if a = 1 then stack_arena_make 4096 8 else stack_arena_make 8192 64) s \<and>
       vec_step (stack_ops \<lparr>sizeof_T = 4, alignof_T = 4\<rparr>) \<lparr>sizeof_T = 4, alignof_T = 4\<rparr>
         (s :: (stack_allocator, _, int) vprog) (V_Assign_Move 0 1) = Inl Terminated"
proof -
  let ?T = "\<lparr>sizeof_T = 4, alignof_T = 4\<rparr>"
  let ?h = "\<lambda>a :: ptr. if a = 1 then stack_arena_make 4096 8 else stack_arena_make 8192 64"
  let ?a = "\<lparr>sal_arena = 1, sal_capacity = 8\<rparr>" and ?b = "\<lparr>sal_arena = 2, sal_capacity = 64\<rparr>"
  let ?w = "\<lparr>v_data = 8192, v_size = 3, v_cap = 3, v_alloc = ?b\<rparr>"
  let ?s1 = "(prog_start ?h)\<lparr>vars := [0 \<mapsto> vector_with_alloc ?a]\<rparr> :: (stack_allocator, _, int) vprog"
  let ?s = "\<lparr>vars = [0 \<mapsto> vector_with_alloc ?a, 1 \<mapsto> ?w],
             vstore = \<lparr>heap = ?h(2 := (stack_arena_make 8192 64)\<lparr>sa_cur := 8204\<rparr>),
                       cells = put_elems 4 8192 [1, 2, 3 :: int] (\<lambda>_. None)\<rparr>\<rparr>"
  have g: "stack_arenas ?T {1, 2} ?h {}"
    by (simp add: stack_arenas_def arenas_good_def cpp_type_ok_def power_of_two_def stack_arena_make_def stack_arena_ok_def)
  have "vec_step (stack_ops ?T) ?T (prog_start ?h) (V_Empty 0 ?a) = Inr (None, ?s1)"
    by (simp add: prog_start_def)
  then have r1: "vec_reach (stack_ops ?T) ?T (stack_usable {1, 2}) ?h ?s1"
    by (rule vec_reach.step [OF vec_reach.start, rotated]) (simp add: prog_start_def stack_usable_def)
  have "vec_step (stack_ops ?T) ?T ?s1 (V_Make 1 ?b [1, 2, 3]) = Inr (None, ?s)"
    by (simp add: prog_start_def vector_range_def vec_create_def vec_max_size_def stack_ops_def stack_allocator_allocate_def
        stack_arena_allocate_def stack_arena_make_def align_up_def construct_def numeral_3_eq_3)
  then have r2: "vec_reach (stack_ops ?T) ?T (stack_usable {1, 2}) ?h ?s"
    by (rule vec_reach.step [OF r1, rotated]) (simp add: prog_start_def stack_usable_def)
  have "vec_step (stack_ops ?T) ?T ?s (V_Assign_Move 0 1) = Inl Terminated"
    by (rule stack_vector_move_assign_terminates [OF g r2, where v = "vector_with_alloc ?a" and w = ?w, OF _ _ _ _ refl])
      (simp_all add: vector_with_alloc_def stack_arena_make_def align_nat_def)
  with r2 show ?thesis by blast
qed

end
