(* ===== verification/Maps.thy ===== *)
theory Maps
  imports Basic_String "HOL-Library.Char_ord" "HOL-Library.List_Lexorder"
begin

text \<open>
  \<^verbatim>\<open>stl::map\<close> and \<^verbatim>\<open>stl::unordered_map\<close>, \<^verbatim>\<open>include/sap_core/stl/map.h\<close> and \<^verbatim>\<open>unordered_map.h\<close>: constructors and assignments on
  top of the standard containers, and the transparent hash and equality for string keys. An ordered map is its
  entries in the order of its comparison; a hash map is its entries and its bucket count, and looks a key up among
  the entries of the key's bucket. Insertion keeps the entry already there. Insertion, lookup and rehashing are those of \<^verbatim>\<open>std::map\<close> and
  \<^verbatim>\<open>std::unordered_map\<close>, which the classes inherit: they are here to say what the constructors, assignments and string keys of the code do.

  What the two have in common is the locale \<open>keyed_container\<close>, interpreted for both.
\<close>

section \<open>map\<close>

record ('k, 'v, 'al) ord_map =
  om_entries :: "('k \<times> 'v) list"
  om_less :: "'k \<Rightarrow> 'k \<Rightarrow> bool"
  om_alloc :: 'al

fun ord_insert :: "('k \<Rightarrow> 'k \<Rightarrow> bool) \<Rightarrow> 'k \<Rightarrow> 'v \<Rightarrow> ('k \<times> 'v) list \<Rightarrow> ('k \<times> 'v) list" where
  "ord_insert lt k v [] = [(k, v)]"
| "ord_insert lt k v ((k', v') # es) =
     (if lt k k' then (k, v) # (k', v') # es
      else if lt k' k then (k', v') # ord_insert lt k v es
      else (k', v') # es)"

fun ord_find :: "('k \<Rightarrow> 'k \<Rightarrow> bool) \<Rightarrow> ('k \<times> 'v) list \<Rightarrow> 'k \<Rightarrow> 'v option" where
  "ord_find lt [] k = None"
| "ord_find lt ((k', v') # es) k =
     (if lt k' k then ord_find lt es k else if lt k k' then None else Some v')"

definition map_insert :: "'k \<Rightarrow> 'v \<Rightarrow> ('k, 'v, 'al) ord_map \<Rightarrow> ('k, 'v, 'al) ord_map" where
  "map_insert k v m = m\<lparr>om_entries := ord_insert (om_less m) k v (om_entries m)\<rparr>"

definition map_find :: "('k, 'v, 'al) ord_map \<Rightarrow> 'k \<Rightarrow> 'v option" where
  "map_find m k = ord_find (om_less m) (om_entries m) k"

definition map_compare :: "('k \<Rightarrow> 'k \<Rightarrow> bool) \<Rightarrow> 'al \<Rightarrow> ('k, 'v, 'al) ord_map" where
  "map_compare cmp al = \<lparr>om_entries = [], om_less = cmp, om_alloc = al\<rparr>"

text \<open>\<open>lt\<close> is the value-initialised \<^verbatim>\<open>Compare{}\<close>, \<open>dflt\<close> the default allocator.\<close>

definition map_default :: "('k \<Rightarrow> 'k \<Rightarrow> bool) \<Rightarrow> 'al \<Rightarrow> ('k, 'v, 'al) ord_map" where
  "map_default lt dflt = map_compare lt dflt"

definition map_with_alloc :: "('k \<Rightarrow> 'k \<Rightarrow> bool) \<Rightarrow> 'al \<Rightarrow> ('k, 'v, 'al) ord_map" where
  "map_with_alloc lt al = map_compare lt al"

definition map_tagged :: "('k \<Rightarrow> 'k \<Rightarrow> bool) \<Rightarrow> ('tag \<Rightarrow> 'al) \<Rightarrow> 'tag \<Rightarrow> ('k, 'v, 'al) ord_map" where
  "map_tagged lt mk tag = map_compare lt (mk tag)"

definition map_range :: "('k \<Rightarrow> 'k \<Rightarrow> bool) \<Rightarrow> ('k \<times> 'v) list \<Rightarrow> 'al \<Rightarrow> ('k, 'v, 'al) ord_map" where
  "map_range lt kvs al = fold (\<lambda>(k, v). map_insert k v) kvs (map_compare lt al)"

definition map_init :: "('k \<Rightarrow> 'k \<Rightarrow> bool) \<Rightarrow> ('k \<times> 'v) list \<Rightarrow> 'al \<Rightarrow> ('k, 'v, 'al) ord_map" where
  "map_init lt kvs al = fold (\<lambda>(k, v). map_insert k v) kvs (map_compare lt al)"

definition map_copy :: "('k, 'v, 'al) ord_map \<Rightarrow> ('k, 'v, 'al) ord_map" where
  "map_copy other = other"

text \<open>The new map and what is left of the source.\<close>

definition map_move :: "('k, 'v, 'al) ord_map \<Rightarrow> ('k, 'v, 'al) ord_map \<times> ('k, 'v, 'al) ord_map" where
  "map_move other = (other, other\<lparr>om_entries := []\<rparr>)"

definition map_assign :: "alloc_traits \<Rightarrow> ('k, 'v, 'al) ord_map \<Rightarrow> ('k, 'v, 'al) ord_map \<Rightarrow> ('k, 'v, 'al) ord_map" where
  "map_assign tr m other = other\<lparr>om_alloc := if on_copy_assignment tr then om_alloc other else om_alloc m\<rparr>"

definition map_assign_move ::
  "alloc_traits \<Rightarrow> ('k, 'v, 'al) ord_map \<Rightarrow> ('k, 'v, 'al) ord_map \<Rightarrow> ('k, 'v, 'al) ord_map \<times> ('k, 'v, 'al) ord_map" where
  "map_assign_move tr m other =
     (other\<lparr>om_alloc := if on_move_assignment tr then om_alloc other else om_alloc m\<rparr>, other\<lparr>om_entries := []\<rparr>)"

definition make_map :: "('k \<Rightarrow> 'k \<Rightarrow> bool) \<Rightarrow> 'al \<Rightarrow> ('k, 'v, 'al) ord_map" where
  "make_map lt al = map_with_alloc lt al"

section \<open>unordered_map\<close>

text \<open>\<open>std_hash\<close> is \<^verbatim>\<open>std::hash<std::string_view>\<close>.\<close>

definition string_hash :: "(string \<Rightarrow> size_t) \<Rightarrow> string \<Rightarrow> size_t" where
  "string_hash std_hash sv = std_hash sv"

definition string_equal :: "string \<Rightarrow> string \<Rightarrow> bool" where
  "string_equal a b \<longleftrightarrow> a = b"

record ('k, 'v, 'al) hash_map =
  hm_entries :: "('k \<times> 'v) list"
  hm_buckets :: nat
  hm_hash :: "'k \<Rightarrow> size_t"
  hm_equal :: "'k \<Rightarrow> 'k \<Rightarrow> bool"
  hm_alloc :: 'al

text \<open>There is always a bucket, whatever count was asked for.\<close>

definition bucket_of :: "nat \<Rightarrow> ('k \<Rightarrow> size_t) \<Rightarrow> 'k \<Rightarrow> nat" where
  "bucket_of n hash k = unat (hash k) mod max 1 n"

definition umap_find :: "('k, 'v, 'al) hash_map \<Rightarrow> 'k \<Rightarrow> 'v option" where
  "umap_find m k =
     map_option snd (find (\<lambda>(k', v'). bucket_of (hm_buckets m) (hm_hash m) k' = bucket_of (hm_buckets m) (hm_hash m) k \<and> hm_equal m k' k)
       (hm_entries m))"

definition umap_insert :: "'k \<Rightarrow> 'v \<Rightarrow> ('k, 'v, 'al) hash_map \<Rightarrow> ('k, 'v, 'al) hash_map" where
  "umap_insert k v m = (if umap_find m k = None then m\<lparr>hm_entries := (k, v) # hm_entries m\<rparr> else m)"

definition umap_rehash :: "nat \<Rightarrow> ('k, 'v, 'al) hash_map \<Rightarrow> ('k, 'v, 'al) hash_map" where
  "umap_rehash n m = m\<lparr>hm_buckets := n\<rparr>"

definition umap_buckets_hash :: "('k \<Rightarrow> 'k \<Rightarrow> bool) \<Rightarrow> size_t \<Rightarrow> ('k \<Rightarrow> size_t) \<Rightarrow> 'al \<Rightarrow> ('k, 'v, 'al) hash_map" where
  "umap_buckets_hash eq bucket_count hash al =
     \<lparr>hm_entries = [], hm_buckets = unat bucket_count, hm_hash = hash, hm_equal = eq, hm_alloc = al\<rparr>"

definition umap_buckets :: "('k \<Rightarrow> size_t) \<Rightarrow> ('k \<Rightarrow> 'k \<Rightarrow> bool) \<Rightarrow> size_t \<Rightarrow> 'al \<Rightarrow> ('k, 'v, 'al) hash_map" where
  "umap_buckets hash eq bucket_count al = umap_buckets_hash eq bucket_count hash al"

definition umap_with_alloc :: "('k \<Rightarrow> size_t) \<Rightarrow> ('k \<Rightarrow> 'k \<Rightarrow> bool) \<Rightarrow> 'al \<Rightarrow> ('k, 'v, 'al) hash_map" where
  "umap_with_alloc hash eq al = umap_buckets_hash eq 0 hash al"

definition umap_default :: "('k \<Rightarrow> size_t) \<Rightarrow> ('k \<Rightarrow> 'k \<Rightarrow> bool) \<Rightarrow> 'al \<Rightarrow> ('k, 'v, 'al) hash_map" where
  "umap_default hash eq dflt = umap_buckets_hash eq 0 hash dflt"

definition umap_tagged :: "('k \<Rightarrow> size_t) \<Rightarrow> ('k \<Rightarrow> 'k \<Rightarrow> bool) \<Rightarrow> ('tag \<Rightarrow> 'al) \<Rightarrow> 'tag \<Rightarrow> ('k, 'v, 'al) hash_map" where
  "umap_tagged hash eq mk tag = umap_buckets_hash eq 0 hash (mk tag)"

definition umap_copy :: "('k, 'v, 'al) hash_map \<Rightarrow> ('k, 'v, 'al) hash_map" where
  "umap_copy other = other"

definition umap_move :: "('k, 'v, 'al) hash_map \<Rightarrow> ('k, 'v, 'al) hash_map \<times> ('k, 'v, 'al) hash_map" where
  "umap_move other = (other, other\<lparr>hm_entries := []\<rparr>)"

definition umap_assign :: "alloc_traits \<Rightarrow> ('k, 'v, 'al) hash_map \<Rightarrow> ('k, 'v, 'al) hash_map \<Rightarrow> ('k, 'v, 'al) hash_map" where
  "umap_assign tr m other = other\<lparr>hm_alloc := if on_copy_assignment tr then hm_alloc other else hm_alloc m\<rparr>"

definition umap_assign_move ::
  "alloc_traits \<Rightarrow> ('k, 'v, 'al) hash_map \<Rightarrow> ('k, 'v, 'al) hash_map \<Rightarrow> ('k, 'v, 'al) hash_map \<times> ('k, 'v, 'al) hash_map" where
  "umap_assign_move tr m other =
     (other\<lparr>hm_alloc := if on_move_assignment tr then hm_alloc other else hm_alloc m\<rparr>, other\<lparr>hm_entries := []\<rparr>)"

text \<open>\<^verbatim>\<open>string_unordered_map\<close> and \<^verbatim>\<open>make_unordered_map\<close>.\<close>

definition string_unordered_map :: "(string \<Rightarrow> size_t) \<Rightarrow> 'al \<Rightarrow> (string, 'v, 'al) hash_map" where
  "string_unordered_map std_hash al = umap_with_alloc (string_hash std_hash) string_equal al"

definition make_unordered_map :: "('k \<Rightarrow> size_t) \<Rightarrow> ('k \<Rightarrow> 'k \<Rightarrow> bool) \<Rightarrow> 'al \<Rightarrow> ('k, 'v, 'al) hash_map" where
  "make_unordered_map hash eq al = umap_with_alloc hash eq al"

section \<open>Keyed containers\<close>

text \<open>
  \<open>same m\<close> is the equivalence of keys the container goes by. Insertion adds an entry for a key that has none and changes
  no other lookup.
\<close>

locale keyed_container =
  fixes insert_kv :: "'k \<Rightarrow> 'v \<Rightarrow> 'm \<Rightarrow> 'm"
    and find_kv :: "'m \<Rightarrow> 'k \<Rightarrow> 'v option"
    and same :: "'m \<Rightarrow> 'k \<Rightarrow> 'k \<Rightarrow> bool"
    and inv :: "'m \<Rightarrow> bool"
  assumes inv_insert: "inv m \<Longrightarrow> inv (insert_kv k v m)"
    and same_insert: "inv m \<Longrightarrow> same (insert_kv k v m) = same m"
    and find_insert: "inv m \<Longrightarrow> find_kv (insert_kv k v m) k' =
      (if find_kv m k' = None \<and> same m k k' then Some v else find_kv m k')"
begin

lemma insert_all:
  "inv m \<Longrightarrow> find_kv (fold (\<lambda>(k, v). insert_kv k v) kvs m) k =
     (case find_kv m k of Some v \<Rightarrow> Some v | None \<Rightarrow> map_option snd (find (\<lambda>(k', v'). same m k' k) kvs))"
proof (induction kvs arbitrary: m)
  case (Cons kv kvs)
  obtain k1 v1 where kv: "kv = (k1, v1)" by (cases kv)
  have "find_kv (fold (\<lambda>(k, v). insert_kv k v) (kv # kvs) m) k =
      (case find_kv (insert_kv k1 v1 m) k of Some v \<Rightarrow> Some v | None \<Rightarrow> map_option snd (find (\<lambda>(k', v'). same m k' k) kvs))"
    using Cons.IH [OF inv_insert [OF Cons.prems], unfolded same_insert [OF Cons.prems]] kv by simp
  then show ?case
    using find_insert [OF Cons.prems] kv by (simp split: option.split)
qed (simp split: option.split)

lemma inv_insert_all: "inv m \<Longrightarrow> inv (fold (\<lambda>(k, v). insert_kv k v) kvs m)"
  by (induction kvs arbitrary: m) (auto simp: inv_insert)

end

text \<open>A comparison is a strict weak order, and the entries of a map are strictly sorted by it.\<close>

definition strict_weak :: "('k \<Rightarrow> 'k \<Rightarrow> bool) \<Rightarrow> bool" where
  "strict_weak lt \<longleftrightarrow> (\<forall>a. \<not> lt a a) \<and> (\<forall>a b c. lt a b \<longrightarrow> lt b c \<longrightarrow> lt a c) \<and> (\<forall>a b c. lt a b \<longrightarrow> lt a c \<or> lt c b)"

definition map_inv :: "('k, 'v, 'al) ord_map \<Rightarrow> bool" where
  "map_inv m \<longleftrightarrow> strict_weak (om_less m) \<and> sorted_wrt (om_less m) (map fst (om_entries m))"

definition equivalent_keys :: "('k \<Rightarrow> 'k \<Rightarrow> bool) \<Rightarrow> 'k \<Rightarrow> 'k \<Rightarrow> bool" where
  "equivalent_keys lt a b \<longleftrightarrow> \<not> lt a b \<and> \<not> lt b a"

lemma strict_weakD:
  assumes "strict_weak lt"
  shows "\<not> lt a a" "lt a b \<Longrightarrow> lt b c \<Longrightarrow> lt a c" "lt a b \<Longrightarrow> lt a c \<or> lt c b"
  using assms unfolding strict_weak_def by blast+

lemma ord_insert_keys: "fst ` set (ord_insert lt k v es) \<subseteq> insert k (fst ` set es)"
  by (induction lt k v es rule: ord_insert.induct) auto

lemma ord_insert_sorted:
  assumes "strict_weak lt"
  shows "sorted_wrt lt (map fst es) \<Longrightarrow> sorted_wrt lt (map fst (ord_insert lt k v es))"
proof (induction es)
  case (Cons e es)
  obtain k1 v1 where e: "e = (k1, v1)" by (cases e)
  have s: "sorted_wrt lt (map fst es)" "\<forall>x \<in> fst ` set es. lt k1 x"
    using Cons.prems e by auto
  have "\<forall>x \<in> fst ` set (ord_insert lt k v es). lt k1 x" if "lt k1 k"
    using ord_insert_keys [of lt k v es] s(2) that by blast
  moreover have "\<forall>x \<in> fst ` set es. lt k x" if "lt k k1"
    using s(2) that strict_weakD(2) [OF assms] by blast
  ultimately show ?case
    using Cons.IH [OF s(1)] s e by auto
qed simp

lemma ord_find_insert:
  assumes w: "strict_weak lt"
  shows "sorted_wrt lt (map fst es) \<Longrightarrow>
    ord_find lt (ord_insert lt k v es) k' = (if ord_find lt es k' = None \<and> equivalent_keys lt k k' then Some v else ord_find lt es k')"
proof (induction es)
  case Nil
  then show ?case
    by (simp add: equivalent_keys_def)
next
  case (Cons e es)
  obtain k1 v1 where e: "e = (k1, v1)" by (cases e)
  have s: "sorted_wrt lt (map fst es)"
    using Cons.prems by simp
  note d = strict_weakD [OF w]
  show ?case
    using Cons.IH [OF s] e by (auto simp: equivalent_keys_def dest: d(2,3))
qed

interpretation ordered: keyed_container map_insert map_find "\<lambda>m. equivalent_keys (om_less m)" map_inv
  by unfold_locales (auto simp: map_insert_def map_find_def map_inv_def ord_insert_sorted ord_find_insert)

text \<open>A key equality is an equivalence, and equal keys have equal hashes.\<close>

definition hash_coherent :: "('k \<Rightarrow> size_t) \<Rightarrow> ('k \<Rightarrow> 'k \<Rightarrow> bool) \<Rightarrow> bool" where
  "hash_coherent hash eq \<longleftrightarrow> (\<forall>a. eq a a) \<and> (\<forall>a b. eq a b \<longrightarrow> eq b a) \<and> (\<forall>a b c. eq a b \<longrightarrow> eq b c \<longrightarrow> eq a c) \<and>
     (\<forall>a b. eq a b \<longrightarrow> hash a = hash b)"

definition umap_inv :: "('k, 'v, 'al) hash_map \<Rightarrow> bool" where
  "umap_inv m \<longleftrightarrow> hash_coherent (hm_hash m) (hm_equal m)"

lemma umap_find_eq: "umap_inv m \<Longrightarrow> umap_find m k = map_option snd (find (\<lambda>(k', v'). hm_equal m k' k) (hm_entries m))"
proof -
  assume "umap_inv m"
  then have "hm_equal m k' k \<Longrightarrow> hm_hash m k' = hm_hash m k" for k'
    unfolding umap_inv_def hash_coherent_def by blast
  then have "(bucket_of (hm_buckets m) (hm_hash m) k' = bucket_of (hm_buckets m) (hm_hash m) k \<and> hm_equal m k' k) = hm_equal m k' k" for k'
    by (auto simp: bucket_of_def)
  then show ?thesis
    by (simp add: umap_find_def)
qed

interpretation hashed: keyed_container umap_insert umap_find hm_equal umap_inv
proof unfold_locales
  fix m :: "('k, 'v, 'al) hash_map" and k v k'
  assume i: "umap_inv m"
  then show "umap_inv (umap_insert k v m)" "hm_equal (umap_insert k v m) = hm_equal m"
    by (simp_all add: umap_insert_def umap_inv_def)
  have eqv: "\<And>a b. hm_equal m a b \<Longrightarrow> hm_equal m b a" "\<And>a b c. hm_equal m a b \<Longrightarrow> hm_equal m b c \<Longrightarrow> hm_equal m a c"
    using i unfolding umap_inv_def hash_coherent_def by blast+
  have "hm_equal m a k = hm_equal m a k'" if "hm_equal m k k'" for a
    using eqv that by blast
  then have "umap_find m k = umap_find m k'" if "hm_equal m k k'"
    using that by (simp add: umap_find_eq [OF i])
  moreover have "umap_find (m\<lparr>hm_entries := (k, v) # hm_entries m\<rparr>) k' = (if hm_equal m k k' then Some v else umap_find m k')"
    using i umap_find_eq [of "m\<lparr>hm_entries := (k, v) # hm_entries m\<rparr>" k'] by (simp add: umap_find_eq [OF i] umap_inv_def)
  ultimately show "umap_find (umap_insert k v m) k' = (if umap_find m k' = None \<and> hm_equal m k k' then Some v else umap_find m k')"
    by (auto simp: umap_insert_def)
qed

section \<open>Properties\<close>

lemma umap_find_rehash: "umap_inv m \<Longrightarrow> umap_find (umap_rehash n m) k = umap_find m k"
  using umap_find_eq [of "umap_rehash n m" k] umap_find_eq [of m k] by (simp add: umap_rehash_def umap_inv_def)

lemma map_compare_inv: "strict_weak lt \<Longrightarrow> map_inv (map_compare lt al)"
  by (simp add: map_compare_def map_inv_def)

lemma map_range_find:
  assumes "strict_weak lt"
  shows "map_find (map_range lt kvs al) k = map_option snd (find (\<lambda>(k', v'). equivalent_keys lt k' k) kvs)"
  using ordered.insert_all [OF map_compare_inv [OF assms], of kvs al k]
  by (simp add: map_range_def) (simp add: map_compare_def map_find_def)

text \<open>
  a map built from a range looks up, for every key, the first entry of the range whose key is equivalent to it, and
  its entries are strictly sorted by the comparison.
\<close>

theorem map_range_finds_first:
  assumes "strict_weak lt"
  shows "map_find (map_range lt kvs al) k = map_option snd (find (\<lambda>(k', v'). equivalent_keys lt k' k) kvs) \<and>
         sorted_wrt lt (map fst (om_entries (map_range lt kvs al)))"
proof -
  have less: "om_less (fold (\<lambda>(k, v). map_insert k v) kvs m) = om_less m" for m :: "('a, 'b, 'c) ord_map"
    by (induction kvs arbitrary: m) (auto simp: map_insert_def)
  have "sorted_wrt lt (map fst (om_entries (map_range lt kvs al)))"
    using ordered.inv_insert_all [OF map_compare_inv [OF assms], of kvs al] less [of "map_compare lt al"]
    by (simp add: map_inv_def map_range_def) (simp add: map_compare_def)
  with map_range_find [OF assms] show ?thesis
    by simp
qed

theorem map_range_finds_first_witness:
  "map_find (map_range (<) [(3 :: int, ''c''), (1, ''a''), (3, ''x'')] ()) 3 = Some ''c''"
proof -
  have "strict_weak ((<) :: int \<Rightarrow> int \<Rightarrow> bool)"
    by (auto simp: strict_weak_def)
  from map_range_finds_first [OF this, of "[(3, ''c''), (1, ''a''), (3, ''x'')]" "()" 3] show ?thesis
    by (simp add: equivalent_keys_def)
qed

end
