(* ===== verification/Guid.thy ===== *)
theory Guid
  imports Sap_Prelude
begin

text \<open>
  Identifiers, \<^verbatim>\<open>include/sap_core/guid.h\<close> and \<^verbatim>\<open>src/guid.cpp\<close>. Each of the two functions has an engine per thread, made on the
  thread's first call from a seed of \<^verbatim>\<open>std::random_device\<close>. The engine and the distributions of the standard library are
  a parameter; what is relied on is that \<^verbatim>\<open>std::uniform_int_distribution\<close> stays within its bounds.
\<close>

record ('d, 'g) random_lib =
  draw_seed :: "'d \<Rightarrow> u32 \<times> 'd"
  seed_engine :: "u32 \<Rightarrow> 'g"
  draw_uniform :: "'g \<Rightarrow> int \<Rightarrow> int \<Rightarrow> int \<times> 'g"

definition uniform_contract :: "('d, 'g) random_lib \<Rightarrow> bool" where
  "uniform_contract L \<longleftrightarrow> (\<forall>g a b. a \<le> b \<longrightarrow> a \<le> fst (draw_uniform L g a b) \<and> fst (draw_uniform L g a b) \<le> b)"

text \<open>The engines of the two functions by thread, and the random device.\<close>

record ('d, 'g) guid_state =
  rng_u64 :: "nat \<Rightarrow> 'g option"
  rng_i64 :: "nat \<Rightarrow> 'g option"
  device :: 'd

definition engine_of :: "('d, 'g) random_lib \<Rightarrow> 'g option \<Rightarrow> 'd \<Rightarrow> 'g \<times> 'd" where
  "engine_of L r d = (case r of Some g \<Rightarrow> (g, d) | None \<Rightarrow> (let (seed, d') = draw_seed L d in (seed_engine L seed, d')))"

definition generate_guid_u64 :: "('d, 'g) random_lib \<Rightarrow> nat \<Rightarrow> ('d, 'g) guid_state \<Rightarrow> int \<times> ('d, 'g) guid_state" where
  "generate_guid_u64 L t s =
     (let (g, d) = engine_of L (rng_u64 s t) (device s);
          (x, g') = draw_uniform L g 0 (2 ^ 64 - 1)
      in (x, s\<lparr>rng_u64 := (rng_u64 s)(t \<mapsto> g'), device := d\<rparr>))"

definition generate_guid_i64 :: "('d, 'g) random_lib \<Rightarrow> nat \<Rightarrow> ('d, 'g) guid_state \<Rightarrow> int \<times> ('d, 'g) guid_state" where
  "generate_guid_i64 L t s =
     (let (g, d) = engine_of L (rng_i64 s t) (device s);
          (x, g') = draw_uniform L g 1 9007199254740991
      in (x, s\<lparr>rng_i64 := (rng_i64 s)(t \<mapsto> g'), device := d\<rparr>))"

section \<open>Calls of several threads\<close>

datatype guid_call = Call_u64 nat | Call_i64 nat

fun guid_run :: "('d, 'g) random_lib \<Rightarrow> guid_call list \<Rightarrow> ('d, 'g) guid_state \<Rightarrow> int list" where
  "guid_run L [] s = []"
| "guid_run L (Call_u64 t # cs) s = (let (x, s') = generate_guid_u64 L t s in x # guid_run L cs s')"
| "guid_run L (Call_i64 t # cs) s = (let (x, s') = generate_guid_i64 L t s in x # guid_run L cs s')"

text \<open>What one engine draws.\<close>

fun draws :: "('d, 'g) random_lib \<Rightarrow> int \<Rightarrow> int \<Rightarrow> nat \<Rightarrow> 'g \<Rightarrow> int list" where
  "draws L a b 0 g = []"
| "draws L a b (Suc n) g = (let (x, g') = draw_uniform L g a b in x # draws L a b n g')"

definition results_of :: "guid_call \<Rightarrow> guid_call list \<Rightarrow> int list \<Rightarrow> int list" where
  "results_of c cs xs = map snd (filter (\<lambda>(c', x). c' = c) (zip cs xs))"

lemma guid_run_u64:
  "rng_u64 s t = Some g \<Longrightarrow>
     results_of (Call_u64 t) cs (guid_run L cs s) = draws L 0 (2 ^ 64 - 1) (count_list cs (Call_u64 t)) g"
proof (induction L cs s arbitrary: g rule: guid_run.induct)
  case (2 L t' cs s)
  show ?case
  proof (cases "t' = t")
    case True
    obtain x g' where x: "draw_uniform L g 0 (2 ^ 64 - 1) = (x, g')"
      by (cases "draw_uniform L g 0 (2 ^ 64 - 1)")
    let ?s = "s\<lparr>rng_u64 := (rng_u64 s)(t \<mapsto> g')\<rparr>"
    have c: "generate_guid_u64 L t s = (x, ?s)"
      using 2 x by (simp add: generate_guid_u64_def engine_of_def)
    have "results_of (Call_u64 t) cs (guid_run L cs ?s) = draws L 0 (2 ^ 64 - 1) (count_list cs (Call_u64 t)) g'"
      using 2 c True by fastforce
    with c x True show ?thesis
      by (simp add: results_of_def)
  next
    case False
    obtain x s' where c: "generate_guid_u64 L t' s = (x, s')" by (cases "generate_guid_u64 L t' s")
    then have "rng_u64 s' t = Some g"
      using 2 False by (auto simp: generate_guid_u64_def Let_def split: prod.splits)
    with 2 c False show ?thesis
      by (simp add: results_of_def)
  qed
next
  case (3 L t' cs s)
  obtain x s' where c: "generate_guid_i64 L t' s = (x, s')" by (cases "generate_guid_i64 L t' s")
  then have "rng_u64 s' t = Some g"
    using 3 by (auto simp: generate_guid_i64_def Let_def split: prod.splits)
  with 3 c show ?case
    by (simp add: results_of_def)
qed (simp add: results_of_def)

lemma guid_i64_bounds:
  assumes "uniform_contract L"
  shows "1 \<le> fst (generate_guid_i64 L t s) \<and> fst (generate_guid_i64 L t s) \<le> 2 ^ 53 - 1"
proof -
  obtain g d where e: "engine_of L (rng_i64 s t) (device s) = (g, d)" by (cases "engine_of L (rng_i64 s t) (device s)")
  have "1 \<le> fst (draw_uniform L g 1 9007199254740991) \<and> fst (draw_uniform L g 1 9007199254740991) \<le> 9007199254740991"
    using assms unfolding uniform_contract_def by simp
  with e show ?thesis
    by (cases "draw_uniform L g 1 9007199254740991") (simp add: generate_guid_i64_def)
qed

text \<open>
  every signed identifier is positive and at most \<open>2 ^ 53 - 1\<close>, so that it is an exact double, in whatever state the
  thread is. The unsigned identifiers a thread that has its engine gets are the ones that engine draws, whatever other
  threads and the other function do in between.
\<close>

theorem guid_safe_and_independent:
  assumes "uniform_contract L" and "rng_u64 s t = Some g"
  shows "(\<forall>t' s'. 1 \<le> fst (generate_guid_i64 L t' s') \<and> fst (generate_guid_i64 L t' s') \<le> 2 ^ 53 - 1) \<and>
         results_of (Call_u64 t) cs (guid_run L cs s) = draws L 0 (2 ^ 64 - 1) (count_list cs (Call_u64 t)) g"
  using guid_i64_bounds [OF assms(1)] guid_run_u64 [OF assms(2)] by simp

text \<open>A library that satisfies the contract: an engine that counts.\<close>

definition counter_lib :: "(unit, int) random_lib" where
  "counter_lib = \<lparr>draw_seed = (\<lambda>d. (5, d)), seed_engine = uint, draw_uniform = (\<lambda>g a b. (a + g mod (b - a + 1), g + 1))\<rparr>"

theorem guid_safe_and_independent_witness:
  "results_of (Call_u64 1) [Call_u64 1, Call_i64 1, Call_u64 2, Call_u64 1]
     (guid_run counter_lib [Call_u64 1, Call_i64 1, Call_u64 2, Call_u64 1] \<lparr>rng_u64 = [1 \<mapsto> 40], rng_i64 = Map.empty, device = ()\<rparr>) = [40, 41]"
proof -
  have c: "uniform_contract counter_lib"
    unfolding uniform_contract_def counter_lib_def by (auto simp: algebra_simps) (smt (verit) pos_mod_bound)
  show ?thesis
    using guid_safe_and_independent [OF c, of "\<lparr>rng_u64 = [1 \<mapsto> 40], rng_i64 = Map.empty, device = ()\<rparr>" 1 40
        "[Call_u64 1, Call_i64 1, Call_u64 2, Call_u64 1]"]
    by (simp add: counter_lib_def numeral_2_eq_2)
qed

text \<open>
  the engines are seeded with one 32-bit number: the first identifier of a thread is one of at most \<open>2 ^ 32\<close> values,
  although it has 64 bits, and threads that drew equal seeds get equal identifiers from then on.
\<close>

theorem guid_first_of_few:
  "card {fst (generate_guid_u64 L t s) | s. rng_u64 s t = None} \<le> 2 ^ 32"
proof -
  let ?f = "\<lambda>seed. fst (draw_uniform L (seed_engine L seed) 0 (2 ^ 64 - 1))"
  have "{fst (generate_guid_u64 L t s) | s. rng_u64 s t = None} \<subseteq> range ?f"
  proof
    fix x
    assume "x \<in> {fst (generate_guid_u64 L t s) | s. rng_u64 s t = None}"
    then obtain s where s: "x = fst (generate_guid_u64 L t s)" "rng_u64 s t = None" by blast
    then have "x = ?f (fst (draw_seed L (device s)))"
      by (simp add: generate_guid_u64_def engine_of_def Let_def split_beta)
    then show "x \<in> range ?f" by blast
  qed
  then have "card {fst (generate_guid_u64 L t s) | s. rng_u64 s t = None} \<le> card (range ?f)"
    by (intro card_mono) simp_all
  also have "\<dots> \<le> card (UNIV :: u32 set)"
    by (rule card_image_le) simp
  also have "\<dots> = 2 ^ 32"
    by (simp only: card_word len_of_numeral_defs) simp
  finally show ?thesis .
qed

end
