(* ===== verification/Coroutine_Slices.thy ===== *)
theory Coroutine_Slices
  imports Coroutine_Lifetimes
begin

text \<open>
  What one resumption of a coroutine does: the part of a run between two suspensions. A suspended coroutine is a tower of
  frames, each awaiting the temporary task above it; one slice runs the top frame, returns through finished ones, and ends
  suspended in another tower on the same base or with the result of the base. Frames outside the tower are untouched, so
  several coroutines can be run in turns.
\<close>

section \<open>Suspensions to come\<close>

primrec susps :: "(task \<Rightarrow> 'e + 'v) \<Rightarrow> ('v, 'e) body \<Rightarrow> nat" where
  "susps env (Ret v) = 0"
| "susps env (Thr e) = 0"
| "susps env (Await b k) = susps env b + (susps env \<circ> k) (eval_body env b)"
| "susps env (Await_Task t k) = (susps env \<circ> k) (env t)"
| "susps env (Susp b) = Suc (susps env b)"

lemma suspends_iff_susps: "plain b \<Longrightarrow> suspends env susp b \<longleftrightarrow> 0 < susps env b"
  by (induction b) auto

section \<open>Towers\<close>

text \<open>The frame of a temporary task in state \<open>st\<close>, awaited by \<open>p\<close>.\<close>

definition child_st :: "('v, 'e) fstate \<Rightarrow> cid \<Rightarrow> ('v, 'e) frame" where
  "child_st st p = \<lparr>fr_state = st, fr_kind = Task_Promise, exc = None, pvalue = None, continuation = Some p, detached = False,
     handle_dropped = False, fr_params = []\<rparr>"

lemma child_st_simps [simp]:
  "fr_state (child_st st p) = st" "fr_kind (child_st st p) = Task_Promise" "exc (child_st st p) = None" "\<not> detached (child_st st p)"
  "continuation (child_st st p) = Some p" "fr_params (child_st st p) = []" "(child_st st p)\<lparr>fr_state := st'\<rparr> = child_st st' p"
  by (simp_all add: child_st_def)

lemma child_frame_st: "child_frame b p = child_st (At b) p"
  by (simp add: child_frame_def child_st_def)

type_synonym ('v, 'e) stack = "(cid \<times> ('e + 'v \<Rightarrow> ('v, 'e) body)) list"

text \<open>
  The frame \<open>c\<close> is in state \<open>st\<close>, awaited by the first frame of the stack, that by the second, and so on down to the base,
  which is the frame \<open>f\<close> up to its state. Younger frames have larger numbers.
\<close>

fun tower :: "(cid \<Rightarrow> ('v, 'e) frame option) \<Rightarrow> cid \<Rightarrow> ('v, 'e) fstate \<Rightarrow> ('v, 'e) stack \<Rightarrow> cid \<Rightarrow> ('v, 'e) frame \<Rightarrow> bool" where
  "tower fs c st [] base f \<longleftrightarrow> c = base \<and> fs c = Some (f\<lparr>fr_state := st\<rparr>)"
| "tower fs c st ((p, k) # ks) base f \<longleftrightarrow> fs c = Some (child_st st p) \<and> p < c \<and> tower fs p (Awaiting (Some c) True k) ks base f"

definition tower_ids :: "cid \<Rightarrow> ('v, 'e) stack \<Rightarrow> cid set" where
  "tower_ids c ks = insert c (fst ` set ks)"

fun tower_eval :: "(task \<Rightarrow> 'e + 'v) \<Rightarrow> 'e + 'v \<Rightarrow> ('v, 'e) stack \<Rightarrow> 'e + 'v" where
  "tower_eval env r [] = r"
| "tower_eval env r ((p, k) # ks) = tower_eval env (eval_body env (k r)) ks"

fun tower_susps :: "(task \<Rightarrow> 'e + 'v) \<Rightarrow> 'e + 'v \<Rightarrow> ('v, 'e) stack \<Rightarrow> nat" where
  "tower_susps env r [] = 0"
| "tower_susps env r ((p, k) # ks) = susps env (k r) + tower_susps env (eval_body env (k r)) ks"

definition plain_stack :: "('v, 'e) stack \<Rightarrow> bool" where
  "plain_stack ks \<longleftrightarrow> (\<forall>(p, k) \<in> set ks. \<forall>r. plain (k r))"

lemma plain_stack_simps [simp]:
  "plain_stack []" "plain_stack ((p, k) # ks) \<longleftrightarrow> (\<forall>r. plain (k r)) \<and> plain_stack ks" "plain_stack (ks @ ls) \<longleftrightarrow> plain_stack ks \<and> plain_stack ls"
  by (auto simp: plain_stack_def)

lemma tower_ids_simps [simp]:
  "tower_ids c [] = {c}" "tower_ids c ((p, k) # ks) = insert c (tower_ids p ks)" "tower_ids c (ks @ (p, k) # ls) = tower_ids c ks \<union> tower_ids p ls"
  by (auto simp: tower_ids_def)

lemma tower_eval_append: "tower_eval env r (ks @ ls) = tower_eval env (tower_eval env r ks) ls"
  by (induction env r ks rule: tower_eval.induct) auto

lemma tower_susps_append: "tower_susps env r (ks @ ls) = tower_susps env r ks + tower_susps env (tower_eval env r ks) ls"
  by (induction env r ks rule: tower_susps.induct) auto

lemma tower_top: "tower fs c st ks base f \<Longrightarrow> \<exists>g. fs c = Some g \<and> fr_state g = st"
  by (cases ks) auto

lemma tower_ids_le: "tower fs c st ks base f \<Longrightarrow> x \<in> tower_ids c ks \<Longrightarrow> base \<le> x \<and> x \<le> c \<and> fs x \<noteq> None"
proof (induction ks arbitrary: c st x)
  case (Cons pk ks)
  obtain p k where pk: "pk = (p, k)" by (cases pk)
  have t: "fs c = Some (child_st st p)" "p < c" "tower fs p (Awaiting (Some c) True k) ks base f"
    using Cons.prems pk by auto
  have p: "p \<in> tower_ids p ks" by (simp add: tower_ids_def)
  from Cons.prems(2) pk have "x = c \<or> x \<in> tower_ids p ks" by simp
  then show ?case
  proof
    assume "x = c"
    with t Cons.IH [OF t(3) p] show ?thesis by auto
  next
    assume "x \<in> tower_ids p ks"
    with t Cons.IH [OF t(3)] show ?thesis by fastforce
  qed
qed simp

lemma tower_base: "tower fs c st ks base f \<Longrightarrow> base \<in> tower_ids c ks"
  by (induction ks arbitrary: c st) auto

lemma tower_cong:
  "tower fs c st ks base f \<Longrightarrow> (\<And>x. x \<in> tower_ids c ks \<Longrightarrow> fs' x = fs x) \<Longrightarrow> tower fs' c st ks base f"
  by (induction ks arbitrary: c st) (auto simp: tower_ids_def)

text \<open>Two towers, the base of the upper one being the top of the lower one.\<close>

lemma tower_append:
  assumes "tower fs c st ks d (child_st st' p)" and "p < d" and "tower fs p (Awaiting (Some d) True k) ls base f"
  shows "tower fs c st (ks @ (p, k) # ls) base f"
  using assms by (induction ks arbitrary: c st) auto

lemma tower_any_state [simp]: "tower fs c st ks h (f\<lparr>fr_state := st'\<rparr>) = tower fs c st ks h f"
  by (induction ks arbitrary: c st) auto

lemma tower_set_top:
  assumes "tower fs c st ks base f" and "fs c = Some g"
  shows "tower (fs(c \<mapsto> g\<lparr>fr_state := st'\<rparr>)) c st' ks base f"
proof (cases ks)
  case (Cons pk ls)
  obtain p k where pk: "pk = (p, k)" by (cases pk)
  have t: "g = child_st st p" "p < c" "tower fs p (Awaiting (Some c) True k) ls base f"
    using assms Cons pk by auto
  have "tower (fs(c \<mapsto> g\<lparr>fr_state := st'\<rparr>)) p (Awaiting (Some c) True k) ls base f"
    by (rule tower_cong [OF t(3)]) (use t(2) tower_ids_le [OF t(3)] in fastforce)
  with t Cons pk show ?thesis by simp
qed (use assms in auto)

section \<open>A slice that suspends\<close>

text \<open>
  \<open>c\<close> is suspended on top of a tower over \<open>h\<close>, before \<open>b\<close>; the result to come is \<open>r\<close>, with \<open>n\<close> suspensions before it. The frames \<open>I\<close>
  were those of the tower before the slice: what is left of them is in the new tower, and the others of the new tower are new.
\<close>

definition survivors :: "(cid \<Rightarrow> ('v, 'e) frame option) \<Rightarrow> cid set \<Rightarrow> cid \<Rightarrow> ('v, 'e) frame option" where
  "survivors fs I x = (if x \<in> I then None else fs x)"

definition parks :: "(task \<Rightarrow> 'e + 'v) \<Rightarrow> ('v, 'e) machine \<Rightarrow> cid set \<Rightarrow> ('v, 'e) machine \<Rightarrow> cid \<Rightarrow> ('v, 'e) body \<Rightarrow> ('v, 'e) stack
    \<Rightarrow> cid \<Rightarrow> ('v, 'e) frame \<Rightarrow> 'e + 'v \<Rightarrow> nat \<Rightarrow> bool" where
  "parks env m I m' c b ks h f r n \<longleftrightarrow>
     tower (frames m') c (At b) ks h f \<and> plain b \<and> plain_stack ks \<and>
     tower_eval env (eval_body env b) ks = r \<and> susps env b + tower_susps env (eval_body env b) ks = n \<and>
     (\<forall>x. x \<notin> tower_ids c ks \<longrightarrow> frames m' x = survivors (frames m) I x) \<and> tower_ids c ks \<subseteq> I \<union> {next_cid m ..} \<and>
     fresh_above m' \<and> next_cid m \<le> next_cid m'"

lemma parks_from:
  assumes "parks env m1 I1 m' c b ks h f r n" and "survivors (frames m1) I1 = survivors (frames m) I"
    and "I1 \<subseteq> I \<union> {next_cid m ..}" and "next_cid m \<le> next_cid m1"
  shows "parks env m I m' c b ks h f r n"
  using assms unfolding parks_def by auto

lemma parks_any_state [simp]: "parks env m I m' c b ks h (f\<lparr>fr_state := st\<rparr>) r n = parks env m I m' c b ks h f r n"
  by (simp add: parks_def)

text \<open>The tower above \<open>d\<close> stands on the tower in which \<open>d\<close> is awaited.\<close>

lemma parks_above:
  assumes pk: "parks env m {d} m' c b ks d (child_st st p) r n" and t: "tower (frames m) p (Awaiting (Some d) True k) ls base f"
    and "p < d" and "d < next_cid m" and "plain_stack ((p, k) # ls)"
  shows "parks env m (insert d (tower_ids p ls)) m' c b (ks @ (p, k) # ls) base f
           (tower_eval env r ((p, k) # ls)) (n + tower_susps env r ((p, k) # ls))"
proof -
  have k: "tower (frames m') c (At b) ks d (child_st st p)" "\<And>x. x \<notin> tower_ids c ks \<Longrightarrow> frames m' x = survivors (frames m) {d} x"
      "tower_ids c ks \<subseteq> {d} \<union> {next_cid m ..}"
    using pk by (simp_all add: parks_def)
  have below: "x < d" if "x \<in> tower_ids p ls" for x
    using tower_ids_le [OF t that] \<open>p < d\<close> by simp
  have apart: "x \<notin> tower_ids c ks" if "x \<in> tower_ids p ls" for x
    using below [OF that] k(3) \<open>d < next_cid m\<close> by auto
  have "tower (frames m') p (Awaiting (Some d) True k) ls base f"
    by (rule tower_cong [OF t]) (use k(2) apart below in \<open>fastforce simp: survivors_def\<close>)
  then have "tower (frames m') c (At b) (ks @ (p, k) # ls) base f"
    by (rule tower_append [OF k(1) \<open>p < d\<close>])
  moreover have "frames m' x = survivors (frames m) (insert d (tower_ids p ls)) x" if "x \<notin> tower_ids c (ks @ (p, k) # ls)" for x
    using that k(2) [of x] by (simp add: survivors_def)
  ultimately show ?thesis
    using pk assms(5) unfolding parks_def by (auto simp: tower_eval_append tower_susps_append)
qed

text \<open>A temporary task that does not suspend is made, run and freed within the slice.\<close>

lemma slice_temporary:
  assumes b: "plain b" and f: "frames m h = Some f" "fr_state f = At (Await b k)" and fr: "fresh_above m" and z: "susps env b = 0"
  shows "\<exists>m'. resume m h = resume m' h \<and> only_frame h (f\<lparr>fr_state := At (k (eval_body env b))\<rparr>) m m'"
proof -
  let ?r = "eval_body env b" let ?m1 = "with_child h f b k m" let ?c = "next_cid m"
  have s1: "resume m h = resume ?m1 ?c"
    by (subst resume_step) (simp add: step_await [OF f fr] with_child_def)
  have c1: "frames ?m1 ?c = Some (child_frame b h)" "fr_state (child_frame b h) = At b" "fresh_above ?m1"
    using fresh_with_child [OF fr f(1)] by (simp_all add: with_child_def child_frame_def)
  have "\<not> suspends env (\<lambda>_. False) b"
    using z suspends_iff_susps [OF b, of env "\<lambda>_. False"] by simp
  then obtain m2 where m2: "resume ?m1 ?c = resume m2 ?c" "only_frame ?c ((child_frame b h)\<lparr>fr_state := At (forward ?r)\<rparr>) ?m1 m2"
    using resume_body [OF b c1, of env "\<lambda>_. False"] by auto
  have fm2: "frames m2 = (frames m)(h \<mapsto> f\<lparr>fr_state := Awaiting (Some ?c) True k\<rparr>, ?c \<mapsto> child_frame (forward ?r) h)"
      "?c < next_cid m2" "fresh_above m2" "sem m2 = sem m"
    using m2(2) by (auto simp: only_frame_def with_child_def child_frame_def)
  obtain m3 m4 where m4: "co_step m2 ?c = Inr (m3, To h)" "co_step m3 h = Inr (m4, To h)"
      "frames m4 = (frames m)(h \<mapsto> f\<lparr>fr_state := At (k ?r)\<rparr>)" "next_cid m4 = next_cid m2" "sem m4 = sem m2" "fresh_above m4"
    using child_return [OF f(1) fr fm2(1-3)] by blast
  have "resume m h = resume m4 h"
    using s1 m2(1) m4(1,2) resume_step [of m2 ?c] resume_step [of m3 h] by simp
  with m4 fm2 show ?thesis by (intro exI [of _ m4]) (auto simp: only_frame_def)
qed

lemma slice_body:
  assumes "plain b" and "frames m h = Some f" and "fr_state f = At b" and "fresh_above m" and "0 < susps env b"
  shows "\<exists>m' c b' ks. resume m h = Some (Inr (m', Some c)) \<and> parks env m {h} m' c b' ks h f (eval_body env b) (susps env b - 1)"
  using assms
proof (induction b arbitrary: m h f)
  case (Susp b)
  let ?m = "set_frame h (f\<lparr>fr_state := At b\<rparr>) m"
  have "resume m h = Some (Inr (?m, Some h))"
    using Susp.prems by (subst resume_step) (simp add: co_step_def)
  moreover have "fresh_above ?m"
    by (rule fresh_set_frame [OF Susp.prems(4,2)])
  then have "parks env m {h} ?m h b [] h f (eval_body env (Susp b)) (susps env (Susp b) - 1)"
    using Susp.prems by (simp add: parks_def survivors_def)
  ultimately show ?case by blast
next
  case (Await b k)
  let ?r = "eval_body env b" let ?m1 = "with_child h f b k m" let ?c = "next_cid m"
  have lt: "h < ?c" by (rule alive_below [OF Await.prems(4,2)])
  show ?case
  proof (cases "0 < susps env b")
    case True
    have s1: "resume m h = resume ?m1 ?c"
      by (subst resume_step) (simp add: step_await [OF Await.prems(2-4)] with_child_def)
    have c1: "plain b" "frames ?m1 ?c = Some (child_st (At b) h)" "fr_state (child_st (At b) h) = At b" "fresh_above ?m1"
      using Await.prems fresh_with_child [OF Await.prems(4,2)] by (simp_all add: with_child_def child_frame_st)
    from Await.IH(1) [OF c1 True] obtain m' c b' ks where
      i: "resume ?m1 ?c = Some (Inr (m', Some c))" "parks env ?m1 {?c} m' c b' ks ?c (child_st (At b) h) ?r (susps env b - 1)"
      by blast
    have "tower (frames ?m1) h (Awaiting (Some ?c) True k) [] h f"
      using lt by (simp add: with_child_def)
    from parks_above [OF i(2) this lt] Await.prems(1)
    have "parks env ?m1 {?c, h} m' c b' (ks @ [(h, k)]) h f (eval_body env (k ?r)) (susps env b - 1 + susps env (k ?r))"
      by (simp add: with_child_def)
    then have "parks env m {h} m' c b' (ks @ [(h, k)]) h f (eval_body env (k ?r)) (susps env b - 1 + susps env (k ?r))"
      by (rule parks_from) (use fresh_aboveD [OF Await.prems(4)] in \<open>auto simp: with_child_def survivors_def fun_eq_iff\<close>)
    with s1 i(1) True show ?thesis by auto
  next
    case False
    then obtain m4 where s4: "resume m h = resume m4 h" and m4: "only_frame h (f\<lparr>fr_state := At (k ?r)\<rparr>) m m4"
      using slice_temporary [OF _ Await.prems(2-4)] Await.prems(1) by auto
    have k: "plain (k ?r)" "frames m4 h = Some (f\<lparr>fr_state := At (k ?r)\<rparr>)" "0 < susps env (k ?r)" "fresh_above m4"
      using m4 Await.prems(1,5) False by (auto simp: only_frame_def)
    from Await.IH(2) [OF _ k(1,2) _ k(4,3)] obtain m' c b' ks where
      i: "resume m4 h = Some (Inr (m', Some c))"
         "parks env m4 {h} m' c b' ks h (f\<lparr>fr_state := At (k ?r)\<rparr>) (eval_body env (k ?r)) (susps env (k ?r) - 1)"
      by auto
    have "parks env m {h} m' c b' ks h f (eval_body env (k ?r)) (susps env (k ?r) - 1)"
      by (rule parks_from) (use i(2) m4 in \<open>auto simp: only_frame_def survivors_def fun_eq_iff\<close>)
    with s4 i(1) False show ?thesis by auto
  qed
qed simp_all

section \<open>Resuming a tower\<close>

lemma step_return:
  assumes t: "tower (frames m) c (At (forward r)) ((p, k) # ks) h f"
  shows "\<exists>m'. resume m c = resume m' p \<and> tower (frames m') p (At (k r)) ks h f \<and> next_cid m' = next_cid m \<and>
           survivors (frames m') (tower_ids p ks) = survivors (frames m) (tower_ids c ((p, k) # ks)) \<and> (fresh_above m \<longrightarrow> fresh_above m')"
proof -
  have c: "frames m c = Some (child_st (At (forward r)) p)" "p < c" "tower (frames m) p (Awaiting (Some c) True k) ks h f"
    using t by simp_all
  obtain g where g: "frames m p = Some g" "fr_state g = Awaiting (Some c) True k"
    using tower_top [OF c(3)] by blast
  let ?d = "done_frame r (child_st (At (forward r)) p)"
  let ?m1 = "set_frame c ?d m"
  have s1: "co_step m c = Inr (?m1, To p)"
    by (rule step_task_return) (simp_all add: c)
  let ?m2 = "?m1\<lparr>frames := (frames ?m1)(p \<mapsto> g\<lparr>fr_state := At (k r)\<rparr>, c := None)\<rparr>"
  have s2: "co_step ?m1 p = Inr (?m2, To p)"
    using c(2) g by (intro step_temp_resume [where r = r and g = "child_st (At (forward r)) p"]) simp_all
  have c_out: "c \<notin> tower_ids p ks"
    using c(2) tower_ids_le [OF c(3)] by fastforce
  have "tower ((frames m)(p \<mapsto> g\<lparr>fr_state := At (k r)\<rparr>)) p (At (k r)) ks h f"
    by (rule tower_set_top [OF c(3) g(1)])
  then have "tower (frames ?m2) p (At (k r)) ks h f"
    by (rule tower_cong) (use c_out c(2) in auto)
  moreover have "survivors (frames ?m2) (tower_ids p ks) = survivors (frames m) (tower_ids c ((p, k) # ks))"
    using c_out by (auto simp: survivors_def fun_eq_iff tower_ids_def)
  moreover have "fresh_above m \<longrightarrow> fresh_above ?m2"
    using alive_below [OF _ g(1)] by (auto simp: fresh_above_def)
  ultimately show ?thesis
    using s1 s2 resume_step [of m c] resume_step [of ?m1 p] by (intro exI [of _ ?m2]) simp
qed

text \<open>A top frame that does not suspend again returns to the frame below.\<close>

lemma tower_pop:
  assumes t: "tower (frames m) c (At b) ((p, k) # ks) h f" and b: "plain b" and fr: "fresh_above m" and z: "susps env b = 0"
  shows "\<exists>m'. resume m c = resume m' p \<and> tower (frames m') p (At (k (eval_body env b))) ks h f \<and> next_cid m \<le> next_cid m' \<and>
           survivors (frames m') (tower_ids p ks) = survivors (frames m) (tower_ids c ((p, k) # ks)) \<and> fresh_above m'"
proof -
  let ?r = "eval_body env b"
  have c: "frames m c = Some (child_st (At b) p)" using t by simp
  have "\<not> suspends env (\<lambda>_. False) b"
    using z suspends_iff_susps [OF b, of env "\<lambda>_. False"] by simp
  then obtain m1 where m1: "resume m c = resume m1 c" "only_frame c (child_st (At (forward ?r)) p) m m1"
    using resume_body [OF b c _ fr, of env "\<lambda>_. False"] by auto
  have f1: "frames m1 = (frames m)(c \<mapsto> (child_st (At b) p)\<lparr>fr_state := At (forward ?r)\<rparr>)" "next_cid m \<le> next_cid m1" "fresh_above m1"
    using m1(2) by (simp_all add: only_frame_def)
  have "tower (frames m1) c (At (forward ?r)) ((p, k) # ks) h f"
    unfolding f1(1) by (rule tower_set_top [OF t c])
  moreover have "survivors (frames m1) (tower_ids c ((p, k) # ks)) = survivors (frames m) (tower_ids c ((p, k) # ks))"
    by (auto simp: f1(1) survivors_def fun_eq_iff)
  ultimately show ?thesis
    using step_return [of m1 c ?r p k ks h f] m1(1) f1(2,3) by auto
qed

lemma slice_tower:
  assumes "tower (frames m) c (At b) ks h f" and "plain b" and "plain_stack ks" and "fresh_above m"
    and "0 < susps env b + tower_susps env (eval_body env b) ks"
  shows "\<exists>m' c' b' ks'. resume m c = Some (Inr (m', Some c')) \<and>
           parks env m (tower_ids c ks) m' c' b' ks' h f (tower_eval env (eval_body env b) ks)
             (susps env b + tower_susps env (eval_body env b) ks - 1)"
  using assms
proof (induction ks arbitrary: m c b)
  case Nil
  then show ?case using slice_body [of b m h "f\<lparr>fr_state := At b\<rparr>" env] by auto
next
  case (Cons pk ks)
  obtain p k where pk: "pk = (p, k)" by (cases pk)
  let ?r = "eval_body env b"
  have c: "frames m c = Some (child_st (At b) p)" "p < c" "tower (frames m) p (Awaiting (Some c) True k) ks h f"
    using Cons.prems(1) pk by simp_all
  show ?case
  proof (cases "0 < susps env b")
    case True
    obtain m' c' b' ks' where i: "resume m c = Some (Inr (m', Some c'))" "parks env m {c} m' c' b' ks' c (child_st (At b) p) ?r (susps env b - 1)"
      using slice_body [OF Cons.prems(2) c(1) _ Cons.prems(4) True] by auto
    from parks_above [OF i(2) c(3,2) alive_below [OF Cons.prems(4) c(1)]] Cons.prems(3) pk True i(1)
    show ?thesis by (auto simp: tower_ids_def)
  next
    case False
    then obtain m1 where m1: "resume m c = resume m1 p" "tower (frames m1) p (At (k ?r)) ks h f" "next_cid m \<le> next_cid m1"
        "survivors (frames m1) (tower_ids p ks) = survivors (frames m) (tower_ids c ((p, k) # ks))" "fresh_above m1"
      using tower_pop [OF Cons.prems(1) [unfolded pk] Cons.prems(2,4)] by auto
    have "plain (k ?r)" "plain_stack ks" "0 < susps env (k ?r) + tower_susps env (eval_body env (k ?r)) ks"
      using Cons.prems(3,5) pk False by auto
    from Cons.IH [OF m1(2) this(1,2) m1(5) this(3)] obtain m' c' b' ks' where i: "resume m1 p = Some (Inr (m', Some c'))"
        "parks env m1 (tower_ids p ks) m' c' b' ks' h f (tower_eval env (eval_body env (k ?r)) ks)
           (susps env (k ?r) + tower_susps env (eval_body env (k ?r)) ks - 1)" by blast
    have "parks env m (tower_ids c ((p, k) # ks)) m' c' b' ks' h f (tower_eval env (eval_body env (k ?r)) ks)
           (susps env (k ?r) + tower_susps env (eval_body env (k ?r)) ks - 1)"
      by (rule parks_from [OF i(2) m1(4) _ m1(3)]) auto
    with m1(1) i(1) False pk show ?thesis by auto
  qed
qed

lemma slice_tower_end:
  assumes "tower (frames m) c (At b) ks h f" and "plain b" and "plain_stack ks" and "fresh_above m"
    and "susps env b + tower_susps env (eval_body env b) ks = 0"
  shows "\<exists>m'. resume m c = resume m' h \<and> frames m' = (survivors (frames m) (tower_ids c ks))(h \<mapsto>
             f\<lparr>fr_state := At (forward (tower_eval env (eval_body env b) ks))\<rparr>) \<and> next_cid m \<le> next_cid m' \<and> fresh_above m'"
  using assms
proof (induction ks arbitrary: m c b)
  case Nil
  then have "\<not> suspends env (\<lambda>_. False) b"
    using suspends_iff_susps [of b env "\<lambda>_. False"] by simp
  then obtain m' where "resume m h = resume m' h" "only_frame h (f\<lparr>fr_state := At (forward (eval_body env b))\<rparr>) m m'"
    using Nil resume_body [of b m h "f\<lparr>fr_state := At b\<rparr>" env "\<lambda>_. False"] by auto
  then show ?case
    using Nil by (intro exI [of _ m']) (auto simp: only_frame_def survivors_def fun_eq_iff)
next
  case (Cons pk ks)
  obtain p k where pk: "pk = (p, k)" by (cases pk)
  let ?r = "eval_body env b"
  obtain m1 where m1: "resume m c = resume m1 p" "tower (frames m1) p (At (k ?r)) ks h f" "next_cid m \<le> next_cid m1"
      "survivors (frames m1) (tower_ids p ks) = survivors (frames m) (tower_ids c ((p, k) # ks))" "fresh_above m1"
    using tower_pop [OF Cons.prems(1) [unfolded pk] Cons.prems(2,4), of env] Cons.prems(5) by auto
  have "plain (k ?r)" "plain_stack ks" "susps env (k ?r) + tower_susps env (eval_body env (k ?r)) ks = 0"
    using Cons.prems(3,5) pk by auto
  from Cons.IH [OF m1(2) this(1,2) m1(5) this(3)] m1 pk show ?case by auto
qed

section \<open>Spawned tasks\<close>

text \<open>
  A spawned task: the runner \<open>h\<close> of \<^verbatim>\<open>spawn\<close>, which owns the task \<open>t\<close>. It is suspended in a tower over the task's frame, or has
  its result ready for whoever holds the \<^verbatim>\<open>SpawnHandle\<close>.
\<close>

type_synonym ('v, 'e) progress = "(cid \<times> ('v, 'e) body \<times> ('v, 'e) stack) option"

definition runner_frame :: "cid \<Rightarrow> ('v, 'e) fstate \<Rightarrow> ('v, 'e) frame" where
  "runner_frame t st = \<lparr>fr_state = st, fr_kind = Spawn_Promise, exc = None, pvalue = None, continuation = None, detached = False,
     handle_dropped = False, fr_params = [Some t]\<rparr>"

definition awaited_by :: "cid \<Rightarrow> ('v, 'e) frame \<Rightarrow> bool" where
  "awaited_by h f \<longleftrightarrow> fr_kind f = Task_Promise \<and> exc f = None \<and> \<not> detached f \<and> continuation f = Some h \<and> fr_params f = []"

definition root :: "(task \<Rightarrow> 'e + 'v) \<Rightarrow> ('v, 'e) machine \<Rightarrow> cid \<Rightarrow> cid \<Rightarrow> 'e + 'v \<Rightarrow> ('v, 'e) progress \<Rightarrow> bool" where
  "root env m h t r \<sigma> \<longleftrightarrow>
     (case \<sigma> of
        None \<Rightarrow> frames m h = Some (done_frame r (runner_frame t (At (forward r)))) \<and> finished m t r
      | Some (c, b, ks) \<Rightarrow>
          frames m h = Some (runner_frame t (Awaiting (Some t) False forward)) \<and> h \<notin> tower_ids c ks \<and> plain b \<and> plain_stack ks \<and>
          (\<exists>f. tower (frames m) c (At b) ks t f \<and> awaited_by h f) \<and> tower_eval env (eval_body env b) ks = r)"

definition root_ids :: "cid \<Rightarrow> cid \<Rightarrow> ('v, 'e) progress \<Rightarrow> cid set" where
  "root_ids h t \<sigma> = {h, t} \<union> (case \<sigma> of None \<Rightarrow> {} | Some (c, b, ks) \<Rightarrow> tower_ids c ks)"

definition root_work :: "(task \<Rightarrow> 'e + 'v) \<Rightarrow> ('v, 'e) progress \<Rightarrow> nat" where
  "root_work env \<sigma> = (case \<sigma> of None \<Rightarrow> 0 | Some (c, b, ks) \<Rightarrow> Suc (susps env b + tower_susps env (eval_body env b) ks))"

text \<open>Between the two machines, one root has gone from \<open>I\<close> to \<open>J\<close> and nothing else has changed.\<close>

definition sliced :: "('v, 'e) machine \<Rightarrow> cid set \<Rightarrow> ('v, 'e) machine \<Rightarrow> cid set \<Rightarrow> bool" where
  "sliced m I m' J \<longleftrightarrow>
     (\<forall>x. x \<notin> J \<longrightarrow> frames m' x = survivors (frames m) I x) \<and> J \<subseteq> I \<union> {next_cid m ..} \<and> fresh_above m' \<and> next_cid m \<le> next_cid m'"

lemma sliced_from:
  assumes "sliced m1 I1 m' J" and "survivors (frames m1) I1 = survivors (frames m) I" and "I1 \<subseteq> I \<union> {next_cid m ..}"
    and "next_cid m \<le> next_cid m1"
  shows "sliced m I m' J"
  using assms unfolding sliced_def by auto

lemma runner_frame_simps [simp]:
  "fr_state (runner_frame t st) = st" "fr_kind (runner_frame t st) = Spawn_Promise" "exc (runner_frame t st) = None"
  "(runner_frame t st)\<lparr>fr_state := st'\<rparr> = runner_frame t st'" "fr_params (runner_frame t st) = [Some t]"
  "continuation (runner_frame t st) = None" "\<not> handle_dropped (runner_frame t st)"
  by (simp_all add: runner_frame_def)

lemma awaited_by_any_state [simp]: "awaited_by h (f\<lparr>fr_state := st\<rparr>) = awaited_by h f"
  by (simp add: awaited_by_def)

lemma runner_return:
  assumes "frames m h = Some (runner_frame t (At (forward r)))"
  shows "resume m h = Some (Inr (set_frame h (done_frame r (runner_frame t (At (forward r)))) m, None))"
  using assms
  by (subst resume_step, cases r) (simp_all add: co_step_def forward_def final_suspend_def spawn_final_suspend_def frame_at_def
      return_value_def unhandled_exception_def)

text \<open>The task has returned: the runner takes its result and waits at its end for the handle.\<close>

lemma runner_collect:
  assumes h: "frames m h = Some (runner_frame t (Awaiting (Some t) False forward))" and ne: "h \<noteq> t" and fr: "fresh_above m"
    and f: "frames m t = Some (f\<lparr>fr_state := At (forward r)\<rparr>)" "awaited_by h f"
  shows "\<exists>m'. resume m t = Some (Inr (m', None)) \<and> root env m' h t r None \<and> next_cid m' = next_cid m \<and> fresh_above m' \<and>
           (\<forall>x. x \<notin> {h, t} \<longrightarrow> frames m' x = frames m x)"
proof -
  let ?g = "f\<lparr>fr_state := At (forward r)\<rparr>"
  let ?m1 = "set_frame h (runner_frame t (At (forward r))) (set_frame t (done_frame r ?g) m)"
  let ?m2 = "set_frame h (done_frame r (runner_frame t (At (forward r)))) ?m1"
  have g: "fr_kind ?g = Task_Promise" "exc ?g = None" "\<not> detached ?g" "continuation ?g = Some h" "fr_params ?g = []"
    using f(2) by (simp_all add: awaited_by_def)
  have "resume m t = resume ?m1 h"
    using await_end [OF h _ ne f(1) _ g(1-4)] by simp
  also have "\<dots> = Some (Inr (?m2, None))"
    by (rule runner_return) simp
  finally have "resume m t = Some (Inr (?m2, None))" .
  moreover have "finished ?m2 t r"
    using ne take_result_done [OF g(2), of r] g(5)
    by (cases r) (simp_all add: finished_def return_value_def unhandled_exception_def)
  moreover have "fresh_above ?m2"
    using fr alive_below [OF fr h] alive_below [OF fr f(1)] by (auto simp: fresh_above_def)
  ultimately show ?thesis by (intro exI [of _ ?m2]) (simp add: root_def)
qed

lemma root_slice:
  assumes r: "root env m h t r (Some (c, b, ks))" and fr: "fresh_above m"
  shows "\<exists>m' \<sigma>. resume m c = Some (Inr (m', map_option fst \<sigma>)) \<and> root env m' h t r \<sigma> \<and>
           root_work env \<sigma> < root_work env (Some (c, b, ks)) \<and> sliced m (root_ids h t (Some (c, b, ks))) m' (root_ids h t \<sigma>)"
proof -
  let ?n = "susps env b + tower_susps env (eval_body env b) ks"
  obtain f where h: "frames m h = Some (runner_frame t (Awaiting (Some t) False forward))" "h \<notin> tower_ids c ks"
      and b: "plain b" "plain_stack ks" and f: "tower (frames m) c (At b) ks t f" "awaited_by h f"
      and e: "tower_eval env (eval_body env b) ks = r"
    using r by (auto simp: root_def)
  have t: "t \<in> tower_ids c ks" by (rule tower_base [OF f(1)])
  then have ne: "h \<noteq> t" using h(2) by blast
  have hn: "h < next_cid m" by (rule alive_below [OF fr h(1)])
  show ?thesis
  proof (cases "0 < ?n")
    case True
    then obtain m' c' b' ks' where 1: "resume m c = Some (Inr (m', Some c'))" "parks env m (tower_ids c ks) m' c' b' ks' t f r (?n - 1)"
      using slice_tower [OF f(1) b fr, of env] e by auto
    have k: "tower_ids c' ks' \<subseteq> tower_ids c ks \<union> {next_cid m ..}" "\<And>x. x \<notin> tower_ids c' ks' \<Longrightarrow> frames m' x = survivors (frames m) (tower_ids c ks) x"
      using 1(2) by (simp_all add: parks_def)
    have h': "h \<notin> tower_ids c' ks'" using k(1) h(2) hn by auto
    then have "frames m' h = frames m h" using k(2) [of h] h(2) by (simp add: survivors_def)
    then have "root env m' h t r (Some (c', b', ks'))"
      using 1(2) h(1) h' f(2) by (auto simp: root_def parks_def)
    moreover have "sliced m (root_ids h t (Some (c, b, ks))) m' (root_ids h t (Some (c', b', ks')))"
      using 1(2) k t by (auto simp: sliced_def root_ids_def parks_def survivors_def)
    moreover have "root_work env (Some (c', b', ks')) < root_work env (Some (c, b, ks))"
      using 1(2) True by (simp add: root_work_def parks_def)
    ultimately show ?thesis
      using 1(1) by (intro exI [of _ m'] exI [of _ "Some (c', b', ks')"]) simp
  next
    case False
    then obtain m1 where 1: "resume m c = resume m1 t" "next_cid m \<le> next_cid m1" "fresh_above m1"
        "frames m1 = (survivors (frames m) (tower_ids c ks))(t \<mapsto> f\<lparr>fr_state := At (forward r)\<rparr>)"
      using slice_tower_end [OF f(1) b fr, of env] e by auto
    have "frames m1 h = Some (runner_frame t (Awaiting (Some t) False forward))"
      using h ne by (simp add: 1(4) survivors_def)
    then obtain m' where 2: "resume m1 t = Some (Inr (m', None))" "root env m' h t r None" "next_cid m' = next_cid m1" "fresh_above m'"
        "\<And>x. x \<notin> {h, t} \<Longrightarrow> frames m' x = frames m1 x"
      using runner_collect [OF _ ne 1(3) _ f(2), of r env] 1(4) by auto
    have "sliced m (root_ids h t (Some (c, b, ks))) m' (root_ids h t None)"
      using 2(3-5) 1(2) by (auto simp: sliced_def root_ids_def survivors_def 1(4))
    with 1(1) 2(1,2) show ?thesis
      by (intro exI [of _ m'] exI [of _ None]) (simp add: root_work_def)
  qed
qed

text \<open>\<^verbatim>\<open>spawn\<close> makes the runner and starts the task.\<close>

lemma spawn_begin:
  assumes t: "task_at m t b" and b: "plain b" and fr: "fresh_above m"
  shows "\<exists>m1 m2. spawn_runner (Some t) m = (next_cid m, m1) \<and> resume m1 (next_cid m) = resume m2 t \<and>
           root env m2 (next_cid m) t (eval_body env b) (Some (t, b, [])) \<and> sliced m {t} m2 {next_cid m, t}"
proof -
  let ?h = "next_cid m"
  obtain g where g: "frames m t = Some g" "fr_state g = At b" "fr_kind g = Task_Promise" "exc g = None" "\<not> detached g" "fr_params g = []"
    using t unfolding task_at_def by blast
  have lt: "t < ?h" by (rule alive_below [OF fr g(1)])
  define m1 where "m1 = m\<lparr>next_cid := Suc ?h, frames := (frames m)(?h \<mapsto> runner_frame t (At (Await_Task (Some t) forward)))\<rparr>"
  define m2 where "m2 = set_frame t (g\<lparr>continuation := Some ?h\<rparr>) (set_frame ?h (runner_frame t (Awaiting (Some t) False forward)) m1)"
  have sp: "spawn_runner (Some t) m = (?h, m1)"
    by (simp add: spawn_runner_def new_frame_def m1_def runner_frame_def)
  have m1: "frames m1 ?h = Some (runner_frame t (At (Await_Task (Some t) forward)))" "frames m1 t = Some g"
    using lt g by (simp_all add: m1_def)
  have s: "resume m1 ?h = resume m2 t"
    using await_begin [OF m1(1) _ m1(2)] g(2) lt by (simp add: m2_def)
  have r: "root env m2 ?h t (eval_body env b) (Some (t, b, []))"
    using lt g b by (auto simp: root_def m2_def awaited_by_def intro!: exI [of _ "g\<lparr>continuation := Some ?h\<rparr>"])
  have "fresh_above m2"
    using fr lt by (auto simp: fresh_above_def m2_def m1_def)
  then have "sliced m {t} m2 {?h, t}"
    by (auto simp: sliced_def survivors_def m2_def m1_def)
  with sp s r show ?thesis by blast
qed

section \<open>Several spawned tasks\<close>

lemma root_ids_alive:
  assumes "root env m h t r \<sigma>" and "x \<in> root_ids h t \<sigma>"
  shows "frames m x \<noteq> None"
proof (cases \<sigma>)
  case None
  with assms show ?thesis by (auto simp: root_def root_ids_def finished_def)
next
  case (Some z)
  obtain c b ks where z: "z = (c, b, ks)" by (cases z)
  then obtain f where f: "tower (frames m) c (At b) ks t f" "frames m h \<noteq> None"
    using assms(1) Some by (auto simp: root_def)
  from assms(2) Some z have "x = h \<or> x \<in> tower_ids c ks"
    using tower_base [OF f(1)] by (auto simp: root_ids_def)
  with f tower_ids_le [OF f(1)] show ?thesis by auto
qed

lemma root_cong:
  assumes "root env m h t r \<sigma>" and "\<And>x. x \<in> root_ids h t \<sigma> \<Longrightarrow> frames m' x = frames m x"
  shows "root env m' h t r \<sigma>"
proof (cases \<sigma>)
  case None
  with assms show ?thesis by (auto simp: root_def root_ids_def finished_def)
next
  case (Some z)
  obtain c b ks where z: "z = (c, b, ks)" by (cases z)
  have e: "frames m' x = frames m x" if "x = h \<or> x \<in> tower_ids c ks" for x
    using assms(2) that Some z by (auto simp: root_ids_def)
  have "tower (frames m') c (At b) ks t f = tower (frames m) c (At b) ks t f" for f
    using tower_cong [of "frames m" c "At b" ks t f "frames m'"] tower_cong [of "frames m'" c "At b" ks t f "frames m"] e by auto
  with assms(1) Some z e show ?thesis by (simp add: root_def)
qed

text \<open>
  The heap with \<open>n\<close> spawned tasks in it: handle \<open>H i\<close>, task \<open>T i\<close>, result to come \<open>R i\<close>. Their frames are apart; every other frame is as
  it was in the heap \<open>m0\<close> before the first was spawned.
\<close>

abbreviation ids_of :: "(nat \<Rightarrow> cid) \<Rightarrow> (nat \<Rightarrow> cid) \<Rightarrow> (nat \<Rightarrow> ('v, 'e) progress) \<Rightarrow> nat \<Rightarrow> cid set" where
  "ids_of H T \<sigma> i \<equiv> root_ids (H i) (T i) (\<sigma> i)"

definition roots_inv :: "(task \<Rightarrow> 'e + 'v) \<Rightarrow> ('v, 'e) machine \<Rightarrow> nat \<Rightarrow> (nat \<Rightarrow> cid) \<Rightarrow> (nat \<Rightarrow> cid) \<Rightarrow> (nat \<Rightarrow> 'e + 'v)
    \<Rightarrow> (nat \<Rightarrow> ('v, 'e) progress) \<Rightarrow> ('v, 'e) machine \<Rightarrow> bool" where
  "roots_inv env m0 n H T R \<sigma> m \<longleftrightarrow>
     fresh_above m \<and> fresh_above m0 \<and> next_cid m0 \<le> next_cid m \<and>
     (\<forall>i < n. root env m (H i) (T i) (R i) (\<sigma> i)) \<and>
     (\<forall>i < n. \<forall>j < n. i \<noteq> j \<longrightarrow> ids_of H T \<sigma> i \<inter> ids_of H T \<sigma> j = {}) \<and>
     (\<forall>i < n. ids_of H T \<sigma> i \<subseteq> insert (T i) {next_cid m0 ..}) \<and>
     (\<forall>x. (\<forall>i < n. x \<notin> ids_of H T \<sigma> i) \<longrightarrow> frames m x = frames m0 x)"

lemma roots_invD:
  assumes "roots_inv env m0 n H T R \<sigma> m"
  shows "fresh_above m" "fresh_above m0" "next_cid m0 \<le> next_cid m"
    and "i < n \<Longrightarrow> root env m (H i) (T i) (R i) (\<sigma> i)"
    and "i < n \<Longrightarrow> j < n \<Longrightarrow> i \<noteq> j \<Longrightarrow> x \<in> ids_of H T \<sigma> i \<Longrightarrow> x \<notin> ids_of H T \<sigma> j"
    and "i < n \<Longrightarrow> x \<in> ids_of H T \<sigma> i \<Longrightarrow> x = T i \<or> next_cid m0 \<le> x"
    and "(\<And>i. i < n \<Longrightarrow> x \<notin> ids_of H T \<sigma> i) \<Longrightarrow> frames m x = frames m0 x"
  using assms unfolding roots_inv_def by blast+

lemma disjoint_upd:
  assumes "\<And>j k. j \<in> A \<Longrightarrow> k \<in> A \<Longrightarrow> j \<noteq> k \<Longrightarrow> F j \<inter> F k = {}" and "\<And>j. j \<in> A \<Longrightarrow> j \<noteq> i \<Longrightarrow> F j \<inter> X = {}"
    and "j \<in> insert i A" "k \<in> insert i A" "j \<noteq> k"
  shows "(F(i := X)) j \<inter> (F(i := X)) k = {}"
proof -
  consider "j = i" "k \<in> A" "k \<noteq> i" | "k = i" "j \<in> A" "j \<noteq> i" | "j \<in> A" "k \<in> A" "j \<noteq> i" "k \<noteq> i" using assms(3-5) by blast
  then show ?thesis using assms(1) [of j k] assms(2) [of j] assms(2) [of k] assms(5) by cases (simp_all add: Int_commute)
qed

text \<open>One root moves by a slice.\<close>

lemma roots_inv_slice:
  assumes inv: "roots_inv env m0 n H T R \<sigma> m" and i: "i < n"
    and r: "root env m' (H i) (T i) (R i) \<sigma>'" and sl: "sliced m (ids_of H T \<sigma> i) m' (root_ids (H i) (T i) \<sigma>')"
  shows "roots_inv env m0 n H T R (\<sigma>(i := \<sigma>')) m'"
proof -
  let ?I = "ids_of H T \<sigma> i" let ?J = "root_ids (H i) (T i) \<sigma>'"
  note D = roots_invD [OF inv]
  have out: "frames m' x = survivors (frames m) ?I x" if "x \<notin> ?J" for x using sl that by (simp add: sliced_def)
  have J: "x \<in> ?I \<or> next_cid m \<le> x" if "x \<in> ?J" for x using sl that by (auto simp: sliced_def)
  have other: "x \<notin> ?I \<and> x \<notin> ?J" if "x \<in> ids_of H T \<sigma> j" "j < n" "j \<noteq> i" for x j
  proof -
    have "x \<notin> ?I" using D(5) that i by blast
    moreover have "x < next_cid m"
      using root_ids_alive [OF D(4) [OF that(2)] that(1)] alive_below [OF D(1)] by blast
    ultimately show ?thesis using J by fastforce
  qed
  have "root env m' (H j) (T j) (R j) ((\<sigma>(i := \<sigma>')) j)" if "j < n" for j
  proof (cases "j = i")
    case False
    then have "root env m' (H j) (T j) (R j) (\<sigma> j)"
      using other [OF _ that] out by (intro root_cong [OF D(4) [OF that]]) (simp add: survivors_def)
    with False show ?thesis by simp
  qed (simp add: r)
  moreover have "ids_of H T (\<sigma>(i := \<sigma>')) j \<inter> ids_of H T (\<sigma>(i := \<sigma>')) k = {}" if "j < n" "k < n" "j \<noteq> k" for j k
  proof -
    have o: "ids_of H T \<sigma> j \<inter> ids_of H T \<sigma> k = {}" if "j \<in> {..<n}" "k \<in> {..<n}" "j \<noteq> k" for j k using D(5) [of j k] that by blast
    have p: "ids_of H T \<sigma> j \<inter> ?J = {}" if "j \<in> {..<n}" "j \<noteq> i" for j using other [of _ j] that by blast
    show ?thesis
      using disjoint_upd [where F = "ids_of H T \<sigma>" and A = "{..<n}" and X = ?J and i = i and j = j and k = k, OF o p] that by (cases "j = i"; cases "k = i") simp_all
  qed
  moreover have "ids_of H T (\<sigma>(i := \<sigma>')) j \<subseteq> insert (T j) {next_cid m0 ..}" if "j < n" for j
  proof
    fix x assume "x \<in> ids_of H T (\<sigma>(i := \<sigma>')) j"
    then have "x \<in> ids_of H T \<sigma> j \<or> next_cid m \<le> x" using J by (cases "j = i") auto
    then show "x \<in> insert (T j) {next_cid m0 ..}" using D(6) [OF that, of x] D(3) by auto
  qed
  moreover have "frames m' x = frames m0 x" if x: "\<And>j. j < n \<Longrightarrow> x \<notin> ids_of H T (\<sigma>(i := \<sigma>')) j" for x
  proof (cases "x \<in> ?I")
    case True
    have "x \<notin> ?J" using x [OF i] by simp
    then have "frames m' x = None" "x \<noteq> T i" using out True by (auto simp: survivors_def root_ids_def)
    then show ?thesis using D(6) [OF i True] fresh_aboveD [OF D(2), of x] by simp
  next
    case False
    have "x \<notin> ids_of H T \<sigma> j" if "j < n" for j using x [OF that] False by (cases "j = i") auto
    then show ?thesis using D(7) [of x] out [of x] x [OF i] False by (simp add: survivors_def)
  qed
  moreover have "fresh_above m'" "next_cid m0 \<le> next_cid m'"
    using sl D(3) by (simp_all add: sliced_def)
  ultimately show ?thesis
    unfolding roots_inv_def using D(2) by blast
qed

text \<open>One more root, of a task that was there at the beginning.\<close>

lemma roots_inv_spawn:
  assumes inv: "roots_inv env m0 n H T R \<sigma> m" and t: "t < next_cid m0" "\<And>i. i < n \<Longrightarrow> T i \<noteq> t"
    and r: "root env m' (next_cid m) t v z" and sl: "sliced m {t} m' {next_cid m, t}" and z: "root_ids (next_cid m) t z = {next_cid m, t}"
  shows "roots_inv env m0 (Suc n) (H(n := next_cid m)) (T(n := t)) (R(n := v)) (\<sigma>(n := z)) m'"
proof -
  note D = roots_invD [OF inv]
  have old: "x \<noteq> t \<and> x < next_cid m" if "x \<in> ids_of H T \<sigma> i" "i < n" for x i
    using root_ids_alive [OF D(4) [OF that(2)] that(1)] alive_below [OF D(1)] D(6) [OF that(2,1)] t(1) t(2) [OF that(2)] by fastforce
  have out: "frames m' x = frames m x" if "x \<noteq> t" "x \<noteq> next_cid m" for x
    using sl that by (simp add: sliced_def survivors_def)
  have "root env m' (H i) (T i) (R i) (\<sigma> i)" if "i < n" for i
    using old [OF _ that] out by (intro root_cong [OF D(4) [OF that]]) blast
  then have "root env m' ((H(n := next_cid m)) i) ((T(n := t)) i) ((R(n := v)) i) ((\<sigma>(n := z)) i)" if "i < Suc n" for i
    using that r by (cases "i = n") simp_all
  moreover have "ids_of (H(n := next_cid m)) (T(n := t)) (\<sigma>(n := z)) i \<inter> ids_of (H(n := next_cid m)) (T(n := t)) (\<sigma>(n := z)) j = {}"
    if "i < Suc n" "j < Suc n" "i \<noteq> j" for i j
  proof -
    have o: "ids_of H T \<sigma> j \<inter> ids_of H T \<sigma> k = {}" if "j \<in> {..<n}" "k \<in> {..<n}" "j \<noteq> k" for j k using D(5) [of j k] that by blast
    have p: "ids_of H T \<sigma> j \<inter> {next_cid m, t} = {}" if "j \<in> {..<n}" "j \<noteq> n" for j using old [of _ j] that by fastforce
    show ?thesis
      using disjoint_upd [where F = "ids_of H T \<sigma>" and A = "{..<n}" and X = "{next_cid m, t}" and i = n and j = i and k = j, OF o p] that z by (cases "i = n"; cases "j = n") (simp_all add: less_Suc_eq)
  qed
  moreover have "ids_of (H(n := next_cid m)) (T(n := t)) (\<sigma>(n := z)) i \<subseteq> insert ((T(n := t)) i) {next_cid m0 ..}" if "i < Suc n" for i
    using D(3) D(6) [of i] that z by (cases "i = n") (simp, force)
  moreover have "frames m' x = frames m0 x" if x: "\<And>i. i < Suc n \<Longrightarrow> x \<notin> ids_of (H(n := next_cid m)) (T(n := t)) (\<sigma>(n := z)) i" for x
  proof -
    have "x \<noteq> t" "x \<noteq> next_cid m" using x [of n] z by auto
    moreover have "x \<notin> ids_of H T \<sigma> i" if "i < n" for i using x [of i] that by simp
    ultimately show ?thesis using out D(7) by simp
  qed
  moreover have "fresh_above m'" "next_cid m0 \<le> next_cid m'"
    using sl D(3) by (simp_all add: sliced_def)
  ultimately show ?thesis
    unfolding roots_inv_def using D(2) by blast
qed

end
