(* ===== verification/Async_Runtime.thy ===== *)
theory Async_Runtime
  imports Executor_Runs Coroutine_Slices
begin

text \<open>
  The executor and the coroutines together: coroutines suspended at \<^verbatim>\<open>IoAwaiter\<close>s, resumed by \<^verbatim>\<open>run_until\<close> when the reactor
  reports their descriptors, until \<^verbatim>\<open>sync_wait\<close> has the result. The coroutine heap stands beside the kernel's state; an
  \<^verbatim>\<open>IoAwaiter\<close> is a local of the coroutine that awaits it, at the address \<open>sites\<close> tells.
\<close>

section \<open>State\<close>

record ('k, 'v, 'e) runtime =
  os :: 'k
  coros :: "('v, 'e) machine"
  sites :: "cid \<Rightarrow> u64 option"

type_synonym ('k, 'v, 'e) rt_sys = "('k, 'v, 'e) runtime exec_sys"

text \<open>The kernel's calls, which leave the coroutines alone.\<close>

definition host_kernel :: "'k kernel \<Rightarrow> ('k, 'v, 'e) runtime kernel" where
  "host_kernel K = \<lparr>
     sys_epoll_create = (\<lambda>x. let (r, k) = sys_epoll_create K (os x) in (r, x\<lparr>os := k\<rparr>)),
     sys_eventfd = (\<lambda>x. let (r, k) = sys_eventfd K (os x) in (r, x\<lparr>os := k\<rparr>)),
     sys_epoll_add = (\<lambda>x ep fd ev tok. let (r, k) = sys_epoll_add K (os x) ep fd ev tok in (r, x\<lparr>os := k\<rparr>)),
     sys_epoll_mod = (\<lambda>x ep fd ev tok. let (r, k) = sys_epoll_mod K (os x) ep fd ev tok in (r, x\<lparr>os := k\<rparr>)),
     sys_epoll_del = (\<lambda>x ep fd. let (r, k) = sys_epoll_del K (os x) ep fd in (r, x\<lparr>os := k\<rparr>)),
     sys_epoll_wait = (\<lambda>x ep m t. let (n, evs, k) = sys_epoll_wait K (os x) ep m t in (n, evs, x\<lparr>os := k\<rparr>)),
     sys_read8 = (\<lambda>x fd. x\<lparr>os := sys_read8 K (os x) fd\<rparr>),
     sys_write8 = (\<lambda>x fd v. x\<lparr>os := sys_write8 K (os x) fd v\<rparr>),
     sys_close = (\<lambda>x fd. x\<lparr>os := sys_close K (os x) fd\<rparr>),
     sys_errno = (\<lambda>x. sys_errno K (os x)), strerror = strerror K\<rparr>"

abbreviation coros_of :: "('k, 'v, 'e) rt_sys \<Rightarrow> ('v, 'e) machine" where
  "coros_of s \<equiv> coros (ex_kernel (world s))"

abbreviation sites_of :: "('k, 'v, 'e) rt_sys \<Rightarrow> cid \<Rightarrow> u64 option" where
  "sites_of s \<equiv> sites (ex_kernel (world s))"

definition set_coros :: "('v, 'e) machine \<Rightarrow> ('k, 'v, 'e) rt_sys \<Rightarrow> ('k, 'v, 'e) rt_sys" where
  "set_coros m s = world_update (\<lambda>x. x\<lparr>ex_kernel := (ex_kernel x)\<lparr>coros := m\<rparr>\<rparr>) s"

definition at_site :: "cid \<Rightarrow> u64 option \<Rightarrow> ('k, 'v, 'e) rt_sys \<Rightarrow> ('k, 'v, 'e) rt_sys" where
  "at_site c v s = world_update (\<lambda>x. x\<lparr>ex_kernel := (ex_kernel x)\<lparr>sites := (sites (ex_kernel x))(c := v)\<rparr>\<rparr>) s"

section \<open>Running a coroutine\<close>

text \<open>
  The end of \<^verbatim>\<open>co_await ex.wait(...)\<close>: \<^verbatim>\<open>await_resume\<close>, then the awaiter dies. The bodies do not look at the awaiter's result.
\<close>

definition leave_awaiter :: "'k kernel \<Rightarrow> cid \<Rightarrow> u64 \<Rightarrow> ('k, 'v, 'e) rt_sys \<Rightarrow> ('k, 'v, 'e) rt_sys outcome" where
  "leave_awaiter K c a s =
     out_bind (await_resume (host_kernel K) a s) (\<lambda>(_, s1).
     out_bind (io_awaiter_destroy s1 a) (\<lambda>s2. Inr (at_site c None s2)))"

text \<open>
  \<^verbatim>\<open>handle.resume()\<close>: the coroutine runs until it returns to the resumer or suspends at an awaiter it makes. \<open>io\<close> is the descriptor,
  the event and whether a stop token was given; \<open>place\<close> is where the frame puts the awaiter.
\<close>

partial_function (option) advance ::
  "'k kernel \<Rightarrow> (('v, 'e) machine \<Rightarrow> cid \<Rightarrow> fd \<times> event \<times> bool) \<Rightarrow> ((u64 \<Rightarrow> io_awaiter option) \<Rightarrow> cid \<Rightarrow> u64) \<Rightarrow> cid
     \<Rightarrow> ('k, 'v, 'e) rt_sys \<Rightarrow> ('k, 'v, 'e) rt_sys outcome option" where
  "advance K io place h s =
     Option.bind (resume (coros_of s) h) (\<lambda>res.
     case res of
       Inl e \<Rightarrow> Some (Inl e)
     | Inr (m, p) \<Rightarrow>
         (case p of
            None \<Rightarrow> Some (Inr (set_coros m s))
          | Some c \<Rightarrow>
              (let (handle, ev, tok) = io m c;
                   a = place (awaiters (world s)) c;
                   s1 = at_site c (Some a) (io_awaiter_make (set_coros m s) a handle ev tok)
               in case await_ready s1 a of
                    Inl e \<Rightarrow> Some (Inl e)
                  | Inr ready \<Rightarrow>
                      if \<not> ready then Some (await_suspend (host_kernel K) a c s1)
                      else (case leave_awaiter K c a s1 of Inl e \<Rightarrow> Some (Inl e) | Inr s2 \<Rightarrow> advance K io place c s2))))"

definition rt_resume ::
  "'k kernel \<Rightarrow> (('v, 'e) machine \<Rightarrow> cid \<Rightarrow> fd \<times> event \<times> bool) \<Rightarrow> ((u64 \<Rightarrow> io_awaiter option) \<Rightarrow> cid \<Rightarrow> u64) \<Rightarrow> cid
     \<Rightarrow> ('k, 'v, 'e) rt_sys \<Rightarrow> ('k, 'v, 'e) rt_sys outcome option" where
  "rt_resume K io place h s =
     (case sites_of s h of
        None \<Rightarrow> advance K io place h s
      | Some a \<Rightarrow> (case leave_awaiter K h a s of Inl e \<Rightarrow> Some (Inl e) | Inr s1 \<Rightarrow> advance K io place h s1))"

definition rt_done :: "cid \<Rightarrow> ('k, 'v, 'e) rt_sys \<Rightarrow> bool" where
  "rt_done h s \<longleftrightarrow> handle_done (coros_of s) h = Inr True"

text \<open>\<^verbatim>\<open>spawn\<close> and \<^verbatim>\<open>sync_wait\<close> on a spawned task, with this executor.\<close>

definition rt_spawn ::
  "'k kernel \<Rightarrow> (('v, 'e) machine \<Rightarrow> cid \<Rightarrow> fd \<times> event \<times> bool) \<Rightarrow> ((u64 \<Rightarrow> io_awaiter option) \<Rightarrow> cid \<Rightarrow> u64) \<Rightarrow> u64 \<Rightarrow> task
     \<Rightarrow> ('k, 'v, 'e) rt_sys \<Rightarrow> (spawn_handle \<times> ('k, 'v, 'e) rt_sys) outcome option" where
  "rt_spawn K io place ex t s =
     (let (h, m) = spawn_runner t (coros_of s)
      in map_option (map_sum id (Pair (set_executor ex (spawn_handle_make h)))) (advance K io place h (set_coros m s)))"

definition rt_sync_wait ::
  "'k kernel \<Rightarrow> (('v, 'e) machine \<Rightarrow> cid \<Rightarrow> fd \<times> event \<times> bool) \<Rightarrow> ((u64 \<Rightarrow> io_awaiter option) \<Rightarrow> cid \<Rightarrow> u64) \<Rightarrow> 'v \<Rightarrow> spawn_handle
     \<Rightarrow> ('k, 'v, 'e) rt_sys \<Rightarrow> (('e + 'v) \<times> ('k, 'v, 'e) rt_sys) outcome option" where
  "rt_sync_wait K io place dflt t s =
     sync_wait_spawn coros_of (\<lambda>_ s h. run_until (host_kernel K) (rt_resume K io place) rt_done (Some h) s) dflt s t"

text \<open>A program that spawns its tasks one after the other.\<close>

fun rt_spawn_all ::
  "'k kernel \<Rightarrow> (('v, 'e) machine \<Rightarrow> cid \<Rightarrow> fd \<times> event \<times> bool) \<Rightarrow> ((u64 \<Rightarrow> io_awaiter option) \<Rightarrow> cid \<Rightarrow> u64) \<Rightarrow> u64 \<Rightarrow> task list
     \<Rightarrow> ('k, 'v, 'e) rt_sys \<Rightarrow> (spawn_handle list \<times> ('k, 'v, 'e) rt_sys) outcome option" where
  "rt_spawn_all K io place ex [] s = Some (Inr ([], s))"
| "rt_spawn_all K io place ex (t # ts) s =
     Option.bind (rt_spawn K io place ex t s) (\<lambda>res.
     case res of
       Inl e \<Rightarrow> Some (Inl e)
     | Inr (h, s1) \<Rightarrow> map_option (map_sum id (apfst ((#) h))) (rt_spawn_all K io place ex ts s1))"

section \<open>The kernel\<close>

lemma host_kernel_simps [simp]:
  "snd (sys_epoll_del (host_kernel K) x ep fd) = x\<lparr>os := snd (sys_epoll_del K (os x) ep fd)\<rparr>"
  "sys_read8 (host_kernel K) x fd = x\<lparr>os := sys_read8 K (os x) fd\<rparr>"
  "sys_errno (host_kernel K) x = sys_errno K (os x)" "strerror (host_kernel K) = strerror K"
  "sys_epoll_wait (host_kernel K) x ep m t =
     (fst (sys_epoll_wait K (os x) ep m t), fst (snd (sys_epoll_wait K (os x) ep m t)), x\<lparr>os := snd (snd (sys_epoll_wait K (os x) ep m t))\<rparr>)"
  by (simp_all add: host_kernel_def case_prod_beta)

lemma host_contract:
  assumes "epoll_contract K interest"
  shows "epoll_contract (host_kernel K) (interest \<circ> os)"
proof -
  have create: "\<forall>k ep k'. sys_epoll_create K k = (ep, k') \<longrightarrow> 0 \<le> ep \<longrightarrow> interest k' = (interest k)(ep := Map.empty)"
    using assms unfolding epoll_contract_def by (elim conjE)
  show ?thesis
    unfolding epoll_contract_def
  proof (intro conjI allI impI)
    fix x ep x'
    assume "sys_epoll_create (host_kernel K) x = (ep, x')" "0 \<le> ep"
    then show "(interest \<circ> os) x' = ((interest \<circ> os) x)(ep := Map.empty)"
      using create by (auto simp: host_kernel_def split: prod.splits)
  next
    fix x ep fd ev tok rc x'
    assume "sys_epoll_add (host_kernel K) x ep fd ev tok = (rc, x')"
    then obtain k where "sys_epoll_add K (os x) ep fd ev tok = (rc, k)" "x' = x\<lparr>os := k\<rparr>"
      by (auto simp: host_kernel_def split: prod.splits)
    with epoll_contract_add [OF assms this(1)]
    show "if rc < 0 then (interest \<circ> os) x' = (interest \<circ> os) x
        else (interest \<circ> os) x ep fd = None \<and> (interest \<circ> os) x' = ((interest \<circ> os) x)(ep := ((interest \<circ> os) x ep)(fd \<mapsto> tok))"
      by simp
  next
    fix x ep m t n evs x'
    assume "sys_epoll_wait (host_kernel K) x ep m t = (n, evs, x')"
    then obtain k where w: "sys_epoll_wait K (os x) ep m t = (n, evs, k)" "x' = x\<lparr>os := k\<rparr>"
      by (auto simp: host_kernel_def split: prod.splits)
    from epoll_contract_wait [OF assms w(1)] w(2)
    show "(interest \<circ> os) x' = (interest \<circ> os) x" "n \<le> int m" "n \<le> int (length evs)"
        "\<forall>e \<in> set (take (nat n) evs). snd e \<in> ran ((interest \<circ> os) x ep)" by simp_all
  qed (simp_all add: host_kernel_def case_prod_beta epoll_contract_simps [OF assms])
qed

text \<open>
  What the run relies on of the kernel and of the descriptors' other ends: an unbounded wait while something is watched
  reports one of the watched descriptors, or returns without one: interrupted by a signal, or woken up by a wake-up of any thread,
  whose event the reactor then reads. \<open>patience\<close> bounds the number of such returns between two reports.
\<close>

definition io_progress :: "'k kernel \<Rightarrow> ('k \<Rightarrow> fd \<Rightarrow> fd \<Rightarrow> u64 option) \<Rightarrow> ('k \<Rightarrow> nat) \<Rightarrow> bool" where
  "io_progress K interest patience \<longleftrightarrow>
     (\<forall>k ep m n evs k'. sys_epoll_wait K k ep m (- 1) = (n, evs, k') \<longrightarrow> 0 < m \<longrightarrow> (\<exists>tok \<in> ran (interest k ep). tok \<noteq> WAKE_TOKEN) \<longrightarrow>
        (\<exists>e \<in> set (take (nat n) evs). \<not> is_wake e) \<or>
        (n < 0 \<longrightarrow> sys_errno K k' = EINTR) \<and> (\<forall>j fd. j \<le> nat n \<longrightarrow> patience (((\<lambda>k. sys_read8 K k fd) ^^ j) k') < patience k))"

lemma io_progressD:
  assumes "io_progress K interest patience" and "sys_epoll_wait K k ep m (- 1) = (n, evs, k')" and "0 < m"
    and "\<exists>tok \<in> ran (interest k ep). tok \<noteq> WAKE_TOKEN"
  shows "(\<exists>e \<in> set (take (nat n) evs). \<not> is_wake e) \<or>
    (n < 0 \<longrightarrow> sys_errno K k' = EINTR) \<and> (\<forall>j fd. j \<le> nat n \<longrightarrow> patience (((\<lambda>k. sys_read8 K k fd) ^^ j) k') < patience k)"
  using assms unfolding io_progress_def by blast

text \<open>There is memory for \<open>N\<close> awaiters at a time.\<close>

definition room_for :: "nat \<Rightarrow> ((u64 \<Rightarrow> io_awaiter option) \<Rightarrow> cid \<Rightarrow> u64) \<Rightarrow> bool" where
  "room_for N place \<longleftrightarrow> (\<forall>aw c. card (dom aw) < N \<longrightarrow> aw (place aw c) = None \<and> place aw c \<noteq> WAKE_TOKEN)"

section \<open>The invariant\<close>

definition leaves :: "nat \<Rightarrow> (nat \<Rightarrow> ('v, 'e) progress) \<Rightarrow> cid set" where
  "leaves n \<sigma> = {c. \<exists>i < n. \<exists>b ks. \<sigma> i = Some (c, b, ks)}"

text \<open>
  The coroutines suspended at awaiters are the tops of the spawned tasks' towers, up to the ones in \<open>X\<close>, which are running; an
  awaiter is alive just when a coroutine is suspended at it.
\<close>

definition rt_inv :: "('k \<Rightarrow> fd \<Rightarrow> fd \<Rightarrow> u64 option) \<Rightarrow> (task \<Rightarrow> 'e + 'v) \<Rightarrow> ('v, 'e) machine \<Rightarrow> nat \<Rightarrow> (nat \<Rightarrow> cid) \<Rightarrow> (nat \<Rightarrow> cid) \<Rightarrow> (nat \<Rightarrow> 'e + 'v)
    \<Rightarrow> (nat \<Rightarrow> ('v, 'e) progress) \<Rightarrow> ('k, 'v, 'e) rt_sys \<Rightarrow> (u64 \<rightharpoonup> cid) \<Rightarrow> cid set \<Rightarrow> bool" where
  "rt_inv interest env m0 n H T R \<sigma> s p X \<longleftrightarrow>
     ex_inv (interest \<circ> os) s p \<and> roots_inv env m0 n H T R \<sigma> (coros_of s) \<and>
     (\<forall>a c. p a = Some c \<longleftrightarrow> sites_of s c = Some a) \<and> dom (awaiters (world s)) = dom p \<and>
     set (m_ready (world s)) \<subseteq> ran p \<and> ran p = leaves n \<sigma> - X"

lemma leaf_id: "\<sigma> i = Some (c, b, ks) \<Longrightarrow> c \<in> ids_of H T \<sigma> i"
  by (simp add: root_ids_def tower_ids_def)

lemma leaves_upd:
  assumes "roots_inv env m0 n H T R \<sigma> m" and "i < n" and "\<sigma> i = Some (c, b, ks)"
  shows "leaves n (\<sigma>(i := \<sigma>')) = leaves n \<sigma> - {c} \<union> fst ` set_option \<sigma>'"
proof -
  have o: "j = i" if "j < n" "\<sigma> j = Some (c, b', ks')" for j b' ks'
    using roots_invD(5) [OF assms(1) that(1) assms(2), of c] leaf_id [of \<sigma> j, OF that(2)] leaf_id [of \<sigma> i, OF assms(3)] by blast
  show ?thesis
  proof (intro set_eqI iffI)
    fix x assume "x \<in> leaves n (\<sigma>(i := \<sigma>'))"
    then obtain j b' ks' where j: "j < n" "(\<sigma>(i := \<sigma>')) j = Some (x, b', ks')" by (auto simp: leaves_def)
    show "x \<in> leaves n \<sigma> - {c} \<union> fst ` set_option \<sigma>'"
    proof (cases "j = i")
      case True
      then show ?thesis using j by force
    next
      case False
      then show ?thesis using j o by (auto simp: leaves_def)
    qed
  next
    fix x assume "x \<in> leaves n \<sigma> - {c} \<union> fst ` set_option \<sigma>'"
    then consider j b' ks' where "j < n" "\<sigma> j = Some (x, b', ks')" "x \<noteq> c" | b' ks' where "\<sigma>' = Some (x, b', ks')"
      by (auto simp: leaves_def)
    then show "x \<in> leaves n (\<sigma>(i := \<sigma>'))"
    proof cases
      case 1
      then have "j \<noteq> i" using assms(3) by auto
      with 1 show ?thesis by (auto simp: leaves_def)
    next
      case 2
      then show ?thesis using assms(2) by (auto simp: leaves_def)
    qed
  qed
qed

lemma card_leaves: "finite (leaves n \<sigma>)" "card (leaves n \<sigma>) \<le> n"
proof -
  have s: "leaves n \<sigma> \<subseteq> (\<lambda>i. fst (the (\<sigma> i))) ` {..<n}" by (force simp: leaves_def)
  then show "finite (leaves n \<sigma>)" by (rule finite_subset) simp
  have "card (leaves n \<sigma>) \<le> card ((\<lambda>i. fst (the (\<sigma> i))) ` {..<n})" by (rule card_mono [OF _ s]) simp
  also have "\<dots> \<le> n" using card_image_le [of "{..<n}" "\<lambda>i. fst (the (\<sigma> i))"] by simp
  finally show "card (leaves n \<sigma>) \<le> n" .
qed

lemma card_parked:
  assumes "park_inv x p"
  shows "card (dom p) = card (ran p)"
proof -
  have "inj_on (\<lambda>a. the (p a)) (dom p)"
    using park_invD(2) [OF assms] by (auto simp: inj_on_def)
  moreover have "(\<lambda>a. the (p a)) ` dom p = ran p"
    by (force simp: ran_def)
  ultimately show ?thesis using card_image by metis
qed

lemma ran_clear:
  assumes "p a = Some h" and "\<And>b. p b = Some h \<Longrightarrow> b = a"
  shows "ran (p(a := None)) = ran p - {h}"
proof (intro set_eqI iffI)
  fix x assume "x \<in> ran (p(a := None))"
  then obtain b where "b \<noteq> a" "p b = Some x" by (auto simp: ran_def split: if_splits)
  then show "x \<in> ran p - {h}" using assms(2) [of b] by (auto intro: ranI)
next
  fix x assume "x \<in> ran p - {h}"
  then obtain b where "p b = Some x" "x \<noteq> h" by (auto simp: ran_def)
  then have "(p(a := None)) b = Some x" using assms(1) by auto
  then show "x \<in> ran (p(a := None))" by (rule ranI)
qed

lemma rt_invD:
  assumes "rt_inv interest env m0 n H T R \<sigma> s p X"
  shows "ex_inv (interest \<circ> os) s p" "roots_inv env m0 n H T R \<sigma> (coros_of s)" "p a = Some c \<longleftrightarrow> sites_of s c = Some a"
    "dom (awaiters (world s)) = dom p" "set (m_ready (world s)) \<subseteq> ran p" "ran p = leaves n \<sigma> - X"
  using assms unfolding rt_inv_def by blast+

lemma set_coros_simps [simp]:
  "world (set_coros m s) = (world s)\<lparr>ex_kernel := (ex_kernel (world s))\<lparr>coros := m\<rparr>\<rparr>" "stopped (set_coros m s) = stopped s"
  "world (at_site c v s) = (world s)\<lparr>ex_kernel := (ex_kernel (world s))\<lparr>sites := (sites_of s)(c := v)\<rparr>\<rparr>" "stopped (at_site c v s) = stopped s"
  by (simp_all add: set_coros_def at_site_def)

lemma ex_inv_coros:
  assumes "ex_inv (interest \<circ> os) s p"
  shows "ex_inv (interest \<circ> os) (set_coros m s) p" "ex_inv (interest \<circ> os) (at_site c v s) p"
proof -
  have e: "world_update (\<lambda>x. x\<lparr>ex_kernel := (ex_kernel x)\<lparr>coros := m\<rparr>\<rparr>) s = world_update (\<lambda>x. x\<lparr>ex_kernel := (ex_kernel (world s))\<lparr>coros := m\<rparr>\<rparr>) s"
       "world_update (\<lambda>x. x\<lparr>ex_kernel := (ex_kernel x)\<lparr>sites := (sites (ex_kernel x))(c := v)\<rparr>\<rparr>) s
        = world_update (\<lambda>x. x\<lparr>ex_kernel := (ex_kernel (world s))\<lparr>sites := (sites_of s)(c := v)\<rparr>\<rparr>) s"
    by (cases s; simp)+
  show "ex_inv (interest \<circ> os) (set_coros m s) p" "ex_inv (interest \<circ> os) (at_site c v s) p"
    unfolding set_coros_def at_site_def e by (rule ex_inv_kernel(1) [OF assms], simp)+
qed

text \<open>A coroutine makes an awaiter.\<close>

definition at_awaiter :: "cid \<Rightarrow> u64 \<Rightarrow> fd \<times> event \<times> bool \<Rightarrow> ('v, 'e) machine \<Rightarrow> ('k, 'v, 'e) rt_sys \<Rightarrow> ('k, 'v, 'e) rt_sys" where
  "at_awaiter c a fet m s = at_site c (Some a) (io_awaiter_make (set_coros m s) a (fst fet) (fst (snd fet)) (snd (snd fet)))"

lemma at_awaiter_spec:
  assumes inv: "rt_inv interest env m0 n H T R \<sigma> s p {c}" and c: "c \<in> leaves n \<sigma>" and room: "room_for N place" "n \<le> N"
    and a: "a = place (awaiters (world s)) c'"
  shows "ex_inv (interest \<circ> os) (at_awaiter c' a fet m s) p" "p a = None" "awaiters (world s) a = None"
    and "awaiters (world (at_awaiter c' a fet m s)) = (awaiters (world s))(a \<mapsto> \<lparr>m_handle = fst fet, m_interest = fst (snd fet),
       m_fired = Event_None, m_continuation = None, m_token = snd (snd fet), m_add_error = [], m_cancelled = False, m_queued = False,
       m_registered = False\<rparr>)"
    and "await_ready (at_awaiter c' a fet m s) a = Inr (snd (snd fet) \<and> stopped s)"
    and "coros_of (at_awaiter c' a fet m s) = m" "sites_of (at_awaiter c' a fet m s) = (sites_of s)(c' \<mapsto> a)"
    and "m_ready (world (at_awaiter c' a fet m s)) = m_ready (world s)" "m_running (world (at_awaiter c' a fet m s)) = m_running (world s)"
    and "stopped (at_awaiter c' a fet m s) = stopped s"
proof -
  note D = rt_invD [OF inv]
  have pk: "park_inv (world s) p" using D(1) by (simp add: ex_inv_def)
  have "card (ran p) < n"
    using psubset_card_mono [OF card_leaves(1) [of n \<sigma>], of "ran p"] card_leaves(2) [of n \<sigma>] D(6) c by force
  then have "card (dom (awaiters (world s))) < N"
    using card_parked [OF pk] D(4) room(2) by simp
  then have f: "awaiters (world s) a = None" "a \<noteq> WAKE_TOKEN"
    using room(1) a by (simp_all add: room_for_def)
  then show "p a = None" "awaiters (world s) a = None" using D(4) by blast+
  show "ex_inv (interest \<circ> os) (at_awaiter c' a fet m s) p"
    unfolding at_awaiter_def by (intro ex_inv_coros io_awaiter_make_inv D(1)) (use f in simp_all)
qed (simp_all add: at_awaiter_def io_awaiter_make_def node_construct_def await_ready_def awaiter_at_def
    token_stop_possible_def token_stop_requested_def)

lemma advance_unfold:
  "advance K io place h s =
     Option.bind (resume (coros_of s) h) (\<lambda>res.
     case res of
       Inl e \<Rightarrow> Some (Inl e)
     | Inr (m, None) \<Rightarrow> Some (Inr (set_coros m s))
     | Inr (m, Some c) \<Rightarrow>
         (let a = place (awaiters (world s)) c; s1 = at_awaiter c a (io m c) m s
          in case await_ready s1 a of
               Inl e \<Rightarrow> Some (Inl e)
             | Inr ready \<Rightarrow>
                 if \<not> ready then Some (await_suspend (host_kernel K) a c s1)
                 else (case leave_awaiter K c a s1 of Inl e \<Rightarrow> Some (Inl e) | Inr s2 \<Rightarrow> advance K io place c s2)))"
  by (subst advance.simps) (simp add: at_awaiter_def case_prod_beta Let_def cong: option.case_cong sum.case_cong)

text \<open>A coroutine taken from the ready queue leaves its awaiter.\<close>

lemma leave_awaiter_parked:
  assumes c: "epoll_contract K interest" and inv: "rt_inv interest env m0 n H T R \<sigma> s p {}" and r: "m_ready (world s) = h # hs"
  shows "\<exists>a s' p'. sites_of s h = Some a \<and> leave_awaiter K h a (pop_ready hs s) = Inr s' \<and> rt_inv interest env m0 n H T R \<sigma> s' p' {h} \<and>
           m_running (world s') = m_running (world s)"
proof -
  note D = rt_invD [OF inv]
  have pk: "park_inv (world s) p" using D(1) by (simp add: ex_inv_def)
  obtain a where a: "p a = Some h" using D(5) r by (force simp: ran_def)
  obtain w s1 where w: "awaiters (world s) a = Some w"
    and s1: "await_resume (host_kernel K) a (pop_ready hs s) = Inr (resume_result w (stopped s), s1)" "ex_inv (interest \<circ> os) s1 (p(a := None))"
    using await_resume_parked_inv [OF host_contract [OF c] D(1) a r] by blast
  have "s1 = world_update (dereg_world (host_kernel K) a w) (pop_ready hs s)"
    using s1(1) await_resume_eq [of "pop_ready hs s" a w "host_kernel K"] w by simp
  then have w1: "world s1 = dereg_world (host_kernel K) a w ((world s)\<lparr>m_ready := hs\<rparr>)" by simp
  then have f1: "awaiters (world s1) = (awaiters (world s))(a \<mapsto> w\<lparr>m_registered := False\<rparr>)" "coros_of s1 = coros_of s"
      "sites_of s1 = sites_of s" "m_ready (world s1) = hs" "m_running (world s1) = m_running (world s)"
    using dereg_world_awaiter [of "(world s)\<lparr>m_ready := hs\<rparr>" a w] w by (auto simp: dereg_world_def)
  obtain s2 where s2: "io_awaiter_destroy s1 a = Inr s2" "ex_inv (interest \<circ> os) s2 (p(a := None))"
      "world s2 = (world s1)\<lparr>awaiters := (awaiters (world s1))(a := None)\<rparr>"
    using io_awaiter_destroy_inv [OF s1(2)] f1(1) by fastforce
  have inj: "p b = Some h \<longleftrightarrow> b = a" for b using park_invD(2) [OF pk a] a by blast
  have nh: "h \<notin> set hs"
    using park_invD(1) [OF pk a] r by (auto simp: count_list_0_iff split: if_splits)
  have ran: "ran (p(a := None)) = ran p - {h}" by (rule ran_clear) (simp_all add: a inj)
  have "rt_inv interest env m0 n H T R \<sigma> (at_site h None s2) (p(a := None)) {h}"
    unfolding rt_inv_def
  proof (intro conjI)
    show "ex_inv (interest \<circ> os) (at_site h None s2) (p(a := None))" by (rule ex_inv_coros(2) [OF s2(2)])
    show "roots_inv env m0 n H T R \<sigma> (coros_of (at_site h None s2))" using D(2) by (simp add: s2(3) f1)
    show "\<forall>b c. (p(a := None)) b = Some c \<longleftrightarrow> sites_of (at_site h None s2) c = Some b"
      using inj D(3) a by (simp add: s2(3) f1) (metis option.inject)
    show "dom (awaiters (world (at_site h None s2))) = dom (p(a := None))" using D(4) by (simp add: s2(3) f1)
    show "set (m_ready (world (at_site h None s2))) \<subseteq> ran (p(a := None))" unfolding ran using D(5) r nh by (auto simp: s2(3) f1)
    show "ran (p(a := None)) = leaves n \<sigma> - {h}" using ran D(6) by simp
  qed
  with s1(1) s2(1) f1(5) a show ?thesis
    using D(3) [of a h] by (auto simp: leave_awaiter_def s2(3))
qed

text \<open>The awaiter of a coroutine that does not suspend, because a stop was requested, dies at once.\<close>

lemma leave_awaiter_ready:
  assumes inv: "rt_inv interest env m0 n H T R \<sigma> s p {c}" and c: "c \<in> leaves n \<sigma>" and room: "room_for N place" "n \<le> N"
    and a: "a = place (awaiters (world s)) c'" and ns: "sites_of s c' = None"
  shows "\<exists>s'. leave_awaiter K c' a (at_awaiter c' a fet m s) = Inr s' \<and> ex_inv (interest \<circ> os) s' p \<and> coros_of s' = m \<and> sites_of s' = sites_of s \<and>
           awaiters (world s') = awaiters (world s) \<and> m_ready (world s') = m_ready (world s) \<and> m_running (world s') = m_running (world s)"
proof -
  let ?s = "at_awaiter c' a fet m s"
  note A = at_awaiter_spec [OF inv c room a]
  obtain w where w: "awaiters (world ?s) a = Some w" "m_continuation w = None" by (simp add: A(4))
  have r: "await_resume (host_kernel K) a ?s = Inr (resume_result w (stopped ?s), ?s)"
    by (rule await_resume_ready_inv [OF A(1) w])
  obtain s2 where s2: "io_awaiter_destroy ?s a = Inr s2" "ex_inv (interest \<circ> os) s2 p"
      "world s2 = (world ?s)\<lparr>awaiters := (awaiters (world ?s))(a := None)\<rparr>"
    using io_awaiter_destroy_inv [OF A(1) w(1) A(2)] by blast
  have "leave_awaiter K c' a ?s = Inr (at_site c' None s2)"
    by (simp add: leave_awaiter_def r s2(1))
  moreover have "awaiters (world (at_site c' None s2)) = awaiters (world s)" "sites_of (at_site c' None s2) = sites_of s"
    using A(3) ns by (simp_all add: s2(3) A(4,7) fun_upd_idem)
  ultimately show ?thesis
    using A(6,8,9) by (auto simp: s2(3) ex_inv_coros(2) [OF s2(2)])
qed

lemma rt_inv_suspended:
  assumes inv: "rt_inv interest env m0 n H T R \<sigma> s p {c}" and c: "c \<in> leaves n \<sigma>" and room: "room_for N place" "n \<le> N"
    and K: "epoll_contract K interest" and a: "a = place (awaiters (world s)) c'" and nr: "\<not> (snd (snd fet) \<and> stopped s)"
    and m: "roots_inv env m0 n H T R \<sigma>' m" and c': "c' \<notin> ran p" and l: "leaves n \<sigma>' = insert c' (leaves n \<sigma> - {c})"
  shows "\<exists>s'. await_suspend (host_kernel K) a c' (at_awaiter c' a fet m s) = Inr s' \<and>
           rt_inv interest env m0 n H T R \<sigma>' s' (p(a \<mapsto> c')) {} \<and> m_running (world s') = m_running (world s)"
proof -
  let ?s = "at_awaiter c' a fet m s"
  note D = rt_invD [OF inv]
  note A = at_awaiter_spec [OF inv c room a]
  obtain w where w: "awaiters (world ?s) a = Some w" "m_continuation w = None" by (simp add: A(4))
  have nr': "await_ready ?s a = Inr False" using nr by (auto simp: A(5))
  have cr: "c' \<notin> set (m_ready (world ?s))" using c' D(5) by (auto simp: A(8))
  obtain s' w' where s': "await_suspend (host_kernel K) a c' ?s = Inr s'" "ex_inv (interest \<circ> os) s' (p(a \<mapsto> c'))"
      "awaiters (world s') = (awaiters (world ?s))(a \<mapsto> w')" "m_running (world s') = m_running (world ?s)"
      "ex_kernel (world s') = snd (reactor_add (host_kernel K) (ex_kernel (world ?s)) (m_reactor (world ?s)) (m_handle w) (m_interest w) a)"
      "set (m_ready (world s')) \<subseteq> insert c' (set (m_ready (world ?s)))"
    using await_suspend_spec [OF host_contract [OF K] A(1) w nr' c' cr] by blast
  have k: "coros_of s' = m" "sites_of s' = (sites_of s)(c' \<mapsto> a)"
    using A(6,7) s'(5) by (simp_all add: reactor_add_def host_kernel_def case_prod_beta Let_def)
  have ns: "sites_of s c' \<noteq> Some b" for b using D(3) [of b c'] c' by (auto intro: ranI)
  have ran: "ran (p(a \<mapsto> c')) = insert c' (ran p)" using A(2) by (rule ran_map_upd)
  have "rt_inv interest env m0 n H T R \<sigma>' s' (p(a \<mapsto> c')) {}"
    unfolding rt_inv_def
  proof (intro conjI)
    show "ex_inv (interest \<circ> os) s' (p(a \<mapsto> c'))" by fact
    show "roots_inv env m0 n H T R \<sigma>' (coros_of s')" using m by (simp add: k)
    show "\<forall>b d. (p(a \<mapsto> c')) b = Some d \<longleftrightarrow> sites_of s' d = Some b"
      using D(3) A(2) c' ns by (auto simp: k intro: ranI) (metis option.distinct(1))+
    show "dom (awaiters (world s')) = dom (p(a \<mapsto> c'))" using D(4) by (simp add: s'(3) A(4))
    show "set (m_ready (world s')) \<subseteq> ran (p(a \<mapsto> c'))" unfolding ran using s'(6) D(5) by (auto simp: A(8))
    show "ran (p(a \<mapsto> c')) = leaves n \<sigma>' - {}" unfolding ran using D(6) l by simp
  qed
  with s'(1,4) A(9) show ?thesis by auto
qed

text \<open>A running coroutine gets to its next awaiter, or its root to its end; the other roots do not move.\<close>

lemma leaf_not_parked:
  assumes "rt_inv interest env m0 n H T R \<sigma> s p {c}" and "roots_inv env m0 n H T R (\<sigma>(i := Some (c', b', ks'))) m" and "i < n" and "\<sigma> i = Some (c, b, ks)"
  shows "c' \<notin> ran p"
proof
  assume "c' \<in> ran p"
  then obtain j d l where j: "j < n" "\<sigma> j = Some (c', d, l)" "c' \<noteq> c"
    using rt_invD(6) [OF assms(1)] by (auto simp: leaves_def)
  then have "j \<noteq> i" using assms(4) by auto
  with roots_invD(5) [OF assms(2) j(1) assms(3), of c'] j(2) show False
    by (simp add: root_ids_def tower_ids_def)
qed

lemma advance_spec:
  assumes K: "epoll_contract K interest" and room: "room_for N place" "n \<le> N"
    and "rt_inv interest env m0 n H T R \<sigma> s p {c}" and "i < n" and "\<sigma> i = Some (c, b, ks)"
  shows "\<exists>s' p' z. advance K io place c s = Some (Inr s') \<and> rt_inv interest env m0 n H T R (\<sigma>(i := z)) s' p' {} \<and>
           root_work env z < root_work env (\<sigma> i) \<and> m_running (world s') = m_running (world s)"
  using assms(4-6)
proof (induction "root_work env (\<sigma> i)" arbitrary: s \<sigma> c b ks rule: less_induct)
  case less
  note D = rt_invD [OF less.prems(1)]
  have "root env (coros_of s) (H i) (T i) (R i) (Some (c, b, ks))"
    using roots_invD(4) [OF D(2) less.prems(2)] less.prems(3) by simp
  from root_slice [OF this roots_invD(1) [OF D(2)]] less.prems(3) obtain m' z where
    z: "resume (coros_of s) c = Some (Inr (m', map_option fst z))" "root env m' (H i) (T i) (R i) z"
       "root_work env z < root_work env (\<sigma> i)" "sliced (coros_of s) (ids_of H T \<sigma> i) m' (root_ids (H i) (T i) z)"
    by auto
  have ri: "roots_inv env m0 n H T R (\<sigma>(i := z)) m'" by (rule roots_inv_slice [OF D(2) less.prems(2) z(2,4)])
  have lv: "leaves n (\<sigma>(i := z)) = leaves n \<sigma> - {c} \<union> fst ` set_option z" by (rule leaves_upd [OF D(2) less.prems(2,3)])
  have cl: "c \<in> leaves n \<sigma>" using less.prems(2,3) by (auto simp: leaves_def)
  show ?case
  proof (cases z)
    case None
    have "advance K io place c s = Some (Inr (set_coros m' s))"
      using z(1) None by (simp add: advance_unfold)
    moreover have "rt_inv interest env m0 n H T R (\<sigma>(i := z)) (set_coros m' s) p {}"
      unfolding rt_inv_def using ex_inv_coros(1) [OF D(1)] D(3-6) ri lv None by simp
    ultimately show ?thesis using z(3) by fastforce
  next
    case (Some y)
    obtain c' b' ks' where y: "z = Some (c', b', ks')" using Some by (cases y) auto
    let ?a = "place (awaiters (world s)) c'" let ?fet = "io m' c'"
    have c': "c' \<notin> ran p" by (rule leaf_not_parked [OF less.prems(1) ri [unfolded y] less.prems(2,3)])
    note A = at_awaiter_spec [OF less.prems(1) cl room refl]
    have adv: "advance K io place c s =
        (if \<not> (snd (snd ?fet) \<and> stopped s) then Some (await_suspend (host_kernel K) ?a c' (at_awaiter c' ?a ?fet m' s))
         else (case leave_awaiter K c' ?a (at_awaiter c' ?a ?fet m' s) of Inl e \<Rightarrow> Some (Inl e) | Inr s2 \<Rightarrow> advance K io place c' s2))"
      using z(1) y by (simp add: advance_unfold [of K io place c s] Let_def A(5))
    show ?thesis
    proof (cases "snd (snd ?fet) \<and> stopped s")
      case False
      have "leaves n (\<sigma>(i := z)) = insert c' (leaves n \<sigma> - {c})" using lv y by simp
      from rt_inv_suspended [OF less.prems(1) cl room K refl False ri c' this] adv False z(3) show ?thesis by auto
    next
      case True
      have "sites_of s c' = None" using D(3) [of _ c'] c' by (cases "sites_of s c'") (auto intro: ranI)
      from leave_awaiter_ready [OF less.prems(1) cl room refl this, of K ?fet m'] obtain s2 where
        s2: "leave_awaiter K c' ?a (at_awaiter c' ?a ?fet m' s) = Inr s2" "ex_inv (interest \<circ> os) s2 p" "coros_of s2 = m'" "sites_of s2 = sites_of s"
          "awaiters (world s2) = awaiters (world s)" "m_ready (world s2) = m_ready (world s)" "m_running (world s2) = m_running (world s)"
        by blast
      have "ran p = leaves n (\<sigma>(i := z)) - {c'}" using D(6) lv c' y by auto
      then have inv2: "rt_inv interest env m0 n H T R (\<sigma>(i := z)) s2 p {c'}"
        unfolding rt_inv_def using s2 D(3-5) ri by simp
      have w2: "root_work env ((\<sigma>(i := z)) i) < root_work env (\<sigma> i)" and l2: "(\<sigma>(i := z)) i = Some (c', b', ks')" using z(3) y by simp_all
      obtain s' p' v where v: "advance K io place c' s2 = Some (Inr s')" "rt_inv interest env m0 n H T R (\<sigma>(i := z, i := v)) s' p' {}"
          "root_work env v < root_work env ((\<sigma>(i := z)) i)" "m_running (world s') = m_running (world s2)"
        using less.hyps [OF w2 inv2 less.prems(2) l2] by blast
      have "advance K io place c s = Some (Inr s')" using adv True s2(1) v(1) by simp
      with v(2-4) s2(7) w2 show ?thesis by (intro exI [of _ s'] exI [of _ p'] exI [of _ v]) simp
    qed
  qed
qed

lemma rt_resume_spec:
  assumes K: "epoll_contract K interest" and room: "room_for N place" "n \<le> N"
    and inv: "rt_inv interest env m0 n H T R \<sigma> s p {}" and r: "m_ready (world s) = h # hs"
  shows "\<exists>s' p' i z. rt_resume K io place h (pop_ready hs s) = Some (Inr s') \<and> rt_inv interest env m0 n H T R (\<sigma>(i := z)) s' p' {} \<and>
           i < n \<and> root_work env z < root_work env (\<sigma> i) \<and> m_running (world s') = m_running (world s)"
proof -
  obtain a s1 p1 where 1: "sites_of s h = Some a" "leave_awaiter K h a (pop_ready hs s) = Inr s1"
      "rt_inv interest env m0 n H T R \<sigma> s1 p1 {h}" "m_running (world s1) = m_running (world s)"
    using leave_awaiter_parked [OF K inv r] by blast
  obtain i b ks where i: "i < n" "\<sigma> i = Some (h, b, ks)"
    using rt_invD(5,6) [OF inv] r by (auto simp: leaves_def)
  from advance_spec [OF K room 1(3) i] 1 i(1) show ?thesis
    by (simp add: rt_resume_def) blast
qed

section \<open>The loop\<close>

definition rt_work :: "(task \<Rightarrow> 'e + 'v) \<Rightarrow> nat \<Rightarrow> (nat \<Rightarrow> ('v, 'e) progress) \<Rightarrow> nat" where
  "rt_work env n \<sigma> = (\<Sum>i < n. root_work env (\<sigma> i))"

lemma rt_work_less:
  assumes "i < n" and "root_work env z < root_work env (\<sigma> i)"
  shows "rt_work env n (\<sigma>(i := z)) < rt_work env n \<sigma>"
  unfolding rt_work_def
  by (rule sum_strict_mono_ex1) (use assms in \<open>auto simp: less_imp_le\<close>)

lemma rt_drain:
  assumes K: "epoll_contract K interest" and room: "room_for N place" "n \<le> N"
    and "rt_inv interest env m0 n H T R \<sigma> s p {}" and "m_running (world s)"
  shows "\<exists>b s' \<sigma>' p'. drain_ready (rt_resume K io place) rt_done tgt s = Some (Inr (b, s')) \<and> rt_inv interest env m0 n H T R \<sigma>' s' p' {} \<and>
           m_running (world s') \<and> (if b then target_done rt_done tgt s' else m_ready (world s') = []) \<and>
           (if m_ready (world s) = [] then s' = s \<and> \<sigma>' = \<sigma> \<and> p' = p else rt_work env n \<sigma>' < rt_work env n \<sigma>)"
  using assms(4,5)
proof (induction "rt_work env n \<sigma>" arbitrary: s \<sigma> p rule: less_induct)
  case less
  show ?case
  proof (cases "m_ready (world s)")
    case Nil
    then have "drain_ready (rt_resume K io place) rt_done tgt s = Some (Inr (False, s))" by (subst drain_ready.simps) simp
    with Nil less.prems show ?thesis by auto
  next
    case (Cons h hs)
    obtain t q i z where t: "rt_resume K io place h (pop_ready hs s) = Some (Inr t)" "rt_inv interest env m0 n H T R (\<sigma>(i := z)) t q {}"
        "i < n" "root_work env z < root_work env (\<sigma> i)" "m_running (world t)"
      using rt_resume_spec [OF K room less.prems(1) Cons] less.prems(2) by (metis (no_types, lifting))
    have w: "rt_work env n (\<sigma>(i := z)) < rt_work env n \<sigma>" by (rule rt_work_less [where \<sigma> = \<sigma>, OF t(3,4)])
    have eq: "drain_ready (rt_resume K io place) rt_done tgt s =
        (if target_done rt_done tgt t then Some (Inr (True, t)) else drain_ready (rt_resume K io place) rt_done tgt t)"
      using less.prems(2) Cons t(1) by (subst drain_ready.simps) simp
    show ?thesis
    proof (cases "target_done rt_done tgt t")
      case True
      with eq t(2,5) w Cons show ?thesis by (intro exI [of _ True] exI [of _ t] exI [of _ "\<sigma>(i := z)"] exI [of _ q]) simp
    next
      case False
      obtain b s' \<sigma>' p' where d: "drain_ready (rt_resume K io place) rt_done tgt t = Some (Inr (b, s'))" "rt_inv interest env m0 n H T R \<sigma>' s' p' {}"
           "m_running (world s')" "if b then target_done rt_done tgt s' else m_ready (world s') = []"
           "if m_ready (world t) = [] then s' = t \<and> \<sigma>' = \<sigma>(i := z) \<and> p' = q else rt_work env n \<sigma>' < rt_work env n (\<sigma>(i := z))"
        using less.hyps [OF w t(2,5)] by blast
      have "rt_work env n \<sigma>' < rt_work env n \<sigma>" using d(5) w by (auto split: if_splits)
      with eq False d(1-4) Cons show ?thesis by (intro exI [of _ b] exI [of _ s'] exI [of _ \<sigma>'] exI [of _ p']) simp
    qed
  qed
qed

text \<open>A wait with nothing ready queues a coroutine, unless a signal or a wake-up ends it.\<close>

lemma drain_wake_coros:
  "coros ((drain_wake (host_kernel K) r ^^ l) x) = coros x" "sites ((drain_wake (host_kernel K) r ^^ l) x) = sites x"
  by (induction l) simp_all

lemma drain_wake_os: "os ((drain_wake (host_kernel K) r ^^ l) x) = ((\<lambda>k. sys_read8 K k (m_wake_fd r)) ^^ l) (os x)"
  by (induction l) simp_all

lemma rt_dispatch:
  assumes inv: "rt_inv interest env m0 n H T R \<sigma> s p {}" and s1: "ex_inv (interest \<circ> os) s1 p" "registered_set (world s1) = registered_set (world s)"
    and w1: "world s1 = (world s)\<lparr>ex_kernel := x\<rparr>" "coros x = coros_of s" "sites x = sites_of s"
    and ts: "\<forall>t \<in> set ts. tr_user_token t \<in> registered_set (world s)"
  shows "\<exists>s'. dispatch ts s1 = Inr s' \<and> rt_inv interest env m0 n H T R \<sigma> s' p {} \<and> m_running (world s') = m_running (world s) \<and>
           ex_kernel (world s') = x \<and> (ts \<noteq> [] \<longrightarrow> m_ready (world s') \<noteq> [])"
proof -
  note D = rt_invD [OF inv]
  obtain s' where s': "dispatch ts s1 = Inr s'" "ex_inv (interest \<circ> os) s' p"
    using dispatch_inv [OF s1(1), of ts] ts s1(2) by auto
  have ts1: "\<forall>t \<in> set ts. tr_user_token t \<in> registered_set (world s1)" using ts s1(2) by simp
  note F = dispatch_frame [OF s1(1) ts1 s'(1)]
  have "rt_inv interest env m0 n H T R \<sigma> s' p {}"
    unfolding rt_inv_def using s'(2) D(2-6) F by (auto simp: w1)
  moreover have "m_ready (world s') \<noteq> []" if "ts \<noteq> []"
  proof -
    from \<open>ts \<noteq> []\<close> obtain t where t: "t \<in> set ts" by (cases ts) auto
    obtain w' where w': "awaiters (world s') (tr_user_token t) = Some w'" "m_queued w'"
      using dispatch_queues [OF s1(1) ts1 s'(1)] t by blast
    obtain h where h: "p (tr_user_token t) = Some h"
      using ts t registered_parked [of "world s" p "tr_user_token t"] D(1) by (auto simp: registered_set_def ex_inv_def)
    have "count_list (m_ready (world s')) h = 1"
      using park_invD(1) [of "world s'" p "tr_user_token t" h] h w' s'(2) by (auto simp: ex_inv_def)
    then show ?thesis by auto
  qed
  ultimately show ?thesis using s'(1) F by (auto simp: w1(1))
qed

lemma host_wait_progress:
  assumes K: "epoll_contract K interest" and pr: "io_progress K interest patience"
    and tok: "\<exists>tok \<in> ran (interest (os x) (m_epoll_fd r)). tok \<noteq> WAKE_TOKEN"
  shows "\<exists>ts y. reactor_wait (host_kernel K) x r MAX_EVENTS_PER_WAIT (- 1) = Inr (Inr ts, y) \<and> coros y = coros x \<and> sites y = sites x \<and>
           (ts \<noteq> [] \<or> patience (os y) < patience (os x))"
proof -
  obtain l evs k where w: "sys_epoll_wait K (os x) (m_epoll_fd r) 64 (- 1) = (l, evs, k)" by (metis prod_cases3)
  have "wait_timeout (- 1) = - 1" by (simp add: wait_timeout_def word_sless_alt)
  then have hw: "sys_epoll_wait (host_kernel K) x (m_epoll_fd r) (min 64 64) (wait_timeout (- 1)) = (l, evs, x\<lparr>os := k\<rparr>)"
    by (simp add: w)
  let ?wk = "filter is_wake (take (nat l) evs)" let ?ts = "map trigger_of (filter (\<lambda>e. \<not> is_wake e) (take (nat l) evs))"
  define y where "y = (drain_wake (host_kernel K) r ^^ length ?wk) (x\<lparr>os := k\<rparr>)"
  have y: "coros y = coros x" "sites y = sites x" unfolding y_def drain_wake_coros by simp_all
  have os_y: "os y = ((\<lambda>k. sys_read8 K k (m_wake_fd r)) ^^ length ?wk) k"
    using drain_wake_os [where K = K and r = r and l = "length ?wk" and x = "x\<lparr>os := k\<rparr>"] by (simp add: y_def)
  have len: "length ?wk \<le> nat l" using length_filter_le [of is_wake "take (nat l) evs"] by simp
  have ts: "?ts = [] \<longleftrightarrow> \<not> (\<exists>e \<in> set (take (nat l) evs). \<not> is_wake e)"
    by (simp only: map_is_Nil_conv filter_empty_conv not_not) blast
  have neg: "l < 0 \<Longrightarrow> y = x\<lparr>os := k\<rparr>" "l < 0 \<Longrightarrow> ?ts = []" by (simp_all add: y_def)
  have p: "?ts \<noteq> [] \<or> (l < 0 \<longrightarrow> sys_errno K k = EINTR) \<and> patience (os y) < patience (os x)"
    using io_progressD [OF pr w _ tok] len unfolding ts os_y by (simp only: not_not zero_less_numeral simp_thms) blast
  have "reactor_wait (host_kernel K) x r MAX_EVENTS_PER_WAIT (- 1) = Inr (Inr ?ts, y)"
    using reactor_wait_eq [OF _ hw] epoll_contract_wait [OF K w] p neg
    by (cases "l < 0") (simp_all add: MAX_EVENTS_PER_WAIT_def y_def)
  with p y show ?thesis by blast
qed

lemma rt_wait:
  assumes K: "epoll_contract K interest" and pr: "io_progress K interest patience"
    and inv: "rt_inv interest env m0 n H T R \<sigma> s p {}" and pend: "m_pending_io (world s) \<noteq> 0"
  shows "\<exists>s'. wait_and_dispatch (host_kernel K) s = Inr (True, s') \<and> rt_inv interest env m0 n H T R \<sigma> s' p {} \<and>
           m_running (world s') = m_running (world s) \<and>
           (m_ready (world s') \<noteq> [] \<or> m_ready (world s') = m_ready (world s) \<and> patience (os (ex_kernel (world s'))) < patience (os (ex_kernel (world s))))"
proof -
  note D = rt_invD [OF inv]
  let ?x = "ex_kernel (world s)" let ?r = "m_reactor (world s)"
  have io: "io_inv (interest \<circ> os) (world s)" using D(1) by (simp add: ex_inv_def)
  have "registered_set (world s) \<noteq> {}" using pend pending_io_counts [OF D(1)] by (auto simp: unat_eq_0)
  then obtain a w where a: "awaiters (world s) a = Some w" "m_registered w" by (auto simp: registered_set_def)
  have "interest (os ?x) (m_epoll_fd ?r) (m_handle w) = Some a" using io_inv_interest [OF io] a by auto
  moreover have "a \<noteq> WAKE_TOKEN" using io a(1) by (auto simp: io_inv_def)
  ultimately have "\<exists>tok \<in> ran (interest (os ?x) (m_epoll_fd ?r)). tok \<noteq> WAKE_TOKEN" by (auto intro: ranI)
  then obtain ts y where w: "reactor_wait (host_kernel K) ?x ?r MAX_EVENTS_PER_WAIT (- 1) = Inr (Inr ts, y)"
      and y: "coros y = coros_of s" "sites y = sites_of s" and pr': "ts \<noteq> [] \<or> patience (os y) < patience (os ?x)"
    using host_wait_progress [OF K pr] by blast
  note wr = wait_result [OF host_contract [OF K] D(1) w]
  from rt_dispatch [OF inv wr(1,2) _ y wr(3)] w pr' show ?thesis
    by (cases "ts = []") (auto simp: wait_and_dispatch_def)
qed

lemma rt_loop:
  assumes K: "epoll_contract K interest" and pr: "io_progress K interest patience" and room: "room_for N place" "n \<le> N"
    and "rt_inv interest env m0 n H T R \<sigma> s p {}" and "m_running (world s)"
  shows "\<exists>s' \<sigma>' p'. run_loop (host_kernel K) (rt_resume K io place) rt_done tgt s = Some (Inr s') \<and>
           rt_inv interest env m0 n H T R \<sigma>' s' p' {} \<and>
           (target_done rt_done tgt s' \<or> p' = Map.empty \<and> m_pending_io (world s') = 0 \<and> m_ready (world s') = [])"
  using assms(5,6)
proof (induction "(s, \<sigma>, p)" arbitrary: s \<sigma> p rule: wf_induct_rule [OF wf_measures [of
    "[\<lambda>(s, \<sigma>, p). 2 * rt_work env n \<sigma> + (if m_ready (world s) = [] then 1 else 0), \<lambda>(s, \<sigma>, p). patience (os (ex_kernel (world s)))]"]])
  case (1 s \<sigma> p)
  let ?loop = "run_loop (host_kernel K) (rt_resume K io place) rt_done tgt"
  obtain b s1 \<sigma>1 p1 where d: "drain_ready (rt_resume K io place) rt_done tgt s = Some (Inr (b, s1))" "rt_inv interest env m0 n H T R \<sigma>1 s1 p1 {}"
      "m_running (world s1)" "if b then target_done rt_done tgt s1 else m_ready (world s1) = []"
      "if m_ready (world s) = [] then s1 = s \<and> \<sigma>1 = \<sigma> \<and> p1 = p else rt_work env n \<sigma>1 < rt_work env n \<sigma>"
    using rt_drain [OF K room "1.prems"] by blast
  consider "target_done rt_done tgt s" | "\<not> target_done rt_done tgt s" b | "\<not> target_done rt_done tgt s" "\<not> b" "m_pending_io (world s1) = 0"
    | "\<not> target_done rt_done tgt s" "\<not> b" "m_pending_io (world s1) \<noteq> 0" by blast
  then show ?case
  proof cases
    case 1
    then have "?loop s = Some (Inr s)" by (subst run_loop.simps) simp
    with 1 \<open>rt_inv interest env m0 n H T R \<sigma> s p {}\<close> show ?thesis by blast
  next
    case 2
    then have "?loop s = Some (Inr s1)" using "1.prems"(2) d(1) by (subst run_loop.simps) simp
    with 2 d(2,4) show ?thesis by (intro exI [of _ s1] exI [of _ \<sigma>1] exI [of _ p1]) simp
  next
    case 3
    then have "m_ready (world s1) = []" "?loop s = Some (Inr s1)" using "1.prems"(2) d(1,3,4) by (simp, subst run_loop.simps, simp)
    with 3 d(2) idle_nothing_parked [OF rt_invD(1) [OF d(2)]] show ?thesis by (intro exI [of _ s1] exI [of _ \<sigma>1] exI [of _ p1]) simp
  next
    case 4
    obtain s2 where s2: "wait_and_dispatch (host_kernel K) s1 = Inr (True, s2)" "rt_inv interest env m0 n H T R \<sigma>1 s2 p1 {}"
        "m_running (world s2)" "m_ready (world s2) \<noteq> [] \<or> patience (os (ex_kernel (world s2))) < patience (os (ex_kernel (world s1)))"
      using rt_wait [OF K pr d(2) 4(3)] d(3) by blast
    have eq: "?loop s = ?loop s2" using "1.prems"(2) 4 d(1,3) s2(1) by (subst run_loop.simps) simp
    have "((s2, \<sigma>1, p1), (s, \<sigma>, p)) \<in> measures [\<lambda>(s, \<sigma>, p). 2 * rt_work env n \<sigma> + (if m_ready (world s) = [] then 1 else 0),
        \<lambda>(s, \<sigma>, p). patience (os (ex_kernel (world s)))]"
      using d(5) s2(4) by (auto split: if_splits)
    from "1.hyps" [OF this s2(2,3)] show ?thesis by (simp only: eq)
  qed
qed

section \<open>Spawning\<close>

lemma advance_same:
  assumes "resume m1 h = resume m2 t"
  shows "advance K io place h (set_coros m1 s) = advance K io place t (set_coros m2 s)"
proof -
  have "set_coros m (set_coros m' s) = set_coros m s" for m m' by (cases s) (simp add: set_coros_def)
  then show ?thesis
    unfolding advance_unfold [of K io place h "set_coros m1 s"] advance_unfold [of K io place t "set_coros m2 s"]
    using assms by (simp add: at_awaiter_def)
qed

lemma rt_spawn_spec:
  assumes K: "epoll_contract K interest" and room: "room_for N place" "Suc n \<le> N" and inv: "rt_inv interest env m0 n H T R \<sigma> s p {}"
    and t: "task_at m0 t b" "plain b" "\<And>i. i < n \<Longrightarrow> T i \<noteq> t"
  shows "\<exists>h s' z p'. rt_spawn K io place ex (Some t) s = Some (Inr (handle_on ex h, s')) \<and>
           rt_inv interest env m0 (Suc n) (H(n := h)) (T(n := t)) (R(n := eval_body env b)) (\<sigma>(n := z)) s' p' {}"
proof -
  note D = rt_invD [OF inv]
  note M = roots_invD [OF D(2)]
  let ?m = "coros_of s" let ?h = "next_cid ?m" let ?\<sigma> = "\<sigma>(n := Some (t, b, []))"
  have lt: "t < next_cid m0" using t(1) alive_below [OF M(2), of t] by (auto simp: task_at_def)
  have out: "t \<notin> ids_of H T \<sigma> i" if "i < n" for i using M(6) [OF that, of t] lt t(3) [OF that] by auto
  then have "task_at ?m t b" using M(7) [of t] t(1) by (simp add: task_at_def)
  from spawn_begin [OF this t(2) M(1), of env] obtain m1 m2 where
    m: "spawn_runner (Some t) ?m = (?h, m1)" "resume m1 ?h = resume m2 t" "root env m2 ?h t (eval_body env b) (Some (t, b, []))"
       "sliced ?m {t} m2 {?h, t}"
    by blast
  have ri: "roots_inv env m0 (Suc n) (H(n := ?h)) (T(n := t)) (R(n := eval_body env b)) ?\<sigma> m2"
    by (rule roots_inv_spawn [OF D(2) lt t(3) m(3,4)]) (auto simp: root_ids_def)
  have "t \<notin> leaves n \<sigma>"
  proof
    assume "t \<in> leaves n \<sigma>"
    then obtain i b' ks where "i < n" "\<sigma> i = Some (t, b', ks)" by (auto simp: leaves_def)
    with out [of i] show False by (simp add: root_ids_def tower_ids_def)
  qed
  moreover have "leaves (Suc n) ?\<sigma> = insert t (leaves n \<sigma>)" by (auto simp: leaves_def less_Suc_eq)
  ultimately have "ran p = leaves (Suc n) ?\<sigma> - {t}" using D(6) by auto
  then have "rt_inv interest env m0 (Suc n) (H(n := ?h)) (T(n := t)) (R(n := eval_body env b)) ?\<sigma> (set_coros m2 s) p {t}"
    unfolding rt_inv_def using ex_inv_coros(1) [OF D(1)] D(3-5) ri by simp
  from advance_spec [OF K room this, of n b "[]" io] obtain s' p' z where
    v: "advance K io place t (set_coros m2 s) = Some (Inr s')"
       "rt_inv interest env m0 (Suc n) (H(n := ?h)) (T(n := t)) (R(n := eval_body env b)) (\<sigma>(n := z)) s' p' {}"
    by auto
  have "rt_spawn K io place ex (Some t) s = Some (Inr (handle_on ex ?h, s'))"
    using v(1) advance_same [OF m(2), of K io place s] m(1) by (simp add: rt_spawn_def set_executor_def spawn_handle_make_def)
  with v(2) show ?thesis by blast
qed

lemma rt_spawn_all_spec:
  assumes K: "epoll_contract K interest" and room: "room_for N place"
    and "n + length ts \<le> N" and "rt_inv interest env m0 n H T R \<sigma> s p {}"
    and "\<And>t b. (t, b) \<in> set ts \<Longrightarrow> task_at m0 t b \<and> plain b" and "distinct (map fst ts)" and "\<And>i. i < n \<Longrightarrow> T i \<notin> fst ` set ts"
  shows "\<exists>hs s' H' T' R' \<sigma>' p'. rt_spawn_all K io place ex (map (Some \<circ> fst) ts) s = Some (Inr (map (handle_on ex) hs, s')) \<and> length hs = length ts \<and>
           rt_inv interest env m0 (n + length ts) H' T' R' \<sigma>' s' p' {} \<and> (\<forall>i < n. H' i = H i \<and> T' i = T i \<and> R' i = R i) \<and>
           (\<forall>j < length ts. H' (n + j) = hs ! j \<and> T' (n + j) = fst (ts ! j) \<and> R' (n + j) = eval_body env (snd (ts ! j)))"
  using assms(3-7)
proof (induction ts arbitrary: n H T R \<sigma> s p)
  case Nil
  then show ?case by (intro exI [of _ "[]"] exI [of _ s] exI [of _ H] exI [of _ T] exI [of _ R] exI [of _ \<sigma>] exI [of _ p]) simp
next
  case (Cons tb ts)
  obtain t b where tb: "tb = (t, b)" by (cases tb)
  have le: "Suc n \<le> N" "Suc n + length ts \<le> N" using Cons.prems(1) by simp_all
  have "task_at m0 t b" "plain b" "\<And>i. i < n \<Longrightarrow> T i \<noteq> t" using Cons.prems(3) [of t b] Cons.prems(5) tb by force+
  from rt_spawn_spec [OF K room le(1) Cons.prems(2) this] obtain h s1 z p1 where
    1: "rt_spawn K io place ex (Some t) s = Some (Inr (handle_on ex h, s1))"
       "rt_inv interest env m0 (Suc n) (H(n := h)) (T(n := t)) (R(n := eval_body env b)) (\<sigma>(n := z)) s1 p1 {}"
    by blast
  have "(T(n := t)) i \<notin> fst ` set ts" if "i < Suc n" for i
    using Cons.prems(4) Cons.prems(5) [of i] tb that by (cases "i = n") auto
  moreover have "task_at m0 u d \<and> plain d" if "(u, d) \<in> set ts" for u d using Cons.prems(3) [of u d] that by simp
  moreover have "distinct (map fst ts)" using Cons.prems(4) by simp
  ultimately obtain hs s' H' T' R' \<sigma>' p' where
    2: "rt_spawn_all K io place ex (map (Some \<circ> fst) ts) s1 = Some (Inr (map (handle_on ex) hs, s'))" "length hs = length ts"
       "rt_inv interest env m0 (Suc n + length ts) H' T' R' \<sigma>' s' p' {}"
       "\<forall>i < Suc n. H' i = (H(n := h)) i \<and> T' i = (T(n := t)) i \<and> R' i = (R(n := eval_body env b)) i"
       "\<forall>j < length ts. H' (Suc n + j) = hs ! j \<and> T' (Suc n + j) = fst (ts ! j) \<and> R' (Suc n + j) = eval_body env (snd (ts ! j))"
    using Cons.IH [OF le(2) 1(2)] by blast
  have "H' (n + j) = (h # hs) ! j \<and> T' (n + j) = fst ((tb # ts) ! j) \<and> R' (n + j) = eval_body env (snd ((tb # ts) ! j))"
    if "j < length (tb # ts)" for j
    using 2(4) 2(5) that tb by (cases j) auto
  moreover have "\<forall>i < n. H' i = H i \<and> T' i = T i \<and> R' i = R i" using 2(4) by auto
  moreover have "rt_spawn_all K io place ex (map (Some \<circ> fst) (tb # ts)) s = Some (Inr (map (handle_on ex) (h # hs), s'))"
    using 1(1) 2(1) tb by simp
  moreover have "length (h # hs) = length (tb # ts)" "rt_inv interest env m0 (n + length (tb # ts)) H' T' R' \<sigma>' s' p' {}"
    using 2(2,3) by simp_all
  ultimately show ?case by blast
qed

section \<open>Results\<close>

lemma rt_inv_start:
  assumes "rt_inv interest env m0 n H T R \<sigma> s p X"
  shows "rt_inv interest env m0 n H T R \<sigma> (world_update (\<lambda>x. x\<lparr>m_running := True\<rparr>) s) p X"
proof -
  note D = rt_invD [OF assms]
  have "ex_inv (interest \<circ> os) (world_update (\<lambda>x. x\<lparr>m_running := True\<rparr>) s) p"
    using ex_inv_kernel(2) [OF D(1) refl, of True] by (cases s) simp
  with D(2-6) show ?thesis unfolding rt_inv_def by simp
qed

lemma root_done:
  assumes "root env m h t r \<sigma>"
  shows "handle_done m h = Inr (\<sigma> = None)" and "\<sigma> = None \<Longrightarrow> spawn_await_resume m (handle_on ex h) = Inr r"
proof -
  have f: "fr_state (done_frame r (runner_frame t st)) = Final" for st
    by (cases r) (simp_all add: return_value_def unhandled_exception_def runner_frame_def)
  show "handle_done m h = Inr (\<sigma> = None)"
    using assms f by (cases \<sigma>) (auto simp: root_def handle_done_def frame_at_def)
  show "spawn_await_resume m (handle_on ex h) = Inr r" if "\<sigma> = None"
    using assms that by (simp add: root_def spawn_await_resume_def frame_at_def take_result_done)
qed

lemma rt_run_until:
  assumes K: "epoll_contract K interest" and pr: "io_progress K interest patience" and room: "room_for N place" "n \<le> N"
    and inv: "rt_inv interest env m0 n H T R \<sigma> s p {}"
  shows "\<exists>s' \<sigma>' p'. run_until (host_kernel K) (rt_resume K io place) rt_done tgt s = Some (Inr s') \<and> rt_inv interest env m0 n H T R \<sigma>' s' p' {} \<and>
           (\<forall>i < n. tgt = Some (H i) \<longrightarrow> \<sigma>' i = None) \<and>
           (tgt = None \<longrightarrow> (\<forall>i < n. \<sigma>' i = None) \<and> p' = Map.empty \<and> m_pending_io (world s') = 0)"
proof -
  obtain s' \<sigma>' p' where r: "run_until (host_kernel K) (rt_resume K io place) rt_done tgt s = Some (Inr s')" "rt_inv interest env m0 n H T R \<sigma>' s' p' {}"
      "target_done rt_done tgt s' \<or> p' = Map.empty \<and> m_pending_io (world s') = 0 \<and> m_ready (world s') = []"
    using rt_loop [OF K pr room rt_inv_start [OF inv], of io tgt] unfolding run_until_def by auto
  note D = rt_invD [OF r(2)]
  have e: "\<sigma>' i = None" if "p' = Map.empty" "i < n" for i
    using D(6) that by (cases "\<sigma>' i") (auto simp: leaves_def)
  have h: "rt_done (H i) s' \<longleftrightarrow> \<sigma>' i = None" if "i < n" for i
    using root_done(1) [OF roots_invD(4) [OF D(2) that]] by (simp add: rt_done_def)
  from r(1,2) show ?thesis
    using r(3) e h by (intro exI [of _ s'] exI [of _ \<sigma>'] exI [of _ p']) (auto simp: target_done_def split: option.splits)
qed

lemma rt_sync_wait_result:
  assumes K: "epoll_contract K interest" and pr: "io_progress K interest patience" and room: "room_for N place" "n \<le> N"
    and inv: "rt_inv interest env m0 n H T R \<sigma> s p {}" and i: "i < n"
  shows "\<exists>s'. rt_sync_wait K io place dflt (handle_on ex (H i)) s = Some (Inr (R i, s'))"
proof -
  have take: "out_bind (frame_at (coros_of s1) (H i)) (\<lambda>f. out_bind (take_result f) (\<lambda>r. Inr (r, s1))) = Inr (R i, s1)"
      and fin: "spawn_done (coros_of s1) (handle_on ex (H i)) = Inr True"
    if "rt_inv interest env m0 n H T R \<sigma>1 s1 p1 {}" "\<sigma>1 i = None" for s1 \<sigma>1 p1
    using root_done [OF roots_invD(4) [OF rt_invD(2) [OF that(1)] i]] that(2)
    by (auto simp: spawn_await_resume_def spawn_done_def frame_at_def split: option.splits)
  have d: "spawn_done (coros_of s) (handle_on ex (H i)) = Inr (\<sigma> i = None)"
    using root_done(1) [OF roots_invD(4) [OF rt_invD(2) [OF inv] i]] by (simp add: spawn_done_def)
  show ?thesis
  proof (cases "\<sigma> i = None")
    case True
    then show ?thesis using take [OF inv True] d by (auto simp: rt_sync_wait_def sync_wait_spawn_def)
  next
    case False
    obtain s' \<sigma>' p' where r: "run_until (host_kernel K) (rt_resume K io place) rt_done (Some (H i)) s = Some (Inr s')"
        "rt_inv interest env m0 n H T R \<sigma>' s' p' {}" "\<sigma>' i = None"
      using rt_run_until [OF K pr room inv, of io "Some (H i)"] i by blast
    then show ?thesis using take [OF r(2,3)] fin [OF r(2,3)] d False by (simp add: rt_sync_wait_def sync_wait_spawn_def)
  qed
qed

text \<open>A stop request queues the suspended coroutines it reaches and leaves the heap alone.\<close>

lemma fold_cancel_frame:
  assumes "epoll_contract (host_kernel K) interest" and "io_inv interest x" and "park_inv x p"
    and "\<And>a. a \<in> set as \<Longrightarrow> \<exists>w. awaiters x a = Some w \<and> m_continuation w \<noteq> None"
  shows "dom (awaiters (fold (cancel_world (host_kernel K)) as x)) = dom (awaiters x) \<and>
         set (m_ready (fold (cancel_world (host_kernel K)) as x)) \<subseteq> set (m_ready x) \<union> ran p \<and>
         coros (ex_kernel (fold (cancel_world (host_kernel K)) as x)) = coros (ex_kernel x) \<and>
         sites (ex_kernel (fold (cancel_world (host_kernel K)) as x)) = sites (ex_kernel x)"
  using assms(2-4)
proof (induction as arbitrary: x)
  case (Cons a as)
  obtain w where w: "awaiters x a = Some w" "m_continuation w \<noteq> None" using Cons.prems(3) [of a] by auto
  let ?y = "cancel_world (host_kernel K) a x"
  have inv: "io_inv interest ?y" "park_inv ?y p" using cancel_world_inv [OF assms(1) Cons.prems(1,2) w] by blast+
  have aw: "\<exists>v. awaiters ?y = (awaiters x)(a \<mapsto> v) \<and> m_continuation v = m_continuation w"
  proof (cases "m_cancelled w")
    case True
    then have "awaiters ?y = (awaiters x)(a \<mapsto> w)" using w(1) by (simp add: cancel_world_def fun_upd_idem)
    then show ?thesis by blast
  next
    case False
    then show ?thesis using cancel_world_awaiters [OF w(1), of "host_kernel K"] by auto
  qed
  have r: "set (m_ready ?y) \<subseteq> set (m_ready x) \<union> ran p"
  proof (cases "p a")
    case None
    then have "m_queued w" using park_invD(3) [OF Cons.prems(2) w(1)] w(2) by simp
    then show ?thesis using w by (auto simp: cancel_world_def Let_def split: option.split)
  next
    case (Some h)
    then have "m_continuation w = Some h" "h \<in> ran p" using park_invD(1) [OF Cons.prems(2) Some] w(1) by (auto intro: ranI)
    then show ?thesis using w(1) by (auto simp: cancel_world_def Let_def)
  qed
  have k: "coros (ex_kernel ?y) = coros (ex_kernel x)" "sites (ex_kernel ?y) = sites (ex_kernel x)"
    using w(1) by (auto simp: cancel_world_def dereg_world_def Let_def split: option.split)
  have "\<exists>w. awaiters ?y b = Some w \<and> m_continuation w \<noteq> None" if "b \<in> set as" for b
    using Cons.prems(3) [of b] that aw w(2) by (cases "b = a") auto
  note ih = Cons.IH [OF inv this]
  obtain v where "awaiters ?y = (awaiters x)(a \<mapsto> v)" using aw by blast
  then have "dom (awaiters ?y) = dom (awaiters x)" using w(1) by (simp add: insert_absorb domI)
  with ih r k show ?case by auto
qed simp

lemma rt_inv_stop:
  assumes K: "epoll_contract K interest" and inv: "rt_inv interest env m0 n H T R \<sigma> s p {}"
  shows "\<exists>b s'. request_stop (on_cancel (host_kernel K)) s = Some (Inr (b, s')) \<and> rt_inv interest env m0 n H T R \<sigma> s' p {}"
proof -
  note D = rt_invD [OF inv]
  obtain b s' where s': "request_stop (on_cancel (host_kernel K)) s = Some (Inr (b, s'))" "ex_inv (interest \<circ> os) s' p"
      "stopped s \<Longrightarrow> s' = s" "\<not> stopped s \<Longrightarrow> \<exists>ps. stop_part s ps \<and> world s' = fold (cancel_world (host_kernel K)) (map snd ps) (world s)"
    using request_stop_inv [OF host_contract [OF K] D(1)] by (auto split: if_splits)
  show ?thesis
  proof (cases "stopped s")
    case True
    with s'(1,3) inv show ?thesis by blast
  next
    case False
    then obtain ps where ps: "stop_part s ps" "world s' = fold (cancel_world (host_kernel K)) (map snd ps) (world s)" using s'(4) by blast
    have "\<exists>w. awaiters (world s) a = Some w \<and> m_continuation w \<noteq> None" if "a \<in> set (map snd ps)" for a
      using that stop_partD(3) [OF ps(1), of _ a] by fastforce
    then have f: "dom (awaiters (world s')) = dom (awaiters (world s)) \<and> set (m_ready (world s')) \<subseteq> set (m_ready (world s)) \<union> ran p \<and>
        coros_of s' = coros_of s \<and> sites_of s' = sites_of s"
      unfolding ps(2) using D(1) by (intro fold_cancel_frame [OF host_contract [OF K]]) (auto simp: ex_inv_def)
    have "rt_inv interest env m0 n H T R \<sigma> s' p {}"
      unfolding rt_inv_def using s'(2) D(2-6) f by auto
    with s'(1) show ?thesis by blast
  qed
qed

lemma rt_inv_init:
  assumes K: "epoll_contract K interest" and x: "executor_create (host_kernel K) x0 = (Inr x, k)" and x0: "sites x0 = Map.empty" "fresh_above (coros x0)"
  shows "rt_inv interest env (coros x0) 0 H T R \<sigma> (stop_init x) Map.empty {}"
proof -
  have w: "world (stop_init x) = x" "m_ready x = []" "awaiters x = Map.empty" "coros (ex_kernel x) = coros x0" "sites (ex_kernel x) = sites x0"
    using x by (auto simp: stop_init_def executor_create_def reactor_create_def host_kernel_def Let_def
        split: prod.splits sum.splits if_splits)
  show ?thesis
    unfolding rt_inv_def using executor_create_inv [OF host_contract [OF K] x] x0
    by (simp add: w leaves_def roots_inv_def)
qed

text \<open>
  C2: the coroutines, the executor and the reactor together. On a fresh executor a program spawns any number of tasks whose
  bodies await I/O any number of times, directly or in temporary tasks of their own, then perhaps requests a stop. As long as every
  wait ends because a watched descriptor is ready, a bounded number of signals and wake-ups apart, then whatever descriptors and stop tokens the
  bodies use, and even where the reactor refuses a registration: \<^verbatim>\<open>sync_wait\<close> on any of the handles returns, with the value or the
  exception the task's body has in direct style; and \<^verbatim>\<open>run\<close> returns with every task finished, no awaiter alive, nothing
  pending, and every frame made on the way freed, up to the runners that the handles still own and their tasks.
\<close>

theorem async_tasks_complete:
  assumes "epoll_contract K interest" and "io_progress K interest patience" and "room_for (length ts) place"
    and "executor_create (host_kernel K) x0 = (Inr x, k)" and "sites x0 = Map.empty" and "fresh_above (coros x0)"
    and "\<And>t b. (t, b) \<in> set ts \<Longrightarrow> task_at (coros x0) t b \<and> plain b" and "distinct (map fst ts)"
  shows "\<exists>hs s0 s. rt_spawn_all K io place ex (map (Some \<circ> fst) ts) (stop_init x) = Some (Inr (map (handle_on ex) hs, s0)) \<and> length hs = length ts \<and>
           (if stop then \<exists>b. request_stop (on_cancel (host_kernel K)) s0 = Some (Inr (b, s)) else s = s0) \<and>
           (\<forall>j < length ts. \<exists>s'. rt_sync_wait K io place dflt (handle_on ex (hs ! j)) s = Some (Inr (eval_body env (snd (ts ! j)), s'))) \<and>
           (\<exists>s'. executor_run (host_kernel K) (rt_resume K io place) rt_done s = Some (Inr s') \<and>
              awaiters (world s') = Map.empty \<and> m_pending_io (world s') = 0 \<and>
              (\<forall>j < length ts. spawn_await_resume (coros_of s') (handle_on ex (hs ! j)) = Inr (eval_body env (snd (ts ! j)))) \<and>
              (\<forall>y. y \<notin> set hs \<union> fst ` set ts \<longrightarrow> frames (coros_of s') y = frames (coros x0) y))"
proof -
  let ?n = "length ts"
  note i0 = rt_inv_init [OF assms(1,4-6), of env "\<lambda>_. 0" "\<lambda>_. 0" "\<lambda>_. env None" "\<lambda>_. None"]
  obtain hs s0 H T R \<sigma> p where 0: "rt_spawn_all K io place ex (map (Some \<circ> fst) ts) (stop_init x) = Some (Inr (map (handle_on ex) hs, s0))" "length hs = ?n"
      "rt_inv interest env (coros x0) ?n H T R \<sigma> s0 p {}"
      and j: "\<And>j. j < ?n \<Longrightarrow> H j = hs ! j \<and> T j = fst (ts ! j) \<and> R j = eval_body env (snd (ts ! j))"
    using rt_spawn_all_spec [OF assms(1,3) _ i0 assms(7,8), of io ex] by auto
  obtain s where 1: "if stop then \<exists>b. request_stop (on_cancel (host_kernel K)) s0 = Some (Inr (b, s)) else s = s0"
      "rt_inv interest env (coros x0) ?n H T R \<sigma> s p {}"
    using rt_inv_stop [OF assms(1) 0(3)] 0(3) by (cases stop) auto
  obtain s' \<sigma>' p' where 2: "executor_run (host_kernel K) (rt_resume K io place) rt_done s = Some (Inr s')"
      "rt_inv interest env (coros x0) ?n H T R \<sigma>' s' p' {}" "\<And>i. i < ?n \<Longrightarrow> \<sigma>' i = None" "p' = Map.empty" "m_pending_io (world s') = 0"
    using rt_run_until [OF assms(1-3) order_refl 1(2), of io None] unfolding executor_run_def by auto
  note D = rt_invD [OF 2(2)]
  have "spawn_await_resume (coros_of s') (handle_on ex (hs ! i)) = Inr (eval_body env (snd (ts ! i)))" if "i < ?n" for i
    using root_done(2) [OF roots_invD(4) [OF D(2) that] 2(3) [OF that]] j [OF that] by simp
  moreover have "frames (coros_of s') y = frames (coros x0) y" if y: "y \<notin> set hs \<union> fst ` set ts" for y
  proof -
    have "y \<notin> ids_of H T \<sigma>' i" if "i < ?n" for i
      using y j [OF that] 2(3) [OF that] that 0(2) by (auto simp: root_ids_def)
    then show ?thesis using roots_invD(7) [OF D(2)] by blast
  qed
  moreover have "\<exists>s'. rt_sync_wait K io place dflt (handle_on ex (hs ! i)) s = Some (Inr (eval_body env (snd (ts ! i)), s'))" if "i < ?n" for i
    using rt_sync_wait_result [OF assms(1-3) order_refl 1(2) that, of io dflt ex] j [OF that] by simp
  moreover have "awaiters (world s') = Map.empty" using D(4) 2(4) by simp
  ultimately show ?thesis using 0(1,2) 1(1) 2(1,5) by blast
qed

section \<open>A concrete run\<close>

text \<open>
  A kernel with the descriptors 4, 5 and 6, always ready, after the number of signals in its state. One task waits for a descriptor and
  returns; the other awaits a temporary task that waits and throws, and handles the exception.
\<close>

definition duo_kernel :: "((fd \<Rightarrow> fd \<Rightarrow> u64 option) \<times> nat) kernel" where
  "duo_kernel = \<lparr>
     sys_epoll_create = (\<lambda>(k, g). (3, k(3 := Map.empty), g)), sys_eventfd = (\<lambda>k. (4, k)),
     sys_epoll_add = (\<lambda>(k, g) ep fd _ tok. if fd \<in> {4, 5, 6} \<and> k ep fd = None then (0, k(ep := (k ep)(fd \<mapsto> tok)), g) else (- 1, k, g)),
     sys_epoll_mod = (\<lambda>k ep fd _ tok. (- 1, k)),
     sys_epoll_del = (\<lambda>(k, g) ep fd. (0, k(ep := (k ep)(fd := None)), g)),
     sys_epoll_wait = (\<lambda>(k, g) ep m _. if g = 0
       then (let evs = take m (map (Pair EPOLLIN) (filter (\<lambda>tok. tok \<noteq> WAKE_TOKEN) (List.map_filter (k ep) [4, 5, 6]))) in (int (length evs), evs, k, g))
       else (- 1, [], k, g - 1)),
     sys_read8 = (\<lambda>k _. k), sys_write8 = (\<lambda>k _ _. k), sys_close = (\<lambda>(k, g) fd. (k(fd := Map.empty), g)),
     sys_errno = (\<lambda>_. EINTR), strerror = (\<lambda>_. ''Interrupted system call'')\<rparr>"

definition duo_interest :: "(fd \<Rightarrow> fd \<Rightarrow> u64 option) \<times> nat \<Rightarrow> fd \<Rightarrow> fd \<Rightarrow> u64 option" where
  "duo_interest k ep = fst k ep |` {4, 5, 6}"

lemma duo_interest_upd:
  "duo_interest (k(ep := Map.empty), g) = (duo_interest (k, g'))(ep := Map.empty)"
  "fd \<in> {4, 5, 6} \<Longrightarrow> duo_interest (k(ep := (k ep)(fd \<mapsto> tok)), g) = (duo_interest (k, g'))(ep := (duo_interest (k, g') ep)(fd \<mapsto> tok))"
  "duo_interest (k(ep := (k ep)(fd := None)), g) = (duo_interest (k, g'))(ep := (duo_interest (k, g') ep)(fd := None))"
  "duo_interest (k, g) = duo_interest (k, g')"
  by (auto simp: duo_interest_def fun_eq_iff restrict_map_def)

lemma duo_tokens: "set (List.map_filter (k ep) [4, 5, 6]) = ran (duo_interest (k, g) ep)"
proof (intro set_eqI iffI)
  fix t assume "t \<in> set (List.map_filter (k ep) [4, 5, 6])"
  then obtain fd where "fd \<in> {4, 5, 6}" "k ep fd = Some t" by (auto simp: map_filter_simps split: option.splits)
  then have "duo_interest (k, g) ep fd = Some t" by (simp add: duo_interest_def)
  then show "t \<in> ran (duo_interest (k, g) ep)" by (rule ranI)
next
  fix t assume "t \<in> ran (duo_interest (k, g) ep)"
  then obtain fd where "fd \<in> {4, 5, 6}" "k ep fd = Some t" by (auto simp: ran_def duo_interest_def restrict_map_def split: if_splits)
  then show "t \<in> set (List.map_filter (k ep) [4, 5, 6])" by (auto simp: map_filter_simps split: option.splits)
qed

lemma duo_wait:
  assumes "sys_epoll_wait duo_kernel (f, g) ep m t = (n, evs, k')"
  shows "g = 0 \<Longrightarrow> evs = take m (map (Pair EPOLLIN) (filter (\<lambda>tok. tok \<noteq> WAKE_TOKEN) (List.map_filter (f ep) [4, 5, 6]))) \<and> n = int (length evs) \<and> k' = (f, g)"
    and "g \<noteq> 0 \<Longrightarrow> n = - 1 \<and> evs = [] \<and> k' = (f, g - 1)"
  using assms by (auto simp: duo_kernel_def Let_def)

lemma duo_contract: "epoll_contract duo_kernel duo_interest"
  unfolding epoll_contract_def
proof (intro conjI allI impI)
  fix k ep m t n evs k'
  assume w: "sys_epoll_wait duo_kernel k ep m t = (n, evs, k')"
  obtain f g where k: "k = (f, g)" by (cases k)
  note d = duo_wait [OF w [unfolded k]]
  show "duo_interest k' = duo_interest k" using d k duo_interest_upd(4) by (cases "g = 0") auto
  show "n \<le> int m" "n \<le> int (length evs)" using d by (cases "g = 0"; auto)+
  show "\<forall>e \<in> set (take (nat n) evs). snd e \<in> ran (duo_interest k ep)"
  proof
    fix e assume e: "e \<in> set (take (nat n) evs)"
    show "snd e \<in> ran (duo_interest k ep)"
    proof (cases "g = 0")
      case True
      let ?ts = "filter (\<lambda>tok. tok \<noteq> WAKE_TOKEN) (List.map_filter (f ep) [4, 5, 6])"
      have "e \<in> set (take m (map (Pair EPOLLIN) ?ts))" using in_set_takeD [OF e] d(1) [OF True] by simp
      then have "e \<in> set (map (Pair EPOLLIN) ?ts)" by (rule in_set_takeD)
      then have "snd e \<in> set (List.map_filter (f ep) [4, 5, 6])" by (auto simp del: List.map_filter_simps)
      then show ?thesis using duo_tokens [of f ep g] k by blast
    next
      case False
      then show ?thesis using d(2) in_set_takeD [OF e] by simp
    qed
  qed
next
  fix k ep fd ev tok rc k'
  assume a: "sys_epoll_add duo_kernel k ep fd ev tok = (rc, k')"
  obtain f g where k: "k = (f, g)" by (cases k)
  show "if rc < 0 then duo_interest k' = duo_interest k
        else duo_interest k ep fd = None \<and> duo_interest k' = (duo_interest k)(ep := (duo_interest k ep)(fd \<mapsto> tok))"
  proof (cases "fd \<in> {4, 5, 6} \<and> f ep fd = None")
    case True
    then have "rc = 0" "k' = (f(ep := (f ep)(fd \<mapsto> tok)), g)" using a by (simp_all add: duo_kernel_def k)
    then show ?thesis using True duo_interest_upd(2) [of fd f ep tok g g] by (simp add: k duo_interest_def restrict_map_def)
  next
    case False
    then show ?thesis using a by (auto simp: duo_kernel_def k)
  qed
qed (auto simp: duo_kernel_def duo_interest_upd(1,3))

lemma duo_progress: "io_progress duo_kernel duo_interest snd"
  unfolding io_progress_def
proof (intro allI impI)
  fix k ep m n evs k'
  assume w: "sys_epoll_wait duo_kernel k ep m (- 1) = (n, evs, k')" and m: "0 < m" and tok: "\<exists>tok \<in> ran (duo_interest k ep). tok \<noteq> WAKE_TOKEN"
  obtain f g where k: "k = (f, g)" by (cases k)
  show "(\<exists>e \<in> set (take (nat n) evs). \<not> is_wake e) \<or>
    (n < 0 \<longrightarrow> sys_errno duo_kernel k' = EINTR) \<and> (\<forall>j fd. j \<le> nat n \<longrightarrow> snd (((\<lambda>k. sys_read8 duo_kernel k fd) ^^ j) k') < snd k)"
  proof (cases "g = 0")
    case True
    let ?ts = "filter (\<lambda>tok. tok \<noteq> WAKE_TOKEN) (List.map_filter (f ep) [4, 5, 6])"
    have evs: "evs = take m (map (Pair EPOLLIN) ?ts)" "n = int (length evs)" using duo_wait(1) [OF w [unfolded k] True] by auto
    have "?ts \<noteq> []" using tok duo_tokens [of f ep g] k by (auto simp: filter_empty_conv)
    then obtain t ts where ts: "?ts = t # ts" by (cases ?ts) auto
    then have "t \<in> set ?ts" by (metis list.set_intros(1))
    then have "t \<noteq> WAKE_TOKEN" by simp
    moreover have "take (nat n) evs = evs" using evs(2) by simp
    moreover have "evs = take m (map (Pair EPOLLIN) (t # ts))" unfolding evs(1) ts ..
    then have "(EPOLLIN, t) \<in> set evs" using m by (cases m) simp_all
    ultimately show ?thesis by force
  next
    case False
    then show ?thesis using w k by (auto simp: duo_kernel_def)
  qed
qed

definition duo_io :: "(nat, string) machine \<Rightarrow> cid \<Rightarrow> fd \<times> event \<times> bool" where
  "duo_io m c = (if even c then 5 else 6, Event_Readable, True)"

definition duo_place :: "(u64 \<Rightarrow> io_awaiter option) \<Rightarrow> cid \<Rightarrow> u64" where
  "duo_place aw c = (if aw 16 = None then 16 else 32)"

lemma duo_room: "room_for 2 duo_place"
  unfolding room_for_def
proof (intro allI impI)
  fix aw :: "u64 \<Rightarrow> io_awaiter option" and c :: cid
  assume c: "card (dom aw) < 2"
  have "\<not> {16, 32} \<subseteq> dom aw"
  proof
    assume "{16, 32} \<subseteq> dom aw"
    then have "card {16, 32 :: u64} \<le> card (dom aw)" by (intro card_mono) simp_all
    with c show False by simp
  qed
  then show "aw (duo_place aw c) = None \<and> duo_place aw c \<noteq> WAKE_TOKEN" by (auto simp: duo_place_def WAKE_TOKEN_def)
qed

definition duo_tasks :: "(cid \<times> (nat, string) body) list" where
  "duo_tasks = [(0, Susp (Ret 1)), (1, Await (Susp (Thr ''io'')) (\<lambda>r. case r of Inl e \<Rightarrow> Ret (length e) | Inr v \<Rightarrow> Ret v))]"

definition duo_start :: "((fd \<Rightarrow> fd \<Rightarrow> u64 option) \<times> nat, nat, string) runtime" where
  "duo_start = \<lparr>os = ((\<lambda>_. Map.empty), 1), coros = snd (new_frame Task_Promise [] (snd (duo_tasks ! 1)) (snd (new_frame Task_Promise [] (snd (duo_tasks ! 0))
     \<lparr>frames = Map.empty, next_cid = 0, sem = 0\<rparr>))), sites = Map.empty\<rparr>"

lemma duo_start_tasks:
  "fresh_above (coros duo_start)" "(t, b) \<in> set duo_tasks \<Longrightarrow> task_at (coros duo_start) t b \<and> plain b"
  by (auto simp: duo_start_def duo_tasks_def new_frame_def fresh_above_def task_at_def split: sum.split)

theorem async_tasks_complete_witness:
  "\<exists>x k hs s0 s. executor_create (host_kernel duo_kernel) duo_start = (Inr x, k) \<and>
     rt_spawn_all duo_kernel duo_io duo_place 64 [Some 0, Some 1] (stop_init x) = Some (Inr (map (handle_on 64) hs, s0)) \<and> length hs = 2 \<and>
     (\<exists>b. request_stop (on_cancel (host_kernel duo_kernel)) s0 = Some (Inr (b, s))) \<and>
     (\<exists>s'. rt_sync_wait duo_kernel duo_io duo_place 0 (handle_on 64 (hs ! 0)) s = Some (Inr (Inr 1, s'))) \<and>
     (\<exists>s'. rt_sync_wait duo_kernel duo_io duo_place 0 (handle_on 64 (hs ! 1)) s = Some (Inr (Inr 2, s')))"
proof -
  obtain x k where x: "executor_create (host_kernel duo_kernel) duo_start = (Inr x, k)"
    by (simp add: executor_create_def reactor_create_def host_kernel_def duo_kernel_def duo_start_def)
  have "room_for (length duo_tasks) duo_place" "sites duo_start = Map.empty" "distinct (map fst duo_tasks)"
    using duo_room by (simp_all add: duo_tasks_def duo_start_def numeral_2_eq_2)
  from async_tasks_complete [where stop = True and ex = 64 and dflt = 0 and io = duo_io and env = "\<lambda>_. Inr 0", OF duo_contract duo_progress
      this(1) x this(2) duo_start_tasks(1) duo_start_tasks(2) this(3)]
  obtain hs s0 s where r: "rt_spawn_all duo_kernel duo_io duo_place 64 (map (Some \<circ> fst) duo_tasks) (stop_init x) = Some (Inr (map (handle_on 64) hs, s0))"
      "length hs = length duo_tasks" "\<exists>b. request_stop (on_cancel (host_kernel duo_kernel)) s0 = Some (Inr (b, s))"
      "\<And>j. j < length duo_tasks \<Longrightarrow> \<exists>s'. rt_sync_wait duo_kernel duo_io duo_place 0 (handle_on 64 (hs ! j)) s =
         Some (Inr (eval_body (\<lambda>_. Inr 0) (snd (duo_tasks ! j)), s'))"
    by auto
  have "\<exists>s'. rt_sync_wait duo_kernel duo_io duo_place 0 (handle_on 64 (hs ! 0)) s = Some (Inr (Inr 1, s'))"
      "\<exists>s'. rt_sync_wait duo_kernel duo_io duo_place 0 (handle_on 64 (hs ! 1)) s = Some (Inr (Inr 2, s'))"
    using r(4) [of 0] r(4) [of 1] by (simp_all add: duo_tasks_def numeral_2_eq_2)
  moreover have "rt_spawn_all duo_kernel duo_io duo_place 64 [Some 0, Some 1] (stop_init x) = Some (Inr (map (handle_on 64) hs, s0))" "length hs = 2"
    using r(1,2) by (simp_all add: duo_tasks_def del: rt_spawn_all.simps)
  ultimately show ?thesis using r(3) x by blast
qed

end
