(* ===== verification/Reactor_Backends.thy ===== *)
theory Reactor_Backends
  imports Executor_Runs Iocp_Runs
begin

text \<open>
  The interface of \<^verbatim>\<open>io::Reactor\<close>, \<^verbatim>\<open>include/sap_core/io/reactor.h\<close>, and its two implementations. A client holds tokens for
  the handles it registered; the contract says which of them a wait may report. It is proved once, and both the epoll and
  the completion-port backend keep it.
\<close>

section \<open>The interface\<close>

text \<open>
  A call and what came of it: \<^verbatim>\<open>add\<close>, \<^verbatim>\<open>modify\<close> and \<^verbatim>\<open>remove\<close> with whether they succeeded, \<^verbatim>\<open>wait\<close> with the tokens it reported, and
  \<^verbatim>\<open>wake\<close>.
\<close>

datatype 'h reactor_call = C_Add 'h u64 bool | C_Modify 'h u64 bool | C_Remove 'h bool | C_Wait "u64 list" | C_Wake

text \<open>
  The tokens a handle may be registered with after a log of calls, the latest first. A registration that failed may have taken
  effect or not, and a failed \<^verbatim>\<open>modify\<close> may have dropped the old one.
\<close>

fun may_watch :: "'h reactor_call list \<Rightarrow> 'h \<Rightarrow> u64 set" where
  "may_watch [] h = {}"
| "may_watch (C_Add h' tok ok # cs) h = (if h = h' then (if ok then {tok} else insert tok (may_watch cs h)) else may_watch cs h)"
| "may_watch (C_Modify h' tok ok # cs) h = (if h = h' then (if ok then {tok} else insert tok (may_watch cs h)) else may_watch cs h)"
| "may_watch (C_Remove h' ok # cs) h = (if h = h' then {} else may_watch cs h)"
| "may_watch (C_Wait ts # cs) h = may_watch cs h"
| "may_watch (C_Wake # cs) h = may_watch cs h"

text \<open>Every wait of a log reports only tokens that were possible at its time.\<close>

fun log_ok :: "'h reactor_call list \<Rightarrow> bool" where
  "log_ok [] \<longleftrightarrow> True"
| "log_ok (C_Wait ts # cs) \<longleftrightarrow> set ts \<subseteq> (\<Union>h. may_watch cs h) \<and> log_ok cs"
| "log_ok (c # cs) \<longleftrightarrow> log_ok cs"

text \<open>The calls of a backend, as a relation between the states before and after, and their runs.\<close>

type_synonym ('h, 's) backend = "'h reactor_call \<Rightarrow> 's \<Rightarrow> 's \<Rightarrow> bool"

inductive backend_run :: "('h, 's) backend \<Rightarrow> 's \<Rightarrow> 'h reactor_call list \<Rightarrow> 's \<Rightarrow> bool" for call s0 where
  start: "backend_run call s0 [] s0"
| step: "backend_run call s0 cs s \<Longrightarrow> call c s s' \<Longrightarrow> backend_run call s0 (c # cs) s'"

definition updated :: "('h \<Rightarrow> u64 option) \<Rightarrow> 'h \<Rightarrow> u64 \<Rightarrow> bool \<Rightarrow> ('h \<Rightarrow> u64 option) \<Rightarrow> bool" where
  "updated m h tok ok m' \<longleftrightarrow> m' = m(h \<mapsto> tok) \<or> (\<not> ok \<and> (m' = m \<or> m' = m(h := None)))"

lemma updated_may_watch:
  assumes "updated m h tok ok m'" and "\<And>h t. m h = Some t \<Longrightarrow> t \<in> W h" and "m' x = Some t"
  shows "t \<in> (if x = h then (if ok then {tok} else insert tok (W x)) else W x)"
  using assms(1,3) assms(2) [of x t] by (cases "x = h") (auto simp: updated_def)

locale readiness_backend =
  fixes call :: "('h, 's) backend" and good :: "'s \<Rightarrow> bool" and watching :: "'s \<Rightarrow> 'h \<Rightarrow> u64 option"
  assumes good_call: "good s \<Longrightarrow> call c s s' \<Longrightarrow> good s'"
    and add_watches: "good s \<Longrightarrow> call (C_Add h tok ok) s s' \<Longrightarrow> updated (watching s) h tok ok (watching s')"
    and add_once: "good s \<Longrightarrow> call (C_Add h tok True) s s' \<Longrightarrow> watching s h = None"
    and modify_watches: "good s \<Longrightarrow> call (C_Modify h tok ok) s s' \<Longrightarrow> updated (watching s) h tok ok (watching s')"
    and remove_unwatches: "good s \<Longrightarrow> call (C_Remove h ok) s s' \<Longrightarrow> watching s' = (watching s)(h := None)"
    and wait_keeps: "good s \<Longrightarrow> call (C_Wait ts) s s' \<Longrightarrow> watching s' = watching s"
    and wait_reports: "good s \<Longrightarrow> call (C_Wait ts) s s' \<Longrightarrow> set ts \<subseteq> ran (watching s)"
    and wake_keeps: "good s \<Longrightarrow> call C_Wake s s' \<Longrightarrow> watching s' = watching s"
begin

lemma run_good: "backend_run call s0 cs s \<Longrightarrow> good s0 \<Longrightarrow> good s"
  by (induction rule: backend_run.induct) (auto intro: good_call)

lemma call_watching:
  assumes "good s" and "call c s s'" and "\<forall>h tok. watching s h = Some tok \<longrightarrow> tok \<in> may_watch cs h"
  shows "\<forall>h tok. watching s' h = Some tok \<longrightarrow> tok \<in> may_watch (c # cs) h"
proof (cases c)
  case (C_Add h tok ok)
  from updated_may_watch [OF add_watches [OF assms(1) assms(2) [unfolded C_Add]], of "may_watch cs"] assms(3) C_Add show ?thesis by simp
next
  case (C_Modify h tok ok)
  from updated_may_watch [OF modify_watches [OF assms(1) assms(2) [unfolded C_Modify]], of "may_watch cs"] assms(3) C_Modify show ?thesis by simp
next
  case (C_Remove h ok)
  then show ?thesis using remove_unwatches [OF assms(1)] assms(2,3) by (auto split: if_splits)
next
  case (C_Wait ts)
  then show ?thesis using wait_keeps [OF assms(1)] assms(2,3) by auto
next
  case C_Wake
  then show ?thesis using wake_keeps [OF assms(1)] assms(2,3) by auto
qed

lemma run_watching:
  "backend_run call s0 cs s \<Longrightarrow> good s0 \<Longrightarrow> watching s0 = Map.empty \<Longrightarrow> \<forall>h tok. watching s h = Some tok \<longrightarrow> tok \<in> may_watch cs h"
proof (induction rule: backend_run.induct)
  case (step cs s c s')
  then show ?case using call_watching [OF run_good [OF step(1)]] by blast
qed simp

text \<open>No token is reported after its registration is gone.\<close>

lemma run_reports:
  "backend_run call s0 cs s \<Longrightarrow> good s0 \<Longrightarrow> watching s0 = Map.empty \<Longrightarrow> log_ok cs"
proof (induction rule: backend_run.induct)
  case (step cs s c s')
  have g: "good s" by (rule run_good [OF step(1,4)])
  have "set ts \<subseteq> (\<Union>h. may_watch cs h)" if "c = C_Wait ts" for ts
    using wait_reports [OF g] step(2) that run_watching [OF step(1,4,5)] by (fastforce simp: ran_def)
  then show ?case using step.IH [OF step(4,5)] by (cases c) auto
qed simp

end

section \<open>epoll\<close>

text \<open>What \<^verbatim>\<open>EPOLL_CTL_MOD\<close> does to the interest list.\<close>

definition mod_contract :: "'k kernel \<Rightarrow> ('k \<Rightarrow> fd \<Rightarrow> fd \<Rightarrow> u64 option) \<Rightarrow> bool" where
  "mod_contract K il \<longleftrightarrow>
     (\<forall>k ep fd ev tok rc k'. sys_epoll_mod K k ep fd ev tok = (rc, k') \<longrightarrow>
        (if rc < 0 then il k' = il k else il k ep fd \<noteq> None \<and> il k' = (il k)(ep := (il k ep)(fd \<mapsto> tok))))"

text \<open>The wake-up descriptor is the reactor's own: no client modifies or removes it.\<close>

fun epoll_call :: "'k kernel \<Rightarrow> reactor \<Rightarrow> (fd, 'k) backend" where
  "epoll_call K r (C_Add h tok ok) k k' \<longleftrightarrow> (\<exists>ev res. reactor_add K k r h ev tok = (res, k') \<and> ok = (\<not> isl res))"
| "epoll_call K r (C_Modify h tok ok) k k' \<longleftrightarrow> h \<noteq> m_wake_fd r \<and> (\<exists>ev res. reactor_modify K k r h ev tok = (res, k') \<and> ok = (\<not> isl res))"
| "epoll_call K r (C_Remove h ok) k k' \<longleftrightarrow> h \<noteq> m_wake_fd r \<and> (\<exists>res. reactor_remove K k r h = (res, k') \<and> ok = (\<not> isl res))"
| "epoll_call K r (C_Wait ts) k k' \<longleftrightarrow>
     (\<exists>room t res. reactor_wait K k r room t = Inr (res, k') \<and> ts = (case res of Inl _ \<Rightarrow> [] | Inr trs \<Rightarrow> map tr_user_token trs))"
| "epoll_call K r C_Wake k k' \<longleftrightarrow> k' = reactor_wake K k r"

definition epoll_good :: "'k kernel \<Rightarrow> ('k \<Rightarrow> fd \<Rightarrow> fd \<Rightarrow> u64 option) \<Rightarrow> reactor \<Rightarrow> 'k \<Rightarrow> bool" where
  "epoll_good K il r k \<longleftrightarrow> epoll_contract K il \<and> mod_contract K il \<and> il k (m_epoll_fd r) (m_wake_fd r) = Some WAKE_TOKEN"

definition epoll_watching :: "('k \<Rightarrow> fd \<Rightarrow> fd \<Rightarrow> u64 option) \<Rightarrow> reactor \<Rightarrow> 'k \<Rightarrow> fd \<Rightarrow> u64 option" where
  "epoll_watching il r k = (il k (m_epoll_fd r))(m_wake_fd r := None)"

lemma epoll_goodD:
  assumes "epoll_good K il r k"
  shows "epoll_contract K il" "mod_contract K il" "il k (m_epoll_fd r) (m_wake_fd r) = Some WAKE_TOKEN"
  using assms by (simp_all add: epoll_good_def)

lemma epoll_add_effect:
  assumes g: "epoll_good K il r k" and a: "reactor_add K k r h ev tok = (res, k')"
  shows "epoll_good K il r k'" "updated (epoll_watching il r k) h tok (\<not> isl res) (epoll_watching il r k')"
    "\<not> isl res \<Longrightarrow> epoll_watching il r k h = None"
proof -
  note D = epoll_goodD [OF g]
  from reactor_add_cases [OF D(1) a]
  have "epoll_good K il r k' \<and> updated (epoll_watching il r k) h tok (\<not> isl res) (epoll_watching il r k') \<and>
      (\<not> isl res \<longrightarrow> epoll_watching il r k h = None)"
  proof
    assume "\<exists>e. res = Inl e \<and> il k' = il k"
    then show ?thesis using D by (auto simp: epoll_good_def epoll_watching_def updated_def)
  next
    assume r: "res = Inr 0 \<and> il k (m_epoll_fd r) h = None \<and> il k' = (il k)(m_epoll_fd r := (il k (m_epoll_fd r))(h \<mapsto> tok))"
    then have "h \<noteq> m_wake_fd r" using D(3) by auto
    then show ?thesis using r D by (auto simp: epoll_good_def epoll_watching_def updated_def)
  qed
  then show "epoll_good K il r k'" "updated (epoll_watching il r k) h tok (\<not> isl res) (epoll_watching il r k')"
    "\<not> isl res \<Longrightarrow> epoll_watching il r k h = None" by blast+
qed

lemma epoll_modify_effect:
  assumes g: "epoll_good K il r k" and a: "reactor_modify K k r h ev tok = (res, k')" and h: "h \<noteq> m_wake_fd r"
  shows "epoll_good K il r k' \<and> updated (epoll_watching il r k) h tok (\<not> isl res) (epoll_watching il r k')"
proof -
  note D = epoll_goodD [OF g]
  obtain rc k1 where m: "sys_epoll_mod K k (m_epoll_fd r) h (to_epoll ev) tok = (rc, k1)" by force
  have "if rc < 0 then il k1 = il k else il k (m_epoll_fd r) h \<noteq> None \<and> il k1 = (il k)(m_epoll_fd r := (il k (m_epoll_fd r))(h \<mapsto> tok))"
    using D(2) m unfolding mod_contract_def by blast
  then show ?thesis
    using a m D h by (cases "rc < 0") (auto simp: reactor_modify_def epoll_good_def epoll_watching_def updated_def)
qed

lemma epoll_remove_effect:
  assumes g: "epoll_good K il r k" and a: "reactor_remove K k r h = (res, k')" and h: "h \<noteq> m_wake_fd r"
  shows "epoll_good K il r k' \<and> epoll_watching il r k' = (epoll_watching il r k)(h := None)"
proof -
  note D = epoll_goodD [OF g]
  have "k' = snd (sys_epoll_del K k (m_epoll_fd r) h)" using reactor_remove_kernel [of K k r h] a by simp
  then have "il k' = (il k)(m_epoll_fd r := (il k (m_epoll_fd r))(h := None))" using epoll_contract_simps(2) [OF D(1)] by simp
  then show ?thesis using D h by (auto simp: epoll_good_def epoll_watching_def)
qed

lemma epoll_wait_effect:
  assumes g: "epoll_good K il r k" and a: "reactor_wait K k r room t = Inr (res, k')"
  shows "epoll_good K il r k' \<and> epoll_watching il r k' = epoll_watching il r k \<and>
         (\<forall>trs. res = Inr trs \<longrightarrow> tr_user_token ` set trs \<subseteq> ran (epoll_watching il r k))"
proof (cases "room = 0")
  case True
  then show ?thesis using g a by (auto simp: reactor_wait_def)
next
  case False
  note D = epoll_goodD [OF g]
  obtain n evs k1 where w: "sys_epoll_wait K k (m_epoll_fd r) (min room 64) (wait_timeout t) = (n, evs, k1)" by (metis prod_cases3)
  note cw = epoll_contract_wait [OF D(1) w]
  have "res = Inr [] \<and> k' = k1 \<or> (\<exists>e. res = Inl e) \<and> k' = k1 \<or>
      (res = Inr (map trigger_of (filter (\<lambda>e. \<not> is_wake e) (take (nat n) evs))) \<and> k' = (drain_wake K r ^^ length (filter is_wake (take (nat n) evs))) k1)"
    using a reactor_wait_eq [OF _ w] cw False by (auto split: if_splits)
  then have k: "il k' = il k" and rs: "\<And>trs. res = Inr trs \<Longrightarrow> set trs \<subseteq> trigger_of ` {e \<in> set (take (nat n) evs). \<not> is_wake e}"
    using cw drain_wake_interest [OF D(1)] by auto
  have "tr_user_token (trigger_of e) \<in> ran (epoll_watching il r k)" if e: "e \<in> set (take (nat n) evs)" "\<not> is_wake e" for e
  proof -
    obtain fd where fd: "il k (m_epoll_fd r) fd = Some (snd e)" using cw e(1) by (auto simp: ran_def)
    then have "fd \<noteq> m_wake_fd r" using D(3) e(2) by auto
    with fd have "epoll_watching il r k fd = Some (snd e)" by (simp add: epoll_watching_def)
    then show ?thesis by (simp add: trigger_of_def ranI)
  qed
  then have "tr_user_token ` set trs \<subseteq> ran (epoll_watching il r k)" if "res = Inr trs" for trs using rs [OF that] by blast
  moreover have "epoll_good K il r k'" "epoll_watching il r k' = epoll_watching il r k"
    using g k by (simp_all add: epoll_good_def epoll_watching_def)
  ultimately show ?thesis by blast
qed

lemma epoll_wake_effect: "epoll_good K il r k \<Longrightarrow> il (reactor_wake K k r) = il k"
  using epoll_contract_simps(4) [OF epoll_goodD(1)] by (auto simp: reactor_wake_def)

interpretation epoll: readiness_backend "epoll_call K r" "epoll_good K il r" "epoll_watching il r" for K r il
proof unfold_locales
  fix c k k' assume g: "epoll_good K il r k" and c: "epoll_call K r c k k'"
  show "epoll_good K il r k'"
  proof (cases c)
    case C_Wake
    then show ?thesis using c g epoll_wake_effect [OF g] by (simp add: epoll_good_def)
  qed (use c epoll_add_effect(1) [OF g] epoll_modify_effect [OF g] epoll_remove_effect [OF g] epoll_wait_effect [OF g] in auto)
next
  fix h tok ok k k' assume g: "epoll_good K il r k" and c: "epoll_call K r (C_Add h tok ok) k k'"
  then obtain ev res where r: "reactor_add K k r h ev tok = (res, k')" "ok = (\<not> isl res)" by auto
  show "updated (epoll_watching il r k) h tok ok (epoll_watching il r k')" unfolding r(2) by (rule epoll_add_effect(2) [OF g r(1)])
next
  fix h tok k k' assume g: "epoll_good K il r k" and c: "epoll_call K r (C_Add h tok True) k k'"
  then show "epoll_watching il r k h = None" using epoll_add_effect(3) [OF g] by auto
next
  fix h tok ok k k' assume g: "epoll_good K il r k" and c: "epoll_call K r (C_Modify h tok ok) k k'"
  then obtain ev res where r: "reactor_modify K k r h ev tok = (res, k')" "ok = (\<not> isl res)" "h \<noteq> m_wake_fd r" by auto
  show "updated (epoll_watching il r k) h tok ok (epoll_watching il r k')" unfolding r(2) using epoll_modify_effect [OF g r(1,3)] by blast
next
  fix h ok k k' assume g: "epoll_good K il r k" and c: "epoll_call K r (C_Remove h ok) k k'"
  then show "epoll_watching il r k' = (epoll_watching il r k)(h := None)" using epoll_remove_effect [OF g] by auto
next
  fix ts k k' assume g: "epoll_good K il r k" and c: "epoll_call K r (C_Wait ts) k k'"
  then obtain room t res where w: "reactor_wait K k r room t = Inr (res, k')" "ts = (case res of Inl _ \<Rightarrow> [] | Inr trs \<Rightarrow> map tr_user_token trs)" by auto
  show "epoll_watching il r k' = epoll_watching il r k" "set ts \<subseteq> ran (epoll_watching il r k)"
    using epoll_wait_effect [OF g w(1)] w(2) by (simp, cases res, simp_all)
next
  fix k k' assume g: "epoll_good K il r k" and c: "epoll_call K r C_Wake k k'"
  then show "epoll_watching il r k' = epoll_watching il r k" using epoll_wake_effect [OF g] by (simp add: epoll_watching_def)
qed

section \<open>Completion ports\<close>

text \<open>What of a poll context matters to the registrations; only \<^verbatim>\<open>add\<close> and \<^verbatim>\<open>remove\<close> change it.\<close>

definition ctx_view :: "'k win \<Rightarrow> u64 \<Rightarrow> (bool \<times> u64) option" where
  "ctx_view w p = map_option (\<lambda>c. (active c, user_token c)) (ctxs w p)"

definition iocp_watching :: "iocp_reactor \<times> 'k win \<Rightarrow> u64 \<Rightarrow> u64 option" where
  "iocp_watching s h =
     (case map_of (m_contexts (fst s)) h of
        None \<Rightarrow> None
      | Some p \<Rightarrow> (case ctx_view (snd s) p of Some (True, tok) \<Rightarrow> Some tok | _ \<Rightarrow> None))"

fun iocp_call :: "'k win_api \<Rightarrow> (u64, iocp_reactor \<times> 'k win) backend" where
  "iocp_call K (C_Add h tok ok) (r, w) s' \<longleftrightarrow>
     (\<exists>ev p res. iocp_add K r h ev tok p w = Some (Inr (res, s')) \<and> ctxs w p = None \<and> p \<noteq> 0 \<and> p \<noteq> WAKE_KEY \<and> ok = (\<not> isl res))"
| "iocp_call K (C_Modify h tok ok) (r, w) s' \<longleftrightarrow>
     (\<exists>ev p res. iocp_modify K r h ev tok p w = Some (Inr (res, s')) \<and> ctxs w p = None \<and> p \<noteq> 0 \<and> p \<noteq> WAKE_KEY \<and> ok = (\<not> isl res))"
| "iocp_call K (C_Remove h ok) (r, w) s' \<longleftrightarrow> fst s' = r \<and> (\<exists>res. iocp_remove K r h w = Inr (res, snd s') \<and> ok = (\<not> isl res))"
| "iocp_call K (C_Wait ts) (r, w) s' \<longleftrightarrow>
     fst s' = r \<and> (\<exists>room t res. iocp_wait K r room t w = Inr (res, snd s') \<and> ts = (case res of Inl _ \<Rightarrow> [] | Inr trs \<Rightarrow> map tr_user_token trs))"
| "iocp_call K C_Wake (r, w) s' \<longleftrightarrow> s' = (r, w\<lparr>kern := iocp_wake K r (kern w)\<rparr>)"

definition iocp_good :: "'k win_api \<Rightarrow> ('k \<Rightarrow> u64 set) \<Rightarrow> iocp_reactor \<times> 'k win \<Rightarrow> bool" where
  "iocp_good K keys s \<longleftrightarrow> port_contract K keys \<and> nt_device_io_control K \<noteq> None \<and> iocp_inv keys s \<and> distinct (map fst (m_contexts (fst s)))"

lemma ctx_view_simps [simp]:
  "ctx_view (w\<lparr>kern := k\<rparr>) = ctx_view w" "ctx_view (put_ctx p c w) = (ctx_view w)(p \<mapsto> (active c, user_token c))"
  by (auto simp: ctx_view_def fun_eq_iff)

lemma ctx_view_same: "ctx_at w p = Inr c \<Longrightarrow> (ctx_view w)(p \<mapsto> (active c, user_token c)) = ctx_view w"
  by (auto simp: ctx_view_def ctx_at_def fun_eq_iff split: option.splits)

lemma cancel_poll_view: "cancel_poll K p w = Inr w' \<Longrightarrow> ctx_view w' = ctx_view w"
  by (auto simp: cancel_poll_def out_bind_Inr_iff split: if_splits)

lemma submit_poll_view: "submit_poll K p w = Inr (res, w') \<Longrightarrow> ctx_view w' = ctx_view w"
proof -
  assume s: "submit_poll K p w = Inr (res, w')"
  then obtain c where c: "ctx_at w p = Inr c" by (auto simp: submit_poll_def out_bind_Inr_iff)
  obtain g where g: "nt_device_io_control K = Some g" using s c by (cases "nt_device_io_control K") (simp_all add: submit_poll_def)
  let ?buf = "\<lparr>api_timeout = - (2 ^ 63), api_number_of_handles = 1, api_exclusive = 0, api_handle = base_handle c,
                     api_events = to_afd (interest c), api_status = 0\<rparr> :: afd_poll_info"
  obtain st k2 where k2: "g (clear_overlapped K (kern w) p) (base_handle c) p ?buf = (st, k2)" by fastforce
  show ?thesis
    using s c g k2 ctx_view_same [OF c] by (auto simp: submit_poll_def Let_def split: if_splits)
qed

lemma requeue_view: "requeue K port p es w = Inr w' \<Longrightarrow> ctx_view w' = ctx_view w"
proof (induction es arbitrary: w)
  case (Cons en es)
  show ?case
  proof (cases "lp_completion_key en = WAKE_KEY")
    case False
    then obtain c where c: "ctx_at w (lp_completion_key en) = Inr c" using Cons.prems by (auto simp: out_bind_Inr_iff)
    show ?thesis using Cons.prems False c Cons.IH ctx_view_same [OF c] by (fastforce split: if_splits)
  qed (use Cons in simp)
qed simp

lemma drain_context_view:
  assumes "drain_context K port p w = Some x"
  shows "\<forall>w'. x = Inr w' \<longrightarrow> ctx_view w' = ctx_view w"
proof (rule drain_context.raw_induct [OF _ assms])
  fix f :: "'a win_api \<Rightarrow> u64 \<Rightarrow> u64 \<Rightarrow> 'a win \<Rightarrow> 'a win outcome option" and K port p w x
  assume IH: "\<And>K port p w x. f K port p w = Some x \<Longrightarrow> \<forall>w'. x = Inr w' \<longrightarrow> ctx_view w' = ctx_view w"
    and eq: "(case ctx_at w p of Inl e \<Rightarrow> Some (Inl e)
      | Inr c \<Rightarrow> if \<not> pending c then Some (Inr w)
          else (case get_completions K (kern w) port MAX_EVENTS_PER_WAIT 1000 of (ok, es, k1) \<Rightarrow>
                 if \<not> ok then Some (Inr (w\<lparr>kern := k1\<rparr>))
                 else (case requeue K port p es (w\<lparr>kern := k1\<rparr>) of Inl e \<Rightarrow> Some (Inl e) | Inr w1 \<Rightarrow> f K port p w1))) = Some x"
  show "\<forall>w'. x = Inr w' \<longrightarrow> ctx_view w' = ctx_view w"
    using eq IH requeue_view by (fastforce split: sum.splits if_splits prod.splits)
qed

text \<open>The completions of a wait: only registered contexts are reported.\<close>

lemma completion_loop_view:
  "completion_loop K n es w = Inr (ts, w') \<Longrightarrow>
     ctx_view w' = ctx_view w \<and> (\<forall>t \<in> set ts. \<exists>p. ctx_view w p = Some (True, tr_user_token t))"
proof (induction es arbitrary: w n ts)
  case (Cons en es)
  let ?p = "lp_completion_key en"
  show ?case
  proof (cases "?p = WAKE_KEY \<or> ?p = 0")
    case False
    then obtain c where c: "ctx_at w ?p = Inr c" using Cons.prems by (auto simp: out_bind_Inr_iff Let_def)
    let ?w = "put_ctx ?p (c\<lparr>pending := False\<rparr>) w"
    have v: "ctx_view ?w = ctx_view w" using ctx_view_same [OF c] by simp
    have vp: "ctx_view w ?p = Some (active c, user_token c)" using c by (simp add: ctx_view_def ctx_at_def split: option.splits)
    consider "completion_loop K n es w = Inr (ts, w')" | "completion_loop K n es ?w = Inr (ts, w')"
      | m t ts' where "completion_loop K m es ?w = Inr (ts', w')" "ts = t # ts'" "active c" "tr_user_token t = user_token c"
      using Cons.prems False c by (auto simp: Let_def out_bind_Inr_iff split: if_splits nat.splits)
    then show ?thesis
    proof cases
      case 3
      then show ?thesis using Cons.IH [OF 3(1)] vp unfolding v by auto
    next
      case 2
      then show ?thesis using Cons.IH [OF 2] unfolding v by blast
    qed (use Cons.IH in blast)
  qed (use Cons in \<open>auto simp: Let_def\<close>)
qed simp

lemma iocp_goodD:
  assumes "iocp_good K keys (r, w)"
  shows "port_contract K keys" "nt_device_io_control K \<noteq> None" "iocp_inv keys (r, w)" "distinct (map fst (m_contexts r))"
    "distinct (map snd (m_contexts r))" "dom (ctxs w) = snd ` set (m_contexts r)"
  using assms by (simp_all add: iocp_good_def iocp_inv_def)

text \<open>Two handles have two contexts.\<close>

lemma contexts_apart:
  assumes "distinct (map snd kvs)" and "map_of kvs h = Some p" and "map_of kvs h' = Some p"
  shows "h = h'"
proof -
  have "inj_on snd (set kvs)" using assms(1) by (simp add: distinct_map)
  from inj_onD [OF this _ map_of_SomeD [OF assms(2)] map_of_SomeD [OF assms(3)]] show ?thesis by simp
qed

lemma iocp_watching_view: "ctx_view w' = ctx_view w \<Longrightarrow> iocp_watching (r, w') = iocp_watching (r, w)"
  by (rule ext) (simp add: iocp_watching_def split: option.split)

lemma iocp_watching_upd:
  assumes "distinct (map snd (m_contexts r))" and "map_of (m_contexts r) h = Some p" and "ctx_view w' = (ctx_view w)(p \<mapsto> (b, tok))"
  shows "iocp_watching (r, w') = (iocp_watching (r, w))(h := (if b then Some tok else None))"
proof (rule ext)
  fix x
  show "iocp_watching (r, w') x = ((iocp_watching (r, w))(h := (if b then Some tok else None))) x"
  proof (cases "map_of (m_contexts r) x")
    case None
    then show ?thesis using assms(2) by (auto simp: iocp_watching_def)
  next
    case (Some q)
    have "q \<noteq> p" if "x \<noteq> h" using contexts_apart [OF assms(1,2), of x] Some that by auto
    then show ?thesis using Some assms(2,3) by (cases "x = h"; cases b) (simp_all add: iocp_watching_def)
  qed
qed

lemma iocp_remove_effect:
  assumes g: "iocp_good K keys (r, w)" and a: "iocp_remove K r h w = Inr (res, w')"
  shows "iocp_good K keys (r, w') \<and> iocp_watching (r, w') = (iocp_watching (r, w))(h := None) \<and> dom (ctxs w') = dom (ctxs w)"
proof -
  note D = iocp_goodD [OF g]
  have i: "iocp_inv keys (r, w')" "dom (ctxs w') = dom (ctxs w)" using iocp_remove_inv [OF D(1,3), of h] a by auto
  have "iocp_watching (r, w') = (iocp_watching (r, w))(h := None)"
  proof (cases "map_of (m_contexts r) h")
    case None
    then show ?thesis using a by (auto simp: iocp_remove_def iocp_watching_def fun_eq_iff)
  next
    case (Some p)
    then obtain c where c: "ctx_at w p = Inr c" using a by (auto simp: iocp_remove_def out_bind_Inr_iff)
    with Some a have "ctx_view w' = (ctx_view w)(p \<mapsto> (False, user_token c))"
      by (auto simp: iocp_remove_def out_bind_Inr_iff dest: cancel_poll_view)
    from iocp_watching_upd [OF D(5) Some this] show ?thesis by simp
  qed
  with g i show ?thesis by (simp add: iocp_good_def)
qed

lemma add_known_view:
  assumes a: "add_known K r h ev tok p w = Some (Inr (res, w'))"
  shows "ctx_view w' = ctx_view w \<and> isl res \<or> ctx_view w' = (ctx_view w)(p \<mapsto> (True, tok)) \<and> (\<exists>v. ctx_view w p = Some (False, v))"
proof -
  obtain c0 where c0: "ctx_at w p = Inr c0" using a by (auto simp: add_known_def split: sum.splits)
  have v0: "ctx_view w p = Some (active c0, user_token c0)" using c0 by (simp add: ctx_view_def ctx_at_def split: option.splits)
  show ?thesis
  proof (cases "active c0")
    case True
    then show ?thesis using a c0 by (auto simp: add_known_def)
  next
    case False
    obtain y where y: "drain_context K (m_iocp r) p w = Some y" using a c0 False by (auto simp: add_known_def bind_eq_Some_conv)
    obtain w1 where w1: "drain_context K (m_iocp r) p w = Some (Inr w1)" using a c0 False y by (cases y) (simp_all add: add_known_def)
    have v1: "ctx_view w1 = ctx_view w" using drain_context_view [OF w1] by blast
    obtain b k2 where k2: "resolve_base_handle K (kern w1) h = Some (b, k2)"
      using a c0 False w1 by (auto simp: add_known_def bind_eq_Some_conv)
    show ?thesis
    proof (cases "b = 0")
      case True
      then show ?thesis using a c0 False w1 k2 v1 by (auto simp: add_known_def)
    next
      case b: False
      let ?w2 = "w1\<lparr>kern := k2\<rparr>"
      obtain c1 where c1: "ctx_at ?w2 p = Inr c1" using a c0 False w1 k2 b by (auto simp: add_known_def out_bind_Inr_iff)
      obtain ok k3 where k3: "associate K k2 b (m_iocp r) p = (ok, k3)" by fastforce
      have v2: "(ctx_view w)(p \<mapsto> (active c1, user_token c1)) = ctx_view w" using ctx_view_same [OF c1] v1 by simp
      let ?w3 = "put_ctx p (c1\<lparr>base_handle := b\<rparr>) (?w2\<lparr>kern := k3\<rparr>)"
      let ?w4 = "put_ctx p (c1\<lparr>base_handle := b, interest := ev, user_token := tok, active := True\<rparr>) ?w3"
      have "w' = ?w3 \<and> isl res \<or> submit_poll K p ?w4 = Inr (res, w')"
        using a c0 False w1 k2 b c1 k3 by (auto simp: add_known_def Let_def split: if_splits)
      then show ?thesis
      proof
        assume "w' = ?w3 \<and> isl res"
        then show ?thesis using v1 v2 by simp
      next
        assume "submit_poll K p ?w4 = Inr (res, w')"
        from submit_poll_view [OF this] show ?thesis using v0 v1 False by simp
      qed
    qed
  qed
qed

lemma add_new_view:
  assumes a: "add_new K r h ev tok p w = Some (Inr (res, r', w'))"
  shows "r' = r \<and> ctx_view w' = ctx_view w \<and> isl res \<or>
         r' = r\<lparr>m_contexts := (h, p) # m_contexts r\<rparr> \<and> (\<exists>v. ctx_view w' = (ctx_view w)(p \<mapsto> (\<not> isl res, v)) \<and> (isl res \<or> v = tok))"
proof -
  obtain b k1 where k1: "resolve_base_handle K (kern w) h = Some (b, k1)" using a by (auto simp: add_new_def bind_eq_Some_conv)
  obtain ok k2 where k2: "associate K k1 b (m_iocp r) p = (ok, k2)" by fastforce
  show ?thesis
  proof (cases "b = 0 \<or> \<not> ok")
    case True
    then show ?thesis using a k1 k2 by (cases "b = 0") (auto simp: add_new_def)
  next
    case False
    let ?c = "\<lparr>in_buf = \<lparr>api_timeout = 0, api_number_of_handles = 0, api_exclusive = 0, api_handle = 0, api_events = 0, api_status = 0\<rparr>,
      user_token = tok, socket_handle = h, base_handle = b, interest = ev, active = True, pending = False\<rparr>"
    let ?w2 = "put_ctx p ?c (w\<lparr>kern := k2\<rparr>)" let ?r = "r\<lparr>m_contexts := (h, p) # m_contexts r\<rparr>"
    obtain out w1 where s: "submit_poll K p ?w2 = Inr (out, w1)"
      using a k1 k2 False by (auto simp: add_new_def Let_def out_bind_Inr_iff)
    have v1: "ctx_view w1 = (ctx_view w)(p \<mapsto> (True, tok))" using submit_poll_view [OF s] by simp
    show ?thesis
    proof (cases out)
      case (Inl msg)
      then obtain c1 where "w' = put_ctx p (c1\<lparr>active := False\<rparr>) w1" "res = Inl msg" "r' = ?r"
        using a k1 k2 False s by (auto simp: add_new_def Let_def out_bind_Inr_iff)
      then show ?thesis using v1 by auto
    next
      case (Inr x)
      then have "w' = w1" "res = Inr 0" "r' = ?r" using a k1 k2 False s by (auto simp: add_new_def Let_def)
      then show ?thesis using v1 by auto
    qed
  qed
qed

lemma iocp_watching_new:
  assumes "dom (ctxs w) = snd ` set (m_contexts r)" and "ctxs w p = None" and "map_of (m_contexts r) h = None"
    and "ctx_view w' = (ctx_view w)(p \<mapsto> (b, v))"
  shows "iocp_watching (r\<lparr>m_contexts := (h, p) # m_contexts r\<rparr>, w') = (iocp_watching (r, w))(h := (if b then Some v else None))"
proof (rule ext)
  fix x
  have "q \<noteq> p" if "map_of (m_contexts r) x = Some q" for q
    using map_of_SomeD [OF that] assms(1,2) by force
  then show "iocp_watching (r\<lparr>m_contexts := (h, p) # m_contexts r\<rparr>, w') x = ((iocp_watching (r, w))(h := (if b then Some v else None))) x"
    using assms(4) by (cases "map_of (m_contexts r) x"; cases b) (auto simp: iocp_watching_def)
qed

lemma iocp_add_effect:
  assumes g: "iocp_good K keys (r, w)" and p: "ctxs w p = None" and a: "iocp_add K r h ev tok p w = Some (Inr (res, r', w'))"
  shows "iocp_good K keys (r', w') \<and> updated (iocp_watching (r, w)) h tok (\<not> isl res) (iocp_watching (r', w')) \<and>
         (\<not> isl res \<longrightarrow> iocp_watching (r, w) h = None)"
proof -
  note D = iocp_goodD [OF g]
  have i: "iocp_inv keys (r', w')" using iocp_add_inv [OF D(1,3) p D(2) a] by simp
  show ?thesis
  proof (cases "map_of (m_contexts r) h")
    case None
    then have "add_new K r h ev tok p w = Some (Inr (res, r', w'))" using a by (simp add: iocp_add_def)
    then consider "r' = r" "ctx_view w' = ctx_view w" "isl res" | v where "r' = r\<lparr>m_contexts := (h, p) # m_contexts r\<rparr>"
        "ctx_view w' = (ctx_view w)(p \<mapsto> (\<not> isl res, v))" "isl res \<or> v = tok"
      using add_new_view by blast
    then show ?thesis
    proof cases
      case 1
      then show ?thesis using g i iocp_watching_view [of w' w r] by (simp add: iocp_good_def updated_def)
    next
      case (2 v)
      have "distinct (map fst (m_contexts r'))" using D(4) None 2(1) by (simp add: map_of_eq_None_iff)
      moreover have "iocp_watching (r, w) h = None" using None by (simp add: iocp_watching_def)
      ultimately show ?thesis
        using iocp_watching_new [OF D(6) p None 2(2)] 2(1,3) D i by (auto simp: iocp_good_def updated_def)
    qed
  next
    case (Some q)
    then obtain y where y: "add_known K r h ev tok q w = Some y" "Inr (res, r', w') = map_sum id (\<lambda>(res, w'). (res, r, w')) y"
      using a by (auto simp: iocp_add_def)
    then have k: "add_known K r h ev tok q w = Some (Inr (res, w'))" "r' = r" by (cases y; auto)+
    from add_known_view [OF k(1)] show ?thesis
    proof (elim disjE conjE exE)
      assume "ctx_view w' = ctx_view w" "isl res"
      then show ?thesis using g i k(2) iocp_watching_view [of w' w r] by (simp add: iocp_good_def updated_def)
    next
      fix v assume v: "ctx_view w' = (ctx_view w)(q \<mapsto> (True, tok))" "ctx_view w q = Some (False, v)"
      have "iocp_watching (r, w) h = None" using Some v(2) by (simp add: iocp_watching_def)
      then show ?thesis using iocp_watching_upd [OF D(5) Some v(1)] D i k(2) by (simp add: iocp_good_def updated_def)
    qed
  qed
qed

lemma iocp_modify_effect:
  assumes g: "iocp_good K keys (r, w)" and p: "ctxs w p = None" and a: "iocp_modify K r h ev tok p w = Some (Inr (res, r', w'))"
  shows "iocp_good K keys (r', w') \<and> updated (iocp_watching (r, w)) h tok (\<not> isl res) (iocp_watching (r', w'))"
proof -
  note D = iocp_goodD [OF g]
  obtain out w1 where w1: "iocp_remove K r h w = Inr (out, w1)" using iocp_remove_inv [OF D(1,3), of h] by blast
  note R = iocp_remove_effect [OF g w1]
  show ?thesis
  proof (cases out)
    case (Inl msg)
    then show ?thesis using a w1 R by (auto simp: iocp_modify_def updated_def)
  next
    case (Inr x)
    have "ctxs w1 p = None" using R p by (metis domIff)
    from iocp_add_effect [OF _ this, of K keys r h ev tok res r' w'] R a w1 Inr show ?thesis by (auto simp: iocp_modify_def updated_def)
  qed
qed

lemma iocp_wait_effect:
  assumes g: "iocp_good K keys (r, w)" and a: "iocp_wait K r room t w = Inr (res, w')"
  shows "iocp_good K keys (r, w') \<and> iocp_watching (r, w') = iocp_watching (r, w) \<and>
         (\<forall>trs. res = Inr trs \<longrightarrow> tr_user_token ` set trs \<subseteq> ran (iocp_watching (r, w)))"
proof -
  note D = iocp_goodD [OF g]
  have i: "iocp_inv keys (r, w')" using iocp_wait_inv [OF D(1,3), of room t] a by simp
  obtain ok es k1 where k1: "get_completions K (kern w) (m_iocp r) (if room < MAX_EVENTS_PER_WAIT then room else MAX_EVENTS_PER_WAIT)
      (iocp_timeout t) = (ok, es, k1)" by (metis prod_cases3)
  have v: "ctx_view w' = ctx_view w \<and> (\<forall>trs. res = Inr trs \<longrightarrow> (\<forall>x \<in> set trs. \<exists>p. ctx_view w p = Some (True, tr_user_token x)))"
    using a k1 completion_loop_view [of K room es "w\<lparr>kern := k1\<rparr>"]
    by (auto simp: iocp_wait_def Let_def out_bind_Inr_iff split: if_splits)
  have "tok \<in> ran (iocp_watching (r, w))" if t: "ctx_view w p = Some (True, tok)" for p tok
  proof -
    have "p \<in> snd ` set (m_contexts r)" using t D(6) by (auto simp: ctx_view_def)
    then obtain h where "(h, p) \<in> set (m_contexts r)" by auto
    then have "map_of (m_contexts r) h = Some p" by (rule map_of_is_SomeI [OF D(4)])
    then have "iocp_watching (r, w) h = Some tok" using t by (simp add: iocp_watching_def)
    then show ?thesis by (rule ranI)
  qed
  then have "tr_user_token ` set trs \<subseteq> ran (iocp_watching (r, w))" if "res = Inr trs" for trs using v that by blast
  moreover have "iocp_watching (r, w') = iocp_watching (r, w)" using v by (intro iocp_watching_view) blast
  ultimately show ?thesis using g i by (simp add: iocp_good_def)
qed

lemma iocp_wake_effect:
  assumes g: "iocp_good K keys (r, w)"
  shows "iocp_good K keys (r, w\<lparr>kern := iocp_wake K r (kern w)\<rparr>) \<and> iocp_watching (r, w\<lparr>kern := iocp_wake K r (kern w)\<rparr>) = iocp_watching (r, w)"
  using g iocp_wake_inv [OF iocp_goodD(1) [OF g] iocp_goodD(3) [OF g]] iocp_watching_view [of "w\<lparr>kern := iocp_wake K r (kern w)\<rparr>" w r]
  by (simp add: iocp_good_def)

interpretation completion_port: readiness_backend "iocp_call K" "iocp_good K keys" iocp_watching for K keys
proof unfold_locales
  fix c s s' assume "iocp_good K keys s" and "iocp_call K c s s'"
  moreover obtain r w where s: "s = (r, w)" by (cases s)
  moreover obtain r' w' where s': "s' = (r', w')" by (cases s')
  ultimately have g: "iocp_good K keys (r, w)" and c: "iocp_call K c (r, w) (r', w')" by simp_all
  show "iocp_good K keys s'"
    using c iocp_add_effect [OF g] iocp_modify_effect [OF g] iocp_remove_effect [OF g] iocp_wait_effect [OF g] iocp_wake_effect [OF g]
    unfolding s' by (cases c) auto
next
  fix h tok ok s s' assume "iocp_good K keys s" and "iocp_call K (C_Add h tok ok) s s'"
  then obtain r w r' w' ev p res where s: "s = (r, w)" "s' = (r', w')" and g: "iocp_good K keys (r, w)" and
    a: "iocp_add K r h ev tok p w = Some (Inr (res, r', w'))" "ctxs w p = None" "ok = (\<not> isl res)" by (cases s; cases s') (simp; blast)
  from iocp_add_effect [OF g a(2,1)] show "updated (iocp_watching s) h tok ok (iocp_watching s')" unfolding s a(3) by blast
next
  fix h tok s s' assume "iocp_good K keys s" and "iocp_call K (C_Add h tok True) s s'"
  then obtain r w r' w' ev p res where s: "s = (r, w)" "s' = (r', w')" and g: "iocp_good K keys (r, w)" and
    a: "iocp_add K r h ev tok p w = Some (Inr (res, r', w'))" "ctxs w p = None" "\<not> isl res" by (cases s; cases s') auto
  from iocp_add_effect [OF g a(2,1)] a(3) show "iocp_watching s h = None" unfolding s by blast
next
  fix h tok ok s s' assume "iocp_good K keys s" and "iocp_call K (C_Modify h tok ok) s s'"
  then obtain r w r' w' ev p res where s: "s = (r, w)" "s' = (r', w')" and g: "iocp_good K keys (r, w)" and
    a: "iocp_modify K r h ev tok p w = Some (Inr (res, r', w'))" "ctxs w p = None" "ok = (\<not> isl res)" by (cases s; cases s') (simp; blast)
  from iocp_modify_effect [OF g a(2,1)] show "updated (iocp_watching s) h tok ok (iocp_watching s')" unfolding s a(3) by blast
next
  fix h ok s s' assume "iocp_good K keys s" and "iocp_call K (C_Remove h ok) s s'"
  then obtain r w w' res where s: "s = (r, w)" "s' = (r, w')" and g: "iocp_good K keys (r, w)" and
    a: "iocp_remove K r h w = Inr (res, w')" by (cases s; cases s') auto
  from iocp_remove_effect [OF g a] show "iocp_watching s' = (iocp_watching s)(h := None)" unfolding s by blast
next
  fix ts s s' assume "iocp_good K keys s" and "iocp_call K (C_Wait ts) s s'"
  then obtain r w w' room t res where s: "s = (r, w)" "s' = (r, w')" and g: "iocp_good K keys (r, w)" and
    a: "iocp_wait K r room t w = Inr (res, w')" "ts = (case res of Inl _ \<Rightarrow> [] | Inr trs \<Rightarrow> map tr_user_token trs)" by (cases s; cases s') auto
  from iocp_wait_effect [OF g a(1)] show "iocp_watching s' = iocp_watching s" "set ts \<subseteq> ran (iocp_watching s)"
    unfolding s a(2) by (simp, cases res, simp_all)
next
  fix s s' assume "iocp_good K keys s" and "iocp_call K C_Wake s s'"
  then show "iocp_watching s' = iocp_watching s" using iocp_wake_effect by (cases s) auto
qed

section \<open>The logs of both backends\<close>

text \<open>
  C16: on Linux, from \<^verbatim>\<open>Reactor::create\<close> on and under any order of \<^verbatim>\<open>add\<close>, \<^verbatim>\<open>modify\<close>, \<^verbatim>\<open>remove\<close>, \<^verbatim>\<open>wait\<close> and \<^verbatim>\<open>wake\<close>, a wait reports only tokens
  that some handle may be registered with at that time: never the token of a removed or replaced registration, and never the
  reactor's own wake-up token.
\<close>

theorem epoll_reports_registered:
  assumes "epoll_contract K il" and "mod_contract K il" and "reactor_create K k = (Inr r, k0)" and "backend_run (epoll_call K r) k0 cs k'"
  shows "log_ok cs"
proof -
  note i = reactor_create_interest(2) [OF assms(1,3)]
  show ?thesis by (rule epoll.run_reports [OF assms(4), of il]) (use assms(1,2) i in \<open>simp_all add: epoll_good_def epoll_watching_def\<close>)
qed

text \<open>
  C15: on Windows the same holds: over a completion port, whose completions of a cancelled or superseded poll still arrive later, a wait
  reports only tokens that some handle may be registered with at that time.
\<close>

theorem iocp_reports_registered:
  assumes "port_contract K keys" and "iocp_create K k = (Inr r, k0)" and "backend_run (iocp_call K) (r, \<lparr>ctxs = Map.empty, kern = k0\<rparr>) cs s"
  shows "log_ok cs"
proof -
  have "m_contexts r = []" using assms(2) by (auto simp: iocp_create_def Let_def split: if_splits prod.splits)
  then show ?thesis
    using completion_port.run_reports [OF assms(3), of keys] iocp_create_inv [OF assms(1,2)] assms(1)
    by (simp add: iocp_good_def iocp_watching_def [abs_def])
qed

text \<open>Runs on concrete kernels: a descriptor is registered and reported, then removed and no longer reported.\<close>

abbreviation add_report_remove :: "'h::numeral reactor_call list" where
  "add_report_remove \<equiv> [C_Wait [], C_Remove 5 True, C_Wait [42], C_Add 5 42 True]"

lemma poll_kernel_mod: "mod_contract poll_kernel id"
  by (simp add: mod_contract_def poll_kernel_def)

theorem epoll_reports_registered_witness:
  "\<exists>k. backend_run (epoll_call poll_kernel \<lparr>m_epoll_fd = 3, m_wake_fd = 4\<rparr>) ((\<lambda>_. Map.empty)(3 := [4 \<mapsto> WAKE_TOKEN])) add_report_remove k \<and>
     log_ok (add_report_remove :: fd reactor_call list)"
proof -
  let ?r = "\<lparr>m_epoll_fd = 3, m_wake_fd = 4\<rparr>" let ?k = "(\<lambda>_. Map.empty)(3 := [4 \<mapsto> WAKE_TOKEN]) :: fd \<Rightarrow> fd \<Rightarrow> u64 option"
  let ?k1 = "?k(3 := [4 \<mapsto> WAKE_TOKEN, 5 \<mapsto> 42])"
  have c: "reactor_create poll_kernel (\<lambda>_. Map.empty) = (Inr ?r, ?k)" by (simp add: reactor_create_def poll_kernel_def)
  have "epoll_call poll_kernel ?r (C_Add 5 42 True) ?k ?k1" by (simp add: reactor_add_def poll_kernel_def)
  moreover have "reactor_wait poll_kernel ?k1 ?r 1 0 = Inr (Inr [\<lparr>tr_events = from_epoll EPOLLIN, tr_user_token = 42\<rparr>], ?k1)"
    by (simp add: reactor_wait_def poll_kernel_def WAKE_TOKEN_def MAX_EVENTS_PER_WAIT_def)
  then have "epoll_call poll_kernel ?r (C_Wait [42]) ?k1 ?k1" by (auto intro!: exI)
  moreover have "epoll_call poll_kernel ?r (C_Remove 5 True) ?k1 ?k" by (simp add: reactor_remove_def poll_kernel_def)
  moreover have "reactor_wait poll_kernel ?k ?r 1 0 = Inr (Inr [], ?k)" by (simp add: reactor_wait_def poll_kernel_def)
  then have "epoll_call poll_kernel ?r (C_Wait []) ?k ?k" by (auto intro!: exI)
  ultimately have "backend_run (epoll_call poll_kernel ?r) ?k add_report_remove ?k" by (meson backend_run.intros)
  with epoll_reports_registered [OF poll_kernel_contract poll_kernel_mod c] show ?thesis by blast
qed

theorem iocp_reports_registered_witness:
  "\<exists>s. backend_run (iocp_call queue_api) (no_socket, \<lparr>ctxs = Map.empty, kern = ({}, [])\<rparr>) add_report_remove s \<and>
     log_ok (add_report_remove :: u64 reactor_call list)"
proof -
  let ?w1 = "\<lparr>ctxs = [100 \<mapsto> one_context True False 5], kern = ({100}, [])\<rparr> :: (u64 set \<times> overlapped_entry list) win"
  let ?w2 = "\<lparr>ctxs = [100 \<mapsto> one_context False False 5], kern = ({100}, [])\<rparr> :: (u64 set \<times> overlapped_entry list) win"
  have "iocp_call queue_api (C_Add 5 42 True) (no_socket, \<lparr>ctxs = Map.empty, kern = ({}, [])\<rparr>) (one_socket, armed_win)"
    using one_socket_add by (auto intro!: exI simp: WAKE_KEY_def)
  moreover have "iocp_wait queue_api one_socket 1 0 armed_win =
      Inr (Inr [\<lparr>tr_events = from_afd AFD_POLL_RECEIVE, tr_user_token = 42\<rparr>], ?w1)"
    by (simp add: iocp_wait_def queue_api_def ctx_at_def put_ctx_def one_context_def WAKE_KEY_def kStatusCancelled_def MAX_EVENTS_PER_WAIT_def Let_def)
  then have "iocp_call queue_api (C_Wait [42]) (one_socket, armed_win) (one_socket, ?w1)" by (auto intro!: exI)
  moreover have "iocp_remove queue_api one_socket 5 ?w1 = Inr (Inr 0, ?w2)"
    by (simp add: iocp_remove_def one_socket_def ctx_at_def put_ctx_def cancel_poll_def one_context_def)
  then have "iocp_call queue_api (C_Remove 5 True) (one_socket, ?w1) (one_socket, ?w2)" by simp
  moreover have "iocp_wait queue_api one_socket 1 0 ?w2 = Inr (Inr [], ?w2)"
    by (simp add: iocp_wait_def queue_api_def MAX_EVENTS_PER_WAIT_def Let_def)
  then have "iocp_call queue_api (C_Wait []) (one_socket, ?w2) (one_socket, ?w2)" by (auto intro!: exI)
  ultimately have "backend_run (iocp_call queue_api) (no_socket, \<lparr>ctxs = Map.empty, kern = ({}, [])\<rparr>) add_report_remove (one_socket, ?w2)"
    by (meson backend_run.intros)
  with iocp_reports_registered [OF queue_api_contract queue_api_create] show ?thesis by blast
qed

end
