(* ===== verification/Spec2Isabelle.thy ===== *)
theory Spec2Isabelle
  imports Arena Pool Allocators Generational Spsc_Queue Serialization Result_Model Stop_Token Fixed_String Job_System Executor_Runs Coroutine_Lifetimes Iocp_Runs Timer_Model
  Sleep Clock Log_Model Containers Maps Guid Async_Runtime Reactor_Backends
begin

text \<open>
  \<^bold>\<open>A verification of sap_core.\<close> The library under \<^verbatim>\<open>src/\<close> is a C++20 runtime in layers: arenas, allocators and containers
  (\<^verbatim>\<open>include/sap_core/stl\<close>); a result type, strings, a byte serializer and a lock-free queue; a thread pool and timers; a readiness
  reactor with a Linux and a Windows backend (\<^verbatim>\<open>include/sap_core/io\<close>, \<^verbatim>\<open>src/io\<close>); and coroutine tasks with a single-threaded
  executor, stop tokens and sleeping on top of the reactor (\<^verbatim>\<open>include/sap_core/async\<close>, \<^verbatim>\<open>src/async\<close>). Each theory below translates
  one part, in the order of its source, and proves what the part promises; this theory imports them all.

  \<^bold>\<open>How the code is translated.\<close> A machine integer is a \<^typ>\<open>64 word\<close> (or narrower), an address is a 64-bit word or, where only
  identity matters, a natural number; sums and products wrap as compiled. A class is a record, its members are functions from
  the record (and the memory or kernel they use) to a result and the changed state. A call that may stop abnormally returns
  \<^typ>\<open>cpp_error + 'a\<close>: a failed assertion, \<^verbatim>\<open>std::bad_alloc\<close>, or an execution the language leaves undefined (a null or dead
  object, an access out of bounds, a signed overflow). So "nothing undefined happens" is a statement about the translated code and
  not an assumption. Loops that may not end are \<^theory_text>\<open>partial_function (option)\<close>, and \<^term>\<open>None\<close> is not returning; threads are step
  relations over the atomic accesses of the source. The operating system is a parameter: a record of system calls with a named
  contract (for instance \<open>epoll_contract\<close>), and each theorem that relies on one comes with a concrete kernel that satisfies it.

  \<^bold>\<open>The theories.\<close>
  \<^item> \<open>Sap_Prelude\<close>: words, outcomes and list facts (\<^verbatim>\<open>types.h\<close>).
  \<^item> \<open>Arena\<close>, \<open>Pool\<close> (\<^verbatim>\<open>stl/arena.h\<close>, \<^verbatim>\<open>stl/stack_allocator.h\<close>): \<open>align_up\<close>, the bump arenas and the block pool with its free list in an
    explicit memory. The contract of a bump arena is the locale \<open>bump_arena\<close>, interpreted for both arenas: the blocks of a run of
    requests that do not wrap around are aligned, inside the memory and pairwise disjoint. Also: what an overflowing request and alignment zero do.
  \<^item> \<open>Allocators\<close> (\<^verbatim>\<open>stl/allocator.h\<close>, \<^verbatim>\<open>stl/stack_allocator.h\<close>, \<^verbatim>\<open>stl/unique_ptr.h\<close>): the adapters, where they guard the size
    computation and where not, and owning pointers into an arena.
  \<^item> \<open>Containers\<close>, \<open>Maps\<close>, \<open>Basic_String\<close> (\<^verbatim>\<open>stl/vector.h\<close>, \<^verbatim>\<open>stl/map.h\<close>, \<^verbatim>\<open>stl/unordered_map.h\<close>, \<^verbatim>\<open>stl/string.h\<close>): vectors as blocks
    of an arena whose elements are objects at addresses. What a container needs of an allocator is the locale
    \<open>container_allocator\<close>, proved for linear and stack allocators through \<open>bump_arena\<close>; in it programs of vectors refine
    programs of lists. Ordered and hash maps share the locale \<open>keyed_container\<close>; what they do with their entries is that of the standard
    containers they inherit from, the code of the library being their constructors, assignments and string keys.
  \<^item> \<open>Generational\<close> (\<^verbatim>\<open>stl/generational.h\<close>): handles with generations (locale \<open>handle_allocator\<close>), the vector over them, its scans.
  \<^item> \<open>Result_Model\<close>, \<open>Fixed_String\<close> (\<^verbatim>\<open>stl/result.h\<close>, \<^verbatim>\<open>stl/fixed_string.h\<close>): the tagged union with the lifetimes of its members
    refines a sum type, and what an exception leaves behind is stated; the inline string with its buffer refines plain text with a
    capacity, for views that are objects of their own and append counts that do not wrap around.
  \<^item> \<open>Spsc_Queue\<close>, \<open>Job_System\<close> (\<^verbatim>\<open>stl/spsc_queue.h\<close>, \<^verbatim>\<open>job_system.cpp\<close>): the ring buffer alone (locale \<open>bounded_fifo\<close>) and under all
    interleavings of two threads with stale acquire loads; the thread pool over queues that take these very steps, so that the accesses inside the
    queue calls of submitter and workers interleave as well.
  \<^item> \<open>Serialization\<close> (\<^verbatim>\<open>serialization.cpp\<close>): writer and reader on hosts of both byte orders, round trip and errors.
  \<^item> \<open>Stop_Token\<close> (\<^verbatim>\<open>async/stop_token.h\<close>): the intrusive callback list in an explicit memory.
  \<^item> \<open>Reactor\<close>, \<open>Iocp_Reactor\<close>, \<open>Iocp_Runs\<close> (\<^verbatim>\<open>io/epoll_reactor.cpp\<close>, \<^verbatim>\<open>io/iocp_reactor.cpp\<close>): the backends over their system calls, what
    a wait reports, ownership of descriptors and of poll contexts.
  \<^item> \<open>Reactor_Backends\<close> (\<^verbatim>\<open>io/reactor.h\<close>): what a client of \<^verbatim>\<open>Reactor\<close> may rely on, whatever the backend, is the locale
    \<open>readiness_backend\<close>: which token each handle may be registered with after a log of calls, and that a wait reports no other. It is
    interpreted for epoll and for completion ports.
  \<^item> \<open>Executor\<close>, \<open>Executor_Runs\<close> (\<^verbatim>\<open>async/executor.h\<close>, \<^verbatim>\<open>executor.cpp\<close>): awaiters, ready queue and run loop over the Linux reactor and
    the stop list; invariants of all states reachable by programs that await each awaiter once, cancellation, return of the loop; and what awaiting an
    awaiter twice does, with and without a stop token.
  \<^item> \<open>Coroutines\<close>, \<open>Coroutine_Lifetimes\<close> (\<^verbatim>\<open>async/task.h\<close>, \<^verbatim>\<open>spawn.h\<close>, \<^verbatim>\<open>sync_wait.h\<close>, \<^verbatim>\<open>when_all.h\<close>): frames in a heap, symmetric
    transfer as a loop; results are those of direct style, every frame is freed exactly once, and \<^verbatim>\<open>when_all\<close> starts no task after the first
    that fails.
  \<^item> \<open>Coroutine_Slices\<close>, \<open>Async_Runtime\<close>: the coroutines on the executor. \<open>Coroutine_Slices\<close> describes the heap between two
    resumptions (a runner, its task and the tower of temporaries down to the suspended one); \<open>Async_Runtime\<close> puts the heap beside the
    kernel, makes an awaiter at each suspension and runs \<^verbatim>\<open>spawn\<close>, \<^verbatim>\<open>run\<close> and \<^verbatim>\<open>sync_wait\<close> over \<open>Executor\<close>: all spawned tasks complete
    with the results of direct style, nothing is left behind, with or without a stop request.
  \<^item> \<open>Sleep\<close> (\<^verbatim>\<open>async/sleep_linux.cpp\<close>, \<^verbatim>\<open>sleep_windows.cpp\<close>): the coroutine split at its suspension; the Windows one over a contract
    that tells apart timers that are set, callbacks that may still run and sockets they write to, with the result of its awaiter as an argument.
  \<^item> \<open>Timer_Model\<close> (\<^verbatim>\<open>timer.cpp\<close>), \<open>Clock\<close> (\<^verbatim>\<open>clock.h\<close>, \<^verbatim>\<open>posix_clock.cpp\<close>,
    \<^verbatim>\<open>windows_clock.cpp\<close>, \<^verbatim>\<open>timestamp.h\<close>), \<open>Log_Model\<close> (\<^verbatim>\<open>log.h\<close>), \<open>Guid\<close> (\<^verbatim>\<open>guid.cpp\<close>).

  \<^bold>\<open>How the parts meet.\<close> \<open>Job_System\<close> is built on the queue of \<open>Spsc_Queue\<close>, \<open>Pool\<close> and \<open>Allocators\<close> on \<open>Arena\<close>, \<open>Containers\<close> on the
  adapters, \<open>Executor\<close> on \<open>Reactor\<close> and \<open>Stop_Token\<close>, \<open>Sleep\<close> on \<open>Executor\<close>, \<open>Async_Runtime\<close> on \<open>Executor_Runs\<close> and
  \<open>Coroutine_Slices\<close>, \<open>Reactor_Backends\<close> on both reactors. A client part uses the lemmas of the part below,
  never a second model of it.

  \<^bold>\<open>Bounds and fuel.\<close> The only fuel is that of \<open>destroy_tree\<close> (destruction of a frame and of the tasks it owns), which is the number
  of frames ever made; a frame owns only frames that are strictly older or strictly younger along a chain, so it suffices in every
  theorem that speaks of destruction. In \<open>Async_Runtime\<close> the measure \<open>patience\<close> bounds how often a wait may end by a signal or a wake-up before it reports a
  watched descriptor. Hypotheses on sizes are those of the code: requests whose end is an address, fewer than
  \<open>2 ^ 32\<close> generational slots, lengths on the wire below \<open>2 ^ 63\<close>, vectors below \<open>max_size()\<close> in the lower half of the address
  space. What the code does outside them is stated by theorems of its own where it is wrong (oversized requests, wrapping
  lengths and counters, constructors that throw, awaiters awaited twice).

  \<^bold>\<open>Not modelled.\<close> The headers of \<^verbatim>\<open>stl/\<close> that only re-export names of \<^verbatim>\<open>std\<close>, and the forwarding overloads of \<^verbatim>\<open>stl/shared_ptr.h\<close>; the
  visibility macros and the pause hint of \<^verbatim>\<open>platform.h\<close>; the iterators of the generational vector; the node storage of maps; the pool
  pointer shared by copies of a \<^verbatim>\<open>pool_allocator\<close> inside containers; the durations for which timers and back-off loops wait; memory
  orders weaker than the acquire and release pairs the sources use; the executor over the Windows backend, whose calls it makes
  are those of \<open>Reactor_Backends\<close>; in \<open>Async_Runtime\<close>, bodies that look at the result of an awaiter or own an executor of their own;
  benchmarks and tests. Deleted members and forward
  declarations carry no behaviour.
\<close>

end
